(* ===== verification/Prelude.thy ===== *)
theory Prelude
  imports Main "HOL-Library.Word"
begin

text \<open>
  The vocabulary the component theories share: the machine integer types of the Rust code, the
  \<open>Result\<close> type with the question-mark operator, the checked and saturating integer operations of the
  Rust standard library, and three interfaces (locales) that several components implement:

  \<^item> \<open>issuing_machine\<close>: a machine whose operations hand out values that are never reused
    (identity issuer, stream cursor);
  \<^item> \<open>latching_machine\<close>: a machine whose terminal outcome, once set, is never replaced
    (operations, capture streams, watcher queries);
  \<^item> \<open>staged_machine\<close>: a machine whose lifecycle stage never moves backwards
    (input admission, capture streams).

  Each is interpreted on the model's own definitions in the theory of the component that provides it.
\<close>

section \<open>Integers\<close>

type_synonym u8 = "8 word"
type_synonym u16 = "16 word"
type_synonym u32 = "32 word"
type_synonym u64 = "64 word"
type_synonym i16 = "16 word"

text \<open>\<open>checked_add\<close> of an unsigned integer: \<open>None\<close> on overflow.\<close>

definition checked_add :: "'w::len word \<Rightarrow> 'w word \<Rightarrow> 'w word option" where
  "checked_add a b = (if unat a + unat b < 2 ^ LENGTH('w) then Some (a + b) else None)"

text \<open>\<open>saturating_add\<close> of an unsigned integer.\<close>

definition saturating_add :: "'w::len word \<Rightarrow> 'w word \<Rightarrow> 'w word" where
  "saturating_add a b = (if unat a + unat b < 2 ^ LENGTH('w) then a + b else - 1)"

named_theorems word_facts \<open>checked and saturating integer operations, read as natural numbers\<close>

lemma checked_add_Some_unat [word_facts]:
  fixes a b c :: "'w::len word"
  assumes "checked_add a b = Some c"
  shows "unat c = unat a + unat b"
  using assms by (auto simp: checked_add_def unat_word_ariths split: if_splits)

lemma checked_add_None_iff [word_facts]:
  fixes a b :: "'w::len word"
  shows "checked_add a b = None \<longleftrightarrow> 2 ^ LENGTH('w) \<le> unat a + unat b"
  by (auto simp: checked_add_def)

lemma checked_add_zero [simp]: "checked_add a 0 = Some a"
  by (simp add: checked_add_def)

lemma unat_lt_2p64 [simp]: "unat (x :: u64) < 18446744073709551616"
  using unsigned_less [of x] by simp

lemma unat_le_2p64 [simp]: "unat (x :: u64) \<le> 18446744073709551615"
  using unat_lt_2p64 [of x] by linarith

lemma unat_saturating_add [word_facts]:
  fixes a b :: "'w::len word"
  shows "unat (saturating_add a b) = min (unat a + unat b) (2 ^ LENGTH('w) - 1)"
proof -
  have "unat (- 1 :: 'w word) = 2 ^ LENGTH('w) - 1"
    by (simp add: unsigned_minus_1_eq_mask mask_eq_exp_minus_1)
  then show ?thesis
    by (auto simp: saturating_add_def unat_word_ariths)
qed

section \<open>Results\<close>

text \<open>
  \<open>Result<T, E>\<close> is the sum \<open>'e + 'a\<close>, \<open>Inl\<close> the error. \<open>and_then\<close> is the \<open>?\<close> operator (and
  \<open>Result::and_then\<close>), \<open>ok_or\<close> and \<open>map_err\<close> the standard conversions.
\<close>

definition and_then :: "'e + 'a \<Rightarrow> ('a \<Rightarrow> 'e + 'b) \<Rightarrow> 'e + 'b" where
  "and_then r f = (case r of Inl e \<Rightarrow> Inl e | Inr x \<Rightarrow> f x)"

definition ok_or :: "'e \<Rightarrow> 'a option \<Rightarrow> 'e + 'a" where
  "ok_or e r = (case r of None \<Rightarrow> Inl e | Some x \<Rightarrow> Inr x)"

definition map_err :: "('e \<Rightarrow> 'f) \<Rightarrow> 'e + 'a \<Rightarrow> 'f + 'a" where
  "map_err g r = (case r of Inl e \<Rightarrow> Inl (g e) | Inr x \<Rightarrow> Inr x)"

named_theorems result_simps \<open>when a composed result is an error and when it is a value\<close>

lemma and_then_simps [simp]:
  "and_then (Inl e) f = Inl e"
  "and_then (Inr x) f = f x"
  by (simp_all add: and_then_def)

lemma and_then_cong [fundef_cong]:
  "r = r' \<Longrightarrow> (\<And>x. r' = Inr x \<Longrightarrow> f x = f' x) \<Longrightarrow> and_then r f = and_then r' f'"
  by (auto simp: and_then_def split: sum.splits)

lemma and_then_Inr_iff [result_simps]:
  "and_then r f = Inr y \<longleftrightarrow> (\<exists>x. r = Inr x \<and> f x = Inr y)"
  by (auto simp: and_then_def split: sum.splits)

lemma and_then_Inl_iff [result_simps]:
  "and_then r f = Inl e \<longleftrightarrow> r = Inl e \<or> (\<exists>x. r = Inr x \<and> f x = Inl e)"
  by (auto simp: and_then_def split: sum.splits)

lemma and_then_InrE:
  assumes "and_then r f = Inr y"
  obtains x where "r = Inr x" "f x = Inr y"
  using assms by (auto simp: and_then_Inr_iff)

lemma and_then_InlE:
  assumes "and_then r f = Inl e"
  obtains "r = Inl e" | x where "r = Inr x" "f x = Inl e"
  using assms by (auto simp: and_then_Inl_iff)

lemma ok_or_simps [simp]:
  "ok_or e None = Inl e"
  "ok_or e (Some x) = Inr x"
  by (simp_all add: ok_or_def)

lemma ok_or_Inr_iff [result_simps]: "ok_or e r = Inr x \<longleftrightarrow> r = Some x"
  by (auto simp: ok_or_def split: option.splits)

lemma ok_or_Inl_iff [result_simps]: "ok_or e r = Inl e' \<longleftrightarrow> r = None \<and> e' = e"
  by (auto simp: ok_or_def split: option.splits)

lemma map_err_simps [simp]:
  "map_err g (Inl e) = Inl (g e)"
  "map_err g (Inr x) = Inr x"
  by (simp_all add: map_err_def)

lemma map_err_Inr_iff [result_simps]: "map_err g r = Inr x \<longleftrightarrow> r = Inr x"
  by (auto simp: map_err_def split: sum.splits)

lemma map_err_Inl_iff [result_simps]: "map_err g r = Inl e \<longleftrightarrow> (\<exists>e'. r = Inl e' \<and> e = g e')"
  by (auto simp: map_err_def split: sum.splits)

section \<open>Counting threads\<close>

text \<open>How the number of threads at places satisfying \<open>P\<close> changes when one thread moves.\<close>

lemma card_update:
  assumes "finite {t. P (f t)}"
  shows "card {t. P ((f(t0 := x)) t)} + (if P (f t0) then 1 else 0)
       = card {t. P (f t)} + (if P x then 1 else 0)"
proof -
  have eq: "{t. P ((f(t0 := x)) t)} = ({t. P (f t)} - {t0}) \<union> (if P x then {t0} else {})"
    by auto
  have "card ({t. P (f t)} - {t0}) + (if P (f t0) then 1 else 0) = card {t. P (f t)}"
    using assms card.remove [of "{t. P (f t)}" t0] by auto
  moreover have "card (({t. P (f t)} - {t0}) \<union> (if P x then {t0} else {}))
                 = card ({t. P (f t)} - {t0}) + (if P x then 1 else 0)"
    using assms by (auto simp: card.insert_remove)
  ultimately show ?thesis unfolding eq by simp
qed

section \<open>Interfaces shared by several components\<close>

text \<open>
  A machine with operations that may hand out a value. A run applies the operations in order and
  collects what they handed out.
\<close>

fun run_issue :: "('op \<Rightarrow> 's \<Rightarrow> 'v option \<times> 's) \<Rightarrow> 'op list \<Rightarrow> 's \<Rightarrow> 'v list \<times> 's" where
  "run_issue stp [] s = ([], s)"
| "run_issue stp (x # xs) s =
     (let (r, s') = stp x s; (vs, s'') = run_issue stp xs s'
      in (case r of None \<Rightarrow> vs | Some v \<Rightarrow> v # vs, s''))"

locale issuing_machine =
  fixes stp :: "'op \<Rightarrow> 's \<Rightarrow> 'v option \<times> 's"
    and key :: "'v \<Rightarrow> nat"
    and mark :: "'s \<Rightarrow> nat"
  assumes mark_mono: "stp x s = (r, s') \<Longrightarrow> mark s \<le> mark s'"
    and issued_fresh: "stp x s = (Some v, s') \<Longrightarrow> mark s \<le> key v \<and> key v < mark s'"
begin

lemma run_issue_mark: "run_issue stp xs s = (vs, s') \<Longrightarrow> mark s \<le> mark s'"
proof (induction xs arbitrary: s vs s')
  case Nil
  then show ?case by simp
next
  case (Cons x xs)
  then show ?case
    by (auto split: prod.splits dest!: mark_mono intro: order_trans)
qed

lemma run_issue_above:
  "run_issue stp xs s = (vs, s') \<Longrightarrow> v \<in> set vs \<Longrightarrow> mark s \<le> key v \<and> key v < mark s'"
proof (induction xs arbitrary: s vs s')
  case Nil
  then show ?case by simp
next
  case (Cons x xs)
  obtain r t where step: "stp x s = (r, t)" by (cases "stp x s")
  obtain ws u where rest: "run_issue stp xs t = (ws, u)" by (cases "run_issue stp xs t")
  from Cons.prems(1) step rest have eqs: "s' = u" "vs = (case r of None \<Rightarrow> ws | Some w \<Rightarrow> w # ws)"
    by auto
  show ?case
  proof (cases "v \<in> set ws")
    case True
    with Cons.IH [OF rest] mark_mono [OF step] eqs show ?thesis by fastforce
  next
    case False
    with Cons.prems(2) eqs have "r = Some v" by (auto split: option.splits)
    with issued_fresh [of x s v t] step run_issue_mark [OF rest] eqs show ?thesis by fastforce
  qed
qed

lemma run_issue_increasing:
  "run_issue stp xs s = (vs, s') \<Longrightarrow> sorted_wrt (\<lambda>v w. key v < key w) vs"
proof (induction xs arbitrary: s vs s')
  case Nil
  then show ?case by simp
next
  case (Cons x xs)
  obtain r t where step: "stp x s = (r, t)" by (cases "stp x s")
  obtain ws u where rest: "run_issue stp xs t = (ws, u)" by (cases "run_issue stp xs t")
  have above: "key v < key w" if "r = Some v" "w \<in> set ws" for v w
    using issued_fresh [of x s v t] step run_issue_above [OF rest that(2)] that(1) by fastforce
  from Cons.prems step rest Cons.IH [OF rest] above show ?case
    by (auto split: option.splits)
qed

lemma run_issue_distinct: "run_issue stp xs s = (vs, s') \<Longrightarrow> distinct vs"
proof -
  assume "run_issue stp xs s = (vs, s')"
  then have "sorted_wrt (\<lambda>v w. key v < key w) vs" by (rule run_issue_increasing)
  then show ?thesis by (induction vs) auto
qed

end

text \<open>
  A machine with a terminal outcome that, once set, no step replaces.
\<close>

locale latching_machine =
  fixes stp :: "'ev \<Rightarrow> 's \<Rightarrow> 's"
    and outcome :: "'s \<Rightarrow> 'o option"
  assumes latched: "outcome s = Some t \<Longrightarrow> outcome (stp x s) = Some t"
begin

lemma latched_run: "outcome s = Some t \<Longrightarrow> outcome (fold stp xs s) = Some t"
  by (induction xs arbitrary: s) (simp_all add: latched)

lemma one_outcome:
  "outcome (fold stp xs s) = Some t \<Longrightarrow> outcome (fold stp (xs @ ys) s) = Some t"
  by (simp add: latched_run)

end

text \<open>
  A step relation and what all its states keep: the invariant holds at the start and every step preserves it.
\<close>

locale invariant_machine =
  fixes stp :: "'s \<Rightarrow> 's \<Rightarrow> bool"
    and init :: 's
    and inv :: "'s \<Rightarrow> bool"
  assumes inv_init: "inv init"
    and inv_step: "stp s s' \<Longrightarrow> inv s \<Longrightarrow> inv s'"
begin

lemma inv_run: "stp\<^sup>*\<^sup>* s s' \<Longrightarrow> inv s \<Longrightarrow> inv s'"
  by (induction rule: rtranclp_induct) (auto intro: inv_step)

lemma inv_reachable: "stp\<^sup>*\<^sup>* init s \<Longrightarrow> inv s"
  using inv_run inv_init by blast

end

text \<open>
  A machine with a numbered lifecycle stage that no step moves backwards.
\<close>

locale staged_machine =
  fixes stp :: "'s \<Rightarrow> 's \<Rightarrow> bool"
    and stage :: "'s \<Rightarrow> nat"
  assumes stage_mono: "stp s s' \<Longrightarrow> stage s \<le> stage s'"
begin

lemma stage_run: "stp\<^sup>*\<^sup>* s s' \<Longrightarrow> stage s \<le> stage s'"
  by (induction rule: rtranclp_induct) (auto dest: stage_mono)

end

end
