(* ===== verification/Status.thy ===== *)
theory Status
  imports Prelude
begin

text \<open>
  The public outcome vocabulary of \<open>crates/automation/core/src/status.rs\<close> and the three-state lifecycle
  of \<open>lifecycle.rs\<close>. An \<open>Error\<close> is one status and a diagnostic detail; callers match the status only.
\<close>

section \<open>status.rs\<close>

datatype status =
    InvalidArgument
  | Unsupported
  | Cancelled
  | DeadlineExceeded
  | Closed
  | TargetLost
  | LimitExceeded
  | CaptureFailed
  | AssetInvalid
  | VisionFailed
  | InputFailed
  | Internal

fun status_as_str :: "status \<Rightarrow> string" where
  "status_as_str InvalidArgument = ''invalid_argument''"
| "status_as_str Unsupported = ''unsupported''"
| "status_as_str Cancelled = ''cancelled''"
| "status_as_str DeadlineExceeded = ''deadline_exceeded''"
| "status_as_str Closed = ''closed''"
| "status_as_str TargetLost = ''target_lost''"
| "status_as_str LimitExceeded = ''limit_exceeded''"
| "status_as_str CaptureFailed = ''capture_failed''"
| "status_as_str AssetInvalid = ''asset_invalid''"
| "status_as_str VisionFailed = ''vision_failed''"
| "status_as_str InputFailed = ''input_failed''"
| "status_as_str Internal = ''internal''"

record error =
  err_status :: status
  err_detail :: string

definition mk_error :: "status \<Rightarrow> string \<Rightarrow> error" where
  "mk_error st detail = \<lparr>err_status = st, err_detail = detail\<rparr>"

lemma mk_error_sel [simp]:
  "err_status (mk_error st d) = st"
  "err_detail (mk_error st d) = d"
  by (simp_all add: mk_error_def)

text \<open>\<open>Display\<close> of an error: the status alone when the detail is empty.\<close>

definition error_display :: "error \<Rightarrow> string" where
  "error_display e =
     (if err_detail e = [] then status_as_str (err_status e)
      else status_as_str (err_status e) @ '': '' @ err_detail e)"

section \<open>lifecycle.rs\<close>

datatype lifecycle = LcOpen | LcClosing | LcClosed

fun accepts_work :: "lifecycle \<Rightarrow> bool" where
  "accepts_work LcOpen = True"
| "accepts_work LcClosing = False"
| "accepts_work LcClosed = False"

fun lifecycle_as_str :: "lifecycle \<Rightarrow> string" where
  "lifecycle_as_str LcOpen = ''open''"
| "lifecycle_as_str LcClosing = ''closing''"
| "lifecycle_as_str LcClosed = ''closed''"

text \<open>The position of a lifecycle state on the way from open to closed.\<close>

fun lifecycle_stage :: "lifecycle \<Rightarrow> nat" where
  "lifecycle_stage LcOpen = 0"
| "lifecycle_stage LcClosing = 1"
| "lifecycle_stage LcClosed = 2"

instantiation lifecycle :: linorder
begin

definition less_eq_lifecycle :: "lifecycle \<Rightarrow> lifecycle \<Rightarrow> bool" where
  "less_eq_lifecycle a b = (lifecycle_stage a \<le> lifecycle_stage b)"

definition less_lifecycle :: "lifecycle \<Rightarrow> lifecycle \<Rightarrow> bool" where
  "less_lifecycle a b = (lifecycle_stage a < lifecycle_stage b)"

instance
proof
  fix a b c :: lifecycle
  show "(a < b) = (a \<le> b \<and> \<not> b \<le> a)"
    by (auto simp: less_lifecycle_def less_eq_lifecycle_def)
  show "a \<le> a" by (simp add: less_eq_lifecycle_def)
  show "a \<le> b \<Longrightarrow> b \<le> c \<Longrightarrow> a \<le> c" by (simp add: less_eq_lifecycle_def)
  show "a \<le> b \<Longrightarrow> b \<le> a \<Longrightarrow> a = b"
    by (cases a; cases b) (simp_all add: less_eq_lifecycle_def)
  show "a \<le> b \<or> b \<le> a" by (auto simp: less_eq_lifecycle_def)
qed

end

lemma lifecycle_stage_Closing_le [simp]:
  "lifecycle_stage LcClosing \<le> lifecycle_stage c \<longleftrightarrow> c \<noteq> LcOpen"
  by (cases c) simp_all

lemma lifecycle_stage_le_Closed [simp]: "lifecycle_stage c \<le> lifecycle_stage LcClosed"
  by (cases c) simp_all

lemma lifecycle_stage_le_2 [simp]: "lifecycle_stage c \<le> 2"
  by (cases c) simp_all

lemma status_as_str_inj: "inj status_as_str"
proof (rule injI)
  fix a b assume "status_as_str a = status_as_str b"
  then show "a = b" by (cases a; cases b) simp_all
qed

end
