(* ===== verification/Operation.thy ===== *)
theory Operation
  imports Status
begin

text \<open>
  The monotonic clock domain (\<open>time.rs\<close>) and the deadline, cancellation and terminal-outcome
  arbitration of \<open>operation.rs\<close>, both under \<open>crates/automation/core/src\<close>.

  A \<open>Duration\<close> is a number of nanoseconds, at most \<open>duration_max\<close>. The clock and the cancellation flag
  belong to the caller and change between two looks at them, so every function that looks takes the
  \<open>observation\<close> it makes: the flag's value and the clock's reading at that moment.
\<close>

section \<open>time.rs\<close>

type_synonym duration = nat

text \<open>\<open>Duration::MAX\<close>: \<open>u64::MAX\<close> seconds and 999,999,999 nanoseconds.\<close>

definition duration_max :: nat where
  "duration_max = (2 ^ 64 - 1) * 1000000000 + 999999999"

definition duration_checked_add :: "duration \<Rightarrow> duration \<Rightarrow> duration option" where
  "duration_checked_add a b = (if a + b \<le> duration_max then Some (a + b) else None)"

text \<open>An instant is its offset from the domain's origin.\<close>

datatype instant = Instant (since_origin: duration)

definition instant_origin :: instant where
  "instant_origin = Instant 0"

fun instant_checked_add :: "instant \<Rightarrow> duration \<Rightarrow> instant option" where
  "instant_checked_add (Instant t) d = map_option Instant (duration_checked_add t d)"

fun saturating_duration_since :: "instant \<Rightarrow> instant \<Rightarrow> duration" where
  "saturating_duration_since (Instant t) (Instant earlier) = t - earlier"

instantiation instant :: linorder
begin

definition less_eq_instant :: "instant \<Rightarrow> instant \<Rightarrow> bool" where
  "less_eq_instant a b = (since_origin a \<le> since_origin b)"

definition less_instant :: "instant \<Rightarrow> instant \<Rightarrow> bool" where
  "less_instant a b = (since_origin a < since_origin b)"

instance
  by standard (auto simp: less_eq_instant_def less_instant_def instant.expand)

end

lemma instant_order_simps [simp]:
  "Instant a \<le> Instant b \<longleftrightarrow> a \<le> b"
  "Instant a < Instant b \<longleftrightarrow> a < b"
  by (simp_all add: less_eq_instant_def less_instant_def)

lemma instant_checked_add_Some:
  "instant_checked_add t d = Some u \<longleftrightarrow>
     since_origin t + d \<le> duration_max \<and> u = Instant (since_origin t + d)"
  by (cases t) (auto simp: duration_checked_add_def)

lemma saturating_duration_since_le_iff:
  "saturating_duration_since now t < d \<longleftrightarrow> since_origin now < since_origin t + d \<and> 0 < d"
  by (cases now; cases t) auto

section \<open>operation.rs\<close>

datatype interruption = Interrupted_Cancelled | Interrupted_DeadlineExceeded

fun interruption_status :: "interruption \<Rightarrow> status" where
  "interruption_status Interrupted_Cancelled = Cancelled"
| "interruption_status Interrupted_DeadlineExceeded = DeadlineExceeded"

fun interruption_error :: "interruption \<Rightarrow> error" where
  "interruption_error Interrupted_Cancelled = mk_error Cancelled ''operation was cancelled''"
| "interruption_error Interrupted_DeadlineExceeded =
     mk_error DeadlineExceeded ''operation deadline passed''"

text \<open>A nonzero caller correlation value.\<close>

datatype activity_tag = ActivityTag u64

definition activity_tag_new :: "u64 \<Rightarrow> activity_tag option" where
  "activity_tag_new v = (if v = 0 then None else Some (ActivityTag v))"

text \<open>What a look at the caller's cancellation flag and clock finds.\<close>

record observation =
  obs_cancelled :: bool
  obs_now :: instant

text \<open>
  A context: its deadline, whether a cancellation token is attached, and the tag. The clock and the
  token's flag are what an observation reads.
\<close>

record operation_context =
  ctx_deadline :: "instant option"
  ctx_cancellation :: bool
  ctx_activity_tag :: "activity_tag option"

definition context_new :: operation_context where
  "context_new = \<lparr>ctx_deadline = None, ctx_cancellation = False, ctx_activity_tag = None\<rparr>"

definition with_deadline :: "operation_context \<Rightarrow> instant \<Rightarrow> operation_context" where
  "with_deadline c d = c\<lparr>ctx_deadline := Some d\<rparr>"

definition with_timeout :: "operation_context \<Rightarrow> instant \<Rightarrow> duration \<Rightarrow> error + operation_context" where
  "with_timeout c now timeout =
     and_then
       (ok_or (mk_error InvalidArgument
                ''requested timeout is not representable in the monotonic domain'')
              (instant_checked_add now timeout))
       (\<lambda>deadline. Inr (with_deadline c deadline))"

definition with_cancellation :: "operation_context \<Rightarrow> operation_context" where
  "with_cancellation c = c\<lparr>ctx_cancellation := True\<rparr>"

definition with_activity_tag :: "operation_context \<Rightarrow> activity_tag \<Rightarrow> operation_context" where
  "with_activity_tag c tag = c\<lparr>ctx_activity_tag := Some tag\<rparr>"

definition remaining :: "operation_context \<Rightarrow> observation \<Rightarrow> duration option" where
  "remaining c ob =
     map_option (\<lambda>deadline. saturating_duration_since deadline (obs_now ob)) (ctx_deadline c)"

definition context_interruption :: "operation_context \<Rightarrow> observation \<Rightarrow> interruption option" where
  "context_interruption c ob =
     (if ctx_cancellation c \<and> obs_cancelled ob then Some Interrupted_Cancelled
      else case ctx_deadline c of
             Some deadline \<Rightarrow>
               if deadline \<le> obs_now ob then Some Interrupted_DeadlineExceeded else None
           | None \<Rightarrow> None)"

text \<open>One attempt at an operation, with the interruption it latched.\<close>

record operation =
  op_context :: operation_context
  op_terminal :: "interruption option"

definition admit :: "operation_context \<Rightarrow> observation \<Rightarrow> interruption + operation" where
  "admit c ob =
     (case context_interruption c ob of
        Some i \<Rightarrow> Inl i
      | None \<Rightarrow> Inr \<lparr>op_context = c, op_terminal = None\<rparr>)"

definition checkpoint :: "operation \<Rightarrow> observation \<Rightarrow> (interruption + unit) \<times> operation" where
  "checkpoint op ob =
     (case op_terminal op of
        Some t \<Rightarrow> (Inl t, op)
      | None \<Rightarrow>
          (case context_interruption (op_context op) ob of
             Some i \<Rightarrow> (Inl i, op\<lparr>op_terminal := Some i\<rparr>)
           | None \<Rightarrow> (Inr (), op)))"

definition commit :: "operation \<Rightarrow> observation \<Rightarrow> 'a \<Rightarrow> interruption + 'a" where
  "commit op ob v =
     (case op_terminal op of
        Some t \<Rightarrow> Inl t
      | None \<Rightarrow>
          (case context_interruption (op_context op) ob of
             Some i \<Rightarrow> Inl i
           | None \<Rightarrow> Inr v))"

text \<open>A whole attempt: admission, a list of checkpoints, one commit.\<close>

fun run_checkpoints :: "operation \<Rightarrow> observation list \<Rightarrow> operation" where
  "run_checkpoints op [] = op"
| "run_checkpoints op (ob # obs) = run_checkpoints (snd (checkpoint op ob)) obs"

definition attempt :: "operation_context \<Rightarrow> observation \<Rightarrow> observation list \<Rightarrow> observation \<Rightarrow> 'a
                       \<Rightarrow> interruption + 'a" where
  "attempt c first obs final v =
     and_then (admit c first) (\<lambda>op. commit (run_checkpoints op obs) final v)"

subsection \<open>Environments\<close>

text \<open>
  A real environment only moves one way: a cancellation request is never withdrawn and the clock never
  goes back.
\<close>

definition later :: "observation \<Rightarrow> observation \<Rightarrow> bool" where
  "later a b \<longleftrightarrow> (obs_cancelled a \<longrightarrow> obs_cancelled b) \<and> obs_now a \<le> obs_now b"

lemma later_refl [simp]: "later a a"
  by (simp add: later_def)

lemma later_trans: "later a b \<Longrightarrow> later b c \<Longrightarrow> later a c"
  by (auto simp: later_def)

lemma uninterrupted_earlier:
  "later a b \<Longrightarrow> context_interruption c b = None \<Longrightarrow> context_interruption c a = None"
  by (auto simp: later_def context_interruption_def split: if_splits option.splits)

lemma cancelled_first:
  "ctx_cancellation c \<Longrightarrow> obs_cancelled ob \<Longrightarrow>
     context_interruption c ob = Some Interrupted_Cancelled"
  by (simp add: context_interruption_def)

subsection \<open>The latch\<close>

lemma checkpoint_context [simp]: "op_context (snd (checkpoint op ob)) = op_context op"
  by (auto simp: checkpoint_def split: option.splits)

lemma run_checkpoints_context [simp]: "op_context (run_checkpoints op obs) = op_context op"
  by (induction op obs rule: run_checkpoints.induct) simp_all

lemma run_checkpoints_fold: "run_checkpoints op obs = fold (\<lambda>ob op. snd (checkpoint op ob)) obs op"
  by (induction op obs rule: run_checkpoints.induct) simp_all

interpretation op_latch: latching_machine "\<lambda>ob op. snd (checkpoint op ob)" op_terminal
  by unfold_locales (simp add: checkpoint_def)

lemma checkpoint_error_latches:
  "fst (checkpoint op ob) = Inl i \<Longrightarrow> op_terminal (snd (checkpoint op ob)) = Some i"
  by (auto simp: checkpoint_def split: option.splits)

lemma checkpoint_ok:
  "fst (checkpoint op ob) = Inr u \<longleftrightarrow>
     op_terminal op = None \<and> context_interruption (op_context op) ob = None"
  by (auto simp: checkpoint_def split: option.splits)

lemma commit_Inr_iff:
  "commit op ob v = Inr w \<longleftrightarrow>
     w = v \<and> op_terminal op = None \<and> context_interruption (op_context op) ob = None"
  by (auto simp: commit_def split: option.splits)

lemma commit_latched: "op_terminal op = Some i \<Longrightarrow> commit op ob v = Inl i"
  by (simp add: commit_def)

lemma admit_Inr_iff:
  "admit c ob = Inr op \<longleftrightarrow>
     context_interruption c ob = None \<and> op = \<lparr>op_context = c, op_terminal = None\<rparr>"
  by (auto simp: admit_def split: option.splits)

lemma run_checkpoints_terminal_None:
  "op_terminal (run_checkpoints op obs) = None \<longleftrightarrow>
     op_terminal op = None \<and> (\<forall>ob\<in>set obs. context_interruption (op_context op) ob = None)"
proof (induction op obs rule: run_checkpoints.induct)
  case (1 op)
  then show ?case by simp
next
  case (2 op ob obs)
  then show ?case
    by (cases "op_terminal op"; cases "context_interruption (op_context op) ob")
       (auto simp: checkpoint_def)
qed

text \<open>
  C17: once a checkpoint of an operation reported an interruption, whatever the caller observes later,
  every later checkpoint and the commit report that same interruption: a result computed after the
  fact cannot overwrite it.
\<close>

theorem interruption_is_latched:
  assumes "fst (checkpoint op ob) = Inl i"
  shows "commit (run_checkpoints (snd (checkpoint op ob)) obs) final v = Inl i
       \<and> fst (checkpoint (run_checkpoints (snd (checkpoint op ob)) obs) again) = Inl i"
proof -
  have "op_terminal (run_checkpoints (snd (checkpoint op ob)) obs) = Some i"
    unfolding run_checkpoints_fold
    by (rule op_latch.latched_run) (rule checkpoint_error_latches [OF assms])
  then show ?thesis by (simp add: commit_def checkpoint_def)
qed

theorem interruption_is_latched_witness:
  "commit (run_checkpoints
            (snd (checkpoint
               \<lparr>op_context = with_deadline context_new (Instant 5), op_terminal = None\<rparr>
               \<lparr>obs_cancelled = False, obs_now = Instant 7\<rparr>))
            [\<lparr>obs_cancelled = False, obs_now = Instant 1\<rparr>])
     \<lparr>obs_cancelled = False, obs_now = Instant 2\<rparr> (42 :: nat)
   = Inl Interrupted_DeadlineExceeded"
  by (rule interruption_is_latched [THEN conjunct1])
     (simp add: checkpoint_def context_interruption_def with_deadline_def)

text \<open>
  An attempt succeeds exactly when neither the admission, nor any checkpoint, nor the commit
  observed an interruption; the value is then the committed one.
\<close>

theorem attempt_succeeds_iff:
  "attempt c first obs final v = Inr w \<longleftrightarrow>
     w = v \<and> list_all (\<lambda>ob. context_interruption c ob = None) (first # obs @ [final])"
  by (auto simp: attempt_def and_then_Inr_iff admit_Inr_iff commit_Inr_iff
                 run_checkpoints_terminal_None list_all_iff)

end
