(* ===== verification/Float64.thy ===== *)
theory Float64
  imports Prelude Complex_Main "HOL-Library.Log_Nat"
begin

text \<open>
  The \<open>f64\<close> arithmetic the geometry code uses: IEEE 754 binary64 with round to nearest, ties to even.
  A finite value is the rational number it denotes, so the two zeros are one value (no operation
  modelled here tells them apart: the code compares, adds, subtracts, multiplies, divides by values it
  has checked to be positive, and rounds to integers; only the order of matches, theory \<open>VisionModel\<close>, would, for two
  matches that both score zero). NaN payloads are not tracked.

  The lemmas say what the geometry proofs rest on: rounding is monotone, exact on the integers up to
  \<open>2 ^ 53\<close>, and every operation with a fixed positive operand preserves order.
\<close>

section \<open>Rounding\<close>

text \<open>The exponent of the binade a positive rational lies in.\<close>

definition ilog2 :: "rat \<Rightarrow> int" where
  "ilog2 x = (let (n, d) = quotient_of x; k = bitlen n - bitlen d
              in if 2 powi k \<le> x then k else k - 1)"

text \<open>The nearest integer, a tie going to the even one.\<close>

definition round_even :: "rat \<Rightarrow> int" where
  "round_even y =
     (let f = \<lfloor>y\<rfloor>; d = y - of_int f
      in if d < 1 / 2 then f else if d > 1 / 2 then f + 1 else if even f then f else f + 1)"

text \<open>The exponent of the unit in the last place: 53 bits of significand, none below \<open>2 ^ -1074\<close>.\<close>

definition ulp_exponent :: "rat \<Rightarrow> int" where
  "ulp_exponent x = max (- 1074) (ilog2 \<bar>x\<bar> - 52)"

definition rne :: "rat \<Rightarrow> rat" where
  "rne x = (if x = 0 then 0
            else of_int (round_even (x / 2 powi ulp_exponent x)) * 2 powi ulp_exponent x)"

subsection \<open>Binades\<close>

lemma powi2_pos [simp]: "0 < (2 :: rat) powi k"
  by (simp add: zero_less_power_int)

lemma powi2_mono: "j \<le> k \<Longrightarrow> (2 :: rat) powi j \<le> 2 powi k"
  by (simp add: power_int_increasing)

lemma powi2_le_iff [simp]: "(2 :: rat) powi j \<le> 2 powi k \<longleftrightarrow> j \<le> k"
  by (metis powi2_mono linorder_not_less nle_le numeral_eq_one_iff one_less_numeral_iff order_less_le
        power_int_strict_increasing semiring_norm(76))

lemma powi2_less_iff [simp]: "(2 :: rat) powi j < 2 powi k \<longleftrightarrow> j < k"
  using powi2_le_iff [of k j] by linarith

lemma bitlen_rat:
  assumes "0 < n"
  shows "2 powi (bitlen n - 1) \<le> (of_int n :: rat)" "(of_int n :: rat) < 2 powi bitlen n"
proof -
  from assms have b: "0 < bitlen n" using bitlen_nonneg [of n] bitlen_eq_zero_iff [of n] by linarith
  have "2 ^ nat (bitlen n - 1) \<le> n" "n < 2 ^ nat (bitlen n)"
    using bitlen_bounds [OF assms] by auto
  then have "(2 :: rat) ^ nat (bitlen n - 1) \<le> of_int n" "(of_int n :: rat) < 2 ^ nat (bitlen n)"
    by (metis of_int_le_iff of_int_numeral of_int_power)
       (metis \<open>n < 2 ^ nat (bitlen n)\<close> of_int_less_iff of_int_numeral of_int_power)
  with b show "2 powi (bitlen n - 1) \<le> (of_int n :: rat)" "(of_int n :: rat) < 2 powi bitlen n"
    by (simp_all add: power_int_def)
qed

lemma ilog2_bounds:
  assumes "0 < x"
  shows "2 powi ilog2 x \<le> x" "x < 2 powi (ilog2 x + 1)"
proof -
  obtain n d where q: "quotient_of x = (n, d)" by fastforce
  from q have d: "0 < d" and x: "x = of_int n / of_int d"
    by (auto simp: quotient_of_denom_pos quotient_of_div)
  from assms d x have n: "0 < n" by (simp add: zero_less_divide_iff)
  let ?k = "bitlen n - bitlen d"
  have nb: "2 powi (bitlen n - 1) \<le> (of_int n :: rat)" "(of_int n :: rat) < 2 powi bitlen n"
    by (rule bitlen_rat [OF n])+
  have db: "2 powi (bitlen d - 1) \<le> (of_int d :: rat)" "(of_int d :: rat) < 2 powi bitlen d"
    by (rule bitlen_rat [OF d])+
  have dpos: "(0 :: rat) < of_int d" using d by simp
  have "(2 :: rat) powi (?k - 1) * of_int d \<le> 2 powi (?k - 1) * 2 powi bitlen d"
    using db by (simp add: less_imp_le)
  also have "\<dots> = 2 powi (bitlen n - 1)" by (simp flip: power_int_add)
  finally have lo: "2 powi (?k - 1) \<le> x"
    using nb dpos unfolding x by (simp add: pos_le_divide_eq)
  have "(2 :: rat) powi bitlen n = 2 powi (?k + 1) * 2 powi (bitlen d - 1)"
    by (simp flip: power_int_add)
  also have "\<dots> \<le> 2 powi (?k + 1) * of_int d" using db by simp
  finally have hi: "x < 2 powi (?k + 1)"
    using nb dpos unfolding x by (simp add: pos_divide_less_eq)
  show "2 powi ilog2 x \<le> x" "x < 2 powi (ilog2 x + 1)"
    using lo hi by (auto simp: ilog2_def q Let_def)
qed

lemma ilog2_mono:
  assumes "0 < x" "x \<le> y"
  shows "ilog2 x \<le> ilog2 y"
proof -
  have "2 powi ilog2 x < (2 :: rat) powi (ilog2 y + 1)"
    using ilog2_bounds(1) [of x] ilog2_bounds(2) [of y] assms by linarith
  then show ?thesis by simp
qed

subsection \<open>Rounding to an integer\<close>

lemma round_even_near: "\<bar>of_int (round_even y) - y\<bar> \<le> 1 / 2"
proof -
  have "of_int \<lfloor>y\<rfloor> \<le> y" "y < of_int \<lfloor>y\<rfloor> + 1" by linarith+
  then show ?thesis by (auto simp: round_even_def Let_def abs_le_iff)
qed

lemma round_even_of_int [simp]: "round_even (of_int i) = i"
  by (simp add: round_even_def)

lemma round_even_mono: "x \<le> y \<Longrightarrow> round_even x \<le> round_even y"
proof -
  assume le: "x \<le> y"
  show ?thesis
  proof (cases "\<lfloor>x\<rfloor> = \<lfloor>y\<rfloor>")
    case True
    with le show ?thesis by (auto simp: round_even_def Let_def)
  next
    case False
    with floor_mono [OF le] have "\<lfloor>x\<rfloor> + 1 \<le> \<lfloor>y\<rfloor>" by linarith
    then show ?thesis by (auto simp: round_even_def Let_def)
  qed
qed

lemma round_even_minus: "round_even (- y) = - round_even y"
proof (cases "y = of_int \<lfloor>y\<rfloor>")
  case True
  then show ?thesis by (metis of_int_minus round_even_of_int)
next
  case False
  have lt: "of_int \<lfloor>y\<rfloor> < y" using False by (metis of_int_floor_le order_less_le)
  have "\<lfloor>- y\<rfloor> = - \<lfloor>y\<rfloor> - 1"
    using lt by (intro floor_unique) (simp_all, linarith+)
  with lt show ?thesis by (auto simp: round_even_def Let_def)
qed

lemma round_even_le_int: "y \<le> of_int i \<Longrightarrow> round_even y \<le> i"
  using round_even_mono [of y "of_int i"] by simp

lemma round_even_ge_int: "of_int i \<le> y \<Longrightarrow> i \<le> round_even y"
  using round_even_mono [of "of_int i" y] by simp

subsection \<open>Rounding is odd, monotone and exact where it should be\<close>

lemma ulp_exponent_minus [simp]: "ulp_exponent (- x) = ulp_exponent x"
  by (simp add: ulp_exponent_def)

lemma rne_minus: "rne (- x) = - rne x"
  by (simp add: rne_def round_even_minus)

lemma rne_zero [simp]: "rne 0 = 0"
  by (simp add: rne_def)

lemma rne_multiple:
  assumes "x = of_int m * 2 powi ulp_exponent x"
  shows "rne x = x"
proof -
  have "x / 2 powi ulp_exponent x = of_int m"
    using assms by (metis nonzero_mult_div_cancel_right powi2_pos order_less_irrefl)
  with assms show ?thesis by (auto simp: rne_def)
qed

text \<open>What rounds to a multiple of the unit of a coarser or equal binade stays on its side of it.\<close>

lemma rne_le_multiple:
  assumes "0 < x" "x \<le> of_int m * 2 powi ulp_exponent x"
  shows "rne x \<le> of_int m * 2 powi ulp_exponent x"
proof -
  have "x / 2 powi ulp_exponent x \<le> of_int m" using assms by (simp add: pos_divide_le_eq)
  then have "round_even (x / 2 powi ulp_exponent x) \<le> m" by (rule round_even_le_int)
  then show ?thesis using assms by (simp add: rne_def)
qed

lemma rne_ge_multiple:
  assumes "0 < x" "of_int m * 2 powi ulp_exponent x \<le> x"
  shows "of_int m * 2 powi ulp_exponent x \<le> rne x"
proof -
  have "of_int m \<le> x / 2 powi ulp_exponent x" using assms by (simp add: pos_le_divide_eq)
  then have "m \<le> round_even (x / 2 powi ulp_exponent x)" by (rule round_even_ge_int)
  then show ?thesis using assms by (simp add: rne_def)
qed

lemma powi2_as_multiple:
  assumes "e \<le> k"
  obtains m where "(2 :: rat) powi k = of_int m * 2 powi e"
proof
  have "(2 :: rat) powi k = 2 powi (k - e) * 2 powi e" by (simp flip: power_int_add)
  moreover have "(2 :: rat) powi (k - e) = of_int (2 ^ nat (k - e))"
    using assms by (simp add: power_int_def)
  ultimately show "(2 :: rat) powi k = of_int (2 ^ nat (k - e)) * 2 powi e" by simp
qed

lemma rne_nonneg: "0 \<le> x \<Longrightarrow> 0 \<le> rne x"
  using rne_ge_multiple [of x 0] by (cases "x = 0") auto

lemma rne_mono_pos:
  assumes "0 < x" "x \<le> y"
  shows "rne x \<le> rne y"
proof (cases "ulp_exponent x = ulp_exponent y")
  case True
  have "x / 2 powi ulp_exponent y \<le> y / 2 powi ulp_exponent y"
    using assms by (simp add: divide_right_mono)
  then show ?thesis
    using assms True by (simp add: rne_def round_even_mono)
next
  case False
  have y0: "0 < y" using assms by linarith
  from assms have le: "ilog2 x \<le> ilog2 y" by (rule ilog2_mono)
  with False assms y0 have lt: "ilog2 x < ilog2 y" and uy: "ulp_exponent y = ilog2 y - 52"
    and ux: "ulp_exponent x \<le> ilog2 y"
    by (auto simp: ulp_exponent_def max_def split: if_splits)
  obtain m where m: "(2 :: rat) powi ilog2 y = of_int m * 2 powi ulp_exponent x"
    using powi2_as_multiple [OF ux] .
  have uyl: "ulp_exponent y \<le> ilog2 y" using uy by simp
  obtain n where n: "(2 :: rat) powi ilog2 y = of_int n * 2 powi ulp_exponent y"
    using powi2_as_multiple [OF uyl] .
  have "x < 2 powi (ilog2 x + 1)" using assms by (intro ilog2_bounds)
  also have "\<dots> \<le> 2 powi ilog2 y" using lt by simp
  finally have "rne x \<le> 2 powi ilog2 y"
    using rne_le_multiple [OF assms(1), of m] m by simp
  also have "\<dots> \<le> rne y"
    using rne_ge_multiple [OF y0, of n] n ilog2_bounds(1) [OF y0] by simp
  finally show ?thesis .
qed

lemma rne_mono: "x \<le> y \<Longrightarrow> rne x \<le> rne y"
proof -
  assume le: "x \<le> y"
  consider "0 < x" | "x \<le> 0" "0 \<le> y" | "y < 0" by linarith
  then show ?thesis
  proof cases
    case 1
    with le show ?thesis by (intro rne_mono_pos)
  next
    case 2
    then show ?thesis using rne_nonneg [of y] rne_nonneg [of "- x"] by (simp add: rne_minus)
  next
    case 3
    with le have "rne (- y) \<le> rne (- x)" by (intro rne_mono_pos) auto
    then show ?thesis by (simp add: rne_minus)
  qed
qed

lemma rne_int_pos:
  assumes "0 < i" "i < 2 ^ 53"
  shows "rne (of_int i) = of_int i"
proof -
  have pos: "(0 :: rat) < of_int i" using assms by simp
  have "(of_int i :: rat) < of_int (2 ^ 53)" using assms(2) of_int_less_iff by blast
  also have "(of_int (2 ^ 53) :: rat) = 2 powi 53" by simp
  finally have "(2 :: rat) powi ilog2 (of_int i) < 2 powi 53"
    using ilog2_bounds(1) [OF pos] by (rule le_less_trans [rotated])
  then have "ilog2 (of_int i) < 53" by (rule powi2_less_iff [THEN iffD1])
  then have "ulp_exponent (of_int i) \<le> 0" using assms by (simp add: ulp_exponent_def)
  then obtain m where m: "(2 :: rat) powi 0 = of_int m * 2 powi ulp_exponent (of_int i)"
    by (rule powi2_as_multiple)
  have "(of_int i :: rat) = of_int i * 2 powi 0" by simp
  also have "\<dots> = of_int (i * m) * 2 powi ulp_exponent (of_int i)"
    unfolding m by simp
  finally show ?thesis by (rule rne_multiple)
qed

lemma rne_int: "\<bar>i\<bar> < 2 ^ 53 \<Longrightarrow> rne (of_int i) = of_int i"
  using rne_int_pos [of i] rne_int_pos [of "- i"] rne_minus [of "of_int i"]
  by (cases i "0 :: int" rule: linorder_cases) auto

lemma rne_one [simp]: "rne 1 = 1"
  using rne_int [of 1] by simp

lemma rne_between_ints:
  assumes "of_int i \<le> x" "x \<le> of_int j" "\<bar>i\<bar> < 2 ^ 53" "\<bar>j\<bar> < 2 ^ 53"
  shows "of_int i \<le> rne x" "rne x \<le> of_int j"
  using rne_mono [OF assms(1)] rne_mono [OF assms(2)] assms(3,4) by (simp_all add: rne_int)

section \<open>Values\<close>

datatype f64 = Fin rat | PInf | NInf | NaN

text \<open>A real result rounded to a value: beyond the largest finite magnitude it is infinite.\<close>

definition f64_limit :: rat where
  "f64_limit = 2 ^ 1024"

definition fl :: "rat \<Rightarrow> f64" where
  "fl x = (let r = rne x in if f64_limit \<le> r then PInf else if r \<le> - f64_limit then NInf else Fin r)"

fun is_finite :: "f64 \<Rightarrow> bool" where
  "is_finite (Fin _) = True"
| "is_finite _ = False"

definition f64_of_u32 :: "u32 \<Rightarrow> f64" where
  "f64_of_u32 w = Fin (of_int (uint w))"

definition f64_of_int :: "int \<Rightarrow> f64" where
  "f64_of_int i = Fin (of_int i)"

subsection \<open>Comparisons: every comparison with NaN is false\<close>

fun fle :: "f64 \<Rightarrow> f64 \<Rightarrow> bool" where
  "fle NaN _ = False"
| "fle _ NaN = False"
| "fle NInf _ = True"
| "fle _ PInf = True"
| "fle (Fin a) (Fin b) = (a \<le> b)"
| "fle PInf (Fin _) = False"
| "fle PInf NInf = False"
| "fle (Fin _) NInf = False"

fun flt :: "f64 \<Rightarrow> f64 \<Rightarrow> bool" where
  "flt NaN _ = False"
| "flt _ NaN = False"
| "flt _ NInf = False"
| "flt PInf _ = False"
| "flt NInf _ = True"
| "flt (Fin a) (Fin b) = (a < b)"
| "flt (Fin _) PInf = True"

fun feq :: "f64 \<Rightarrow> f64 \<Rightarrow> bool" where
  "feq (Fin x) (Fin y) = (x = y)"
| "feq PInf PInf = True"
| "feq NInf NInf = True"
| "feq a b = False"

lemma feq_eq: "feq a b \<Longrightarrow> a = b"
  by (cases a; cases b) simp_all

lemma feq_sym: "feq a b \<longleftrightarrow> feq b a"
  by (cases a; cases b) auto

subsection \<open>Arithmetic\<close>

fun fneg :: "f64 \<Rightarrow> f64" where
  "fneg (Fin a) = Fin (- a)"
| "fneg PInf = NInf"
| "fneg NInf = PInf"
| "fneg NaN = NaN"

fun fabs :: "f64 \<Rightarrow> f64" where
  "fabs (Fin a) = Fin \<bar>a\<bar>"
| "fabs PInf = PInf"
| "fabs NInf = PInf"
| "fabs NaN = NaN"

fun fadd :: "f64 \<Rightarrow> f64 \<Rightarrow> f64" where
  "fadd (Fin a) (Fin b) = fl (a + b)"
| "fadd NaN _ = NaN"
| "fadd _ NaN = NaN"
| "fadd PInf NInf = NaN"
| "fadd NInf PInf = NaN"
| "fadd PInf _ = PInf"
| "fadd NInf _ = NInf"
| "fadd _ PInf = PInf"
| "fadd _ NInf = NInf"

definition fsub :: "f64 \<Rightarrow> f64 \<Rightarrow> f64" where
  "fsub a b = fadd a (fneg b)"

text \<open>An infinity times or over a finite value: the sign of the value decides.\<close>

definition signed_inf :: "rat \<Rightarrow> f64 \<Rightarrow> f64" where
  "signed_inf a i = (if 0 < a then i else if a < 0 then fneg i else NaN)"

fun fmul :: "f64 \<Rightarrow> f64 \<Rightarrow> f64" where
  "fmul (Fin a) (Fin b) = fl (a * b)"
| "fmul NaN _ = NaN"
| "fmul _ NaN = NaN"
| "fmul PInf (Fin b) = signed_inf b PInf"
| "fmul NInf (Fin b) = signed_inf b NInf"
| "fmul (Fin a) PInf = signed_inf a PInf"
| "fmul (Fin a) NInf = signed_inf a NInf"
| "fmul PInf i = i"
| "fmul NInf i = fneg i"

text \<open>A zero divisor counts as positive; the modelled code never divides by one.\<close>

fun fdiv :: "f64 \<Rightarrow> f64 \<Rightarrow> f64" where
  "fdiv (Fin a) (Fin b) = (if b = 0 then signed_inf a PInf else fl (a / b))"
| "fdiv NaN _ = NaN"
| "fdiv _ NaN = NaN"
| "fdiv (Fin _) PInf = Fin 0"
| "fdiv (Fin _) NInf = Fin 0"
| "fdiv PInf (Fin b) = (if b < 0 then NInf else PInf)"
| "fdiv NInf (Fin b) = (if b < 0 then PInf else NInf)"
| "fdiv _ _ = NaN"

fun ffloor :: "f64 \<Rightarrow> f64" where
  "ffloor (Fin a) = Fin (of_int \<lfloor>a\<rfloor>)"
| "ffloor i = i"

fun fceil :: "f64 \<Rightarrow> f64" where
  "fceil (Fin a) = Fin (of_int \<lceil>a\<rceil>)"
| "fceil i = i"

section \<open>Order is preserved\<close>

named_theorems float_mono \<open>the operations that keep the order of their arguments\<close>

lemma is_finite_iff: "is_finite a \<longleftrightarrow> (\<exists>x. a = Fin x)"
  by (cases a) simp_all

lemma f64_limit_large: "2 ^ 53 < f64_limit"
  unfolding f64_limit_def by (rule power_strict_increasing) simp_all

lemma fl_FinD: "fl x = Fin r \<Longrightarrow> r = rne x"
  by (auto simp: fl_def Let_def split: if_splits)

lemma fl_not_NaN [simp]: "fl x \<noteq> NaN"
  by (simp add: fl_def Let_def)

lemma fl_between_ints:
  assumes "of_int i \<le> x" "x \<le> of_int j" "\<bar>i\<bar> < 2 ^ 53" "\<bar>j\<bar> < 2 ^ 53"
  shows "fl x = Fin (rne x)"
proof -
  have "- (2 ^ 53) < i" "j < 2 ^ 53" using assms(3,4) by linarith+
  then have "(of_int (- (2 ^ 53)) :: rat) < of_int i" "(of_int j :: rat) < of_int (2 ^ 53)"
    by (simp_all only: of_int_less_iff)
  then have "(- (2 ^ 53) :: rat) < of_int i" "(of_int j :: rat) < 2 ^ 53"
    by simp_all
  with rne_between_ints [OF assms] f64_limit_large have "rne x < f64_limit" "- f64_limit < rne x"
    by linarith+
  then show ?thesis by (simp add: fl_def Let_def)
qed

lemma fle_refl [simp]: "fle a a \<longleftrightarrow> a \<noteq> NaN"
  by (cases a) simp_all

lemma fle_NaN [simp]: "fle a NaN \<longleftrightarrow> False"
  by (cases a) simp_all

lemma fle_PInf [simp]: "fle a PInf \<longleftrightarrow> a \<noteq> NaN"
  by (cases a) simp_all

lemma NInf_fle [simp]: "fle NInf a \<longleftrightarrow> a \<noteq> NaN"
  by (cases a) simp_all

lemma fle_trans: "fle a b \<Longrightarrow> fle b c \<Longrightarrow> fle a c"
  by (cases a; cases b; cases c) simp_all

lemma flt_fle: "a \<noteq> NaN \<Longrightarrow> b \<noteq> NaN \<Longrightarrow> flt a b \<longleftrightarrow> \<not> fle b a"
  by (cases a; cases b) auto

lemma fle_not_flt: "fle a b \<Longrightarrow> \<not> flt b a"
  by (cases a; cases b) auto

lemma fl_mono [float_mono]: "x \<le> y \<Longrightarrow> fle (fl x) (fl y)"
proof -
  assume "x \<le> y"
  then have le: "rne x \<le> rne y" by (rule rne_mono)
  then show ?thesis by (auto simp: fl_def Let_def)
qed

lemma fle_Fin_cases:
  assumes "fle a b"
  obtains (fin) x y where "a = Fin x" "b = Fin y" "x \<le> y"
    | (low) "a = NInf" "b \<noteq> NaN" | (high) "b = PInf" "a \<noteq> NaN"
  using assms by (cases a; cases b) auto

lemma fmul_not_NaN [simp]: "0 < s \<Longrightarrow> fmul a (Fin s) = NaN \<longleftrightarrow> a = NaN"
  by (cases a) (simp_all add: signed_inf_def)

lemma fdiv_not_NaN [simp]: "0 < s \<Longrightarrow> fdiv a (Fin s) = NaN \<longleftrightarrow> a = NaN"
  by (cases a) (simp_all add: signed_inf_def)

lemma fadd_not_NaN [simp]: "fadd a (Fin s) = NaN \<longleftrightarrow> a = NaN"
  by (cases a) simp_all

lemma fmul_mono [float_mono]:
  "fle a b \<Longrightarrow> 0 < s \<Longrightarrow> fle (fmul a (Fin s)) (fmul b (Fin s))"
  by (erule fle_Fin_cases; cases a; cases b)
     (auto simp: signed_inf_def intro: fl_mono mult_right_mono)

lemma fdiv_mono [float_mono]:
  "fle a b \<Longrightarrow> 0 < s \<Longrightarrow> fle (fdiv a (Fin s)) (fdiv b (Fin s))"
  by (erule fle_Fin_cases; cases a; cases b)
     (auto intro!: fl_mono divide_right_mono)

lemma fadd_mono [float_mono]: "fle a b \<Longrightarrow> fle (fadd a (Fin c)) (fadd b (Fin c))"
  by (erule fle_Fin_cases; cases a; cases b) (auto intro: fl_mono)

lemma fsub_mono [float_mono]: "fle a b \<Longrightarrow> fle (fsub a (Fin c)) (fsub b (Fin c))"
  by (simp add: fsub_def fadd_mono)

end
