(* ===== verification/Geometry.thy ===== *)
theory Geometry
  imports Status Float64
begin

text \<open>
  Coordinate spaces, validated geometry and half-open rectangles:
  \<open>crates/automation/core/src/geometry.rs\<close>. Floating-point coordinates are the \<open>f64\<close> of \<open>Float64\<close>; an
  \<open>i32\<close> pixel edge is an \<open>int\<close> that the constructors keep inside the \<open>i32\<close> range; an \<open>u32\<close> dimension is
  a 32-bit word.
\<close>

section \<open>Spaces and faults\<close>

datatype coordinate_space =
    CapturePixels
  | FrameNormalized
  | TargetNormalized
  | TargetLogical
  | DesktopLogical

fun is_normalized :: "coordinate_space \<Rightarrow> bool" where
  "is_normalized FrameNormalized = True"
| "is_normalized TargetNormalized = True"
| "is_normalized _ = False"

fun space_as_str :: "coordinate_space \<Rightarrow> string" where
  "space_as_str CapturePixels = ''capture_pixels''"
| "space_as_str FrameNormalized = ''frame_normalized''"
| "space_as_str TargetNormalized = ''target_normalized''"
| "space_as_str TargetLogical = ''target_logical''"
| "space_as_str DesktopLogical = ''desktop_logical''"

datatype geometry_fault =
    NotFinite
  | NegativeSize
  | OutOfNormalizedRange
  | EmptyRegion
  | SpaceMismatch
  | ConversionUnsupported
  | OutsideExtent
  | ExtentOverflow

fun geometry_fault_status :: "geometry_fault \<Rightarrow> status" where
  "geometry_fault_status ConversionUnsupported = Unsupported"
| "geometry_fault_status _ = InvalidArgument"

fun geometry_fault_detail :: "geometry_fault \<Rightarrow> string" where
  "geometry_fault_detail NotFinite = ''geometry contains a non-finite value''"
| "geometry_fault_detail NegativeSize = ''rectangle edges are inverted''"
| "geometry_fault_detail OutOfNormalizedRange = ''normalized geometry falls outside zero through one''"
| "geometry_fault_detail EmptyRegion = ''operation requires a non-empty region''"
| "geometry_fault_detail SpaceMismatch = ''geometry values use different coordinate spaces''"
| "geometry_fault_detail ConversionUnsupported =
     ''no authoritative transform represents the requested conversion''"
| "geometry_fault_detail OutsideExtent =
     ''region falls outside the destination extent and clipping was not permitted''"
| "geometry_fault_detail ExtentOverflow = ''converted geometry exceeds the destination range''"

definition geometry_error :: "geometry_fault \<Rightarrow> error" where
  "geometry_error f = mk_error (geometry_fault_status f) (geometry_fault_detail f)"

datatype clip_policy = Reject | Clip

section \<open>Points\<close>

definition in_unit_range :: "f64 \<Rightarrow> bool" where
  "in_unit_range v \<longleftrightarrow> fle (Fin 0) v \<and> fle v (Fin 1)"

record point =
  pt_space :: coordinate_space
  pt_x :: f64
  pt_y :: f64

definition point_new :: "coordinate_space \<Rightarrow> f64 \<Rightarrow> f64 \<Rightarrow> geometry_fault + point" where
  "point_new space x y =
     (if \<not> is_finite x \<or> \<not> is_finite y then Inl NotFinite
      else if is_normalized space \<and> \<not> (in_unit_range x \<and> in_unit_range y) then Inl OutOfNormalizedRange
      else Inr \<lparr>pt_space = space, pt_x = x, pt_y = y\<rparr>)"

section \<open>Rectangles\<close>

record rect =
  rc_space :: coordinate_space
  rc_left :: f64
  rc_top :: f64
  rc_right :: f64
  rc_bottom :: f64

definition rect_new ::
    "coordinate_space \<Rightarrow> f64 \<Rightarrow> f64 \<Rightarrow> f64 \<Rightarrow> f64 \<Rightarrow> geometry_fault + rect" where
  "rect_new space left tp right bottom =
     (if \<not> (is_finite left \<and> is_finite tp \<and> is_finite right \<and> is_finite bottom) then Inl NotFinite
      else if flt right left \<or> flt bottom tp then Inl NegativeSize
      else if is_normalized space
              \<and> \<not> (in_unit_range left \<and> in_unit_range tp \<and> in_unit_range right \<and> in_unit_range bottom)
           then Inl OutOfNormalizedRange
      else Inr \<lparr>rc_space = space, rc_left = left, rc_top = tp, rc_right = right, rc_bottom = bottom\<rparr>)"

definition from_origin_size ::
    "coordinate_space \<Rightarrow> f64 \<Rightarrow> f64 \<Rightarrow> f64 \<Rightarrow> f64 \<Rightarrow> geometry_fault + rect" where
  "from_origin_size space x y width height =
     (if \<not> (is_finite x \<and> is_finite y \<and> is_finite width \<and> is_finite height) then Inl NotFinite
      else if flt width (Fin 0) \<or> flt height (Fin 0) then Inl NegativeSize
      else rect_new space x y (fadd x width) (fadd y height))"

definition rect_width :: "rect \<Rightarrow> f64" where
  "rect_width r = fsub (rc_right r) (rc_left r)"

definition rect_height :: "rect \<Rightarrow> f64" where
  "rect_height r = fsub (rc_bottom r) (rc_top r)"

definition rect_is_empty :: "rect \<Rightarrow> bool" where
  "rect_is_empty r \<longleftrightarrow> fle (rect_width r) (Fin 0) \<or> fle (rect_height r) (Fin 0)"

definition require_non_empty :: "rect \<Rightarrow> geometry_fault + rect" where
  "require_non_empty r = (if rect_is_empty r then Inl EmptyRegion else Inr r)"

definition rect_contains :: "rect \<Rightarrow> point \<Rightarrow> geometry_fault + bool" where
  "rect_contains r p =
     (if pt_space p \<noteq> rc_space r then Inl SpaceMismatch
      else Inr (fle (rc_left r) (pt_x p) \<and> flt (pt_x p) (rc_right r)
                \<and> fle (rc_top r) (pt_y p) \<and> flt (pt_y p) (rc_bottom r)))"

text \<open>What every constructed point and rectangle satisfies.\<close>

definition valid_point :: "point \<Rightarrow> bool" where
  "valid_point p \<longleftrightarrow> is_finite (pt_x p) \<and> is_finite (pt_y p)
     \<and> (is_normalized (pt_space p) \<longrightarrow> in_unit_range (pt_x p) \<and> in_unit_range (pt_y p))"

definition valid_rect :: "rect \<Rightarrow> bool" where
  "valid_rect r \<longleftrightarrow>
     is_finite (rc_left r) \<and> is_finite (rc_top r) \<and> is_finite (rc_right r) \<and> is_finite (rc_bottom r)
     \<and> fle (rc_left r) (rc_right r) \<and> fle (rc_top r) (rc_bottom r)
     \<and> (is_normalized (rc_space r) \<longrightarrow>
          in_unit_range (rc_left r) \<and> in_unit_range (rc_top r)
          \<and> in_unit_range (rc_right r) \<and> in_unit_range (rc_bottom r))"

section \<open>Pixel extents and pixel rectangles\<close>

definition i32_min :: int where "i32_min = - (2 ^ 31)"

definition i32_max :: int where "i32_max = 2 ^ 31 - 1"

definition in_i32 :: "int \<Rightarrow> bool" where
  "in_i32 i \<longleftrightarrow> i32_min \<le> i \<and> i \<le> i32_max"

text \<open>\<open>i32::try_from\<close> of a \<open>u32\<close> and \<open>u32::try_from\<close> of an \<open>i64\<close>.\<close>

definition i32_of_u32 :: "u32 \<Rightarrow> int option" where
  "i32_of_u32 w = (if uint w \<le> i32_max then Some (uint w) else None)"

definition u32_of_i64 :: "int \<Rightarrow> u32 option" where
  "u32_of_i64 i = (if 0 \<le> i \<and> i < 2 ^ 32 then Some (word_of_int i) else None)"

record pixel_extent =
  px_width :: u32
  px_height :: u32

definition pixel_extent_new :: "u32 \<Rightarrow> u32 \<Rightarrow> pixel_extent" where
  "pixel_extent_new w h = \<lparr>px_width = w, px_height = h\<rparr>"

definition extent_is_empty :: "pixel_extent \<Rightarrow> bool" where
  "extent_is_empty e \<longleftrightarrow> px_width e = 0 \<or> px_height e = 0"

record pixel_rect =
  pr_left :: int
  pr_top :: int
  pr_right :: int
  pr_bottom :: int

definition pixel_rect_new :: "int \<Rightarrow> int \<Rightarrow> int \<Rightarrow> int \<Rightarrow> geometry_fault + pixel_rect" where
  "pixel_rect_new left tp right bottom =
     (if right < left \<or> bottom < tp then Inl NegativeSize
      else Inr \<lparr>pr_left = left, pr_top = tp, pr_right = right, pr_bottom = bottom\<rparr>)"

definition to_rect :: "pixel_extent \<Rightarrow> geometry_fault + pixel_rect" where
  "to_rect e =
     and_then (ok_or ExtentOverflow (i32_of_u32 (px_width e))) (\<lambda>right.
     and_then (ok_or ExtentOverflow (i32_of_u32 (px_height e))) (\<lambda>bottom.
       pixel_rect_new 0 0 right bottom))"

text \<open>The spans are computed in \<open>i64\<close>; \<open>None\<close> is the panic of the failed \<open>expect\<close>.\<close>

definition pixel_rect_width :: "pixel_rect \<Rightarrow> u32 option" where
  "pixel_rect_width r = u32_of_i64 (pr_right r - pr_left r)"

definition pixel_rect_height :: "pixel_rect \<Rightarrow> u32 option" where
  "pixel_rect_height r = u32_of_i64 (pr_bottom r - pr_top r)"

definition pixel_rect_extent :: "pixel_rect \<Rightarrow> pixel_extent option" where
  "pixel_rect_extent r =
     (case (pixel_rect_width r, pixel_rect_height r) of
        (Some w, Some h) \<Rightarrow> Some (pixel_extent_new w h)
      | _ \<Rightarrow> None)"

definition pixel_rect_is_empty :: "pixel_rect \<Rightarrow> bool" where
  "pixel_rect_is_empty r \<longleftrightarrow> pixel_rect_width r = Some 0 \<or> pixel_rect_height r = Some 0"

definition contains_rect :: "pixel_rect \<Rightarrow> pixel_rect \<Rightarrow> bool" where
  "contains_rect r q \<longleftrightarrow> pr_left r \<le> pr_left q \<and> pr_top r \<le> pr_top q
     \<and> pr_right q \<le> pr_right r \<and> pr_bottom q \<le> pr_bottom r"

definition intersect :: "pixel_rect \<Rightarrow> pixel_rect \<Rightarrow> pixel_rect option" where
  "intersect r q =
     (let left = max (pr_left r) (pr_left q);
          tp = max (pr_top r) (pr_top q);
          right = min (pr_right r) (pr_right q);
          bottom = min (pr_bottom r) (pr_bottom q)
      in if right \<le> left \<or> bottom \<le> tp then None
         else Some \<lparr>pr_left = left, pr_top = tp, pr_right = right, pr_bottom = bottom\<rparr>)"

definition resolve_against :: "pixel_rect \<Rightarrow> pixel_extent \<Rightarrow> clip_policy \<Rightarrow> geometry_fault + pixel_rect" where
  "resolve_against r e policy =
     and_then (to_rect e) (\<lambda>bounds.
       if pixel_rect_is_empty r then Inl EmptyRegion
       else (case policy of
               Reject \<Rightarrow> if contains_rect bounds r then Inr r else Inl OutsideExtent
             | Clip \<Rightarrow> ok_or OutsideExtent (intersect r bounds)))"

definition integral_to_i32 :: "f64 \<Rightarrow> geometry_fault + int" where
  "integral_to_i32 v =
     (case v of
        Fin x \<Rightarrow> (if flt v (f64_of_int i32_min) \<or> flt (f64_of_int i32_max) v then Inl ExtentOverflow
                  else Inr \<lfloor>x\<rfloor>)
      | _ \<Rightarrow> Inl NotFinite)"

definition floor_to_pixel :: "f64 \<Rightarrow> geometry_fault + int" where
  "floor_to_pixel v = integral_to_i32 (ffloor v)"

definition ceil_to_pixel :: "f64 \<Rightarrow> geometry_fault + int" where
  "ceil_to_pixel v = integral_to_i32 (fceil v)"

definition valid_pixel_rect :: "pixel_rect \<Rightarrow> bool" where
  "valid_pixel_rect r \<longleftrightarrow> pr_left r \<le> pr_right r \<and> pr_top r \<le> pr_bottom r
     \<and> in_i32 (pr_left r) \<and> in_i32 (pr_top r) \<and> in_i32 (pr_right r) \<and> in_i32 (pr_bottom r)"

text \<open>The pixels a rectangle encloses.\<close>

definition pixels :: "pixel_rect \<Rightarrow> (int \<times> int) set" where
  "pixels r = {pr_left r ..< pr_right r} \<times> {pr_top r ..< pr_bottom r}"

section \<open>Constructed values are valid\<close>

lemma point_new_Inr:
  "point_new space x y = Inr p \<longleftrightarrow>
     p = \<lparr>pt_space = space, pt_x = x, pt_y = y\<rparr> \<and> valid_point p"
  by (auto simp: point_new_def valid_point_def)

lemma not_flt_iff_fle: "is_finite a \<Longrightarrow> is_finite b \<Longrightarrow> (\<not> flt a b) = fle b a"
  by (auto simp: is_finite_iff)

lemma rect_new_Inr:
  "rect_new space l tp r b = Inr q \<longleftrightarrow>
     q = \<lparr>rc_space = space, rc_left = l, rc_top = tp, rc_right = r, rc_bottom = b\<rparr> \<and> valid_rect q"
  by (auto simp: rect_new_def valid_rect_def not_flt_iff_fle fle_not_flt split: if_splits)

lemma rect_new_not_negative:
  "fle l r \<Longrightarrow> fle tp b \<Longrightarrow> rect_new space l tp r b \<noteq> Inl NegativeSize"
  by (auto simp: rect_new_def dest: fle_not_flt)

lemma pixel_rect_new_Inr:
  "pixel_rect_new l tp r b = Inr q \<longleftrightarrow>
     q = \<lparr>pr_left = l, pr_top = tp, pr_right = r, pr_bottom = b\<rparr> \<and> l \<le> r \<and> tp \<le> b"
  by (auto simp: pixel_rect_new_def)

section \<open>Pixel rectangles as sets of pixels\<close>

lemma u32_of_i64_Some:
  assumes "0 \<le> i" "i < 2 ^ 32"
  obtains w where "u32_of_i64 i = Some w" "uint w = i"
proof
  show "u32_of_i64 i = Some (word_of_int i)" using assms by (simp add: u32_of_i64_def)
  show "uint (word_of_int i :: u32) = i" using assms by (simp add: uint_word_of_int)
qed

lemma pixel_rect_spans:
  assumes "valid_pixel_rect r"
  obtains w h where "pixel_rect_width r = Some w" "pixel_rect_height r = Some h"
    "uint w = pr_right r - pr_left r" "uint h = pr_bottom r - pr_top r"
proof -
  have "0 \<le> pr_right r - pr_left r" "pr_right r - pr_left r < 2 ^ 32"
    "0 \<le> pr_bottom r - pr_top r" "pr_bottom r - pr_top r < 2 ^ 32"
    using assms by (auto simp: valid_pixel_rect_def in_i32_def i32_min_def i32_max_def)
  then show ?thesis
    unfolding pixel_rect_width_def pixel_rect_height_def
    by (metis that pixel_rect_width_def pixel_rect_height_def u32_of_i64_Some)
qed

lemma pixels_empty_iff: "pixels r = {} \<longleftrightarrow> pr_right r \<le> pr_left r \<or> pr_bottom r \<le> pr_top r"
  by (auto simp: pixels_def Times_empty)

lemma pixel_rect_is_empty_iff:
  assumes "valid_pixel_rect r"
  shows "pixel_rect_is_empty r \<longleftrightarrow> pixels r = {}"
proof -
  obtain w h where "pixel_rect_width r = Some w" "pixel_rect_height r = Some h"
    and u: "uint w = pr_right r - pr_left r" "uint h = pr_bottom r - pr_top r"
    using pixel_rect_spans [OF assms] .
  then have "pixel_rect_is_empty r \<longleftrightarrow> uint w = 0 \<or> uint h = 0"
    by (auto simp: pixel_rect_is_empty_def uint_0_iff)
  with u assms show ?thesis by (auto simp: pixels_empty_iff valid_pixel_rect_def)
qed

lemma contains_rect_iff:
  "pixels r \<noteq> {} \<Longrightarrow> contains_rect q r \<longleftrightarrow> pixels r \<subseteq> pixels q"
  by (auto simp: contains_rect_def pixels_empty_iff pixels_def times_subset_iff
                 atLeastLessThan_subset_iff)

lemma intersect_None: "intersect r q = None \<longleftrightarrow> pixels r \<inter> pixels q = {}"
  by (auto simp: intersect_def Let_def pixels_def Times_Int_Times Times_empty Int_atLeastLessThan
                 atLeastLessThan_empty_iff2 split: if_splits)

lemma intersect_Some:
  assumes "intersect r q = Some s"
  shows "pixels s = pixels r \<inter> pixels q" "pixels s \<noteq> {}"
  using assms
  by (auto simp: intersect_def Let_def pixels_def Times_Int_Times Times_empty Int_atLeastLessThan
                 atLeastLessThan_empty_iff2 split: if_splits)

lemma intersect_valid:
  "intersect r q = Some s \<Longrightarrow> valid_pixel_rect r \<Longrightarrow> valid_pixel_rect q \<Longrightarrow> valid_pixel_rect s"
  by (auto simp: intersect_def Let_def valid_pixel_rect_def in_i32_def max_def min_def split: if_splits)

text \<open>An extent both of whose sides are representable edges.\<close>

definition fits_i32 :: "pixel_extent \<Rightarrow> bool" where
  "fits_i32 e \<longleftrightarrow> uint (px_width e) \<le> i32_max \<and> uint (px_height e) \<le> i32_max"

definition frame_rect :: "pixel_extent \<Rightarrow> pixel_rect" where
  "frame_rect e = \<lparr>pr_left = 0, pr_top = 0, pr_right = uint (px_width e), pr_bottom = uint (px_height e)\<rparr>"

lemma to_rect_eq: "to_rect e = (if fits_i32 e then Inr (frame_rect e) else Inl ExtentOverflow)"
  by (auto simp: to_rect_def fits_i32_def i32_of_u32_def pixel_rect_new_def frame_rect_def)

lemma frame_rect_valid: "fits_i32 e \<Longrightarrow> valid_pixel_rect (frame_rect e)"
  using uint_ge_0 [of "px_width e"] uint_ge_0 [of "px_height e"]
  unfolding frame_rect_def fits_i32_def valid_pixel_rect_def in_i32_def i32_min_def i32_max_def
  by (simp; linarith)

text \<open>
  A pixel rectangle's dimensions never overflow: the width and height computed from two ordered
  \<open>i32\<close> edges always fit \<open>u32\<close> and are exactly the number of columns and rows it encloses.
\<close>

theorem pixel_rect_dimensions:
  assumes "valid_pixel_rect r"
  shows "\<exists>w h. pixel_rect_extent r = Some (pixel_extent_new w h)
           \<and> uint w = pr_right r - pr_left r \<and> uint h = pr_bottom r - pr_top r
           \<and> card (pixels r) = unat w * unat h"
proof -
  obtain w h where eq: "pixel_rect_width r = Some w" "pixel_rect_height r = Some h"
    and u: "uint w = pr_right r - pr_left r" "uint h = pr_bottom r - pr_top r"
    using pixel_rect_spans [OF assms] .
  have "card (pixels r) = unat w * unat h"
    using u by (simp add: pixels_def unat_eq_nat_uint)
  with eq u show ?thesis by (auto simp: pixel_rect_extent_def)
qed

theorem pixel_rect_dimensions_witness:
  "\<exists>w h. pixel_rect_extent \<lparr>pr_left = - 2147483648, pr_top = 3, pr_right = 2147483647, pr_bottom = 5\<rparr>
           = Some (pixel_extent_new w h)
         \<and> uint w = 2147483647 - (- 2147483648) \<and> uint h = 5 - 3
         \<and> card (pixels \<lparr>pr_left = - 2147483648, pr_top = 3, pr_right = 2147483647, pr_bottom = 5\<rparr>)
             = unat w * unat h"
  using pixel_rect_dimensions
          [of "\<lparr>pr_left = - 2147483648, pr_top = 3, pr_right = 2147483647, pr_bottom = 5\<rparr>"]
  by (simp add: valid_pixel_rect_def in_i32_def i32_min_def i32_max_def)

lemma resolve_against_facts:
  assumes "valid_pixel_rect r" "fits_i32 e" "resolve_against r e policy = Inr q"
  shows "pixels q \<noteq> {}" "pixels q = pixels r \<inter> pixels (frame_rect e)" "policy = Reject \<longrightarrow> q = r"
    "valid_pixel_rect q"
proof -
  from assms have ne: "pixels r \<noteq> {}"
    by (auto simp: resolve_against_def to_rect_eq pixel_rect_is_empty_iff split: if_splits)
  have "(policy = Reject \<and> contains_rect (frame_rect e) r \<and> q = r)
        \<or> (policy = Clip \<and> intersect r (frame_rect e) = Some q)"
    using assms ne
    by (cases policy)
       (auto simp: resolve_against_def to_rect_eq pixel_rect_is_empty_iff result_simps split: if_splits)
  then show "pixels q \<noteq> {}" "pixels q = pixels r \<inter> pixels (frame_rect e)" "policy = Reject \<longrightarrow> q = r"
    "valid_pixel_rect q"
    using ne assms intersect_Some [of r "frame_rect e" q] intersect_valid [of r "frame_rect e" q]
      frame_rect_valid [OF assms(2)]
    by (auto simp: contains_rect_iff)
qed

lemma resolve_against_Inl:
  assumes "valid_pixel_rect r" "fits_i32 e" "resolve_against r e policy = Inl f"
  shows "(f = EmptyRegion \<and> pixels r = {})
     \<or> (f = OutsideExtent \<and> pixels r \<noteq> {}
         \<and> (if policy = Reject then \<not> pixels r \<subseteq> pixels (frame_rect e)
            else pixels r \<inter> pixels (frame_rect e) = {}))"
  using assms
  by (cases policy)
     (auto simp: resolve_against_def to_rect_eq pixel_rect_is_empty_iff result_simps contains_rect_iff
        intersect_None split: if_splits)

text \<open>
  Resolving a region against a frame, on every branch: a frame whose extent does not fit signed pixel
  coordinates is refused before anything else, for an empty region too; otherwise an empty region is refused
  whatever the policy, rejecting accepts exactly the regions inside the frame and returns them unchanged, and
  clipping answers exactly the overlap and fails only when nothing overlaps.
\<close>

theorem resolve_against_correct:
  assumes "valid_pixel_rect r"
  shows "case resolve_against r e policy of
           Inr q \<Rightarrow> fits_i32 e \<and> pixels q \<noteq> {} \<and> pixels q = pixels r \<inter> pixels (frame_rect e)
                     \<and> (policy = Reject \<longrightarrow> q = r) \<and> valid_pixel_rect q
         | Inl f \<Rightarrow> (f = ExtentOverflow \<and> \<not> fits_i32 e)
                     \<or> (f = EmptyRegion \<and> fits_i32 e \<and> pixels r = {})
                     \<or> (f = OutsideExtent \<and> fits_i32 e \<and> pixels r \<noteq> {}
                        \<and> (if policy = Reject then \<not> pixels r \<subseteq> pixels (frame_rect e)
                           else pixels r \<inter> pixels (frame_rect e) = {}))"
proof (cases "fits_i32 e")
  case True
  show ?thesis
  proof (cases "resolve_against r e policy")
    case (Inl f)
    then show ?thesis using resolve_against_Inl [OF assms True Inl] True by auto
  next
    case (Inr q)
    then show ?thesis using resolve_against_facts [OF assms True Inr] True by simp
  qed
next
  case False
  then show ?thesis by (simp add: resolve_against_def to_rect_eq)
qed

theorem resolve_against_correct_witness:
  "\<exists>q. resolve_against \<lparr>pr_left = - 4, pr_top = 2, pr_right = 6, pr_bottom = 9\<rparr>
          \<lparr>px_width = 10, px_height = 8\<rparr> Clip = Inr q
      \<and> pixels q = pixels \<lparr>pr_left = - 4, pr_top = 2, pr_right = 6, pr_bottom = 9\<rparr>
                   \<inter> pixels (frame_rect \<lparr>px_width = 10, px_height = 8\<rparr>)"
proof -
  have v: "valid_pixel_rect \<lparr>pr_left = - 4, pr_top = 2, pr_right = 6, pr_bottom = 9\<rparr>"
    and f: "fits_i32 \<lparr>px_width = 10, px_height = 8\<rparr>"
    by (simp_all add: valid_pixel_rect_def in_i32_def fits_i32_def i32_min_def i32_max_def)
  have r: "resolve_against \<lparr>pr_left = - 4, pr_top = 2, pr_right = 6, pr_bottom = 9\<rparr>
             \<lparr>px_width = 10, px_height = 8\<rparr> Clip
           = Inr \<lparr>pr_left = 0, pr_top = 2, pr_right = 6, pr_bottom = 8\<rparr>"
    by (simp add: resolve_against_def to_rect_eq f frame_rect_def pixel_rect_is_empty_def
          pixel_rect_width_def pixel_rect_height_def u32_of_i64_def intersect_def Let_def)
  show ?thesis using resolve_against_correct [OF v, of "\<lparr>px_width = 10, px_height = 8\<rparr>" Clip] f r by simp
qed

section \<open>Rounding to pixels\<close>

lemma floor_to_pixel_Inr:
  "floor_to_pixel v = Inr i \<longleftrightarrow> (\<exists>x. v = Fin x \<and> i = \<lfloor>x\<rfloor> \<and> in_i32 i)"
  by (cases v)
     (auto simp: floor_to_pixel_def integral_to_i32_def f64_of_int_def in_i32_def not_less split: if_splits)

lemma ceil_to_pixel_Inr:
  "ceil_to_pixel v = Inr i \<longleftrightarrow> (\<exists>x. v = Fin x \<and> i = \<lceil>x\<rceil> \<and> in_i32 i)"
  by (cases v)
     (auto simp: ceil_to_pixel_def integral_to_i32_def f64_of_int_def in_i32_def not_less split: if_splits)

end
