(* ===== verification/Identity.thy ===== *)
theory Identity
  imports Status
begin

text \<open>
  Engine-scoped identities, stream epochs, frame sequences and frame stamps:
  \<open>crates/automation/core/src/identity.rs\<close>. The atomic counters of the issuer are the \<open>u64\<close> values
  they hold; the stream cursor is threaded explicitly. An operation that fails leaves the state it was
  given, as the Rust code returns before it writes.
\<close>

section \<open>Faults\<close>

datatype identity_fault =
    ForeignEngine
  | ForeignProvider
  | Exhausted
  | SequenceExhausted
  | EpochExhausted
  | StreamMismatch

fun identity_fault_status :: "identity_fault \<Rightarrow> status" where
  "identity_fault_status ForeignEngine = InvalidArgument"
| "identity_fault_status ForeignProvider = InvalidArgument"
| "identity_fault_status StreamMismatch = InvalidArgument"
| "identity_fault_status Exhausted = LimitExceeded"
| "identity_fault_status SequenceExhausted = LimitExceeded"
| "identity_fault_status EpochExhausted = LimitExceeded"

fun identity_fault_detail :: "identity_fault \<Rightarrow> string" where
  "identity_fault_detail ForeignEngine = ''identity was issued by another engine''"
| "identity_fault_detail ForeignProvider = ''identity was issued by another provider''"
| "identity_fault_detail Exhausted = ''identity space is exhausted''"
| "identity_fault_detail SequenceExhausted = ''stream frame sequence is exhausted''"
| "identity_fault_detail EpochExhausted = ''stream epoch counter is exhausted''"
| "identity_fault_detail StreamMismatch = ''frame identities belong to different streams''"

definition identity_error :: "identity_fault \<Rightarrow> error" where
  "identity_error f = mk_error (identity_fault_status f) (identity_fault_detail f)"

section \<open>Identities\<close>

datatype engine_id = EngineId u64

datatype provider_id = ProviderId (provider_name: string)

record target_id =
  tgt_engine :: engine_id
  tgt_provider :: provider_id
  tgt_ordinal :: u64

record stream_id =
  str_engine :: engine_id
  str_ordinal :: u64

definition target_check_engine :: "target_id \<Rightarrow> engine_id \<Rightarrow> identity_fault + unit" where
  "target_check_engine t e = (if tgt_engine t = e then Inr () else Inl ForeignEngine)"

definition check_provider :: "target_id \<Rightarrow> provider_id \<Rightarrow> identity_fault + unit" where
  "check_provider t p = (if tgt_provider t = p then Inr () else Inl ForeignProvider)"

definition check_issued_by :: "target_id \<Rightarrow> engine_id \<Rightarrow> provider_id \<Rightarrow> identity_fault + unit" where
  "check_issued_by t e p = and_then (target_check_engine t e) (\<lambda>_. check_provider t p)"

definition stream_check_engine :: "stream_id \<Rightarrow> engine_id \<Rightarrow> identity_fault + unit" where
  "stream_check_engine s e = (if str_engine s = e then Inr () else Inl ForeignEngine)"

section \<open>Epochs, sequences, revisions and stamps\<close>

datatype stream_epoch = StreamEpoch (epoch_value: u64)

datatype frame_sequence = FrameSequence (sequence_value: u64)

datatype geometry_revision = GeometryRevision (revision_value: u64)

definition epoch_first :: stream_epoch where "epoch_first = StreamEpoch 0"

definition sequence_first :: frame_sequence where "sequence_first = FrameSequence 0"

definition revision_first :: geometry_revision where "revision_first = GeometryRevision 0"

fun revision_next :: "geometry_revision \<Rightarrow> geometry_revision option" where
  "revision_next (GeometryRevision r) = map_option GeometryRevision (checked_add r 1)"

instantiation stream_epoch :: linorder
begin

definition less_eq_stream_epoch :: "stream_epoch \<Rightarrow> stream_epoch \<Rightarrow> bool" where
  "less_eq_stream_epoch a b = (epoch_value a \<le> epoch_value b)"

definition less_stream_epoch :: "stream_epoch \<Rightarrow> stream_epoch \<Rightarrow> bool" where
  "less_stream_epoch a b = (epoch_value a < epoch_value b)"

instance
  by standard (auto simp: less_eq_stream_epoch_def less_stream_epoch_def stream_epoch.expand)

end

instantiation frame_sequence :: linorder
begin

definition less_eq_frame_sequence :: "frame_sequence \<Rightarrow> frame_sequence \<Rightarrow> bool" where
  "less_eq_frame_sequence a b = (sequence_value a \<le> sequence_value b)"

definition less_frame_sequence :: "frame_sequence \<Rightarrow> frame_sequence \<Rightarrow> bool" where
  "less_frame_sequence a b = (sequence_value a < sequence_value b)"

instance
  by standard (auto simp: less_eq_frame_sequence_def less_frame_sequence_def frame_sequence.expand)

end

lemmas stamp_order_defs =
  less_eq_stream_epoch_def less_stream_epoch_def less_eq_frame_sequence_def less_frame_sequence_def

record frame_stamp =
  fs_stream :: stream_id
  fs_epoch :: stream_epoch
  fs_sequence :: frame_sequence
  fs_geometry :: geometry_revision

definition stamp_new :: "stream_id \<Rightarrow> stream_epoch \<Rightarrow> frame_sequence \<Rightarrow> geometry_revision \<Rightarrow> frame_stamp" where
  "stamp_new s e q g = \<lparr>fs_stream = s, fs_epoch = e, fs_sequence = q, fs_geometry = g\<rparr>"

datatype frame_order = Before | Same | After

definition is_same_stream :: "frame_stamp \<Rightarrow> frame_stamp \<Rightarrow> bool" where
  "is_same_stream a b \<longleftrightarrow> fs_stream a = fs_stream b"

text \<open>Epoch first, then sequence: the lexicographic comparison of the pair.\<close>

definition stamp_order :: "frame_stamp \<Rightarrow> frame_stamp \<Rightarrow> identity_fault + frame_order" where
  "stamp_order a b =
     (if \<not> is_same_stream a b then Inl StreamMismatch
      else if fs_epoch a < fs_epoch b
              \<or> (fs_epoch a = fs_epoch b \<and> fs_sequence a < fs_sequence b) then Inr Before
      else if fs_epoch a = fs_epoch b \<and> fs_sequence a = fs_sequence b then Inr Same
      else Inr After)"

section \<open>The issuer\<close>

record identity_issuer =
  iss_engine :: engine_id
  iss_next_target :: u64
  iss_next_stream :: u64

text \<open>
  \<open>fetch_update(checked_add(1))\<close> followed by \<open>NonZeroU64::new(previous.wrapping_add(1))\<close>: the ordinal
  handed out and the counter's new value, or \<open>Exhausted\<close> with the counter unchanged.
\<close>

definition next_ordinal :: "u64 \<Rightarrow> (identity_fault + u64) \<times> u64" where
  "next_ordinal counter =
     (case checked_add counter 1 of
        None \<Rightarrow> (Inl Exhausted, counter)
      | Some updated \<Rightarrow>
          (if counter + 1 = 0 then (Inl Exhausted, updated) else (Inr (counter + 1), updated)))"

text \<open>
  A new engine takes the next value of the process-wide counter; the issuer's own counters start at
  zero. \<open>None\<close> stands for the documented panic on an exhausted engine space.
\<close>

definition issuer_new :: "u64 \<Rightarrow> identity_issuer option \<times> u64" where
  "issuer_new next_engine =
     (case checked_add next_engine 1 of
        None \<Rightarrow> (None, next_engine)
      | Some updated \<Rightarrow>
          (if next_engine + 1 = 0 then (None, updated)
           else (Some \<lparr>iss_engine = EngineId (next_engine + 1), iss_next_target = 0, iss_next_stream = 0\<rparr>,
                 updated)))"

definition issue_target :: "identity_issuer \<Rightarrow> provider_id \<Rightarrow> (identity_fault + target_id) \<times> identity_issuer" where
  "issue_target iss p =
     (let (r, counter) = next_ordinal (iss_next_target iss)
      in (and_then r (\<lambda>ordinal. Inr \<lparr>tgt_engine = iss_engine iss, tgt_provider = p, tgt_ordinal = ordinal\<rparr>),
          iss\<lparr>iss_next_target := counter\<rparr>))"

definition issue_stream :: "identity_issuer \<Rightarrow> (identity_fault + stream_id) \<times> identity_issuer" where
  "issue_stream iss =
     (let (r, counter) = next_ordinal (iss_next_stream iss)
      in (and_then r (\<lambda>ordinal. Inr \<lparr>str_engine = iss_engine iss, str_ordinal = ordinal\<rparr>),
          iss\<lparr>iss_next_stream := counter\<rparr>))"

section \<open>The cursor\<close>

record stream_cursor =
  cur_stream :: stream_id
  cur_epoch :: stream_epoch
  cur_next_sequence :: "u64 option"

definition cursor_new :: "stream_id \<Rightarrow> stream_cursor" where
  "cursor_new s = \<lparr>cur_stream = s, cur_epoch = epoch_first, cur_next_sequence = Some 0\<rparr>"

definition cursor_publish ::
    "stream_cursor \<Rightarrow> geometry_revision \<Rightarrow> identity_fault + frame_stamp \<times> stream_cursor" where
  "cursor_publish c g =
     and_then (ok_or SequenceExhausted (cur_next_sequence c))
       (\<lambda>sequence. Inr (stamp_new (cur_stream c) (cur_epoch c) (FrameSequence sequence) g,
                       c\<lparr>cur_next_sequence := checked_add sequence 1\<rparr>))"

definition cursor_skip :: "stream_cursor \<Rightarrow> u64 \<Rightarrow> identity_fault + stream_cursor" where
  "cursor_skip c count =
     (if count = 0 then Inr c
      else and_then (ok_or SequenceExhausted (cur_next_sequence c))
             (\<lambda>sequence. and_then (ok_or SequenceExhausted (checked_add sequence count))
                (\<lambda>moved. Inr (c\<lparr>cur_next_sequence := Some moved\<rparr>))))"

definition cursor_begin_epoch :: "stream_cursor \<Rightarrow> identity_fault + stream_epoch \<times> stream_cursor" where
  "cursor_begin_epoch c =
     and_then (ok_or EpochExhausted (checked_add (epoch_value (cur_epoch c)) 1))
       (\<lambda>epoch. Inr (StreamEpoch epoch,
                    c\<lparr>cur_epoch := StreamEpoch epoch, cur_next_sequence := Some 0\<rparr>))"

section \<open>Stamps are totally ordered within a stream\<close>

text \<open>A stamp's position in its stream: epochs are blocks of \<open>2 ^ 64\<close> sequences.\<close>

definition stamp_position :: "frame_stamp \<Rightarrow> nat" where
  "stamp_position a = unat (epoch_value (fs_epoch a)) * 2 ^ 64 + unat (sequence_value (fs_sequence a))"

lemma block_less_iff:
  fixes a b i j n :: nat
  assumes "i < n" "j < n"
  shows "a * n + i < b * n + j \<longleftrightarrow> a < b \<or> (a = b \<and> i < j)"
proof (cases a b rule: linorder_cases)
  case less
  then have "a * n + n \<le> b * n" by (metis add_mult_distrib mult_le_mono1 Suc_leI mult_Suc add.commute)
  with assms less show ?thesis by linarith
next
  case equal
  then show ?thesis by simp
next
  case greater
  then have "b * n + n \<le> a * n" by (metis mult_le_mono1 Suc_leI mult_Suc add.commute)
  with assms greater show ?thesis by linarith
qed

lemma block_eq_iff:
  fixes a b i j n :: nat
  assumes "i < n" "j < n"
  shows "a * n + i = b * n + j \<longleftrightarrow> a = b \<and> i = j"
  using block_less_iff [OF assms, of a b] block_less_iff [OF assms(2) assms(1), of b a]
  by (metis less_irrefl linorder_neqE_nat)

lemma stamp_position_less_iff:
  "stamp_position a < stamp_position b \<longleftrightarrow>
     fs_epoch a < fs_epoch b \<or> (fs_epoch a = fs_epoch b \<and> fs_sequence a < fs_sequence b)"
proof -
  have "fs_epoch a = fs_epoch b \<longleftrightarrow> unat (epoch_value (fs_epoch a)) = unat (epoch_value (fs_epoch b))"
    by (metis stream_epoch.expand unsigned_word_eqI)
  then show ?thesis
    unfolding stamp_position_def
    by (subst block_less_iff)
       (simp_all add: stamp_order_defs word_less_nat_alt)
qed

lemma stamp_position_eq_iff:
  "stamp_position a = stamp_position b \<longleftrightarrow> fs_epoch a = fs_epoch b \<and> fs_sequence a = fs_sequence b"
  unfolding stamp_position_def
  by (subst block_eq_iff)
     (auto simp: stream_epoch.expand frame_sequence.expand unsigned_word_eqI)

lemma stamp_order_position:
  "stamp_order a b =
     (if fs_stream a \<noteq> fs_stream b then Inl StreamMismatch
      else if stamp_position a < stamp_position b then Inr Before
      else if stamp_position a = stamp_position b then Inr Same
      else Inr After)"
  by (simp add: stamp_order_def is_same_stream_def stamp_position_less_iff stamp_position_eq_iff)

lemma stamp_order_Before_iff:
  "stamp_order a b = Inr Before \<longleftrightarrow> fs_stream a = fs_stream b \<and> stamp_position a < stamp_position b"
  by (simp add: stamp_order_position)

lemma stamp_order_After_iff:
  "stamp_order a b = Inr After \<longleftrightarrow> fs_stream a = fs_stream b \<and> stamp_position b < stamp_position a"
  by (auto simp: stamp_order_position)

lemma stamp_order_Same_iff:
  "stamp_order a b = Inr Same \<longleftrightarrow> fs_stream a = fs_stream b \<and> stamp_position a = stamp_position b"
  by (simp add: stamp_order_position)

text \<open>
  Within one stream frames are totally ordered by epoch and then sequence: comparing the other way
  round mirrors the answer, the order is transitive, equal answers mean the same epoch and sequence, and
  frames of different streams are refused rather than ordered.
\<close>

theorem stamp_order_total:
  "(stamp_order a b = Inr Before) = (stamp_order b a = Inr After)
   \<and> (stamp_order a b = Inr Same) = (stamp_order b a = Inr Same)
   \<and> (stamp_order a b = Inl StreamMismatch) = (fs_stream a \<noteq> fs_stream b)
   \<and> (stamp_order a b = Inr Before \<and> stamp_order b c = Inr Before \<longrightarrow> stamp_order a c = Inr Before)
   \<and> (stamp_order a b = Inr Same \<longrightarrow> fs_epoch a = fs_epoch b \<and> fs_sequence a = fs_sequence b)"
proof (intro conjI impI)
  show "(stamp_order a b = Inr Before) = (stamp_order b a = Inr After)"
    by (auto simp: stamp_order_Before_iff stamp_order_After_iff)
  show "(stamp_order a b = Inr Same) = (stamp_order b a = Inr Same)"
    by (auto simp: stamp_order_Same_iff)
  show "(stamp_order a b = Inl StreamMismatch) = (fs_stream a \<noteq> fs_stream b)"
    by (simp add: stamp_order_position)
  assume "stamp_order a b = Inr Before \<and> stamp_order b c = Inr Before"
  then show "stamp_order a c = Inr Before" by (auto simp: stamp_order_Before_iff)
qed (simp_all add: stamp_order_Same_iff stamp_position_eq_iff)

theorem stamp_order_total_witness:
  "stamp_order (stamp_new \<lparr>str_engine = EngineId 1, str_ordinal = 1\<rparr> (StreamEpoch 0) (FrameSequence 9) (GeometryRevision 0))
               (stamp_new \<lparr>str_engine = EngineId 1, str_ordinal = 1\<rparr> (StreamEpoch 2) (FrameSequence 0) (GeometryRevision 4))
   = Inr Before"
proof -
  have "stamp_order (stamp_new \<lparr>str_engine = EngineId 1, str_ordinal = 1\<rparr> (StreamEpoch 0) (FrameSequence 9) (GeometryRevision 0))
               (stamp_new \<lparr>str_engine = EngineId 1, str_ordinal = 1\<rparr> (StreamEpoch 1) (FrameSequence 3) (GeometryRevision 0)) = Inr Before"
    and "stamp_order (stamp_new \<lparr>str_engine = EngineId 1, str_ordinal = 1\<rparr> (StreamEpoch 1) (FrameSequence 3) (GeometryRevision 0))
               (stamp_new \<lparr>str_engine = EngineId 1, str_ordinal = 1\<rparr> (StreamEpoch 2) (FrameSequence 0) (GeometryRevision 4)) = Inr Before"
    by (simp_all add: stamp_order_def stamp_new_def is_same_stream_def stamp_order_defs)
  then show ?thesis using stamp_order_total by blast
qed

section \<open>Nothing is issued twice\<close>

lemma next_ordinal_cases:
  "next_ordinal c = (if c = - 1 then (Inl Exhausted, c) else (Inr (c + 1), c + 1))"
proof (cases "c = - 1")
  case True
  then show ?thesis
    by (simp add: next_ordinal_def checked_add_def unsigned_minus_1_eq_mask mask_eq_exp_minus_1)
next
  case False
  then have ne: "c + 1 \<noteq> 0" by (metis eq_neg_iff_add_eq_0)
  then have "unat (c + 1) = Suc (unat c)"
    by (metis unatSuc add.commute)
  with unat_lt_2p64 [of "c + 1"] ne False show ?thesis
    by (simp add: next_ordinal_def checked_add_def)
qed

lemma unat_plus_one: "(c :: u64) \<noteq> - 1 \<Longrightarrow> unat (c + 1) = Suc (unat c)"
  by (metis add.commute eq_neg_iff_add_eq_0 unatSuc)

text \<open>The operations as machines that hand out identities and stamps, or nothing when they fail.\<close>

definition issue_target_step ::
    "provider_id \<Rightarrow> identity_issuer \<Rightarrow> target_id option \<times> identity_issuer" where
  "issue_target_step p iss =
     (case issue_target iss p of (Inr t, iss') \<Rightarrow> (Some t, iss') | (Inl _, iss') \<Rightarrow> (None, iss'))"

definition issue_stream_step :: "unit \<Rightarrow> identity_issuer \<Rightarrow> stream_id option \<times> identity_issuer" where
  "issue_stream_step u iss =
     (case issue_stream iss of (Inr t, iss') \<Rightarrow> (Some t, iss') | (Inl _, iss') \<Rightarrow> (None, iss'))"

lemma issue_target_eq:
  "issue_target iss p =
     (if iss_next_target iss = - 1 then (Inl Exhausted, iss)
      else (Inr \<lparr>tgt_engine = iss_engine iss, tgt_provider = p, tgt_ordinal = iss_next_target iss + 1\<rparr>,
            iss\<lparr>iss_next_target := iss_next_target iss + 1\<rparr>))"
  by (simp add: issue_target_def next_ordinal_cases)

lemma issue_stream_eq:
  "issue_stream iss =
     (if iss_next_stream iss = - 1 then (Inl Exhausted, iss)
      else (Inr \<lparr>str_engine = iss_engine iss, str_ordinal = iss_next_stream iss + 1\<rparr>,
            iss\<lparr>iss_next_stream := iss_next_stream iss + 1\<rparr>))"
  by (simp add: issue_stream_def next_ordinal_cases)

interpretation targets: issuing_machine issue_target_step
    "\<lambda>t. unat (tgt_ordinal t)" "\<lambda>iss. Suc (unat (iss_next_target iss))"
  by unfold_locales
     (auto simp: issue_target_step_def issue_target_eq unat_plus_one split: if_splits)

interpretation streams: issuing_machine issue_stream_step
    "\<lambda>t. unat (str_ordinal t)" "\<lambda>iss. Suc (unat (iss_next_stream iss))"
  by unfold_locales
     (auto simp: issue_stream_step_def issue_stream_eq unat_plus_one split: if_splits)

datatype cursor_op = CursorPublish geometry_revision | CursorSkip u64 | CursorBeginEpoch

fun cursor_step :: "cursor_op \<Rightarrow> stream_cursor \<Rightarrow> frame_stamp option \<times> stream_cursor" where
  "cursor_step (CursorPublish g) c =
     (case cursor_publish c g of Inr (stamp, c') \<Rightarrow> (Some stamp, c') | Inl _ \<Rightarrow> (None, c))"
| "cursor_step (CursorSkip n) c = (case cursor_skip c n of Inr c' \<Rightarrow> (None, c') | Inl _ \<Rightarrow> (None, c))"
| "cursor_step CursorBeginEpoch c =
     (case cursor_begin_epoch c of Inr (_, c') \<Rightarrow> (None, c') | Inl _ \<Rightarrow> (None, c))"

text \<open>Where the cursor stands: every stamp it can still issue lies at or above its mark.\<close>

definition cursor_mark :: "stream_cursor \<Rightarrow> nat" where
  "cursor_mark c = unat (epoch_value (cur_epoch c)) * 2 ^ 64
                 + (case cur_next_sequence c of Some n \<Rightarrow> unat n | None \<Rightarrow> 2 ^ 64)"

lemma checked_add_one_mark:
  "(case checked_add n 1 of Some m \<Rightarrow> unat m | None \<Rightarrow> 2 ^ 64) = Suc (unat (n :: u64))"
proof (cases "checked_add n 1")
  case None
  then have "2 ^ 64 \<le> unat n + 1" by (simp add: word_facts)
  moreover have "unat n < 2 ^ 64" by simp
  ultimately have "Suc (unat n) = 2 ^ 64" by linarith
  with None show ?thesis by simp
next
  case (Some m)
  then show ?thesis by (simp add: checked_add_Some_unat)
qed

lemma cursor_publish_Inr:
  assumes "cursor_publish c g = Inr (stamp, c')"
  shows "cursor_mark c' = Suc (cursor_mark c)" "stamp_position stamp = cursor_mark c"
    "fs_stream stamp = cur_stream c" "cur_stream c' = cur_stream c" "cur_epoch c' = cur_epoch c"
    "fs_epoch stamp = cur_epoch c" "fs_geometry stamp = g"
  using assms
  by (auto simp: cursor_publish_def result_simps cursor_mark_def stamp_position_def stamp_new_def
                 checked_add_one_mark)

lemma cursor_skip_mark:
  "cursor_skip c n = Inr c' \<Longrightarrow> cursor_mark c' = cursor_mark c + unat n"
  by (auto simp: cursor_skip_def result_simps cursor_mark_def word_facts split: if_splits)

lemma cursor_begin_epoch_Inr:
  assumes "cursor_begin_epoch c = Inr (e, c')"
  shows "unat (epoch_value e) = Suc (unat (epoch_value (cur_epoch c)))" "cur_epoch c' = e"
    "cur_next_sequence c' = Some 0" "cur_stream c' = cur_stream c" "cursor_mark c \<le> cursor_mark c'"
proof -
  from assms have ca: "checked_add (epoch_value (cur_epoch c)) 1 = Some (epoch_value e)"
    and c': "c' = c\<lparr>cur_epoch := e, cur_next_sequence := Some 0\<rparr>"
    by (auto simp: cursor_begin_epoch_def result_simps)
  from checked_add_Some_unat [OF ca]
  show e: "unat (epoch_value e) = Suc (unat (epoch_value (cur_epoch c)))" by simp
  show "cur_epoch c' = e" "cur_next_sequence c' = Some 0" "cur_stream c' = cur_stream c"
    using c' by simp_all
  show "cursor_mark c \<le> cursor_mark c'"
    using e c' by (auto simp: cursor_mark_def less_imp_le split: option.splits)
qed

lemma cursor_step_mono: "cursor_step x c = (r, c') \<Longrightarrow> cursor_mark c \<le> cursor_mark c'"
  by (cases x)
     (auto dest: cursor_publish_Inr(1) cursor_skip_mark cursor_begin_epoch_Inr(5) split: sum.splits)

lemma cursor_step_Some:
  "cursor_step x c = (Some v, c') \<longleftrightarrow> (\<exists>g. x = CursorPublish g \<and> cursor_publish c g = Inr (v, c'))"
  by (cases x) (auto split: sum.splits)

lemma cursor_step_issue:
  "cursor_step x c = (Some v, c') \<Longrightarrow> cursor_mark c \<le> stamp_position v \<and> stamp_position v < cursor_mark c'"
  unfolding cursor_step_Some using cursor_publish_Inr(1,2) by fastforce

interpretation cursor: issuing_machine cursor_step stamp_position cursor_mark
  by (unfold_locales; (erule cursor_step_mono | erule cursor_step_issue))

lemma cursor_step_stream:
  "cursor_step x c = (r, c') \<Longrightarrow> cur_stream c' = cur_stream c"
  by (cases x)
     (auto simp: cursor_skip_def result_simps split: sum.splits if_splits
           dest: cursor_publish_Inr(4) cursor_begin_epoch_Inr(4))

lemma cursor_step_stamp:
  "cursor_step x c = (Some v, c') \<Longrightarrow> fs_stream v = cur_stream c"
  unfolding cursor_step_Some using cursor_publish_Inr(3) by blast

lemma cursor_run_stream:
  "run_issue cursor_step xs c = (vs, c') \<Longrightarrow> v \<in> set vs \<Longrightarrow> fs_stream v = cur_stream c"
proof (induction xs arbitrary: c vs c')
  case Nil
  then show ?case by simp
next
  case (Cons x xs)
  obtain r d where step: "cursor_step x c = (r, d)" by (cases "cursor_step x c")
  obtain ws e where rest: "run_issue cursor_step xs d = (ws, e)" by (cases "run_issue cursor_step xs d")
  from Cons.prems(1) step rest have vs: "vs = (case r of None \<Rightarrow> ws | Some w \<Rightarrow> w # ws)" by simp
  show ?case
  proof (cases "v \<in> set ws")
    case True
    with Cons.IH [OF rest] cursor_step_stream [OF step] show ?thesis by simp
  next
    case False
    with vs Cons.prems(2) have "r = Some v" by (auto split: option.splits)
    with step cursor_step_stamp show ?thesis by blast
  qed
qed

text \<open>
  C23: whatever sequence of publications, skips and epoch changes a stream's cursor performs, the stamps
  it hands out come in strictly increasing order: each one is \<open>Before\<close> every later one, so no stamp is
  ever issued twice, even across a new epoch that restarts the sequence at zero.
\<close>

theorem cursor_stamps_increase:
  "sorted_wrt (\<lambda>a b. stamp_order a b = Inr Before) (fst (run_issue cursor_step ops c))"
proof -
  obtain vs c' where run: "run_issue cursor_step ops c = (vs, c')" by fastforce
  have "sorted_wrt (\<lambda>a b. stamp_position a < stamp_position b) vs"
    by (rule cursor.run_issue_increasing [OF run])
  then have "sorted_wrt (\<lambda>a b. stamp_order a b = Inr Before) vs"
    by (rule sorted_wrt_mono_rel [rotated])
       (simp add: stamp_order_Before_iff cursor_run_stream [OF run])
  then show ?thesis by (simp add: run)
qed

text \<open>
  An issuer never hands out the same target or stream identity twice, whatever is requested, and an
  exhausted counter stays exhausted instead of wrapping.
\<close>

theorem issued_identities_distinct:
  "distinct (fst (run_issue issue_target_step ps iss))
   \<and> distinct (fst (run_issue issue_stream_step us iss))
   \<and> issue_target (iss\<lparr>iss_next_target := - 1\<rparr>) p = (Inl Exhausted, iss\<lparr>iss_next_target := - 1\<rparr>)"
proof (intro conjI)
  show "distinct (fst (run_issue issue_target_step ps iss))"
    using targets.run_issue_distinct by (metis prod.collapse)
  show "distinct (fst (run_issue issue_stream_step us iss))"
    using streams.run_issue_distinct by (metis prod.collapse)
qed (simp add: issue_target_eq)

end
