(* ===== verification/Capability.thy ===== *)
theory Capability
  imports Geometry Identity
begin

text \<open>
  Authorization outcomes (\<open>permission.rs\<close>) and what a provider can do with a target
  (\<open>capability.rs\<close>), both under \<open>crates/automation/core/src\<close>. The five parallel arrays of an
  \<open>InputCapability\<close> are lists of nine entries, one per operation-and-route pair, addressed by
  \<open>pair_index\<close> as the code addresses them. A probe of the operating system is an argument.
\<close>

section \<open>permission.rs\<close>

datatype permission_kind = ScreenCapture | InputControl

definition permission_kind_all :: "permission_kind list" where
  "permission_kind_all = [ScreenCapture, InputControl]"

fun permission_kind_as_str :: "permission_kind \<Rightarrow> string" where
  "permission_kind_as_str ScreenCapture = ''screen_capture''"
| "permission_kind_as_str InputControl = ''input_control''"

datatype permission_state = Granted | NotGranted | Unavailable | PermissionUnknown

fun state_is_granted :: "permission_state \<Rightarrow> bool" where
  "state_is_granted Granted = True"
| "state_is_granted _ = False"

fun state_is_refused :: "permission_state \<Rightarrow> bool" where
  "state_is_refused NotGranted = True"
| "state_is_refused _ = False"

fun permission_state_as_str :: "permission_state \<Rightarrow> string" where
  "permission_state_as_str Granted = ''granted''"
| "permission_state_as_str NotGranted = ''not_granted''"
| "permission_state_as_str Unavailable = ''unavailable''"
| "permission_state_as_str PermissionUnknown = ''unknown''"

text \<open>The redacted diagnostic is carried and never inspected, so its type is a parameter.\<close>

record 'd permission_outcome =
  po_kind :: permission_kind
  po_state :: permission_state
  po_diagnostic :: "'d option"

definition permission_outcome_new :: "permission_kind \<Rightarrow> permission_state \<Rightarrow> 'd permission_outcome" where
  "permission_outcome_new k st = \<lparr>po_kind = k, po_state = st, po_diagnostic = None\<rparr>"

definition with_diagnostic :: "'d permission_outcome \<Rightarrow> 'd \<Rightarrow> 'd permission_outcome" where
  "with_diagnostic oc d = oc\<lparr>po_diagnostic := Some d\<rparr>"

definition outcome_is_granted :: "'d permission_outcome \<Rightarrow> bool" where
  "outcome_is_granted oc = state_is_granted (po_state oc)"

record 'd permission_report =
  rep_capture :: "'d permission_outcome"
  rep_input :: "'d permission_outcome"

text \<open>\<open>None\<close> is the panic of the two assertions.\<close>

definition permission_report_new ::
    "'d permission_outcome \<Rightarrow> 'd permission_outcome \<Rightarrow> 'd permission_report option" where
  "permission_report_new c i =
     (if po_kind c = ScreenCapture \<and> po_kind i = InputControl
      then Some \<lparr>rep_capture = c, rep_input = i\<rparr> else None)"

fun report_outcome :: "'d permission_report \<Rightarrow> permission_kind \<Rightarrow> 'd permission_outcome" where
  "report_outcome r ScreenCapture = rep_capture r"
| "report_outcome r InputControl = rep_input r"

text \<open>The default \<open>report\<close> of a probe: both reads in order, the first failure ending it.\<close>

definition probe_report ::
    "(permission_kind \<Rightarrow> error + 'd permission_outcome) \<Rightarrow> error + 'd permission_report option" where
  "probe_report probe =
     and_then (probe ScreenCapture) (\<lambda>c.
     and_then (probe InputControl) (\<lambda>i.
       Inr (permission_report_new c i)))"

section \<open>capability.rs: operations, routes, evidence\<close>

datatype target_kind = Window | Display

fun target_kind_as_str :: "target_kind \<Rightarrow> string" where
  "target_kind_as_str Window = ''window''"
| "target_kind_as_str Display = ''display''"

datatype capability_support = Supported | SupportNone | SupportUnknown

fun may_attempt :: "capability_support \<Rightarrow> bool" where
  "may_attempt Supported = True"
| "may_attempt SupportUnknown = True"
| "may_attempt SupportNone = False"

fun support_as_str :: "capability_support \<Rightarrow> string" where
  "support_as_str Supported = ''supported''"
| "support_as_str SupportNone = ''unsupported''"
| "support_as_str SupportUnknown = ''unknown''"

datatype operation_kind = Pointer | Keyboard | Text

definition operation_kind_all :: "operation_kind list" where
  "operation_kind_all = [Pointer, Keyboard, Text]"

fun operation_kind_as_str :: "operation_kind \<Rightarrow> string" where
  "operation_kind_as_str Pointer = ''pointer''"
| "operation_kind_as_str Keyboard = ''keyboard''"
| "operation_kind_as_str Text = ''text''"

fun operation_index :: "operation_kind \<Rightarrow> nat" where
  "operation_index Pointer = 0"
| "operation_index Keyboard = 1"
| "operation_index Text = 2"

datatype input_delivery = System | WindowMessage | ProcessDirected

definition input_delivery_all :: "input_delivery list" where
  "input_delivery_all = [System, WindowMessage, ProcessDirected]"

datatype address_scope = FocusedSystem | ExactWindow | OwningProcess

fun delivery_address_scope :: "input_delivery \<Rightarrow> address_scope" where
  "delivery_address_scope System = FocusedSystem"
| "delivery_address_scope WindowMessage = ExactWindow"
| "delivery_address_scope ProcessDirected = OwningProcess"

fun delivery_as_str :: "input_delivery \<Rightarrow> string" where
  "delivery_as_str System = ''system''"
| "delivery_as_str WindowMessage = ''window_message''"
| "delivery_as_str ProcessDirected = ''process_directed''"

fun delivery_index :: "input_delivery \<Rightarrow> nat" where
  "delivery_index System = 0"
| "delivery_index WindowMessage = 1"
| "delivery_index ProcessDirected = 2"

fun address_scope_as_str :: "address_scope \<Rightarrow> string" where
  "address_scope_as_str FocusedSystem = ''focused_system''"
| "address_scope_as_str ExactWindow = ''exact_window''"
| "address_scope_as_str OwningProcess = ''owning_process''"

datatype submission_evidence =
    InvocationOnly
  | SystemInputAdmission
  | TargetQueueAdmission
  | TargetProtocolAcknowledgement

fun evidence_as_str :: "submission_evidence \<Rightarrow> string" where
  "evidence_as_str InvocationOnly = ''invocation_only''"
| "evidence_as_str SystemInputAdmission = ''system_input_admission''"
| "evidence_as_str TargetQueueAdmission = ''target_queue_admission''"
| "evidence_as_str TargetProtocolAcknowledgement = ''target_protocol_acknowledgement''"

section \<open>The capability table\<close>

definition pair_index :: "operation_kind \<Rightarrow> input_delivery \<Rightarrow> nat" where
  "pair_index op route = operation_index op * length input_delivery_all + delivery_index route"

definition input_pair_count :: nat where
  "input_pair_count = length operation_kind_all * length input_delivery_all"

fun space_bit :: "coordinate_space \<Rightarrow> u8" where
  "space_bit CapturePixels = 1"
| "space_bit FrameNormalized = push_bit 1 1"
| "space_bit TargetNormalized = push_bit 2 1"
| "space_bit TargetLogical = push_bit 3 1"
| "space_bit DesktopLogical = push_bit 4 1"

record route_capability =
  rt_operation :: operation_kind
  rt_route :: input_delivery
  rt_support :: capability_support
  rt_focus_required :: bool
  rt_pointer_spaces :: u8
  rt_permission :: "permission_kind option"
  rt_evidence :: "submission_evidence option"

definition route_may_attempt :: "route_capability \<Rightarrow> bool" where
  "route_may_attempt c = may_attempt (rt_support c)"

definition accepts_pointer_space :: "route_capability \<Rightarrow> coordinate_space \<Rightarrow> bool" where
  "accepts_pointer_space c space \<longleftrightarrow> and (rt_pointer_spaces c) (space_bit space) \<noteq> 0"

record input_capability =
  ic_support :: "capability_support list"
  ic_focus :: "bool list"
  ic_spaces :: "u8 list"
  ic_permissions :: "permission_kind option list"
  ic_evidence :: "submission_evidence option list"

definition input_capability_none :: input_capability where
  "input_capability_none =
     \<lparr>ic_support = replicate input_pair_count SupportNone,
      ic_focus = replicate input_pair_count False,
      ic_spaces = replicate input_pair_count 0,
      ic_permissions = replicate input_pair_count None,
      ic_evidence = replicate input_pair_count None\<rparr>"

definition with_pair ::
    "input_capability \<Rightarrow> operation_kind \<Rightarrow> input_delivery \<Rightarrow> capability_support \<Rightarrow> submission_evidence
     \<Rightarrow> input_capability" where
  "with_pair c op route su ev =
     (let index = pair_index op route
      in c\<lparr>ic_support := (ic_support c)[index := su], ic_evidence := (ic_evidence c)[index := Some ev]\<rparr>)"

definition with_focus_required ::
    "input_capability \<Rightarrow> operation_kind \<Rightarrow> input_delivery \<Rightarrow> input_capability" where
  "with_focus_required c op route = c\<lparr>ic_focus := (ic_focus c)[pair_index op route := True]\<rparr>"

definition with_pointer_space ::
    "input_capability \<Rightarrow> input_delivery \<Rightarrow> coordinate_space \<Rightarrow> input_capability" where
  "with_pointer_space c route space =
     (let index = pair_index Pointer route
      in c\<lparr>ic_spaces := (ic_spaces c)[index := or (ic_spaces c ! index) (space_bit space)]\<rparr>)"

definition with_permission ::
    "input_capability \<Rightarrow> operation_kind \<Rightarrow> input_delivery \<Rightarrow> permission_kind \<Rightarrow> input_capability" where
  "with_permission c op route perm =
     c\<lparr>ic_permissions := (ic_permissions c)[pair_index op route := Some perm]\<rparr>"

definition capability_pair ::
    "input_capability \<Rightarrow> operation_kind \<Rightarrow> input_delivery \<Rightarrow> route_capability" where
  "capability_pair c op route =
     (let index = pair_index op route
      in \<lparr>rt_operation = op, rt_route = route, rt_support = ic_support c ! index,
          rt_focus_required = ic_focus c ! index, rt_pointer_spaces = ic_spaces c ! index,
          rt_permission = ic_permissions c ! index, rt_evidence = ic_evidence c ! index\<rparr>)"

text \<open>The \<open>while\<close> loop over the support array, from \<open>index\<close> on.\<close>

function is_available_from :: "input_capability \<Rightarrow> nat \<Rightarrow> bool" where
  "is_available_from c index =
     (if index < input_pair_count
      then if may_attempt (ic_support c ! index) then True else is_available_from c (index + 1)
      else False)"
  by pat_completeness auto
termination by (relation "measure (\<lambda>(c, index). input_pair_count - index)") auto

declare is_available_from.simps [simp del]

definition is_available :: "input_capability \<Rightarrow> bool" where
  "is_available c = is_available_from c 0"

record target_capability =
  tc_kind :: "target_kind option"
  tc_capture :: capability_support
  tc_capture_permission :: "permission_kind option"
  tc_input :: input_capability

definition unclassified :: target_capability where
  "unclassified = \<lparr>tc_kind = None, tc_capture = Supported, tc_capture_permission = None,
                   tc_input = input_capability_none\<rparr>"

definition capture_only :: "target_kind \<Rightarrow> target_capability" where
  "capture_only k = \<lparr>tc_kind = Some k, tc_capture = Supported, tc_capture_permission = None,
                     tc_input = input_capability_none\<rparr>"

definition target_capability_new ::
    "target_kind \<Rightarrow> capability_support \<Rightarrow> input_capability \<Rightarrow> target_capability" where
  "target_capability_new k cap inp =
     \<lparr>tc_kind = Some k, tc_capture = cap, tc_capture_permission = None, tc_input = inp\<rparr>"

definition with_capture_permission :: "target_capability \<Rightarrow> permission_kind \<Rightarrow> target_capability" where
  "with_capture_permission c perm = c\<lparr>tc_capture_permission := Some perm\<rparr>"

section \<open>The table behaves as one entry per pair\<close>

text \<open>The arrays have their declared length.\<close>

definition well_formed :: "input_capability \<Rightarrow> bool" where
  "well_formed c \<longleftrightarrow> length (ic_support c) = input_pair_count \<and> length (ic_focus c) = input_pair_count
     \<and> length (ic_spaces c) = input_pair_count \<and> length (ic_permissions c) = input_pair_count
     \<and> length (ic_evidence c) = input_pair_count"

lemma input_pair_count_eq [simp]: "input_pair_count = 9"
  by (simp add: input_pair_count_def operation_kind_all_def input_delivery_all_def)

lemma pair_index_less [simp]: "pair_index op route < 9"
  by (cases op; cases route) (simp_all add: pair_index_def input_delivery_all_def)

lemma pair_index_inject [simp]: "pair_index op route = pair_index op' route' \<longleftrightarrow> op = op' \<and> route = route'"
  by (cases op; cases route; cases op'; cases route') (simp_all add: pair_index_def input_delivery_all_def)

lemma pair_index_surj: "i < 9 \<Longrightarrow> \<exists>op route. i = pair_index op route"
proof -
  assume "i < (9 :: nat)"
  then have "i = pair_index Pointer System \<or> i = pair_index Pointer WindowMessage
      \<or> i = pair_index Pointer ProcessDirected \<or> i = pair_index Keyboard System
      \<or> i = pair_index Keyboard WindowMessage \<or> i = pair_index Keyboard ProcessDirected
      \<or> i = pair_index Text System \<or> i = pair_index Text WindowMessage
      \<or> i = pair_index Text ProcessDirected"
    unfolding pair_index_def input_delivery_all_def by simp arith
  then show ?thesis by blast
qed

lemma well_formed_builders [simp, intro]:
  "well_formed input_capability_none"
  "well_formed c \<Longrightarrow> well_formed (with_pair c op route su ev)"
  "well_formed c \<Longrightarrow> well_formed (with_focus_required c op route)"
  "well_formed c \<Longrightarrow> well_formed (with_pointer_space c route space)"
  "well_formed c \<Longrightarrow> well_formed (with_permission c op route perm)"
  by (simp_all add: well_formed_def input_capability_none_def with_pair_def with_focus_required_def
        with_pointer_space_def with_permission_def Let_def)

lemma space_bits_distinct [simp]:
  "and (space_bit s) (space_bit s') \<noteq> 0 \<longleftrightarrow> s = s'"
  by (cases s; cases s') simp_all

lemma and_or_zero_iff: "and (or a b) c \<noteq> (0 :: u8) \<longleftrightarrow> and a c \<noteq> 0 \<or> and b c \<noteq> 0"
  unfolding bit.conj_disj_distrib2 or_eq_0_iff by blast

lemma is_available_from_iff:
  "is_available_from c i \<longleftrightarrow> (\<exists>j. i \<le> j \<and> j < 9 \<and> may_attempt (ic_support c ! j))"
proof (induction c i rule: is_available_from.induct)
  case (1 c i)
  show ?case
  proof (cases "i < 9 \<and> \<not> may_attempt (ic_support c ! i)")
    case True
    then have "is_available_from c i = is_available_from c (i + 1)"
      by (subst is_available_from.simps) simp
    also have "\<dots> \<longleftrightarrow> (\<exists>j. i + 1 \<le> j \<and> j < 9 \<and> may_attempt (ic_support c ! j))"
      using True 1 by simp
    also have "\<dots> \<longleftrightarrow> (\<exists>j. i \<le> j \<and> j < 9 \<and> may_attempt (ic_support c ! j))"
      using True by (metis Suc_eq_plus1 Suc_leD le_antisym not_less_eq_eq)
    finally show ?thesis .
  next
    case False
    then show ?thesis by (subst is_available_from.simps) auto
  qed
qed

text \<open>
  The four parallel updates act on exactly one operation-and-route pair: configuring, focusing,
  authorizing or adding a pointer space to one pair is what reading that pair then reports, and no fact
  of another pair changes.
\<close>

theorem capability_pair_updates:
  assumes "well_formed c"
  shows "capability_pair (with_pair c op route su ev) op' route' =
           (let p = capability_pair c op' route'
            in if op' = op \<and> route' = route then p\<lparr>rt_support := su, rt_evidence := Some ev\<rparr> else p)
    \<and> capability_pair (with_focus_required c op route) op' route' =
           (let p = capability_pair c op' route'
            in if op' = op \<and> route' = route then p\<lparr>rt_focus_required := True\<rparr> else p)
    \<and> capability_pair (with_permission c op route perm) op' route' =
           (let p = capability_pair c op' route'
            in if op' = op \<and> route' = route then p\<lparr>rt_permission := Some perm\<rparr> else p)
    \<and> accepts_pointer_space (capability_pair (with_pointer_space c route space) op' route') space' =
           (accepts_pointer_space (capability_pair c op' route') space'
            \<or> (op' = Pointer \<and> route' = route \<and> space' = space))"
  using assms
  by (auto simp: capability_pair_def with_pair_def with_focus_required_def with_permission_def
        with_pointer_space_def well_formed_def Let_def nth_list_update accepts_pointer_space_def
        and_or_zero_iff)

theorem capability_pair_updates_witness:
  "capability_pair (with_pair input_capability_none Keyboard WindowMessage Supported TargetQueueAdmission)
     Keyboard WindowMessage =
   (capability_pair input_capability_none Keyboard WindowMessage)
     \<lparr>rt_support := Supported, rt_evidence := Some TargetQueueAdmission\<rparr>"
  using capability_pair_updates
    [of input_capability_none Keyboard WindowMessage Supported TargetQueueAdmission Keyboard WindowMessage]
  by (simp add: Let_def)

text \<open>
  A target is available for input exactly when some operation-and-route pair may be attempted: the
  loop over the array visits every pair, and the empty capability has none.
\<close>

theorem is_available_iff:
  "is_available c = (\<exists>op route. route_may_attempt (capability_pair c op route))
   \<and> \<not> is_available input_capability_none"
proof
  show "is_available c = (\<exists>op route. route_may_attempt (capability_pair c op route))"
  proof
    assume "is_available c"
    then obtain j where "j < 9" "may_attempt (ic_support c ! j)"
      by (auto simp: is_available_def is_available_from_iff)
    with pair_index_surj show "\<exists>op route. route_may_attempt (capability_pair c op route)"
      by (fastforce simp: route_may_attempt_def capability_pair_def Let_def)
  next
    assume "\<exists>op route. route_may_attempt (capability_pair c op route)"
    then show "is_available c"
      by (auto simp: is_available_def is_available_from_iff route_may_attempt_def capability_pair_def
            Let_def intro: exI [of _ "pair_index _ _"])
  qed
  show "\<not> is_available input_capability_none"
    by (simp add: is_available_def is_available_from_iff input_capability_none_def)
qed

text \<open>
  A probe that labels its outcomes correctly never makes the report panic, and each kind's outcome is
  the one the probe read for it.
\<close>

lemma probe_report_outcomes:
  assumes "\<And>k oc. probe k = Inr oc \<Longrightarrow> po_kind oc = k" and "probe_report probe = Inr rep"
  shows "\<exists>r. rep = Some r \<and> (\<forall>k. probe k = Inr (report_outcome r k))"
proof -
  from assms(2) obtain c i where c: "probe ScreenCapture = Inr c" and i: "probe InputControl = Inr i"
    and rep: "rep = permission_report_new c i"
    by (auto simp: probe_report_def result_simps)
  from assms(1) [OF c] assms(1) [OF i] c i rep
  have "probe k = Inr (report_outcome \<lparr>rep_capture = c, rep_input = i\<rparr> k)" for k by (cases k) simp_all
  with assms(1) [OF c] assms(1) [OF i] rep show ?thesis by (auto simp: permission_report_new_def)
qed

end
