(* ===== verification/InputModel.thy ===== *)
theory InputModel
  imports Operation Capability "HOL-Library.Multiset" "HOL-Library.Sublist"
begin

text \<open>
  The input vocabulary of \<open>crates/automation/input/src\<close>: faults (\<open>fault.rs\<close>), events and their bounds
  (\<open>event.rs\<close>), caller policy (\<open>policy.rs\<close>), bounded sequences and requests (\<open>request.rs\<close>) and the
  cleanup budget (\<open>cleanup.rs\<close>). A \<open>char\<close> is its Unicode scalar value; an \<open>i16\<close> is a 16-bit word read
  with \<open>sint\<close>; a \<open>usize\<close> count is a \<open>nat\<close>.
\<close>

section \<open>fault.rs\<close>

datatype input_fault =
    ForeignTarget
  | UnknownTarget
  | FaultTargetLost
  | ProviderMismatch
  | UnsupportedCombination
  | InvalidRoutePlan
  | RouteUnavailable
  | SequenceOutOfBounds
  | UnsupportedCoordinate
  | MissingCoordinateSource
  | FaultGeometryChanged
  | FocusRequired
  | FocusRefused
  | NotAuthorized
  | PolicyRefused
  | ControllerClosed
  | FaultCancelled
  | FaultDeadlineExceeded
  | SubmissionFailed

fun input_fault_status :: "input_fault \<Rightarrow> status" where
  "input_fault_status ForeignTarget = InvalidArgument"
| "input_fault_status UnknownTarget = InvalidArgument"
| "input_fault_status ProviderMismatch = InvalidArgument"
| "input_fault_status InvalidRoutePlan = InvalidArgument"
| "input_fault_status SequenceOutOfBounds = InvalidArgument"
| "input_fault_status MissingCoordinateSource = InvalidArgument"
| "input_fault_status UnsupportedCombination = Unsupported"
| "input_fault_status UnsupportedCoordinate = Unsupported"
| "input_fault_status RouteUnavailable = Unsupported"
| "input_fault_status FocusRequired = Unsupported"
| "input_fault_status FaultTargetLost = TargetLost"
| "input_fault_status ControllerClosed = Closed"
| "input_fault_status FaultCancelled = Cancelled"
| "input_fault_status FaultDeadlineExceeded = DeadlineExceeded"
| "input_fault_status FaultGeometryChanged = InputFailed"
| "input_fault_status FocusRefused = InputFailed"
| "input_fault_status NotAuthorized = InputFailed"
| "input_fault_status PolicyRefused = InputFailed"
| "input_fault_status SubmissionFailed = InputFailed"

fun input_fault_detail :: "input_fault \<Rightarrow> string" where
  "input_fault_detail ForeignTarget = ''target identity was not issued by this provider''"
| "input_fault_detail UnknownTarget = ''no such target''"
| "input_fault_detail FaultTargetLost = ''target no longer exists''"
| "input_fault_detail ProviderMismatch = ''capture and input providers do not match''"
| "input_fault_detail UnsupportedCombination =
     ''requested operation and route combination is unsupported''"
| "input_fault_detail InvalidRoutePlan = ''route plan is empty or repeats a route''"
| "input_fault_detail RouteUnavailable = ''no caller-allowed input route was available''"
| "input_fault_detail SequenceOutOfBounds = ''input sequence exceeds its declared bounds''"
| "input_fault_detail UnsupportedCoordinate =
     ''pointer coordinate space is not accepted by this target''"
| "input_fault_detail MissingCoordinateSource =
     ''geometry policy requires the source frame of its coordinates''"
| "input_fault_detail FaultGeometryChanged = ''target geometry changed since the source frame''"
| "input_fault_detail FocusRequired = ''operation requires focus the focus policy withholds''"
| "input_fault_detail FocusRefused = ''the operating system refused to focus the target''"
| "input_fault_detail NotAuthorized = ''input control is not authorized''"
| "input_fault_detail PolicyRefused = ''operating-system policy refused input submission''"
| "input_fault_detail ControllerClosed = ''input controller is closed''"
| "input_fault_detail FaultCancelled = ''operation was cancelled''"
| "input_fault_detail FaultDeadlineExceeded = ''operation deadline passed''"
| "input_fault_detail SubmissionFailed = ''native input submission failed''"

fun fault_of_interruption :: "interruption \<Rightarrow> input_fault" where
  "fault_of_interruption Interrupted_Cancelled = FaultCancelled"
| "fault_of_interruption Interrupted_DeadlineExceeded = FaultDeadlineExceeded"

definition input_error :: "input_fault \<Rightarrow> error" where
  "input_error f = mk_error (input_fault_status f) (input_fault_detail f)"

section \<open>event.rs\<close>

datatype pointer_button = Primary | Secondary | Middle

datatype modifier = Shift | Control | Alt | Meta

type_synonym scalar = nat

datatype key =
    Character scalar
  | FunctionKey u8
  | ModifierKey modifier
  | Enter | Tab | Backspace | Delete | Escape | Space
  | ArrowUp | ArrowDown | ArrowLeft | ArrowRight
  | Home | End | PageUp | PageDown

text \<open>\<open>char::is_control\<close>: the Unicode category Cc.\<close>

definition is_control :: "scalar \<Rightarrow> bool" where
  "is_control c \<longleftrightarrow> c \<le> 31 \<or> (127 \<le> c \<and> c \<le> 159)"

definition max_function :: u8 where
  "max_function = 24"

fun key_check :: "key \<Rightarrow> input_fault + unit" where
  "key_check (FunctionKey number) =
     (if number = 0 \<or> number > max_function then Inl SequenceOutOfBounds else Inr ())"
| "key_check (Character c) = (if is_control c then Inl SequenceOutOfBounds else Inr ())"
| "key_check _ = Inr ()"

datatype input_event =
    PointerMove point
  | PointerPress pointer_button
  | PointerRelease pointer_button
  | PointerScroll i16 i16
  | KeyPress key
  | KeyRelease key
  | TextEvent "scalar list"
  | Delay duration

datatype pressed_state = PressedButton pointer_button | PressedKey key

definition max_delay :: duration where
  "max_delay = 5 * 1000000000"

definition max_text_chars :: nat where
  "max_text_chars = 4096"

definition max_scroll_notches :: i16 where
  "max_scroll_notches = 120"

text \<open>\<open>i16::unsigned_abs\<close>, an unsigned 16-bit value.\<close>

definition unsigned_abs :: "i16 \<Rightarrow> u16" where
  "unsigned_abs x = (if sint x < 0 then - x else x)"

fun event_operation_kind :: "input_event \<Rightarrow> operation_kind option" where
  "event_operation_kind (PointerMove _) = Some Pointer"
| "event_operation_kind (PointerPress _) = Some Pointer"
| "event_operation_kind (PointerRelease _) = Some Pointer"
| "event_operation_kind (PointerScroll _ _) = Some Pointer"
| "event_operation_kind (KeyPress _) = Some Keyboard"
| "event_operation_kind (KeyRelease _) = Some Keyboard"
| "event_operation_kind (TextEvent _) = Some Text"
| "event_operation_kind (Delay _) = None"

fun is_irreversible :: "input_event \<Rightarrow> bool" where
  "is_irreversible (Delay _) = False"
| "is_irreversible _ = True"

fun event_presses :: "input_event \<Rightarrow> pressed_state option" where
  "event_presses (PointerPress b) = Some (PressedButton b)"
| "event_presses (KeyPress k) = Some (PressedKey k)"
| "event_presses _ = None"

fun event_releases :: "input_event \<Rightarrow> pressed_state option" where
  "event_releases (PointerRelease b) = Some (PressedButton b)"
| "event_releases (KeyRelease k) = Some (PressedKey k)"
| "event_releases _ = None"

fun event_check :: "input_event \<Rightarrow> input_fault + unit" where
  "event_check (Delay d) = (if d > max_delay then Inl SequenceOutOfBounds else Inr ())"
| "event_check (TextEvent t) =
     (if t = [] \<or> length t > max_text_chars then Inl SequenceOutOfBounds else Inr ())"
| "event_check (PointerScroll horizontal vertical) =
     (if (horizontal = 0 \<and> vertical = 0)
         \<or> unsigned_abs horizontal > unsigned_abs max_scroll_notches
         \<or> unsigned_abs vertical > unsigned_abs max_scroll_notches
      then Inl SequenceOutOfBounds else Inr ())"
| "event_check (KeyPress k) = key_check k"
| "event_check (KeyRelease k) = key_check k"
| "event_check _ = Inr ()"

section \<open>policy.rs\<close>

record delivery_plan =
  dp_routes :: "input_delivery list"

definition plan_require :: "input_delivery \<Rightarrow> delivery_plan" where
  "plan_require route = \<lparr>dp_routes = [route]\<rparr>"

text \<open>The loop compares every route with the ones before it.\<close>

definition plan_ordered :: "input_delivery list \<Rightarrow> input_fault + delivery_plan" where
  "plan_ordered routes =
     (if routes = [] then Inl InvalidRoutePlan
      else if list_ex (\<lambda>index. routes ! index \<in> set (take index routes)) [0..<length routes]
           then Inl InvalidRoutePlan
      else Inr \<lparr>dp_routes = routes\<rparr>)"

definition plan_first :: "delivery_plan \<Rightarrow> input_delivery" where
  "plan_first p = dp_routes p ! 0"

definition permits_fallback :: "delivery_plan \<Rightarrow> bool" where
  "permits_fallback p \<longleftrightarrow> length (dp_routes p) > 1"

datatype focus_policy = Preserve | RequireFocused | ActivateIfRequired

fun may_activate :: "focus_policy \<Rightarrow> bool" where
  "may_activate ActivateIfRequired = True"
| "may_activate _ = False"

datatype geometry_policy = RequireUnchanged | ReprojectCurrent | UseFrameSnapshot

fun needs_source_frame :: "geometry_policy \<Rightarrow> bool" where
  "needs_source_frame RequireUnchanged = True"
| "needs_source_frame UseFrameSnapshot = True"
| "needs_source_frame ReprojectCurrent = False"

record pointer_geometry =
  pg_policy :: geometry_policy
  pg_source :: "frame_stamp option"

definition reprojected :: pointer_geometry where
  "reprojected = \<lparr>pg_policy = ReprojectCurrent, pg_source = None\<rparr>"

definition require_unchanged_since :: "frame_stamp \<Rightarrow> pointer_geometry" where
  "require_unchanged_since s = \<lparr>pg_policy = RequireUnchanged, pg_source = Some s\<rparr>"

definition from_frame_snapshot :: "frame_stamp \<Rightarrow> pointer_geometry" where
  "from_frame_snapshot s = \<lparr>pg_policy = UseFrameSnapshot, pg_source = Some s\<rparr>"

definition pointer_geometry_check :: "pointer_geometry \<Rightarrow> input_fault + unit" where
  "pointer_geometry_check g =
     (if needs_source_frame (pg_policy g) \<and> pg_source g = None
      then Inl MissingCoordinateSource else Inr ())"

section \<open>request.rs: sequences\<close>

definition sequence_max_events :: nat where
  "sequence_max_events = 256"

record sequence_limits =
  sl_max_events :: nat

definition limits_contract :: sequence_limits where
  "limits_contract = \<lparr>sl_max_events = sequence_max_events\<rparr>"

definition limits_at_most :: "nat \<Rightarrow> sequence_limits" where
  "limits_at_most n = \<lparr>sl_max_events = (if n < sequence_max_events then n else sequence_max_events)\<rparr>"

record input_sequence =
  sq_events :: "input_event list"

fun check_events :: "input_event list \<Rightarrow> input_fault + unit" where
  "check_events [] = Inr ()"
| "check_events (ev # evs) = and_then (event_check ev) (\<lambda>_. check_events evs)"

definition sequence_within :: "input_event list \<Rightarrow> sequence_limits \<Rightarrow> input_fault + input_sequence" where
  "sequence_within evs limits =
     (if evs = [] \<or> length evs > sl_max_events limits then Inl SequenceOutOfBounds
      else and_then (check_events evs) (\<lambda>_. Inr \<lparr>sq_events = evs\<rparr>))"

definition sequence_new :: "input_event list \<Rightarrow> input_fault + input_sequence" where
  "sequence_new evs = sequence_within evs limits_contract"

definition add_kind :: "operation_kind list \<Rightarrow> operation_kind \<Rightarrow> operation_kind list" where
  "add_kind kinds k = (if k \<in> set kinds then kinds else kinds @ [k])"

definition operation_kinds :: "input_sequence \<Rightarrow> operation_kind list" where
  "operation_kinds sq = foldl add_kind [] (List.map_filter event_operation_kind (sq_events sq))"

text \<open>\<open>Iterator::rposition\<close> for equality and \<open>Vec::remove\<close>.\<close>

definition rposition :: "'a \<Rightarrow> 'a list \<Rightarrow> nat option" where
  "rposition x xs =
     (let hits = filter (\<lambda>i. xs ! i = x) [0..<length xs] in if hits = [] then None else Some (last hits))"

definition remove_at :: "nat \<Rightarrow> 'a list \<Rightarrow> 'a list" where
  "remove_at i xs = take i xs @ drop (Suc i) xs"

definition hold_event :: "pressed_state list \<Rightarrow> input_event \<Rightarrow> pressed_state list" where
  "hold_event held ev =
     (let held = (case event_presses ev of Some p \<Rightarrow> held @ [p] | None \<Rightarrow> held)
      in (case event_releases ev of
            Some r \<Rightarrow> (case rposition r held of Some i \<Rightarrow> remove_at i held | None \<Rightarrow> held)
          | None \<Rightarrow> held))"

definition held_after :: "input_sequence \<Rightarrow> nat \<Rightarrow> pressed_state list" where
  "held_after sq submitted = rev (foldl hold_event [] (take submitted (sq_events sq)))"

definition possibly_held_after :: "input_sequence \<Rightarrow> nat \<Rightarrow> bool \<Rightarrow> pressed_state list" where
  "possibly_held_after sq submitted current_event_may_have_effect =
     (let held = held_after sq submitted
      in if current_event_may_have_effect \<and> submitted < length (sq_events sq)
         then (case event_presses (sq_events sq ! submitted) of
                 Some p \<Rightarrow> if p \<notin> set held then p # held else held
               | None \<Rightarrow> held)
         else held)"

definition may_submit_via :: "input_sequence \<Rightarrow> input_capability \<Rightarrow> input_delivery \<Rightarrow> bool" where
  "may_submit_via sq c route =
     list_all (\<lambda>k. route_may_attempt (capability_pair c k route)) (operation_kinds sq)"

section \<open>cleanup.rs\<close>

record cleanup_budget =
  cb_max_events :: nat
  cb_max_duration :: duration

definition cleanup_max_events :: nat where
  "cleanup_max_events = sequence_max_events"

definition cleanup_max_duration :: duration where
  "cleanup_max_duration = 250 * 1000000"

definition cleanup_contract :: cleanup_budget where
  "cleanup_contract = \<lparr>cb_max_events = cleanup_max_events, cb_max_duration = cleanup_max_duration\<rparr>"

definition cleanup_at_most :: "nat \<Rightarrow> duration \<Rightarrow> cleanup_budget" where
  "cleanup_at_most n d =
     \<lparr>cb_max_events = (if n < cleanup_max_events then n else cleanup_max_events),
      cb_max_duration = (if d < cleanup_max_duration then d else cleanup_max_duration)\<rparr>"

text \<open>The context shares the request's clock, whose reading at the start of cleanup is \<open>started\<close>.\<close>

definition cleanup_context :: "cleanup_budget \<Rightarrow> operation_context \<Rightarrow> instant \<Rightarrow> operation_context" where
  "cleanup_context b request started =
     (let fresh = context_new;
          tagged = (case ctx_activity_tag request of
                      Some tag \<Rightarrow> with_activity_tag fresh tag | None \<Rightarrow> fresh)
      in (case instant_checked_add started (cb_max_duration b) of
            Some deadline \<Rightarrow> with_deadline tagged deadline
          | None \<Rightarrow> tagged))"

section \<open>request.rs: requests\<close>

record input_request =
  rq_target :: target_id
  rq_sequence :: input_sequence
  rq_delivery :: delivery_plan
  rq_focus :: focus_policy
  rq_geometry :: pointer_geometry
  rq_cleanup :: cleanup_budget

definition request_new :: "target_id \<Rightarrow> input_sequence \<Rightarrow> delivery_plan \<Rightarrow> input_request" where
  "request_new t sq d =
     \<lparr>rq_target = t, rq_sequence = sq, rq_delivery = d, rq_focus = Preserve,
      rq_geometry = reprojected, rq_cleanup = cleanup_contract\<rparr>"

definition with_focus :: "input_request \<Rightarrow> focus_policy \<Rightarrow> input_request" where
  "with_focus r f = r\<lparr>rq_focus := f\<rparr>"

definition with_pointer_geometry :: "input_request \<Rightarrow> pointer_geometry \<Rightarrow> input_request" where
  "with_pointer_geometry r g = r\<lparr>rq_geometry := g\<rparr>"

definition with_cleanup_budget :: "input_request \<Rightarrow> cleanup_budget \<Rightarrow> input_request" where
  "with_cleanup_budget r b = r\<lparr>rq_cleanup := b\<rparr>"

definition request_check :: "input_request \<Rightarrow> input_fault + unit" where
  "request_check r =
     (if Pointer \<in> set (operation_kinds (rq_sequence r))
      then pointer_geometry_check (rq_geometry r) else Inr ())"

section \<open>Validation\<close>

lemma check_events_Inr: "check_events evs = Inr u \<longleftrightarrow> list_all (\<lambda>ev. event_check ev = Inr ()) evs"
  by (induction evs) (auto simp: result_simps)

lemma list_ex_repeat: "list_ex (\<lambda>i. xs ! i \<in> set (take i xs)) [0..<length xs] \<longleftrightarrow> \<not> distinct xs"
proof (induction xs rule: rev_induct)
  case Nil
  then show ?case by simp
next
  case (snoc x xs)
  have "list_ex (\<lambda>i. (xs @ [x]) ! i \<in> set (take i (xs @ [x]))) [0..<length xs]
        = list_ex (\<lambda>i. xs ! i \<in> set (take i xs)) [0..<length xs]"
    unfolding list_ex_iff by (intro bex_cong) (auto simp: nth_append)
  with snoc show ?case by (auto simp: list_ex_iff)
qed

lemma plan_ordered_Inr:
  "plan_ordered routes = Inr p \<longleftrightarrow> p = \<lparr>dp_routes = routes\<rparr> \<and> routes \<noteq> [] \<and> distinct routes"
  by (auto simp: plan_ordered_def list_ex_repeat)

lemma add_kind_set: "set (foldl add_kind kinds ks) = set kinds \<union> set ks"
  by (induction ks arbitrary: kinds) (auto simp: add_kind_def)

lemma add_kind_distinct: "distinct kinds \<Longrightarrow> distinct (foldl add_kind kinds ks)"
  by (induction ks arbitrary: kinds) (auto simp: add_kind_def)

lemma operation_kinds_set:
  "set (operation_kinds sq) = {k. \<exists>ev\<in>set (sq_events sq). event_operation_kind ev = Some k}"
proof -
  have "set (List.map_filter f xs) = {y. \<exists>x\<in>set xs. f x = Some y}" for f :: "input_event \<Rightarrow> operation_kind option" and xs
    by (induction xs) (auto simp: List.map_filter_simps split: option.splits)
  then show ?thesis by (simp add: operation_kinds_def add_kind_set)
qed

lemma operation_kinds_distinct: "distinct (operation_kinds sq)"
  by (simp add: operation_kinds_def add_kind_distinct)

section \<open>What a stopped sequence still holds\<close>

text \<open>The held vector, last pressed first, as a stack.\<close>

definition hold_stack :: "input_event \<Rightarrow> pressed_state list \<Rightarrow> pressed_state list" where
  "hold_stack ev h =
     (case event_presses ev of Some p \<Rightarrow> p # h
      | None \<Rightarrow> (case event_releases ev of Some r \<Rightarrow> remove1 r h | None \<Rightarrow> h))"

lemma rposition_snoc:
  "rposition x (xs @ [y]) = (if y = x then Some (length xs) else rposition x xs)"
proof -
  have "filter (\<lambda>i. (xs @ [y]) ! i = x) [0..<length xs] = filter (\<lambda>i. xs ! i = x) [0..<length xs]"
    by (rule filter_cong) (simp_all add: nth_append)
  then show ?thesis by (simp add: rposition_def)
qed

lemma rposition_less: "rposition x xs = Some i \<Longrightarrow> i < length xs"
  by (auto simp: rposition_def Let_def split: if_splits dest!: last_in_set)

lemma remove_last_occurrence:
  "(case rposition x xs of Some i \<Rightarrow> remove_at i xs | None \<Rightarrow> xs) = rev (remove1 x (rev xs))"
proof (induction xs rule: rev_induct)
  case Nil
  then show ?case by (simp add: rposition_def)
next
  case (snoc y xs)
  show ?case
  proof (cases "y = x")
    case True
    then show ?thesis by (simp add: rposition_snoc remove_at_def)
  next
    case False
    with snoc show ?thesis
      by (auto simp: rposition_snoc remove_at_def dest: rposition_less split: option.splits)
  qed
qed

lemma press_xor_release: "event_presses ev = Some p \<Longrightarrow> event_releases ev = None"
  by (cases ev) simp_all

lemma hold_event_stack: "rev (hold_event (rev h) ev) = hold_stack ev h"
proof (cases "event_presses ev")
  case None
  show ?thesis
  proof (cases "event_releases ev")
    case (Some r)
    with None remove_last_occurrence [of "rev h" r] show ?thesis
      by (simp add: hold_event_def hold_stack_def)
  qed (use None in \<open>simp add: hold_event_def hold_stack_def\<close>)
next
  case (Some p)
  then show ?thesis by (simp add: hold_event_def hold_stack_def press_xor_release)
qed

lemma held_after_stack: "held_after sq n = fold hold_stack (take n (sq_events sq)) []"
proof -
  have "rev (foldl hold_event (rev h) evs) = fold hold_stack evs h" for evs h
  proof (induction evs arbitrary: h)
    case Nil
    then show ?case by simp
  next
    case (Cons ev evs)
    from Cons [of "hold_stack ev h"] show ?case by (simp flip: hold_event_stack)
  qed
  from this [of "[]"] show ?thesis by (simp add: held_after_def)
qed

text \<open>The presses of one state not yet matched by a release, a release without a press counting nothing.\<close>

definition owed_count :: "pressed_state \<Rightarrow> input_event \<Rightarrow> nat \<Rightarrow> nat" where
  "owed_count st ev c =
     (if event_presses ev = Some st then c + 1 else if event_releases ev = Some st then c - 1 else c)"

lemma hold_stack_count:
  "count_list (hold_stack ev h) st = owed_count st ev (count_list h st)"
proof -
  have "count_list (remove1 r h) st = (if r = st then count_list h st - 1 else count_list h st)" for r
    by (induction h) (auto simp: count_list_0_iff)
  then show ?thesis
    by (auto simp: hold_stack_def owed_count_def dest: press_xor_release split: option.splits)
qed

lemma fold_hold_count:
  "count_list (fold hold_stack evs h) st = fold (owed_count st) evs (count_list h st)"
  by (induction evs arbitrary: h) (simp_all add: hold_stack_count)

lemma fold_hold_subseq:
  "subseq (fold hold_stack evs h) (rev (List.map_filter event_presses evs) @ h)"
proof (induction evs arbitrary: h)
  case Nil
  then show ?case by (simp add: List.map_filter_simps)
next
  case (Cons ev evs)
  have remove: "subseq (remove1 r h) h" for r :: pressed_state
    by (induction h) auto
  have "subseq (hold_stack ev h) (rev (List.map_filter event_presses [ev]) @ h)"
    by (auto simp: hold_stack_def List.map_filter_simps remove split: option.splits)
  then have "subseq (rev (List.map_filter event_presses evs) @ hold_stack ev h)
      (rev (List.map_filter event_presses evs) @ rev (List.map_filter event_presses [ev]) @ h)"
    by (intro list_emb_append_mono) simp_all
  with Cons [of "hold_stack ev h"] show ?case
    by (auto simp: List.map_filter_simps split: option.splits intro: subseq_order.trans)
qed

lemma held_after_length: "length (held_after sq n) \<le> min n (length (sq_events sq))"
proof -
  have one: "length (hold_stack ev h) \<le> Suc (length h)" for ev h
    by (auto simp: hold_stack_def length_remove1 split: option.splits)
  have "length (fold hold_stack evs h) \<le> length evs + length h" for evs h
  proof (induction evs arbitrary: h)
    case (Cons ev evs)
    from Cons [of "hold_stack ev h"] one [of ev h] show ?case by simp
  qed simp
  from this [of "take n (sq_events sq)" "[]"] show ?thesis by (simp add: held_after_stack)
qed

lemma possibly_held_length: "length (possibly_held_after sq n b) \<le> length (sq_events sq)"
  using held_after_length [of sq n]
  by (auto simp: possibly_held_after_def Let_def split: option.splits)

text \<open>
  What cleanup owes after a sequence stopped is exactly the state the submitted prefix pressed and
  did not release: each state is owed as often as its presses exceed the releases that followed them, and
  the releases come in reverse order of pressing.
\<close>

theorem held_after_owed:
  "count_list (held_after sq n) st = fold (owed_count st) (take n (sq_events sq)) 0
   \<and> subseq (held_after sq n) (rev (List.map_filter event_presses (take n (sq_events sq))))"
  using fold_hold_count [of "take n (sq_events sq)" "[]" st]
    fold_hold_subseq [of "take n (sq_events sq)" "[]"]
  by (simp add: held_after_stack)

lemma possibly_held_front:
  "possibly_held_after sq n b =
     (case if b \<and> n < length (sq_events sq) then event_presses (sq_events sq ! n) else None of
        None \<Rightarrow> held_after sq n
      | Some p \<Rightarrow> if count_list (held_after sq n) p = 0 then p # held_after sq n else held_after sq n)"
  by (auto simp: possibly_held_after_def Let_def count_list_0_iff split: option.splits)

text \<open>
  C25: what cleanup may owe after a sequence stopped: each state is owed exactly as often as its presses in the
  submitted prefix exceed the releases that followed them, and the state that the stopping event presses, when
  that event may have had effect, at least once: it is added, in front, only when it is not owed already. The
  releases come in reverse order of pressing, and a validated sequence never owes more of them than the event
  budget of the contract's cleanup.
\<close>

theorem possibly_held_covers:
  assumes "sequence_new evs = Inr sq"
  shows "count_list (possibly_held_after sq n b) p =
           (if b \<and> n < length evs \<and> event_presses (evs ! n) = Some p
            then max 1 (fold (owed_count p) (take n evs) 0) else fold (owed_count p) (take n evs) 0)
         \<and> (possibly_held_after sq n b = held_after sq n
            \<or> (\<exists>s. b \<and> n < length evs \<and> event_presses (evs ! n) = Some s \<and> s \<notin> set (held_after sq n)
                  \<and> possibly_held_after sq n b = s # held_after sq n))
         \<and> subseq (held_after sq n) (rev (List.map_filter event_presses (take n evs)))
         \<and> length (possibly_held_after sq n b) \<le> cb_max_events cleanup_contract"
proof -
  from assms have sq: "sq_events sq = evs" and len: "length evs \<le> 256"
    by (auto simp: sequence_new_def sequence_within_def limits_contract_def sequence_max_events_def
          result_simps split: if_splits)
  have "length (possibly_held_after sq n b) \<le> cb_max_events cleanup_contract"
    using possibly_held_length [of sq n b] sq len
    by (simp add: cleanup_contract_def cleanup_max_events_def sequence_max_events_def)
  moreover have held: "count_list (held_after sq n) p = fold (owed_count p) (take n evs) 0"
    "subseq (held_after sq n) (rev (List.map_filter event_presses (take n evs)))"
    using fold_hold_count [of "take n evs" "[]" p] fold_hold_subseq [of "take n evs" "[]"]
    by (simp_all add: held_after_stack sq)
  ultimately show ?thesis
    by (auto simp: possibly_held_front sq held(1) [symmetric] count_list_0_iff max_def Suc_le_eq split: option.splits if_splits)
qed

theorem possibly_held_covers_witness:
  "count_list (possibly_held_after \<lparr>sq_events = [KeyPress (ModifierKey Shift), KeyPress Tab, KeyPress (ModifierKey Shift)]\<rparr> 2 True)
     (PressedKey (ModifierKey Shift)) = 1
   \<and> count_list (possibly_held_after \<lparr>sq_events = [KeyPress (ModifierKey Shift), KeyPress Tab, KeyPress (ModifierKey Shift)]\<rparr> 1 True)
     (PressedKey Tab) = 1"
proof -
  have s: "sequence_new [KeyPress (ModifierKey Shift), KeyPress Tab, KeyPress (ModifierKey Shift)]
        = Inr \<lparr>sq_events = [KeyPress (ModifierKey Shift), KeyPress Tab, KeyPress (ModifierKey Shift)]\<rparr>"
    by (simp add: sequence_new_def sequence_within_def limits_contract_def sequence_max_events_def)
  show ?thesis
    using possibly_held_covers [OF s, of 2 True "PressedKey (ModifierKey Shift)"]
      possibly_held_covers [OF s, of 1 True "PressedKey Tab"]
    by (simp add: owed_count_def)
qed

text \<open>
  A sequence is accepted exactly when it is non-empty, within the limit and every event is within
  its own bounds, and it then holds the events unchanged; a route plan is accepted exactly when it names
  at least one route and none twice.
\<close>

theorem sequences_and_plans_validated:
  "(sequence_within evs limits = Inr sq \<longleftrightarrow>
      sq = \<lparr>sq_events = evs\<rparr> \<and> evs \<noteq> [] \<and> length evs \<le> sl_max_events limits
      \<and> list_all (\<lambda>ev. event_check ev = Inr ()) evs)
   \<and> (plan_ordered routes = Inr p \<longleftrightarrow> p = \<lparr>dp_routes = routes\<rparr> \<and> routes \<noteq> [] \<and> distinct routes)"
  by (auto simp: sequence_within_def result_simps check_events_Inr plan_ordered_Inr split: if_splits)

text \<open>
  Cleanup runs under bounds of its own: whatever deadline and cancellation the request carried,
  cleanup is never cancelled, and it is interrupted exactly when its own budget has elapsed since it
  started (never, when that instant is not representable).
\<close>

theorem cleanup_context_independent:
  "context_interruption (cleanup_context b request (Instant t)) ob =
     (if t + cb_max_duration b \<le> duration_max \<and> t + cb_max_duration b \<le> since_origin (obs_now ob)
      then Some Interrupted_DeadlineExceeded else None)
   \<and> ctx_activity_tag (cleanup_context b request (Instant t)) = ctx_activity_tag request"
  by (auto simp: cleanup_context_def Let_def context_interruption_def context_new_def with_deadline_def
        with_activity_tag_def duration_checked_add_def less_eq_instant_def split: option.splits)

end
