(* ===== verification/Receipt.thy ===== *)
theory Receipt
  imports InputModel
begin

text \<open>
  Receipts (\<open>receipt.rs\<close>) and the admission rule every adapter shares (\<open>descriptor.rs\<close>), both under
  \<open>crates/automation/input/src\<close>.
\<close>

section \<open>receipt.rs\<close>

datatype sequence_outcome = Complete | Partial | Unexecuted

datatype cleanup_state = NotNeeded | CleanupComplete | Incomplete | CleanupExhausted

fun may_leave_state_held :: "cleanup_state \<Rightarrow> bool" where
  "may_leave_state_held Incomplete = True"
| "may_leave_state_held CleanupExhausted = True"
| "may_leave_state_held _ = False"

record input_attempt =
  at_route :: input_delivery
  at_scope :: address_scope
  at_outcome :: sequence_outcome
  at_submitted :: nat
  at_last_submitted :: "nat option"
  at_evidence :: "submission_evidence option"
  at_partial :: bool
  at_fault :: "input_fault option"

definition attempt_refused :: "input_delivery \<Rightarrow> input_fault \<Rightarrow> input_attempt" where
  "attempt_refused route fault =
     \<lparr>at_route = route, at_scope = delivery_address_scope route, at_outcome = Unexecuted,
      at_submitted = 0, at_last_submitted = None, at_evidence = None, at_partial = False,
      at_fault = Some fault\<rparr>"

text \<open>\<open>checked_sub(1)\<close>.\<close>

definition last_index :: "nat \<Rightarrow> nat option" where
  "last_index n = (if n = 0 then None else Some (n - 1))"

definition attempt_complete :: "input_delivery \<Rightarrow> submission_evidence \<Rightarrow> nat \<Rightarrow> input_attempt" where
  "attempt_complete route ev submitted =
     \<lparr>at_route = route, at_scope = delivery_address_scope route, at_outcome = Complete,
      at_submitted = submitted, at_last_submitted = last_index submitted, at_evidence = Some ev,
      at_partial = False, at_fault = None\<rparr>"

definition attempt_partial ::
    "input_delivery \<Rightarrow> submission_evidence \<Rightarrow> nat \<Rightarrow> bool \<Rightarrow> input_fault \<Rightarrow> input_attempt" where
  "attempt_partial route ev submitted partial_native_effect fault =
     \<lparr>at_route = route, at_scope = delivery_address_scope route, at_outcome = Partial,
      at_submitted = submitted, at_last_submitted = last_index submitted, at_evidence = Some ev,
      at_partial = partial_native_effect, at_fault = Some fault\<rparr>"

definition attempt_possible_effect :: "input_attempt \<Rightarrow> bool" where
  "attempt_possible_effect a \<longleftrightarrow> at_submitted a \<noteq> 0 \<or> at_partial a"

record input_receipt =
  rc_target :: target_id
  rc_outcome :: sequence_outcome
  rc_selected :: "input_delivery option"
  rc_scope :: "address_scope option"
  rc_attempts :: "input_attempt list"
  rc_submitted :: nat
  rc_last_submitted :: "nat option"
  rc_evidence :: "submission_evidence option"
  rc_partial :: bool
  rc_fault :: "input_fault option"
  rc_cleanup :: cleanup_state
  rc_released :: nat
  rc_owed :: nat

definition from_terminal_attempt :: "target_id \<Rightarrow> input_attempt \<Rightarrow> input_receipt" where
  "from_terminal_attempt t a =
     \<lparr>rc_target = t, rc_outcome = at_outcome a, rc_selected = Some (at_route a),
      rc_scope = Some (at_scope a), rc_attempts = [a], rc_submitted = at_submitted a,
      rc_last_submitted = at_last_submitted a, rc_evidence = at_evidence a, rc_partial = at_partial a,
      rc_fault = at_fault a, rc_cleanup = NotNeeded, rc_released = 0, rc_owed = 0\<rparr>"

definition receipt_complete ::
    "target_id \<Rightarrow> input_delivery \<Rightarrow> submission_evidence \<Rightarrow> nat \<Rightarrow> input_receipt" where
  "receipt_complete t route ev submitted = from_terminal_attempt t (attempt_complete route ev submitted)"

definition receipt_partial ::
    "target_id \<Rightarrow> input_delivery \<Rightarrow> submission_evidence \<Rightarrow> nat \<Rightarrow> bool \<Rightarrow> input_fault \<Rightarrow> input_receipt" where
  "receipt_partial t route ev submitted partial_native_effect fault =
     from_terminal_attempt t (attempt_partial route ev submitted partial_native_effect fault)"

definition receipt_unexecuted :: "target_id \<Rightarrow> input_fault \<Rightarrow> input_receipt" where
  "receipt_unexecuted t fault =
     \<lparr>rc_target = t, rc_outcome = Unexecuted, rc_selected = None, rc_scope = None, rc_attempts = [],
      rc_submitted = 0, rc_last_submitted = None, rc_evidence = None, rc_partial = False,
      rc_fault = Some fault, rc_cleanup = NotNeeded, rc_released = 0, rc_owed = 0\<rparr>"

text \<open>The \<open>debug_assert\<close> of the code, absent from release builds, is not modelled.\<close>

definition with_prior_attempts :: "input_receipt \<Rightarrow> input_attempt list \<Rightarrow> input_receipt" where
  "with_prior_attempts r prior = r\<lparr>rc_attempts := prior @ rc_attempts r\<rparr>"

definition with_cleanup :: "input_receipt \<Rightarrow> nat \<Rightarrow> nat \<Rightarrow> input_receipt" where
  "with_cleanup r released owed =
     r\<lparr>rc_released := released, rc_owed := owed,
       rc_cleanup := (if owed = 0 then NotNeeded
                      else if released \<ge> owed then CleanupComplete else Incomplete)\<rparr>"

definition with_exhausted_cleanup :: "input_receipt \<Rightarrow> nat \<Rightarrow> nat \<Rightarrow> input_receipt" where
  "with_exhausted_cleanup r released owed =
     r\<lparr>rc_released := released, rc_owed := owed,
       rc_cleanup := (if owed = 0 then NotNeeded
                      else if released \<ge> owed then CleanupComplete else CleanupExhausted)\<rparr>"

definition used_fallback :: "input_receipt \<Rightarrow> bool" where
  "used_fallback r =
     (case (rc_attempts r, rc_selected r) of
        (first # _, Some selected) \<Rightarrow> at_route first \<noteq> selected
      | _ \<Rightarrow> False)"

definition possible_native_effect :: "input_receipt \<Rightarrow> bool" where
  "possible_native_effect r \<longleftrightarrow> rc_submitted r \<noteq> 0 \<or> rc_partial r"

definition receipt_is_complete :: "input_receipt \<Rightarrow> bool" where
  "receipt_is_complete r \<longleftrightarrow> rc_outcome r = Complete"

section \<open>descriptor.rs\<close>

record input_descriptor =
  id_target :: target_id
  id_capability :: input_capability
  id_limits :: sequence_limits

definition descriptor_new :: "target_id \<Rightarrow> input_capability \<Rightarrow> input_descriptor" where
  "descriptor_new t c = \<lparr>id_target = t, id_capability = c, id_limits = limits_contract\<rparr>"

definition with_limits :: "input_descriptor \<Rightarrow> sequence_limits \<Rightarrow> input_descriptor" where
  "with_limits d l = d\<lparr>id_limits := l\<rparr>"

definition descriptor_is_available :: "input_descriptor \<Rightarrow> bool" where
  "descriptor_is_available d = is_available (id_capability d)"

definition validate :: "input_descriptor \<Rightarrow> input_request \<Rightarrow> input_fault + unit" where
  "validate d r =
     (if rq_target r \<noteq> id_target d then Inl ForeignTarget
      else if length (sq_events (rq_sequence r)) > sl_max_events (id_limits d) then Inl SequenceOutOfBounds
      else request_check r)"

text \<open>The loop over the sequence's operation kinds, threading the evidence found so far.\<close>

fun preflight_kinds ::
    "input_descriptor \<Rightarrow> input_request \<Rightarrow> input_delivery \<Rightarrow> operation_kind list
     \<Rightarrow> submission_evidence option \<Rightarrow> input_fault + submission_evidence option" where
  "preflight_kinds d r route [] ev = Inr ev"
| "preflight_kinds d r route (k # ks) ev =
     (let p = capability_pair (id_capability d) k route
      in if \<not> route_may_attempt p then Inl UnsupportedCombination
         else (case rt_evidence p of
                 None \<Rightarrow> Inl UnsupportedCombination
               | Some pair_evidence \<Rightarrow>
                   if ev \<noteq> None \<and> ev \<noteq> Some pair_evidence then Inl UnsupportedCombination
                   else if rt_focus_required p \<and> rq_focus r = Preserve then Inl FocusRequired
                   else preflight_kinds d r route ks (Some pair_evidence)))"

fun preflight_moves :: "route_capability \<Rightarrow> input_event list \<Rightarrow> input_fault + unit" where
  "preflight_moves p [] = Inr ()"
| "preflight_moves p (PointerMove pos # evs) =
     (if \<not> accepts_pointer_space p (pt_space pos) then Inl UnsupportedCoordinate
      else preflight_moves p evs)"
| "preflight_moves p (ev # evs) = preflight_moves p evs"

text \<open>\<open>find_map\<close> over every kind: the first attemptable pair that has evidence.\<close>

fun first_evidence ::
    "input_descriptor \<Rightarrow> input_delivery \<Rightarrow> operation_kind list \<Rightarrow> submission_evidence option" where
  "first_evidence d route [] = None"
| "first_evidence d route (k # ks) =
     (let p = capability_pair (id_capability d) k route
      in case (if route_may_attempt p then rt_evidence p else None) of
           Some ev \<Rightarrow> Some ev
         | None \<Rightarrow> first_evidence d route ks)"

definition preflight_route ::
    "input_descriptor \<Rightarrow> input_request \<Rightarrow> input_delivery \<Rightarrow> input_fault + submission_evidence" where
  "preflight_route d r route =
     and_then (validate d r) (\<lambda>_.
       let operations = operation_kinds (rq_sequence r)
       in and_then (preflight_kinds d r route operations None) (\<lambda>ev.
          and_then (if Pointer \<in> set operations
                    then preflight_moves (capability_pair (id_capability d) Pointer route)
                           (sq_events (rq_sequence r))
                    else Inr ()) (\<lambda>_.
            ok_or UnsupportedCombination
              (case ev of None \<Rightarrow> first_evidence d route operation_kind_all | Some e \<Rightarrow> Some e))))"

section \<open>Coherent receipts\<close>

text \<open>
  What a receipt's fields promise together: a complete receipt has no fault, an unexecuted one no
  effect and no route, the last submitted index goes with the count, the attempts before the last had no
  possible effect, and the cleanup state says how the released count compares with the owed one.
\<close>

definition coherent :: "input_receipt \<Rightarrow> bool" where
  "coherent r \<longleftrightarrow>
     (rc_outcome r = Complete) = (rc_fault r = None)
     \<and> (rc_outcome r = Unexecuted) = (rc_selected r = None)
     \<and> (rc_outcome r = Unexecuted \<longrightarrow> \<not> possible_native_effect r \<and> rc_evidence r = None \<and> rc_owed r = 0
           \<and> \<not> list_ex attempt_possible_effect (rc_attempts r))
     \<and> (rc_outcome r = Complete \<longrightarrow> rc_cleanup r = NotNeeded \<and> \<not> rc_partial r)
     \<and> rc_scope r = map_option delivery_address_scope (rc_selected r)
     \<and> rc_last_submitted r = last_index (rc_submitted r)
     \<and> (case rc_selected r of None \<Rightarrow> True
        | Some route \<Rightarrow> rc_attempts r \<noteq> [] \<and> at_route (last (rc_attempts r)) = route
            \<and> at_submitted (last (rc_attempts r)) = rc_submitted r
            \<and> \<not> list_ex attempt_possible_effect (butlast (rc_attempts r)))
     \<and> rc_released r \<le> rc_owed r
     \<and> (rc_cleanup r = NotNeeded) = (rc_owed r = 0)
     \<and> (rc_cleanup r = CleanupComplete \<longrightarrow> rc_released r = rc_owed r)
     \<and> (may_leave_state_held (rc_cleanup r) \<longrightarrow> rc_released r < rc_owed r)"

definition no_effect :: "input_attempt list \<Rightarrow> bool" where
  "no_effect as \<longleftrightarrow> \<not> list_ex attempt_possible_effect as"

lemma no_effect_simps [simp]:
  "no_effect []"
  "no_effect (as @ [attempt_refused route f]) \<longleftrightarrow> no_effect as"
  by (auto simp: no_effect_def attempt_possible_effect_def attempt_refused_def)

lemma attempt_refused_route [simp]: "at_route (attempt_refused route f) = route"
  by (simp add: attempt_refused_def)

lemma no_effect_Cons_refused [simp]: "no_effect (attempt_refused route f # as) \<longleftrightarrow> no_effect as"
  by (simp add: no_effect_def attempt_possible_effect_def attempt_refused_def)

lemmas receipt_defs =
  receipt_complete_def receipt_partial_def receipt_unexecuted_def from_terminal_attempt_def
  attempt_complete_def attempt_partial_def with_prior_attempts_def with_cleanup_def
  with_exhausted_cleanup_def last_index_def

lemma coherent_complete:
  "no_effect prior \<Longrightarrow> coherent (with_prior_attempts (receipt_complete t route ev n) prior)"
  by (simp add: coherent_def receipt_defs no_effect_def possible_native_effect_def butlast_append)

lemma coherent_unexecuted:
  "no_effect prior \<Longrightarrow> coherent (with_prior_attempts (receipt_unexecuted t f) prior)"
  by (simp add: coherent_def receipt_defs no_effect_def possible_native_effect_def)

lemma coherent_partial:
  assumes "no_effect prior" "released \<le> owed"
  shows "coherent (with_cleanup (with_prior_attempts (receipt_partial t route ev n p f) prior) released owed)"
    "coherent (with_exhausted_cleanup (with_prior_attempts (receipt_partial t route ev n p f) prior)
                 released owed)"
  using assms
  by (auto simp: coherent_def receipt_defs no_effect_def possible_native_effect_def butlast_append)

section \<open>Preflight\<close>

lemma preflight_kinds_Inr:
  "preflight_kinds d r route ks ev = Inr ev' \<longleftrightarrow>
     list_all (\<lambda>k. route_may_attempt (capability_pair (id_capability d) k route)
                   \<and> rt_evidence (capability_pair (id_capability d) k route) \<noteq> None
                   \<and> rt_evidence (capability_pair (id_capability d) k route) = ev'
                   \<and> (rt_focus_required (capability_pair (id_capability d) k route)
                        \<longrightarrow> rq_focus r \<noteq> Preserve)) ks
     \<and> (ev \<noteq> None \<or> ks = [] \<longrightarrow> ev' = ev)"
proof (induction d r route ks ev arbitrary: ev' rule: preflight_kinds.induct)
  case (1 d r route ev)
  then show ?case by auto
next
  case (2 d r route k ks ev)
  show ?case
  proof (cases "rt_evidence (capability_pair (id_capability d) k route)")
    case None
    then show ?thesis by (simp add: Let_def)
  next
    case (Some e)
    show ?thesis
    proof (cases "preflight_kinds d r route (k # ks) ev =
                  preflight_kinds d r route ks (Some e)
                  \<and> route_may_attempt (capability_pair (id_capability d) k route)
                  \<and> (ev = None \<or> ev = Some e)
                  \<and> (rt_focus_required (capability_pair (id_capability d) k route)
                        \<longrightarrow> rq_focus r \<noteq> Preserve)")
      case True
      with 2 [OF refl _ Some] Some show ?thesis by auto
    next
      case False
      with Some show ?thesis by (auto simp: Let_def)
    qed
  qed
qed

lemma preflight_moves_Inr:
  "preflight_moves p evs = Inr u \<longleftrightarrow>
     (\<forall>pos. PointerMove pos \<in> set evs \<longrightarrow> accepts_pointer_space p (pt_space pos))"
  by (induction p evs rule: preflight_moves.induct) auto

text \<open>
  C24: a route passes preflight only for a request addressed to this target, within its limits and
  carrying the source frame it needs, and only if every operation of the sequence may be attempted on
  the route, requires no focus the request withholds, shares the returned evidence, and every pointer
  position is in a space the route accepts.
\<close>

theorem preflight_route_sound:
  assumes "preflight_route d r route = Inr ev"
  shows "rq_target r = id_target d
    \<and> length (sq_events (rq_sequence r)) \<le> sl_max_events (id_limits d)
    \<and> request_check r = Inr ()
    \<and> may_submit_via (rq_sequence r) (id_capability d) route
    \<and> list_all (\<lambda>k. rt_evidence (capability_pair (id_capability d) k route) = Some ev
                    \<and> (rq_focus r = Preserve
                       \<longrightarrow> \<not> rt_focus_required (capability_pair (id_capability d) k route)))
        (operation_kinds (rq_sequence r))
    \<and> (\<forall>pos. PointerMove pos \<in> set (sq_events (rq_sequence r))
          \<longrightarrow> accepts_pointer_space (capability_pair (id_capability d) Pointer route) (pt_space pos))"
proof -
  from assms obtain ev0 where v: "validate d r = Inr ()"
    and k: "preflight_kinds d r route (operation_kinds (rq_sequence r)) None = Inr ev0"
    and m: "(if Pointer \<in> set (operation_kinds (rq_sequence r))
             then preflight_moves (capability_pair (id_capability d) Pointer route)
                    (sq_events (rq_sequence r)) else Inr ()) = Inr ()"
    and e: "(case ev0 of None \<Rightarrow> first_evidence d route operation_kind_all | Some e \<Rightarrow> Some e) = Some ev"
    by (auto simp: preflight_route_def result_simps Let_def)
  have ev: "ev0 = Some ev" if "operation_kinds (rq_sequence r) \<noteq> []"
    using k that e by (cases ev0) (auto simp: preflight_kinds_Inr list_all_iff neq_Nil_conv)
  have pointer: "Pointer \<in> set (operation_kinds (rq_sequence r))"
    if "PointerMove pos \<in> set (sq_events (rq_sequence r))" for pos
    using that by (auto simp: operation_kinds_set intro!: bexI [of _ "PointerMove pos"])
  from v k ev m pointer show ?thesis
    by (auto simp: validate_def preflight_kinds_Inr may_submit_via_def list_all_iff preflight_moves_Inr
          split: if_splits)
qed

theorem preflight_route_sound_witness:
  "rt_evidence (capability_pair
      (with_pair input_capability_none Keyboard System Supported SystemInputAdmission) Keyboard System)
   = Some SystemInputAdmission"
proof -
  let ?t = "\<lparr>tgt_engine = EngineId 1, tgt_provider = ProviderId ''windows'', tgt_ordinal = 1\<rparr>"
  let ?d = "descriptor_new ?t (with_pair input_capability_none Keyboard System Supported SystemInputAdmission)"
  let ?r = "request_new ?t \<lparr>sq_events = [KeyPress Tab]\<rparr> (plan_require System)"
  have ops: "operation_kinds \<lparr>sq_events = [KeyPress Tab]\<rparr> = [Keyboard]"
    by (simp add: operation_kinds_def List.map_filter_simps add_kind_def)
  have "preflight_route ?d ?r System = Inr SystemInputAdmission"
    by (simp add: preflight_route_def validate_def request_check_def request_new_def descriptor_new_def
          ops limits_contract_def sequence_max_events_def capability_pair_def with_pair_def
          input_capability_none_def pair_index_def input_delivery_all_def route_may_attempt_def Let_def
          nth_list_update)
  from preflight_route_sound [OF this] show ?thesis
    by (simp add: request_new_def descriptor_new_def ops)
qed

end
