(* ===== verification/Transform.thy ===== *)
theory Transform
  imports Geometry Identity
begin

text \<open>
  Frame-time coordinate transforms: \<open>crates/automation/core/src/transform.rs\<close>. A snapshot carries the
  geometry that was authoritative when a frame was captured; conversion goes through capture pixels.
\<close>

section \<open>Scales and placements\<close>

record scale =
  sc_x :: f64
  sc_y :: f64

definition scale_new :: "f64 \<Rightarrow> f64 \<Rightarrow> geometry_fault + scale" where
  "scale_new x y =
     (if \<not> is_finite x \<or> \<not> is_finite y then Inl NotFinite
      else if fle x (Fin 0) \<or> fle y (Fin 0) then Inl NegativeSize
      else Inr \<lparr>sc_x = x, sc_y = y\<rparr>)"

record target_placement =
  tp_origin_x :: f64
  tp_origin_y :: f64
  tp_width :: f64
  tp_height :: f64
  tp_target_scale :: scale
  tp_desktop_scale :: scale

definition placement_new ::
    "f64 \<times> f64 \<Rightarrow> f64 \<times> f64 \<Rightarrow> scale \<Rightarrow> geometry_fault + target_placement" where
  "placement_new origin sz sc =
     (let (ox, oy) = origin; (w, h) = sz
      in if \<not> (is_finite ox \<and> is_finite oy \<and> is_finite w \<and> is_finite h) then Inl NotFinite
         else if fle w (Fin 0) \<or> fle h (Fin 0) then Inl NegativeSize
         else Inr \<lparr>tp_origin_x = ox, tp_origin_y = oy, tp_width = w, tp_height = h,
                   tp_target_scale = sc, tp_desktop_scale = sc\<rparr>)"

definition with_desktop_scale :: "target_placement \<Rightarrow> scale \<Rightarrow> target_placement" where
  "with_desktop_scale p sc = p\<lparr>tp_desktop_scale := sc\<rparr>"

definition coverage_tolerance_pixels :: f64 where
  "coverage_tolerance_pixels = Fin (1 / 2)"

definition covers_axis :: "f64 \<Rightarrow> u32 \<Rightarrow> bool" where
  "covers_axis scaled_logical px = fle (fabs (fsub scaled_logical (f64_of_u32 px))) coverage_tolerance_pixels"

definition placement_covers :: "target_placement \<Rightarrow> pixel_extent \<Rightarrow> bool" where
  "placement_covers p e \<longleftrightarrow>
     covers_axis (fmul (tp_width p) (sc_x (tp_target_scale p))) (px_width e)
     \<and> covers_axis (fmul (tp_height p) (sc_y (tp_target_scale p))) (px_height e)"

section \<open>Snapshots\<close>

record transform_snapshot =
  ts_geometry :: geometry_revision
  ts_extent :: pixel_extent
  ts_covers_target :: bool
  ts_target :: "target_placement option"

definition frame_only :: "geometry_revision \<Rightarrow> pixel_extent \<Rightarrow> transform_snapshot" where
  "frame_only g e = \<lparr>ts_geometry = g, ts_extent = e, ts_covers_target = False, ts_target = None\<rparr>"

definition with_target_extent :: "geometry_revision \<Rightarrow> pixel_extent \<Rightarrow> transform_snapshot" where
  "with_target_extent g e = \<lparr>ts_geometry = g, ts_extent = e, ts_covers_target = True, ts_target = None\<rparr>"

definition with_target ::
    "geometry_revision \<Rightarrow> pixel_extent \<Rightarrow> target_placement \<Rightarrow> geometry_fault + transform_snapshot" where
  "with_target g e p =
     (if \<not> placement_covers p e then Inl SpaceMismatch
      else Inr \<lparr>ts_geometry = g, ts_extent = e, ts_covers_target = True, ts_target = Some p\<rparr>)"

fun supports :: "transform_snapshot \<Rightarrow> coordinate_space \<Rightarrow> bool" where
  "supports s CapturePixels = (\<not> extent_is_empty (ts_extent s))"
| "supports s FrameNormalized = (\<not> extent_is_empty (ts_extent s))"
| "supports s TargetNormalized = (ts_covers_target s \<and> \<not> extent_is_empty (ts_extent s))"
| "supports s TargetLogical = (ts_target s \<noteq> None \<and> \<not> extent_is_empty (ts_extent s))"
| "supports s DesktopLogical = (ts_target s \<noteq> None \<and> \<not> extent_is_empty (ts_extent s))"

definition placement :: "transform_snapshot \<Rightarrow> geometry_fault + target_placement" where
  "placement s = ok_or ConversionUnsupported (ts_target s)"

definition project_to_pixels ::
    "transform_snapshot \<Rightarrow> coordinate_space \<Rightarrow> f64 \<Rightarrow> f64 \<Rightarrow> geometry_fault + f64 \<times> f64" where
  "project_to_pixels s src x y =
     (if \<not> supports s src then Inl ConversionUnsupported
      else let frame_width = f64_of_u32 (px_width (ts_extent s));
               frame_height = f64_of_u32 (px_height (ts_extent s))
           in (case src of
                 CapturePixels \<Rightarrow> Inr (x, y)
               | FrameNormalized \<Rightarrow> Inr (fmul x frame_width, fmul y frame_height)
               | TargetNormalized \<Rightarrow> Inr (fmul x frame_width, fmul y frame_height)
               | TargetLogical \<Rightarrow>
                   and_then (placement s) (\<lambda>p.
                     Inr (fmul x (sc_x (tp_target_scale p)), fmul y (sc_y (tp_target_scale p))))
               | DesktopLogical \<Rightarrow>
                   and_then (placement s) (\<lambda>p.
                     Inr (fmul (fsub x (tp_origin_x p)) (sc_x (tp_desktop_scale p)),
                          fmul (fsub y (tp_origin_y p)) (sc_y (tp_desktop_scale p))))))"

definition project_from_pixels ::
    "transform_snapshot \<Rightarrow> coordinate_space \<Rightarrow> f64 \<Rightarrow> f64 \<Rightarrow> geometry_fault + f64 \<times> f64" where
  "project_from_pixels s dst x y =
     (if \<not> supports s dst then Inl ConversionUnsupported
      else let frame_width = f64_of_u32 (px_width (ts_extent s));
               frame_height = f64_of_u32 (px_height (ts_extent s))
           in (case dst of
                 CapturePixels \<Rightarrow> Inr (x, y)
               | FrameNormalized \<Rightarrow> Inr (fdiv x frame_width, fdiv y frame_height)
               | TargetNormalized \<Rightarrow> Inr (fdiv x frame_width, fdiv y frame_height)
               | TargetLogical \<Rightarrow>
                   and_then (placement s) (\<lambda>p.
                     Inr (fdiv x (sc_x (tp_target_scale p)), fdiv y (sc_y (tp_target_scale p))))
               | DesktopLogical \<Rightarrow>
                   and_then (placement s) (\<lambda>p.
                     Inr (fadd (fdiv x (sc_x (tp_desktop_scale p))) (tp_origin_x p),
                          fadd (fdiv y (sc_y (tp_desktop_scale p))) (tp_origin_y p)))))"

section \<open>Conversions\<close>

definition convert_point ::
    "transform_snapshot \<Rightarrow> point \<Rightarrow> coordinate_space \<Rightarrow> geometry_fault + point" where
  "convert_point s p dst =
     and_then (project_to_pixels s (pt_space p) (pt_x p) (pt_y p)) (\<lambda>(pixel_x, pixel_y).
     and_then (project_from_pixels s dst pixel_x pixel_y) (\<lambda>(x, y).
       point_new dst x y))"

definition convert_rect ::
    "transform_snapshot \<Rightarrow> rect \<Rightarrow> coordinate_space \<Rightarrow> geometry_fault + rect" where
  "convert_rect s r dst =
     and_then (project_to_pixels s (rc_space r) (rc_left r) (rc_top r)) (\<lambda>(l0, t0).
     and_then (project_to_pixels s (rc_space r) (rc_right r) (rc_bottom r)) (\<lambda>(r0, b0).
     and_then (project_from_pixels s dst l0 t0) (\<lambda>(l1, t1).
     and_then (project_from_pixels s dst r0 b0) (\<lambda>(r1, b1).
       rect_new dst l1 t1 r1 b1))))"

definition resolve_capture_pixels ::
    "transform_snapshot \<Rightarrow> rect \<Rightarrow> clip_policy \<Rightarrow> geometry_fault + pixel_rect" where
  "resolve_capture_pixels s r policy =
     and_then (project_to_pixels s (rc_space r) (rc_left r) (rc_top r)) (\<lambda>(l0, t0).
     and_then (project_to_pixels s (rc_space r) (rc_right r) (rc_bottom r)) (\<lambda>(r0, b0).
     and_then (floor_to_pixel l0) (\<lambda>l1.
     and_then (floor_to_pixel t0) (\<lambda>t1.
     and_then (ceil_to_pixel r0) (\<lambda>r1.
     and_then (ceil_to_pixel b0) (\<lambda>b1.
     and_then (pixel_rect_new l1 t1
                 (if flt (Fin 0) (rect_width r) then r1 else l1)
                 (if flt (Fin 0) (rect_height r) then b1 else t1)) (\<lambda>resolved.
       resolve_against resolved (ts_extent s) policy)))))))"

definition frame_bounds :: "transform_snapshot \<Rightarrow> geometry_fault + pixel_rect" where
  "frame_bounds s = to_rect (ts_extent s)"

text \<open>The derived \<open>PartialEq\<close> of a placement compares its fields as floating-point numbers.\<close>

definition scale_eq :: "scale \<Rightarrow> scale \<Rightarrow> bool" where
  "scale_eq a b \<longleftrightarrow> feq (sc_x a) (sc_x b) \<and> feq (sc_y a) (sc_y b)"

definition placement_eq :: "target_placement \<Rightarrow> target_placement \<Rightarrow> bool" where
  "placement_eq a b \<longleftrightarrow> feq (tp_origin_x a) (tp_origin_x b) \<and> feq (tp_origin_y a) (tp_origin_y b)
     \<and> feq (tp_width a) (tp_width b) \<and> feq (tp_height a) (tp_height b)
     \<and> scale_eq (tp_target_scale a) (tp_target_scale b) \<and> scale_eq (tp_desktop_scale a) (tp_desktop_scale b)"

fun same_placement :: "target_placement option \<Rightarrow> target_placement option \<Rightarrow> bool" where
  "same_placement None None = True"
| "same_placement (Some a) (Some b) = placement_eq a b"
| "same_placement _ _ = False"

lemma same_placement_eq: "same_placement p q \<Longrightarrow> p = q"
  by (cases p; cases q)
     (auto simp: placement_eq_def scale_eq_def dest!: feq_eq intro!: target_placement.equality scale.equality)

definition snapshot_eq :: "transform_snapshot \<Rightarrow> transform_snapshot \<Rightarrow> bool" where
  "snapshot_eq a b \<longleftrightarrow> ts_geometry a = ts_geometry b \<and> ts_extent a = ts_extent b
     \<and> ts_covers_target a = ts_covers_target b \<and> same_placement (ts_target a) (ts_target b)"

section \<open>What every constructed snapshot satisfies\<close>

definition positive :: "f64 \<Rightarrow> bool" where
  "positive v \<longleftrightarrow> (\<exists>x. v = Fin x \<and> 0 < x)"

definition valid_scale :: "scale \<Rightarrow> bool" where
  "valid_scale sc \<longleftrightarrow> positive (sc_x sc) \<and> positive (sc_y sc)"

definition valid_placement :: "target_placement \<Rightarrow> bool" where
  "valid_placement p \<longleftrightarrow> is_finite (tp_origin_x p) \<and> is_finite (tp_origin_y p)
     \<and> valid_scale (tp_target_scale p) \<and> valid_scale (tp_desktop_scale p)"

definition valid_snapshot :: "transform_snapshot \<Rightarrow> bool" where
  "valid_snapshot s \<longleftrightarrow> (case ts_target s of None \<Rightarrow> True | Some p \<Rightarrow> valid_placement p)"

lemma scale_new_valid: "scale_new x y = Inr sc \<Longrightarrow> valid_scale sc"
  by (auto simp: scale_new_def valid_scale_def positive_def is_finite_iff not_le split: if_splits)

lemma placement_new_valid:
  "placement_new origin sz sc = Inr p \<Longrightarrow> valid_scale sc \<Longrightarrow> valid_placement p"
  by (auto simp: placement_new_def valid_placement_def split: prod.splits if_splits)

lemma with_target_valid: "with_target g e p = Inr s \<Longrightarrow> valid_placement p \<Longrightarrow> valid_snapshot s"
  by (auto simp: with_target_def valid_snapshot_def split: if_splits)

lemma frame_only_valid [simp]: "valid_snapshot (frame_only g e)" "valid_snapshot (with_target_extent g e)"
  by (simp_all add: frame_only_def with_target_extent_def valid_snapshot_def)

section \<open>Projection keeps order\<close>

lemma f64_of_u32_positive: "w \<noteq> 0 \<Longrightarrow> positive (f64_of_u32 w)"
proof -
  assume "w \<noteq> 0"
  then have "uint w \<noteq> 0" by (simp add: uint_0_iff)
  then have "0 < uint w" using uint_ge_0 [of w] by linarith
  then have "(0 :: rat) < of_int (uint w)" by (simp only: of_int_0_less_iff)
  then show ?thesis unfolding f64_of_u32_def positive_def by blast
qed

lemma positive_mono:
  assumes "positive k" "fle a b"
  shows "fle (fmul a k) (fmul b k)" "fle (fdiv a k) (fdiv b k)"
  using assms by (auto simp: positive_def intro: float_mono)

lemma finite_mono:
  assumes "is_finite c" "fle a b"
  shows "fle (fadd a c) (fadd b c)" "fle (fsub a c) (fsub b c)"
  using assms by (auto simp: is_finite_iff intro: float_mono)

lemma supports_extent: "supports s sp \<Longrightarrow> px_width (ts_extent s) \<noteq> 0 \<and> px_height (ts_extent s) \<noteq> 0"
  by (cases sp) (auto simp: extent_is_empty_def)

lemma project_to_pixels_mono:
  assumes "valid_snapshot s" "fle x x'" "fle y y'"
    and "project_to_pixels s sp x y = Inr (px, py)" "project_to_pixels s sp x' y' = Inr (px', py')"
  shows "fle px px' \<and> fle py py'"
proof -
  have sup: "supports s sp" using assms(4) by (auto simp: project_to_pixels_def split: if_splits)
  note pos = supports_extent [OF sup, THEN conjunct1, THEN f64_of_u32_positive]
    supports_extent [OF sup, THEN conjunct2, THEN f64_of_u32_positive]
  show ?thesis
    using assms pos sup
    by (cases sp)
       (auto simp: project_to_pixels_def placement_def result_simps valid_snapshot_def
          valid_placement_def valid_scale_def intro!: positive_mono finite_mono)
qed

lemma project_from_pixels_mono:
  assumes "valid_snapshot s" "fle x x'" "fle y y'"
    and "project_from_pixels s sp x y = Inr (px, py)" "project_from_pixels s sp x' y' = Inr (px', py')"
  shows "fle px px' \<and> fle py py'"
proof -
  have sup: "supports s sp" using assms(4) by (auto simp: project_from_pixels_def split: if_splits)
  note pos = supports_extent [OF sup, THEN conjunct1, THEN f64_of_u32_positive]
    supports_extent [OF sup, THEN conjunct2, THEN f64_of_u32_positive]
  show ?thesis
    using assms pos sup
    by (cases sp)
       (auto simp: project_from_pixels_def placement_def result_simps valid_snapshot_def
          valid_placement_def valid_scale_def intro!: positive_mono finite_mono)
qed

lemma project_to_pixels_Inl: "project_to_pixels s sp x y = Inl f \<Longrightarrow> f = ConversionUnsupported"
  by (cases sp) (auto simp: project_to_pixels_def placement_def result_simps split: if_splits)

lemma project_from_pixels_Inl: "project_from_pixels s sp x y = Inl f \<Longrightarrow> f = ConversionUnsupported"
  by (cases sp) (auto simp: project_from_pixels_def placement_def result_simps split: if_splits)

text \<open>
  C18: converting a valid rectangle between any two spaces never inverts its edges, whatever the scales
  and origins round to: the answer is a valid rectangle in the destination space, or the conversion is
  unsupported, or an edge is not representable or leaves the normalized range, but never
  \<open>NegativeSize\<close>.
\<close>

theorem convert_rect_never_inverts:
  assumes "valid_snapshot s" and "valid_rect r"
  shows "case convert_rect s r dst of
           Inr q \<Rightarrow> valid_rect q \<and> rc_space q = dst
         | Inl f \<Rightarrow> f \<in> {ConversionUnsupported, NotFinite, OutOfNormalizedRange}"
proof (cases "convert_rect s r dst")
  case (Inr q)
  then have "\<exists>l1 t1 r1 b1. rect_new dst l1 t1 r1 b1 = Inr q"
    by (auto simp: convert_rect_def result_simps split: prod.splits)
  with Inr show ?thesis by (auto simp: rect_new_Inr)
next
  case (Inl f)
  have le: "fle (rc_left r) (rc_right r)" "fle (rc_top r) (rc_bottom r)"
    using assms(2) by (simp_all add: valid_rect_def)
  have "f \<noteq> NegativeSize"
  proof
    assume "f = NegativeSize"
    with Inl have "convert_rect s r dst = Inl NegativeSize" by simp
    then obtain l0 t0 r0 b0 l1 t1 r1 b1 where
      p: "project_to_pixels s (rc_space r) (rc_left r) (rc_top r) = Inr (l0, t0)"
         "project_to_pixels s (rc_space r) (rc_right r) (rc_bottom r) = Inr (r0, b0)"
         "project_from_pixels s dst l0 t0 = Inr (l1, t1)"
         "project_from_pixels s dst r0 b0 = Inr (r1, b1)"
      and neg: "rect_new dst l1 t1 r1 b1 = Inl NegativeSize"
      unfolding convert_rect_def
      by (fastforce elim!: and_then_InlE split: prod.splits
            dest: project_to_pixels_Inl project_from_pixels_Inl)
    from project_to_pixels_mono [OF assms(1) le p(1,2)]
    have "fle l1 r1 \<and> fle t1 b1"
      using project_from_pixels_mono [OF assms(1) _ _ p(3,4)] by blast
    with neg rect_new_not_negative show False by blast
  qed
  from Inl have "f = ConversionUnsupported \<or> (\<exists>l1 t1 r1 b1. rect_new dst l1 t1 r1 b1 = Inl f)"
    unfolding convert_rect_def
    by (fastforce elim!: and_then_InlE split: prod.splits
          dest: project_to_pixels_Inl project_from_pixels_Inl)
  with \<open>f \<noteq> NegativeSize\<close> have "f \<in> {ConversionUnsupported, NotFinite, OutOfNormalizedRange}"
    by (auto simp: rect_new_def split: if_splits)
  with Inl show ?thesis by simp
qed

theorem convert_rect_never_inverts_witness:
  "case convert_rect (frame_only (GeometryRevision 0) \<lparr>px_width = 7, px_height = 3\<rparr>)
          \<lparr>rc_space = CapturePixels, rc_left = Fin 1, rc_top = Fin 0, rc_right = Fin 2, rc_bottom = Fin 2\<rparr>
          FrameNormalized of
     Inr q \<Rightarrow> valid_rect q \<and> rc_space q = FrameNormalized
   | Inl f \<Rightarrow> f \<in> {ConversionUnsupported, NotFinite, OutOfNormalizedRange}"
  by (rule convert_rect_never_inverts) (simp_all add: valid_rect_def)

section \<open>Normalizing what lies in the frame\<close>

lemma fdiv_unit_range:
  assumes "0 \<le> x" "x \<le> of_int (uint (w :: u32))" "w \<noteq> 0"
  shows "\<exists>q. fdiv (Fin x) (f64_of_u32 w) = Fin q \<and> in_unit_range (Fin q)"
proof -
  define k :: rat where "k = of_int (uint w)"
  have k: "0 < k" "f64_of_u32 w = Fin k"
    using f64_of_u32_positive [OF assms(3)] unfolding f64_of_u32_def positive_def k_def by auto
  have "of_int 0 \<le> x / k" "x / k \<le> of_int 1"
    using assms k by (simp_all add: pos_divide_le_eq k_def)
  note b = fl_between_ints [OF this] rne_between_ints [OF this]
  from b k show ?thesis by (simp add: in_unit_range_def)
qed

text \<open>
  A point inside the captured frame, its far edges included, always has a frame-normalized
  coordinate: rounding the quotient never leaves the range zero through one.
\<close>

theorem in_frame_point_normalizes:
  assumes "\<not> extent_is_empty e"
    and "0 \<le> x" and "x \<le> of_int (uint (px_width e))"
    and "0 \<le> y" and "y \<le> of_int (uint (px_height e))"
  shows "\<exists>u v. convert_point (frame_only g e) \<lparr>pt_space = CapturePixels, pt_x = Fin x, pt_y = Fin y\<rparr>
                 FrameNormalized
               = Inr \<lparr>pt_space = FrameNormalized, pt_x = Fin u, pt_y = Fin v\<rparr>
             \<and> in_unit_range (Fin u) \<and> in_unit_range (Fin v)"
proof -
  have ne: "px_width e \<noteq> 0" "px_height e \<noteq> 0" using assms(1) by (simp_all add: extent_is_empty_def)
  obtain u where u: "fdiv (Fin x) (f64_of_u32 (px_width e)) = Fin u" "in_unit_range (Fin u)"
    using fdiv_unit_range [OF assms(2,3) ne(1)] by blast
  obtain v where v: "fdiv (Fin y) (f64_of_u32 (px_height e)) = Fin v" "in_unit_range (Fin v)"
    using fdiv_unit_range [OF assms(4,5) ne(2)] by blast
  from u v assms(1) show ?thesis
    by (simp add: convert_point_def project_to_pixels_def project_from_pixels_def frame_only_def
          point_new_def Let_def)
qed

theorem in_frame_point_normalizes_witness:
  "\<exists>u v. convert_point (frame_only (GeometryRevision 0) \<lparr>px_width = 3, px_height = 49\<rparr>)
           \<lparr>pt_space = CapturePixels, pt_x = Fin 1, pt_y = Fin 49\<rparr> FrameNormalized
         = Inr \<lparr>pt_space = FrameNormalized, pt_x = Fin u, pt_y = Fin v\<rparr>
       \<and> in_unit_range (Fin u) \<and> in_unit_range (Fin v)"
  by (rule in_frame_point_normalizes) (simp_all add: extent_is_empty_def)

section \<open>Resolving to capture pixels\<close>

lemma flt_zero_width:
  assumes "rc_left r = Fin a" "rc_right r = Fin b"
  shows "flt (Fin 0) (rect_width r) \<longleftrightarrow> flt (Fin 0) (fl (b - a))"
  using assms by (simp add: rect_width_def fsub_def)

text \<open>The pixel edges computed for a projected region, before the policy.\<close>

lemma resolve_capture_pixels_Inr:
  assumes "resolve_capture_pixels s r policy = Inr q"
  obtains l t b e lf tf bf ef where
    "project_to_pixels s (rc_space r) (rc_left r) (rc_top r) = Inr (Fin l, Fin t)"
    "project_to_pixels s (rc_space r) (rc_right r) (rc_bottom r) = Inr (Fin b, Fin e)"
    "lf = \<lfloor>l\<rfloor>" "tf = \<lfloor>t\<rfloor>" "bf = \<lceil>b\<rceil>" "ef = \<lceil>e\<rceil>"
    "lf \<le> bf" "tf \<le> ef" "in_i32 lf" "in_i32 tf" "in_i32 bf" "in_i32 ef"
    "resolve_against \<lparr>pr_left = lf, pr_top = tf, pr_right = bf, pr_bottom = ef\<rparr> (ts_extent s) policy = Inr q"
proof -
  let ?W = "flt (Fin 0) (rect_width r)" and ?H = "flt (Fin 0) (rect_height r)"
  from assms obtain l t b e where
    p: "project_to_pixels s (rc_space r) (rc_left r) (rc_top r) = Inr (Fin l, Fin t)"
       "project_to_pixels s (rc_space r) (rc_right r) (rc_bottom r) = Inr (Fin b, Fin e)"
    and i: "in_i32 \<lfloor>l\<rfloor>" "in_i32 \<lfloor>t\<rfloor>" "in_i32 \<lceil>b\<rceil>" "in_i32 \<lceil>e\<rceil>"
    and ord: "\<lfloor>l\<rfloor> \<le> (if ?W then \<lceil>b\<rceil> else \<lfloor>l\<rfloor>)" "\<lfloor>t\<rfloor> \<le> (if ?H then \<lceil>e\<rceil> else \<lfloor>t\<rfloor>)"
    and res: "resolve_against \<lparr>pr_left = \<lfloor>l\<rfloor>, pr_top = \<lfloor>t\<rfloor>, pr_right = if ?W then \<lceil>b\<rceil> else \<lfloor>l\<rfloor>,
                 pr_bottom = if ?H then \<lceil>e\<rceil> else \<lfloor>t\<rfloor>\<rparr> (ts_extent s) policy = Inr q"
    unfolding resolve_capture_pixels_def
    by (elim and_then_InrE; clarsimp elim!: and_then_InrE
          simp: floor_to_pixel_Inr ceil_to_pixel_Inr pixel_rect_new_Inr)
  let ?raw = "\<lparr>pr_left = \<lfloor>l\<rfloor>, pr_top = \<lfloor>t\<rfloor>, pr_right = if ?W then \<lceil>b\<rceil> else \<lfloor>l\<rfloor>,
                 pr_bottom = if ?H then \<lceil>e\<rceil> else \<lfloor>t\<rfloor>\<rparr>"
  have "valid_pixel_rect ?raw" using i ord by (simp add: valid_pixel_rect_def)
  with res have "pixels ?raw \<noteq> {}"
    by (auto simp: resolve_against_def result_simps pixel_rect_is_empty_iff split: if_splits)
  then have "?W" "?H" by (auto simp: pixels_empty_iff split: if_splits)
  with p i ord res that show ?thesis by simp
qed

text \<open>
  C19: the pixel rectangle a region resolves to lies inside the frame, encloses every pixel of the frame
  that the projected region touches, and, when clipping is not permitted, encloses no column or row that
  the region does not touch.
\<close>

theorem resolve_capture_pixels_covers:
  assumes "resolve_capture_pixels s r policy = Inr q"
  shows "\<exists>l t b e.
     project_to_pixels s (rc_space r) (rc_left r) (rc_top r) = Inr (Fin l, Fin t)
     \<and> project_to_pixels s (rc_space r) (rc_right r) (rc_bottom r) = Inr (Fin b, Fin e)
     \<and> pixels q \<noteq> {} \<and> pixels q \<subseteq> pixels (frame_rect (ts_extent s))
     \<and> (\<forall>x y. l \<le> x \<and> x < b \<and> t \<le> y \<and> y < e
               \<and> (\<lfloor>x\<rfloor>, \<lfloor>y\<rfloor>) \<in> pixels (frame_rect (ts_extent s)) \<longrightarrow> (\<lfloor>x\<rfloor>, \<lfloor>y\<rfloor>) \<in> pixels q)
     \<and> (policy = Reject \<longrightarrow> pr_left q = \<lfloor>l\<rfloor> \<and> pr_top q = \<lfloor>t\<rfloor> \<and> pr_right q = \<lceil>b\<rceil> \<and> pr_bottom q = \<lceil>e\<rceil>)"
proof -
  obtain l t b e lf tf bf ef where
    p: "project_to_pixels s (rc_space r) (rc_left r) (rc_top r) = Inr (Fin l, Fin t)"
       "project_to_pixels s (rc_space r) (rc_right r) (rc_bottom r) = Inr (Fin b, Fin e)"
    and f: "lf = \<lfloor>l\<rfloor>" "tf = \<lfloor>t\<rfloor>" "bf = \<lceil>b\<rceil>" "ef = \<lceil>e\<rceil>"
    and o: "lf \<le> bf" "tf \<le> ef" "in_i32 lf" "in_i32 tf" "in_i32 bf" "in_i32 ef"
    and res: "resolve_against \<lparr>pr_left = lf, pr_top = tf, pr_right = bf, pr_bottom = ef\<rparr>
                (ts_extent s) policy = Inr q"
    using resolve_capture_pixels_Inr [OF assms] .
  let ?raw = "\<lparr>pr_left = lf, pr_top = tf, pr_right = bf, pr_bottom = ef\<rparr>"
  have v: "valid_pixel_rect ?raw" using o by (simp add: valid_pixel_rect_def)
  have fits: "fits_i32 (ts_extent s)"
    using res by (auto simp: resolve_against_def to_rect_eq result_simps split: if_splits)
  have q: "pixels q \<noteq> {}" "pixels q = pixels ?raw \<inter> pixels (frame_rect (ts_extent s))"
    "policy = Reject \<longrightarrow> q = ?raw"
    using resolve_against_facts [OF v fits res] by blast+
  have "(\<lfloor>x\<rfloor>, \<lfloor>y\<rfloor>) \<in> pixels ?raw" if "l \<le> x" "x < b" "t \<le> y" "y < e" for x y
    using that f by (auto simp: pixels_def floor_mono floor_less_iff) (linarith+)
  with p f q show ?thesis by (intro exI [of _ l] exI [of _ t] exI [of _ b] exI [of _ e]) auto
qed

theorem resolve_capture_pixels_covers_witness:
  "resolve_capture_pixels (frame_only (GeometryRevision 0) \<lparr>px_width = 10, px_height = 8\<rparr>)
     \<lparr>rc_space = CapturePixels, rc_left = Fin (3 / 2), rc_top = Fin 2, rc_right = Fin (11 / 2), rc_bottom = Fin 5\<rparr>
     Reject = Inr \<lparr>pr_left = 1, pr_top = 2, pr_right = 6, pr_bottom = 5\<rparr>
   \<and> pixels \<lparr>pr_left = 1, pr_top = 2, pr_right = 6, pr_bottom = 5\<rparr>
       \<subseteq> pixels (frame_rect \<lparr>px_width = 10, px_height = 8\<rparr>)"
proof -
  have fits: "fits_i32 \<lparr>px_width = 10, px_height = 8\<rparr>" by (simp add: fits_i32_def i32_max_def)
  have "fl 4 = Fin (rne 4)" "fl 3 = Fin (rne 3)" using fl_between_ints [of 3 4 4] fl_between_ints [of 3 3 4] by simp_all
  moreover have "\<lfloor>3 / 2 :: rat\<rfloor> = 1" "\<lceil>11 / 2 :: rat\<rceil> = 6" by (simp_all add: floor_eq_iff ceiling_eq_iff)
  moreover have "rne 4 = 4" "rne 3 = 3" using rne_int [of 4] rne_int [of 3] by simp_all
  ultimately have r: "resolve_capture_pixels (frame_only (GeometryRevision 0) \<lparr>px_width = 10, px_height = 8\<rparr>)
     \<lparr>rc_space = CapturePixels, rc_left = Fin (3 / 2), rc_top = Fin 2, rc_right = Fin (11 / 2), rc_bottom = Fin 5\<rparr>
     Reject = Inr \<lparr>pr_left = 1, pr_top = 2, pr_right = 6, pr_bottom = 5\<rparr>"
    by (simp add: resolve_capture_pixels_def project_to_pixels_def frame_only_def extent_is_empty_def
          floor_to_pixel_def ceil_to_pixel_def integral_to_i32_def f64_of_int_def i32_min_def i32_max_def
          rect_width_def rect_height_def fsub_def pixel_rect_new_def resolve_against_def to_rect_eq fits
          pixel_rect_is_empty_def pixel_rect_width_def pixel_rect_height_def u32_of_i64_def
          contains_rect_def frame_rect_def Let_def)
  show ?thesis using resolve_capture_pixels_covers [OF r] r by (auto simp: frame_only_def)
qed

end
