(* ===== verification/WinInput.thy ===== *)
theory WinInput
  imports Receipt Transform
begin

text \<open>
  The Windows input controller, \<open>crates/platform/windows/src/input.rs\<close>: what a target's capability
  table says, the ledger of authoritative transforms, route selection, the submission loop, delays,
  receipts of stopped sequences and cleanup.

  The native driver, the caller's clock and token, thread sleep and the admission gate are the fields of
  an environment over a world state \<open>'w\<close>: each call may read and change the world and returns what the
  Rust call returns. A wait polls until the clock has advanced, so the loops take fuel; enough fuel is
  proved to exist for every clock that advances with sleep.
\<close>

section \<open>Capability\<close>

definition class_name_fixture :: "string option \<Rightarrow> string \<Rightarrow> bool" where
  "class_name_fixture class_name fixture \<longleftrightarrow> class_name = Some fixture"

definition all_spaces :: "coordinate_space list" where
  "all_spaces = [CapturePixels, FrameNormalized, TargetNormalized, TargetLogical, DesktopLogical]"

text \<open>\<open>fixture\<close> is the fixture window's class name, a constant of another file.\<close>

definition win_input_capability ::
    "string \<Rightarrow> target_kind \<Rightarrow> string option \<Rightarrow> bool \<Rightarrow> input_capability" where
  "win_input_capability fixture k class_name window_message_authority =
     (let c = with_pair input_capability_none Pointer System Supported SystemInputAdmission;
          c = foldl (\<lambda>c space. with_pointer_space c System space) c all_spaces
      in if k = Window then
           (let c = with_focus_required c Pointer System;
                c = with_pair c Keyboard System Supported SystemInputAdmission;
                c = with_focus_required c Keyboard System;
                c = with_pair c Text System Supported SystemInputAdmission;
                c = with_focus_required c Text System
            in if window_message_authority then
                 (let (su, ev) = (if class_name_fixture class_name fixture
                                  then (Supported, TargetProtocolAcknowledgement)
                                  else (SupportUnknown, TargetQueueAdmission));
                      c = foldl (\<lambda>c op. with_pair c op WindowMessage su ev) c operation_kind_all
                  in foldl (\<lambda>c space. with_pointer_space c WindowMessage space) c all_spaces)
               else c)
         else c)"

section \<open>The geometry ledger\<close>

record geometry_entry =
  ge_stamp :: frame_stamp
  ge_transform :: transform_snapshot

type_synonym geometry_ledger = "stream_id \<Rightarrow> geometry_entry option"

definition ledger_record :: "geometry_ledger \<Rightarrow> frame_stamp \<Rightarrow> transform_snapshot \<Rightarrow> geometry_ledger" where
  "ledger_record l stamp transform =
     l(fs_stream stamp \<mapsto> \<lparr>ge_stamp = stamp, ge_transform = transform\<rparr>)"

definition ledger_remove :: "geometry_ledger \<Rightarrow> stream_id \<Rightarrow> geometry_ledger" where
  "ledger_remove l s = l(s := None)"

definition resolve_source_transform ::
    "geometry_ledger \<Rightarrow> frame_stamp \<Rightarrow> input_fault + transform_snapshot" where
  "resolve_source_transform l source =
     and_then (ok_or UnsupportedCoordinate (l (fs_stream source))) (\<lambda>entry.
       if fs_epoch (ge_stamp entry) \<noteq> fs_epoch source \<or> fs_geometry (ge_stamp entry) \<noteq> fs_geometry source
       then Inl FaultGeometryChanged
       else (case stamp_order source (ge_stamp entry) of
               Inr Before \<Rightarrow> Inr (ge_transform entry)
             | Inr Same \<Rightarrow> Inr (ge_transform entry)
             | _ \<Rightarrow> Inl UnsupportedCoordinate))"

section \<open>Driver state and failures\<close>

record geometry_fingerprint =
  gf_extent :: pixel_extent
  gf_placement :: target_placement

record pointer_state =
  ps_screen :: "int \<times> int"
  ps_geometry :: geometry_fingerprint
  ps_expected :: "geometry_fingerprint option"

record system_key_state =
  sk_logical :: key
  sk_virtual_key :: u16
  sk_scan_code :: u8
  sk_extended :: bool

record system_button_state =
  sb_logical :: pointer_button
  sb_physical :: u8

record driver_state =
  ds_pointer :: "pointer_state option"
  ds_keys :: "system_key_state list"
  ds_buttons :: "system_button_state list"
  ds_pending_unicode :: "u16 option"

definition driver_state_default :: driver_state where
  "driver_state_default = \<lparr>ds_pointer = None, ds_keys = [], ds_buttons = [], ds_pending_unicode = None\<rparr>"

record submission_failure =
  sf_fault :: input_fault
  sf_may_have_effect :: bool
  sf_may_leave_pressed :: bool

definition before_event :: "input_fault \<Rightarrow> submission_failure" where
  "before_event f = \<lparr>sf_fault = f, sf_may_have_effect = False, sf_may_leave_pressed = False\<rparr>"

definition during_event :: "input_fault \<Rightarrow> submission_failure" where
  "during_event f = \<lparr>sf_fault = f, sf_may_have_effect = True, sf_may_leave_pressed = True\<rparr>"

definition without_pressed_state :: "submission_failure \<Rightarrow> submission_failure" where
  "without_pressed_state f = f\<lparr>sf_may_leave_pressed := False\<rparr>"

datatype pending_release = ReleaseUnicode u16 | ReleaseLogical pressed_state

section \<open>The environment\<close>

record 'w input_env =
  env_look :: "'w \<Rightarrow> observation \<times> 'w"
  env_sleep :: "duration \<Rightarrow> 'w \<Rightarrow> 'w"
  env_admit :: "operation_context \<Rightarrow> 'w \<Rightarrow> (error + unit) \<times> 'w"
  env_unguard :: "'w \<Rightarrow> 'w"
  drv_preflight :: "input_delivery \<Rightarrow> focus_policy \<Rightarrow> operation_context \<Rightarrow> 'w \<Rightarrow> (input_fault + unit) \<times> 'w"
  drv_submit :: "input_delivery \<Rightarrow> focus_policy \<Rightarrow> input_event \<Rightarrow> pointer_geometry \<Rightarrow> driver_state
                  \<Rightarrow> operation_context \<Rightarrow> 'w \<Rightarrow> (submission_failure + unit) \<times> driver_state \<times> 'w"
  drv_release :: "input_delivery \<Rightarrow> pending_release \<Rightarrow> driver_state \<Rightarrow> operation_context
                  \<Rightarrow> 'w \<Rightarrow> (input_fault + unit) \<times> driver_state \<times> 'w"

definition delay_poll_interval :: duration where
  "delay_poll_interval = 2 * 1000000"

fun wait_loop ::
    "nat \<Rightarrow> 'w input_env \<Rightarrow> operation_context \<Rightarrow> instant \<Rightarrow> 'w \<Rightarrow> ((input_fault + unit) \<times> 'w) option" where
  "wait_loop 0 env c finish w = None"
| "wait_loop (Suc fuel) env c finish w =
     (let (ob, w) = env_look env w
      in case context_interruption c ob of
           Some i \<Rightarrow> Some (Inl (fault_of_interruption i), w)
         | None \<Rightarrow>
             (let (ob, w) = env_look env w; now = obs_now ob
              in if finish \<le> now then
                   (let (ob, w) = env_look env w
                    in case context_interruption c ob of
                         Some i \<Rightarrow> Some (Inl (fault_of_interruption i), w)
                       | None \<Rightarrow> Some (Inr (), w))
                 else wait_loop fuel env c finish
                        (env_sleep env (min (saturating_duration_since finish now) delay_poll_interval) w)))"

definition wait_delay ::
    "nat \<Rightarrow> 'w input_env \<Rightarrow> duration \<Rightarrow> operation_context \<Rightarrow> 'w \<Rightarrow> ((input_fault + unit) \<times> 'w) option" where
  "wait_delay fuel env delay c w =
     (let (ob, w) = env_look env w
      in case context_interruption c ob of
           Some i \<Rightarrow> Some (Inl (fault_of_interruption i), w)
         | None \<Rightarrow>
             (let (ob, w) = env_look env w
              in case instant_checked_add (obs_now ob) delay of
                   None \<Rightarrow> Some (Inl FaultDeadlineExceeded, w)
                 | Some finish \<Rightarrow> wait_loop fuel env c finish w))"

section \<open>Route selection\<close>

definition stops_selection :: "input_fault \<Rightarrow> bool" where
  "stops_selection f \<longleftrightarrow>
     f = FaultCancelled \<or> f = FaultDeadlineExceeded \<or> f = FaultTargetLost \<or> f = ControllerClosed"

fun select_from ::
    "'w input_env \<Rightarrow> input_descriptor \<Rightarrow> input_request \<Rightarrow> operation_context \<Rightarrow> input_delivery list
     \<Rightarrow> input_attempt list \<Rightarrow> input_fault \<Rightarrow> 'w
     \<Rightarrow> (input_receipt + input_delivery \<times> submission_evidence \<times> input_attempt list) \<times> 'w" where
  "select_from env d r c [] prior last_fault w =
     (Inl (with_prior_attempts (receipt_unexecuted (rq_target r) last_fault) prior), w)"
| "select_from env d r c (route # routes) prior last_fault w =
     (case preflight_route d r route of
        Inl f \<Rightarrow> select_from env d r c routes (prior @ [attempt_refused route f]) f w
      | Inr ev \<Rightarrow>
          (case drv_preflight env route (rq_focus r) c w of
             (Inr _, w) \<Rightarrow> (Inr (route, ev, prior), w)
           | (Inl f, w) \<Rightarrow>
               (let prior = prior @ [attempt_refused route f]
                in if stops_selection f
                   then (Inl (with_prior_attempts (receipt_unexecuted (rq_target r) f) prior), w)
                   else select_from env d r c routes prior f w)))"

definition select_route ::
    "'w input_env \<Rightarrow> input_descriptor \<Rightarrow> input_request \<Rightarrow> operation_context \<Rightarrow> 'w
     \<Rightarrow> (input_receipt + input_delivery \<times> submission_evidence \<times> input_attempt list) \<times> 'w" where
  "select_route env d r c w = select_from env d r c (dp_routes (rq_delivery r)) [] RouteUnavailable w"

section \<open>Cleanup\<close>

record stopped_submission =
  ss_route :: input_delivery
  ss_evidence :: submission_evidence
  ss_prior :: "input_attempt list"
  ss_submitted :: nat
  ss_failure :: submission_failure

fun release_loop ::
    "'w input_env \<Rightarrow> input_delivery \<Rightarrow> cleanup_budget \<Rightarrow> operation_context \<Rightarrow> nat \<Rightarrow> pending_release list
     \<Rightarrow> nat \<Rightarrow> driver_state \<Rightarrow> 'w \<Rightarrow> (nat \<times> bool) \<times> driver_state \<times> 'w" where
  "release_loop env route b cleanup attempted [] released st w = ((released, False), st, w)"
| "release_loop env route b cleanup attempted (p # ps) released st w =
     (if attempted \<ge> cb_max_events b then ((released, True), st, w)
      else let (ob, w) = env_look env w
           in if context_interruption cleanup ob \<noteq> None then ((released, True), st, w)
              else (case drv_release env route p st cleanup w of
                      (Inr _, st, w) \<Rightarrow>
                        release_loop env route b cleanup (attempted + 1) ps (released + 1) st w
                    | (Inl f, st, w) \<Rightarrow>
                        ((released, f = FaultDeadlineExceeded), st, w)))"

definition owed_releases :: "input_request \<Rightarrow> stopped_submission \<Rightarrow> driver_state \<Rightarrow> pending_release list" where
  "owed_releases r stopped st =
     (case ds_pending_unicode st of Some u \<Rightarrow> [ReleaseUnicode u] | None \<Rightarrow> [])
     @ map ReleaseLogical
         (possibly_held_after (rq_sequence r) (ss_submitted stopped)
            (sf_may_leave_pressed (ss_failure stopped)))"

definition run_cleanup ::
    "'w input_env \<Rightarrow> input_receipt \<Rightarrow> input_request \<Rightarrow> stopped_submission \<Rightarrow> driver_state
     \<Rightarrow> operation_context \<Rightarrow> 'w \<Rightarrow> input_receipt \<times> 'w" where
  "run_cleanup env receipt r stopped st c w =
     (let releases = owed_releases r stopped st;
          owed = length releases
      in if owed = 0 then (with_cleanup receipt 0 0, w)
         else let b = rq_cleanup r;
                  (ob, w) = env_look env w;
                  cleanup = cleanup_context b c (obs_now ob);
                  ((released, exhausted), st, w) =
                    release_loop env (ss_route stopped) b cleanup 0 releases 0 st w
              in if exhausted then (with_exhausted_cleanup receipt released owed, w)
                 else (with_cleanup receipt released owed, w))"

definition stopped_receipt ::
    "'w input_env \<Rightarrow> input_request \<Rightarrow> stopped_submission \<Rightarrow> driver_state \<Rightarrow> operation_context \<Rightarrow> 'w
     \<Rightarrow> input_receipt \<times> 'w" where
  "stopped_receipt env r stopped st c w =
     (if ss_submitted stopped = 0 \<and> \<not> sf_may_have_effect (ss_failure stopped)
      then (with_prior_attempts (receipt_unexecuted (rq_target r) (sf_fault (ss_failure stopped)))
              (ss_prior stopped @ [attempt_refused (ss_route stopped) (sf_fault (ss_failure stopped))]), w)
      else run_cleanup env
             (with_prior_attempts
                (receipt_partial (rq_target r) (ss_route stopped) (ss_evidence stopped)
                   (ss_submitted stopped) (sf_may_have_effect (ss_failure stopped))
                   (sf_fault (ss_failure stopped)))
                (ss_prior stopped))
             r stopped st c w)"

section \<open>Execution\<close>

definition submit_event ::
    "nat \<Rightarrow> 'w input_env \<Rightarrow> input_delivery \<Rightarrow> input_request \<Rightarrow> operation_context \<Rightarrow> input_event
     \<Rightarrow> driver_state \<Rightarrow> 'w \<Rightarrow> ((submission_failure + unit) \<times> driver_state \<times> 'w) option" where
  "submit_event fuel env route r c ev st w =
     (case ev of
        Delay delay \<Rightarrow>
          map_option (\<lambda>(res, w). (map_err before_event res, st, w)) (wait_delay fuel env delay c w)
      | _ \<Rightarrow>
          (let (ob, w) = env_look env w
           in case context_interruption c ob of
                Some i \<Rightarrow> Some (Inl (before_event (fault_of_interruption i)), st, w)
              | None \<Rightarrow> Some (drv_submit env route (rq_focus r) ev (rq_geometry r) st c w)))"

text \<open>The loop over the events: the failure that stopped it, if any, and how many were submitted.\<close>

fun submit_events ::
    "nat \<Rightarrow> 'w input_env \<Rightarrow> input_delivery \<Rightarrow> input_request \<Rightarrow> operation_context \<Rightarrow> input_event list
     \<Rightarrow> nat \<Rightarrow> driver_state \<Rightarrow> 'w \<Rightarrow> (submission_failure option \<times> nat \<times> driver_state \<times> 'w) option" where
  "submit_events fuel env route r c [] submitted st w = Some (None, submitted, st, w)"
| "submit_events fuel env route r c (ev # evs) submitted st w =
     (case submit_event fuel env route r c ev st w of
        None \<Rightarrow> None
      | Some (Inl failure, st, w) \<Rightarrow> Some (Some failure, submitted, st, w)
      | Some (Inr _, st, w) \<Rightarrow> submit_events fuel env route r c evs (submitted + 1) st w)"

definition execute_admitted ::
    "nat \<Rightarrow> 'w input_env \<Rightarrow> input_descriptor \<Rightarrow> input_request \<Rightarrow> operation_context \<Rightarrow> 'w
     \<Rightarrow> (input_receipt \<times> 'w) option" where
  "execute_admitted fuel env d r c w =
     (case select_route env d r c w of
        (Inl receipt, w) \<Rightarrow> Some (receipt, w)
      | (Inr (route, ev, prior), w) \<Rightarrow>
          (case submit_events fuel env route r c (sq_events (rq_sequence r)) 0 driver_state_default w of
             None \<Rightarrow> None
           | Some (Some failure, submitted, st, w) \<Rightarrow>
               Some (stopped_receipt env r
                       \<lparr>ss_route = route, ss_evidence = ev, ss_prior = prior,
                        ss_submitted = submitted, ss_failure = failure\<rparr> st c w)
           | Some (None, submitted, st, w) \<Rightarrow>
               Some (with_prior_attempts (receipt_complete (rq_target r) route ev submitted) prior, w)))"

text \<open>The guard taken by \<open>admit\<close> is dropped on every return after it.\<close>

definition execute ::
    "nat \<Rightarrow> 'w input_env \<Rightarrow> input_descriptor \<Rightarrow> input_request \<Rightarrow> operation_context \<Rightarrow> 'w
     \<Rightarrow> ((error + input_receipt) \<times> 'w) option" where
  "execute fuel env d r c w =
     (case validate d r of
        Inl f \<Rightarrow> Some (Inl (input_error f), w)
      | Inr _ \<Rightarrow>
          (case env_admit env c w of
             (Inl e, w) \<Rightarrow> Some (Inl e, w)
           | (Inr _, w) \<Rightarrow>
               (case execute_admitted fuel env d r c w of
                  None \<Rightarrow> None
                | Some (receipt, w) \<Rightarrow> Some (Inr receipt, env_unguard env w))))"

section \<open>Delays end\<close>

text \<open>
  A clock that never goes back and that a sleep advances by at least its duration: \<open>tm\<close> is a lower
  bound of what the next look will read.
\<close>

definition ticking :: "'w input_env \<Rightarrow> ('w \<Rightarrow> nat) \<Rightarrow> bool" where
  "ticking env tm \<longleftrightarrow>
     (\<forall>w. tm w \<le> since_origin (obs_now (fst (env_look env w)))
           \<and> since_origin (obs_now (fst (env_look env w))) \<le> tm (snd (env_look env w)))
     \<and> (\<forall>d w. tm w + d \<le> tm (env_sleep env d w))"

lemma ticking_look:
  assumes "ticking env tm" "env_look env w = (ob, w')"
  shows "tm w \<le> since_origin (obs_now ob)" "since_origin (obs_now ob) \<le> tm w'"
  using assms by (simp_all add: ticking_def split_def) (metis fst_conv snd_conv)+

lemma wait_loop_returns:
  assumes "ticking env tm"
  shows "finish \<le> Instant (tm w + n * delay_poll_interval) \<Longrightarrow> wait_loop (Suc n) env c finish w \<noteq> None"
proof (induction n arbitrary: w)
  case 0
  obtain ob1 w1 where l1: "env_look env w = (ob1, w1)" by fastforce
  obtain ob2 w2 where l2: "env_look env w1 = (ob2, w2)" by fastforce
  have "finish \<le> obs_now ob2"
    using 0 ticking_look [OF assms l1] ticking_look [OF assms l2] by (simp add: less_eq_instant_def)
  with l1 l2 show ?case by (auto simp: Let_def split: option.splits prod.splits)
next
  case (Suc n)
  obtain ob1 w1 where l1: "env_look env w = (ob1, w1)" by fastforce
  obtain ob2 w2 where l2: "env_look env w1 = (ob2, w2)" by fastforce
  let ?s = "min (saturating_duration_since finish (obs_now ob2)) delay_poll_interval"
  show ?case
  proof (cases "finish \<le> obs_now ob2")
    case True
    with l1 l2 show ?thesis by (auto simp: Let_def split: option.splits prod.splits)
  next
    case False
    have "tm w2 + ?s \<le> tm (env_sleep env ?s w2)" using assms by (simp add: ticking_def)
    moreover have "since_origin finish \<le> tm w + (delay_poll_interval + n * delay_poll_interval)"
      using Suc.prems by (simp add: less_eq_instant_def)
    moreover have "saturating_duration_since finish (obs_now ob2)
                   = since_origin finish - since_origin (obs_now ob2)"
      by (cases finish; cases "obs_now ob2") simp
    ultimately have "finish \<le> Instant (tm (env_sleep env ?s w2) + n * delay_poll_interval)"
      using ticking_look [OF assms l1] ticking_look [OF assms l2]
      by (simp add: less_eq_instant_def min_def split: if_splits)
    from Suc.IH [OF this] l1 l2 False show ?thesis
      by (auto simp: Let_def split: option.splits)
  qed
qed

text \<open>Fuel for the longest delay a sequence may hold: five seconds in polls of two milliseconds.\<close>

definition delay_fuel :: nat where
  "delay_fuel = Suc (max_delay div delay_poll_interval)"

lemma wait_delay_returns:
  assumes "ticking env tm" "delay \<le> max_delay"
  shows "wait_delay delay_fuel env delay c w \<noteq> None"
proof -
  obtain ob1 w1 where l1: "env_look env w = (ob1, w1)" by fastforce
  obtain ob2 w2 where l2: "env_look env w1 = (ob2, w2)" by fastforce
  show ?thesis
  proof (cases "instant_checked_add (obs_now ob2) delay")
    case None
    with l1 l2 show ?thesis by (auto simp: wait_delay_def Let_def split: option.splits)
  next
    case (Some finish)
    have "max_delay = max_delay div delay_poll_interval * delay_poll_interval"
      by (simp add: max_delay_def delay_poll_interval_def)
    with Some assms(2) ticking_look [OF assms(1) l2]
    have "finish \<le> Instant (tm w2 + max_delay div delay_poll_interval * delay_poll_interval)"
      by (simp add: instant_checked_add_Some less_eq_instant_def)
    from wait_loop_returns [OF assms(1) this] l1 l2 Some show ?thesis
      by (auto simp: wait_delay_def delay_fuel_def Let_def split: option.splits)
  qed
qed

lemma submit_events_returns:
  assumes "ticking env tm"
  shows "list_all (\<lambda>ev. event_check ev = Inr ()) evs \<Longrightarrow>
         submit_events delay_fuel env route r c evs n st w \<noteq> None"
proof (induction evs arbitrary: n st w)
  case Nil
  then show ?case by simp
next
  case (Cons ev evs)
  have "submit_event delay_fuel env route r c ev st w \<noteq> None"
  proof (cases ev)
    case (Delay d)
    with Cons.prems have "d \<le> max_delay" by (auto split: if_splits)
    with wait_delay_returns [OF assms] Delay show ?thesis by (simp add: submit_event_def)
  qed (simp_all add: submit_event_def Let_def del: not_None_eq split: prod.splits option.splits)
  with Cons show ?case by (auto split: option.splits sum.splits)
qed

text \<open>
  C20: on a clock that never goes back and that sleeping advances, executing any validated sequence
  returns: a delay of at most five seconds, polled every two milliseconds, ends within 2,501 polls.
\<close>

theorem execute_returns:
  assumes "ticking env tm" and "sequence_new evs = Inr (rq_sequence r)"
  shows "\<exists>res w'. execute delay_fuel env d r c w = Some (res, w')"
proof -
  have "list_all (\<lambda>ev. event_check ev = Inr ()) (sq_events (rq_sequence r))"
    using assms(2)
    by (cases "rq_sequence r")
       (auto simp: sequence_new_def sequence_within_def result_simps check_events_Inr split: if_splits)
  from submit_events_returns [OF assms(1) this]
  have "execute_admitted delay_fuel env d r c w \<noteq> None" for w
    by (auto simp: execute_admitted_def simp del: not_None_eq split: prod.splits sum.splits option.splits)
  then have "execute delay_fuel env d r c w \<noteq> None"
    by (auto simp: execute_def simp del: not_None_eq split: prod.splits sum.splits option.splits)
  then show ?thesis by auto
qed

text \<open>A world that is only a clock: a look takes a nanosecond, the driver accepts everything.\<close>

definition clock_env :: "nat input_env" where
  "clock_env =
     \<lparr>env_look = \<lambda>w. (\<lparr>obs_cancelled = False, obs_now = Instant w\<rparr>, w + 1),
      env_sleep = \<lambda>d w. w + d,
      env_admit = \<lambda>c w. (Inr (), w),
      env_unguard = \<lambda>w. w,
      drv_preflight = \<lambda>route f c w. (Inr (), w),
      drv_submit = \<lambda>route f ev g st c w. (Inr (), st, w),
      drv_release = \<lambda>route p st c w. (Inr (), st, w)\<rparr>"

theorem execute_returns_witness:
  "\<exists>res w'. execute delay_fuel clock_env
      (descriptor_new \<lparr>tgt_engine = EngineId 1, tgt_provider = ProviderId ''windows'', tgt_ordinal = 1\<rparr>
         input_capability_none)
      (request_new \<lparr>tgt_engine = EngineId 1, tgt_provider = ProviderId ''windows'', tgt_ordinal = 1\<rparr>
         \<lparr>sq_events = [Delay 5000000000, KeyPress Tab]\<rparr> (plan_require System))
      context_new 0 = Some (res, w')"
proof (rule execute_returns)
  show "ticking clock_env (\<lambda>w. w)" by (simp add: ticking_def clock_env_def)
  show "sequence_new [Delay 5000000000, KeyPress Tab]
        = Inr (rq_sequence (request_new
            \<lparr>tgt_engine = EngineId 1, tgt_provider = ProviderId ''windows'', tgt_ordinal = 1\<rparr>
            \<lparr>sq_events = [Delay 5000000000, KeyPress Tab]\<rparr> (plan_require System)))"
    by (simp add: sequence_new_def sequence_within_def limits_contract_def sequence_max_events_def
          max_delay_def request_new_def)
qed

section \<open>What the driver is asked to do\<close>

text \<open>
  The environment with a log: every native submission and release, and whether it succeeded, in the order
  the controller asked for them. The logged environment behaves as the one it wraps.
\<close>

datatype native_call = Submitted input_delivery input_event bool | Released input_delivery pending_release bool

fun is_release :: "native_call \<Rightarrow> bool" where
  "is_release (Released _ _ _) = True"
| "is_release (Submitted _ _ _) = False"

definition succeeded :: "'e + 'a \<Rightarrow> bool" where
  "succeeded r = (case r of Inl _ \<Rightarrow> False | Inr _ \<Rightarrow> True)"

lemma succeeded_simps [simp]: "\<not> succeeded (Inl e)" "succeeded (Inr x)"
  by (simp_all add: succeeded_def)

definition logged :: "'w input_env \<Rightarrow> ('w \<times> native_call list) input_env" where
  "logged env =
     \<lparr>env_look = \<lambda>(w, l). (case env_look env w of (ob, w) \<Rightarrow> (ob, (w, l))),
      env_sleep = \<lambda>d (w, l). (env_sleep env d w, l),
      env_admit = \<lambda>c (w, l). (case env_admit env c w of (r, w) \<Rightarrow> (r, (w, l))),
      env_unguard = \<lambda>(w, l). (env_unguard env w, l),
      drv_preflight = \<lambda>route f c (w, l). (case drv_preflight env route f c w of (r, w) \<Rightarrow> (r, (w, l))),
      drv_submit = \<lambda>route f ev g st c (w, l).
        (case drv_submit env route f ev g st c w of
           (r, st, w) \<Rightarrow> (r, st, (w, l @ [Submitted route ev (succeeded r)]))),
      drv_release = \<lambda>route p st c (w, l).
        (case drv_release env route p st c w of
           (r, st, w) \<Rightarrow> (r, st, (w, l @ [Released route p (succeeded r)])))\<rparr>"

lemma logged_sel [simp]:
  "env_look (logged env) (w, l) = (case env_look env w of (ob, w) \<Rightarrow> (ob, (w, l)))"
  "env_sleep (logged env) d (w, l) = (env_sleep env d w, l)"
  "env_admit (logged env) c (w, l) = (case env_admit env c w of (r, w) \<Rightarrow> (r, (w, l)))"
  "env_unguard (logged env) (w, l) = (env_unguard env w, l)"
  "drv_preflight (logged env) route f c (w, l) =
     (case drv_preflight env route f c w of (r, w) \<Rightarrow> (r, (w, l)))"
  "drv_submit (logged env) route f ev g st c (w, l) =
     (case drv_submit env route f ev g st c w of
        (r, st, w) \<Rightarrow> (r, st, (w, l @ [Submitted route ev (succeeded r)])))"
  "drv_release (logged env) route p st c (w, l) =
     (case drv_release env route p st c w of
        (r, st, w) \<Rightarrow> (r, st, (w, l @ [Released route p (succeeded r)])))"
  by (simp_all add: logged_def)

lemma wait_loop_logged:
  "wait_loop fuel (logged env) c finish (w, l) =
     map_option (\<lambda>(r, w). (r, (w, l))) (wait_loop fuel env c finish w)"
proof (induction fuel arbitrary: w)
  case 0
  then show ?case by simp
next
  case (Suc fuel)
  then show ?case by (auto simp: Let_def split: prod.splits option.splits)
qed

lemma wait_delay_logged:
  "wait_delay fuel (logged env) delay c (w, l) =
     map_option (\<lambda>(r, w). (r, (w, l))) (wait_delay fuel env delay c w)"
  by (auto simp: wait_delay_def Let_def wait_loop_logged split: prod.splits option.splits)

text \<open>One event: what it adds to the log, and what a failure that adds nothing looks like.\<close>

lemma submit_event_log:
  assumes "submit_event fuel (logged env) route r c ev st (w, l) = Some (res, st', (w', l'))"
  shows "(is_irreversible ev \<and> l' = l @ [Submitted route ev (succeeded res)])
       \<or> (l' = l \<and> (\<exists>f. res = Inl (before_event f)))
       \<or> (l' = l \<and> \<not> is_irreversible ev \<and> res = Inr ())"
  using assms
proof (cases ev)
  case (Delay d)
  with assms obtain r0 where "res = map_err before_event r0" "l' = l"
    by (auto simp: submit_event_def wait_delay_logged)
  with Delay show ?thesis by (cases r0) auto
qed (auto simp: submit_event_def split: prod.splits option.splits)

text \<open>
  The loop: it asks for the events in order, each once, up to the first that fails; what it counts as
  submitted is the number of events that went through.
\<close>

lemma submit_events_log:
  assumes "submit_events fuel (logged env) route r c evs n st (w, l) = Some (res, n', st', (w', l'))"
  shows "\<exists>k tail. k \<le> length evs \<and> n' = n + k
     \<and> l' = l @ map (\<lambda>ev. Submitted route ev True) (filter is_irreversible (take k evs)) @ tail
     \<and> (case res of None \<Rightarrow> k = length evs \<and> tail = []
        | Some f \<Rightarrow> k < length evs
            \<and> (tail = [] \<and> f = before_event (sf_fault f)
               \<or> is_irreversible (evs ! k) \<and> tail = [Submitted route (evs ! k) False]))"
  using assms
proof (induction evs arbitrary: n st w l)
  case Nil
  then show ?case by simp
next
  case (Cons ev evs)
  from Cons.prems obtain res1 st1 w1 l1 where
    one: "submit_event fuel (logged env) route r c ev st (w, l) = Some (res1, st1, (w1, l1))"
    by (auto split: option.splits)
  note log1 = submit_event_log [OF one]
  show ?case
  proof (cases res1)
    case (Inl f)
    with Cons.prems one log1 show ?thesis
      by (intro exI [of _ 0] exI [of _ "drop (length l) l'"])
         (auto simp: before_event_def)
  next
    case (Inr u)
    with Cons.prems one
    have rest: "submit_events fuel (logged env) route r c evs (n + 1) st1 (w1, l1)
                = Some (res, n', st', (w', l'))" by simp
    from Cons.IH [OF this] obtain k tail where
      k: "k \<le> length evs" "n' = n + 1 + k"
      "l' = l1 @ map (\<lambda>ev. Submitted route ev True) (filter is_irreversible (take k evs)) @ tail"
      "case res of None \<Rightarrow> k = length evs \<and> tail = []
        | Some f \<Rightarrow> k < length evs
            \<and> (tail = [] \<and> f = before_event (sf_fault f)
               \<or> is_irreversible (evs ! k) \<and> tail = [Submitted route (evs ! k) False])"
      by blast
    have l1: "l1 = l @ map (\<lambda>ev. Submitted route ev True) (filter is_irreversible [ev])"
      using log1 Inr by auto
    from k l1 show ?thesis
      by (intro exI [of _ "Suc k"] exI [of _ tail]) (auto split: option.splits)
  qed
qed

lemma select_from_refused:
  assumes "select_from env d r c routes prior last_fault w = (Inl receipt, w')" "no_effect prior"
  shows "\<exists>visited f rest. receipt = with_prior_attempts (receipt_unexecuted (rq_target r) f) (prior @ visited)
           \<and> no_effect (prior @ visited) \<and> map at_route visited @ rest = routes"
  using assms
proof (induction routes arbitrary: prior last_fault w)
  case Nil
  then show ?case by auto
next
  case (Cons route routes)
  have step: ?case if "select_from env d r c routes (prior @ [attempt_refused route f]) f w1 = (Inl receipt, w')"
    for f w1
  proof -
    from Cons.IH [OF that] Cons.prems(2) obtain visited g rest where
      "receipt = with_prior_attempts (receipt_unexecuted (rq_target r) g)
                   ((prior @ [attempt_refused route f]) @ visited)"
      "no_effect ((prior @ [attempt_refused route f]) @ visited)" "map at_route visited @ rest = routes"
      by auto
    then show ?thesis
      by (intro exI [of _ "attempt_refused route f # visited"] exI [of _ g] exI [of _ rest])
         simp
  qed
  show ?case
  proof (cases "preflight_route d r route")
    case (Inl f)
    with Cons.prems step show ?thesis by simp
  next
    case (Inr ev)
    obtain res w1 where pf: "drv_preflight env route (rq_focus r) c w = (res, w1)" by fastforce
    with Inr Cons.prems obtain f where f: "res = Inl f" by (cases res) auto
    show ?thesis
    proof (cases "stops_selection f")
      case True
      with Inr pf f Cons.prems have
        "receipt = with_prior_attempts (receipt_unexecuted (rq_target r) f) (prior @ [attempt_refused route f])"
        by simp
      with Cons.prems(2) show ?thesis
        by (intro exI [of _ "[attempt_refused route f]"] exI [of _ f] exI [of _ routes])
           simp
    next
      case False
      with Inr pf f Cons.prems step show ?thesis by simp
    qed
  qed
qed

lemma select_from_selected:
  assumes "select_from env d r c routes prior last_fault w = (Inr (route, ev, prior'), w')" "no_effect prior"
  shows "no_effect prior' \<and> preflight_route d r route = Inr ev
    \<and> (\<exists>visited rest. prior' = prior @ visited \<and> map at_route visited @ route # rest = routes)"
  using assms
proof (induction routes arbitrary: prior last_fault w)
  case Nil
  then show ?case by simp
next
  case (Cons first routes)
  have step: ?case if "select_from env d r c routes (prior @ [attempt_refused first f]) f w1
                       = (Inr (route, ev, prior'), w')" for f w1
  proof -
    from Cons.IH [OF that] Cons.prems(2) obtain visited rest where
      "no_effect prior'" "preflight_route d r route = Inr ev"
      "prior' = (prior @ [attempt_refused first f]) @ visited" "map at_route visited @ route # rest = routes"
      by auto
    then show ?thesis
      by (intro conjI exI [of _ "attempt_refused first f # visited"] exI [of _ rest])
         simp_all
  qed
  show ?case
  proof (cases "preflight_route d r first")
    case (Inl f)
    with Cons.prems step show ?thesis by simp
  next
    case (Inr e)
    obtain res w1 where pf: "drv_preflight env first (rq_focus r) c w = (res, w1)" by fastforce
    show ?thesis
    proof (cases res)
      case (Inl f)
      with Inr pf Cons.prems step show ?thesis by (simp add: Let_def split: if_splits)
    next
      case (Inr u)
      with \<open>preflight_route d r first = Inr e\<close> pf Cons.prems show ?thesis by auto
    qed
  qed
qed

lemma select_from_log:
  "snd (snd (select_from (logged env) d r c routes prior last_fault (w, l))) = l"
  by (induction routes arbitrary: prior last_fault w)
     (auto simp: Let_def split: sum.splits prod.splits)

text \<open>Cleanup releases what it owes in order, stops at the first refusal, and keeps to its budget.\<close>

lemma release_loop_log:
  assumes "release_loop (logged env) route b cl attempted ps released st (w, l)
           = ((released', exhausted), st', (w', l'))"
  shows "\<exists>k tail. released' = released + k \<and> k \<le> length ps
     \<and> l' = l @ map (\<lambda>p. Released route p True) (take k ps) @ tail
     \<and> (tail = [] \<or> k < length ps \<and> tail = [Released route (ps ! k) False])
     \<and> (\<not> exhausted \<and> tail = [] \<longrightarrow> k = length ps)
     \<and> (exhausted \<longrightarrow> k < length ps)
     \<and> (tail \<noteq> [] \<or> k \<noteq> 0 \<longrightarrow> attempted + k + length tail \<le> cb_max_events b)"
  using assms
proof (induction ps arbitrary: attempted released st w l)
  case Nil
  then show ?case by simp
next
  case (Cons p ps)
  obtain ob w1 where look: "env_look env w = (ob, w1)" by fastforce
  show ?case
  proof (cases "attempted \<ge> cb_max_events b \<or> context_interruption cl ob \<noteq> None")
    case True
    with Cons.prems look show ?thesis
      by (intro exI [of _ 0] exI [of _ "[]"]) (auto split: if_splits)
  next
    case False
    obtain res st1 w2 where rel: "drv_release env route p st cl w1 = (res, st1, w2)"
      by (metis prod_cases3)
    show ?thesis
    proof (cases res)
      case (Inl f)
      with False Cons.prems look rel show ?thesis
        by (intro exI [of _ 0] exI [of _ "[Released route p False]"]) auto
    next
      case (Inr u)
      with False Cons.prems look rel
      have rest: "release_loop (logged env) route b cl (attempted + 1) ps (released + 1) st1
                    (w2, l @ [Released route p True]) = ((released', exhausted), st', (w', l'))"
        by simp
      from Cons.IH [OF this] obtain k tail where
        "released' = released + 1 + k" "k \<le> length ps"
        "l' = (l @ [Released route p True]) @ map (\<lambda>p. Released route p True) (take k ps) @ tail"
        "tail = [] \<or> k < length ps \<and> tail = [Released route (ps ! k) False]"
        "\<not> exhausted \<and> tail = [] \<longrightarrow> k = length ps" "exhausted \<longrightarrow> k < length ps"
        "tail \<noteq> [] \<or> k \<noteq> 0 \<longrightarrow> attempted + 1 + k + length tail \<le> cb_max_events b"
        by blast
      with False show ?thesis
        by (intro exI [of _ "Suc k"] exI [of _ tail]) auto
    qed
  qed
qed

text \<open>
  What cleanup does with what it owes, step by step: a release is asked for after a look that shows no
  interruption of the cleanup's own context, and one that succeeds is followed by the next.
\<close>

inductive releases_done ::
    "'w input_env \<Rightarrow> input_delivery \<Rightarrow> operation_context \<Rightarrow> pending_release list \<Rightarrow> driver_state \<Rightarrow> 'w
     \<Rightarrow> driver_state \<Rightarrow> 'w \<Rightarrow> bool"
  for env route cl where
  done_none: "releases_done env route cl [] st w st w"
| done_more: "env_look env w = (ob, w1) \<Longrightarrow> context_interruption cl ob = None \<Longrightarrow>
    drv_release env route p st cl w1 = (Inr u, st1, w2) \<Longrightarrow> releases_done env route cl ps st1 w2 st' w' \<Longrightarrow>
    releases_done env route cl (p # ps) st w st' w'"

text \<open>
  The first \<open>k\<close> of the releases owed succeeded and the cleanup stopped there: nothing was left, the allowance was
  used up, the next look showed an interruption, or the driver refused the next release. The calls made are
  those releases and the refused one, and the cleanup is exhausted unless nothing was left or the
  refusal was something else than a deadline.
\<close>

definition cleanup_run ::
    "'w input_env \<Rightarrow> input_delivery \<Rightarrow> nat \<Rightarrow> operation_context \<Rightarrow> pending_release list \<Rightarrow> driver_state \<Rightarrow> 'w
     \<Rightarrow> nat \<Rightarrow> native_call list \<Rightarrow> bool \<Rightarrow> bool" where
  "cleanup_run env route allowance cl owed st w k rels exhausted \<longleftrightarrow>
     k \<le> length owed \<and> k \<le> allowance
     \<and> (\<exists>st1 w1 tail. releases_done env route cl (take k owed) st w st1 w1
          \<and> rels = map (\<lambda>p. Released route p True) (take k owed) @ tail
          \<and> (if k = length owed then tail = [] \<and> \<not> exhausted
             else if k = allowance then tail = [] \<and> exhausted
             else \<exists>ob w2. env_look env w1 = (ob, w2)
               \<and> (if context_interruption cl ob \<noteq> None then tail = [] \<and> exhausted
                  else \<exists>f st2 w3. drv_release env route (owed ! k) st1 cl w2 = (Inl f, st2, w3)
                    \<and> tail = [Released route (owed ! k) False] \<and> exhausted = (f = FaultDeadlineExceeded))))"

lemma cleanup_run_more:
  assumes "env_look env w = (ob, w1)" "context_interruption cl ob = None"
    "drv_release env route p st cl w1 = (Inr u, st1, w2)" "cleanup_run env route n cl ps st1 w2 k rels ex"
  shows "cleanup_run env route (Suc n) cl (p # ps) st w (Suc k) (Released route p True # rels) ex"
  using assms(4) done_more [OF assms(1-3)] unfolding cleanup_run_def by fastforce

lemma cleanup_run_refused:
  assumes "env_look env w = (ob, w1)" "context_interruption cl ob = None" "drv_release env route p st cl w1 = (Inl f, st2, w2)"
  shows "cleanup_run env route (Suc n) cl (p # ps) st w 0 [Released route p False] (f = FaultDeadlineExceeded)"
  unfolding cleanup_run_def
proof (intro conjI exI)
  show "releases_done env route cl (take 0 (p # ps)) st w st w" by (simp add: done_none)
  show "[Released route p False] = map (\<lambda>p. Released route p True) (take 0 (p # ps)) @ [Released route p False]" by simp
  show "if 0 = length (p # ps) then [Released route p False] = [] \<and> \<not> (f = FaultDeadlineExceeded)
    else if 0 = Suc n then [Released route p False] = [] \<and> f = FaultDeadlineExceeded
    else \<exists>ob w2. env_look env w = (ob, w2)
      \<and> (if context_interruption cl ob \<noteq> None then [Released route p False] = [] \<and> f = FaultDeadlineExceeded
         else \<exists>f' st2 w3. drv_release env route ((p # ps) ! 0) st cl w2 = (Inl f', st2, w3)
           \<and> [Released route p False] = [Released route ((p # ps) ! 0) False]
           \<and> (f = FaultDeadlineExceeded) = (f' = FaultDeadlineExceeded))"
    using assms by auto
qed simp_all

lemma release_loop_run:
  assumes "release_loop (logged env) route b cl attempted ps released st (w, l) = ((released', exhausted), st', (w', l'))"
    "attempted \<le> cb_max_events b"
  shows "\<exists>k rels. released' = released + k \<and> l' = l @ rels
    \<and> cleanup_run env route (cb_max_events b - attempted) cl ps st w k rels exhausted"
  using assms
proof (induction ps arbitrary: attempted released st w l)
  case Nil
  then show ?case by (intro exI [of _ 0] exI [of _ "[]"]) (auto simp: cleanup_run_def intro: done_none)
next
  case (Cons p ps)
  show ?case
  proof (cases "attempted = cb_max_events b")
    case True
    then show ?thesis using Cons.prems
      by (intro exI [of _ 0] exI [of _ "[]"]) (auto simp: cleanup_run_def intro: done_none)
  next
    case more: False
    then have left: "cb_max_events b - attempted = Suc (cb_max_events b - Suc attempted)" "\<not> attempted \<ge> cb_max_events b"
      using Cons.prems(2) by linarith+
    obtain ob w1 where look: "env_look env w = (ob, w1)" by fastforce
    show ?thesis
    proof (cases "context_interruption cl ob")
      case (Some i)
      then show ?thesis using Cons.prems(1) look left
        by (intro exI [of _ 0] exI [of _ "[]"]) (auto simp: cleanup_run_def intro: done_none)
    next
      case None
      obtain res st1 w2 where rel: "drv_release env route p st cl w1 = (res, st1, w2)" by (metis prod_cases3)
      show ?thesis
      proof (cases res)
        case (Inl f)
        then have "exhausted = (f = FaultDeadlineExceeded)" "released' = released" "l' = l @ [Released route p False]"
          using Cons.prems(1) look left None rel by auto
        then show ?thesis
          using cleanup_run_refused [OF look None, of route p st f st1 w2 "cb_max_events b - Suc attempted" ps] rel Inl
          unfolding left(1) by (intro exI [of _ 0] exI [of _ "[Released route p False]"]) simp
      next
        case (Inr u)
        then have "release_loop (logged env) route b cl (Suc attempted) ps (released + 1) st1
            (w2, l @ [Released route p True]) = ((released', exhausted), st', (w', l'))"
          using Cons.prems(1) look left None rel by simp
        from Cons.IH [OF this] left obtain k rels where
          "released' = released + 1 + k" "l' = (l @ [Released route p True]) @ rels"
          "cleanup_run env route (cb_max_events b - Suc attempted) cl ps st1 w2 k rels exhausted" by auto
        then show ?thesis using cleanup_run_more [OF look None, of route p st u st1 w2] rel Inr unfolding left(1)
          by (intro exI [of _ "Suc k"] exI [of _ "Released route p True # rels"]) auto
      qed
    qed
  qed
qed

lemma cleanup_run_length:
  "cleanup_run env route n cl owed st w k rels ex \<Longrightarrow> length rels \<le> n \<and> length rels \<le> length owed"
  unfolding cleanup_run_def by (auto split: if_splits)

text \<open>The submissions and the releases a receipt of \<open>n\<close> submitted events accounts for.\<close>

definition submissions_logged ::
    "input_event list \<Rightarrow> input_receipt \<Rightarrow> input_delivery \<Rightarrow> native_call list \<Rightarrow> bool" where
  "submissions_logged evs rc route subs \<longleftrightarrow>
     rc_submitted rc \<le> length evs
     \<and> (\<exists>tail. subs = map (\<lambda>ev. Submitted route ev True) (filter is_irreversible (take (rc_submitted rc) evs)) @ tail
          \<and> (tail = [] \<or> rc_submitted rc < length evs \<and> is_irreversible (evs ! rc_submitted rc)
                \<and> tail = [Submitted route (evs ! rc_submitted rc) False])
          \<and> (rc_partial rc \<longrightarrow> tail \<noteq> [])
          \<and> (rc_outcome rc = Complete \<longrightarrow> tail = [] \<and> rc_submitted rc = length evs))"

definition releases_logged ::
    "pending_release list \<Rightarrow> nat \<Rightarrow> input_receipt \<Rightarrow> input_delivery \<Rightarrow> native_call list \<Rightarrow> bool" where
  "releases_logged owed allowance rc route rels \<longleftrightarrow>
     rc_owed rc = length owed \<and> rc_released rc \<le> rc_owed rc \<and> length rels \<le> allowance
     \<and> (rels = map (\<lambda>p. Released route p True) (take (rc_released rc) owed)
        \<or> rc_released rc < rc_owed rc
          \<and> rels = map (\<lambda>p. Released route p True) (take (rc_released rc) owed)
                    @ [Released route (owed ! rc_released rc) False])"

lemma cleanup_sel [simp]:
  "rc_submitted (with_cleanup rc a b) = rc_submitted rc"
  "rc_submitted (with_exhausted_cleanup rc a b) = rc_submitted rc"
  "rc_partial (with_cleanup rc a b) = rc_partial rc"
  "rc_partial (with_exhausted_cleanup rc a b) = rc_partial rc"
  "rc_outcome (with_cleanup rc a b) = rc_outcome rc"
  "rc_outcome (with_exhausted_cleanup rc a b) = rc_outcome rc"
  "rc_selected (with_cleanup rc a b) = rc_selected rc"
  "rc_selected (with_exhausted_cleanup rc a b) = rc_selected rc"
  "rc_target (with_cleanup rc a b) = rc_target rc"
  "rc_target (with_exhausted_cleanup rc a b) = rc_target rc"
  "rc_attempts (with_cleanup rc a b) = rc_attempts rc"
  "rc_attempts (with_exhausted_cleanup rc a b) = rc_attempts rc"
  "rc_released (with_cleanup rc a b) = a" "rc_owed (with_cleanup rc a b) = b"
  "rc_released (with_exhausted_cleanup rc a b) = a" "rc_owed (with_exhausted_cleanup rc a b) = b"
  by (simp_all add: with_cleanup_def with_exhausted_cleanup_def)

lemma run_cleanup_log:
  assumes "run_cleanup (logged env) receipt r stopped st c (w, l) = (rc, (w', l'))"
  obtains released rels where
    "rc = with_cleanup receipt released (length (owed_releases r stopped st))
     \<or> rc = with_exhausted_cleanup receipt released (length (owed_releases r stopped st))"
    "l' = l @ rels"
    "releases_logged (owed_releases r stopped st) (cb_max_events (rq_cleanup r)) rc (ss_route stopped) rels"
proof (cases "owed_releases r stopped st = []")
  case True
  with assms have "rc = with_cleanup receipt 0 0" "l' = l" by (simp_all add: run_cleanup_def)
  with True that [of 0 "[]"] show ?thesis by (simp add: releases_logged_def)
next
  case False
  let ?owed = "owed_releases r stopped st"
  obtain ob w1 where look: "env_look env w = (ob, w1)" by fastforce
  obtain released exhausted st1 w2 l2 where
    loop: "release_loop (logged env) (ss_route stopped) (rq_cleanup r)
             (cleanup_context (rq_cleanup r) c (obs_now ob)) 0 ?owed 0 st (w1, l)
           = ((released, exhausted), st1, (w2, l2))"
    by (metis prod.exhaust)
  with assms False look have rc:
    "rc = (if exhausted then with_exhausted_cleanup receipt released (length ?owed)
           else with_cleanup receipt released (length ?owed))" and l2: "l' = l2"
    by (auto simp: run_cleanup_def Let_def split: if_splits)
  from release_loop_log [OF loop] obtain tail where
    k: "released \<le> length ?owed"
    "l2 = l @ map (\<lambda>p. Released (ss_route stopped) p True) (take released ?owed) @ tail"
    "tail = [] \<or> released < length ?owed \<and> tail = [Released (ss_route stopped) (?owed ! released) False]"
    "tail \<noteq> [] \<or> released \<noteq> 0 \<longrightarrow> released + length tail \<le> cb_max_events (rq_cleanup r)"
    by auto
  show ?thesis
  proof (rule that)
    show "rc = with_cleanup receipt released (length ?owed)
          \<or> rc = with_exhausted_cleanup receipt released (length ?owed)" using rc by simp
    show "l' = l @ (map (\<lambda>p. Released (ss_route stopped) p True) (take released ?owed) @ tail)"
      using k l2 by simp
    show "releases_logged ?owed (cb_max_events (rq_cleanup r)) rc (ss_route stopped)
            (map (\<lambda>p. Released (ss_route stopped) p True) (take released ?owed) @ tail)"
      using k rc by (cases "tail = [] \<and> released = 0") (auto simp: releases_logged_def)
  qed
qed

lemma execute_admitted_log:
  assumes "execute_admitted fuel (logged env) d r c (w, []) = Some (rc, (w', calls))"
  obtains route subs rels owed where
    "calls = subs @ rels"
    "submissions_logged (sq_events (rq_sequence r)) rc route subs"
    "releases_logged owed (cb_max_events (rq_cleanup r)) rc route rels"
    "rc_selected rc = None \<or> rc_selected rc = Some route"
    "coherent rc" "rc_target rc = rq_target r"
    "\<exists>rest. map at_route (rc_attempts rc) @ rest = dp_routes (rq_delivery r)"
    "owed = [] \<or> (\<exists>typed b. length typed \<le> 1
        \<and> owed = map ReleaseUnicode typed
                 @ map ReleaseLogical (possibly_held_after (rq_sequence r) (rc_submitted rc) b))"
proof -
  note goal = that
  let ?evs = "sq_events (rq_sequence r)"
  obtain sel w1 l1 where sel: "select_route (logged env) d r c (w, []) = (sel, (w1, l1))"
    by (metis prod.exhaust)
  then have l1: "l1 = []"
    using select_from_log [of env d r c _ "[]" _ w "[]"] unfolding select_route_def by (metis snd_conv)
  show ?thesis
  proof (cases sel)
    case (Inl refused)
    with assms sel l1 have rc: "rc = refused" "calls = []" by (auto simp: execute_admitted_def)
    from select_from_refused [OF sel [unfolded select_route_def Inl]] rc
    obtain visited f rest where v: "rc = with_prior_attempts (receipt_unexecuted (rq_target r) f) visited"
      "no_effect visited" "map at_route visited @ rest = dp_routes (rq_delivery r)" by auto
    from rc v coherent_unexecuted [OF v(2)] show ?thesis
      by (intro goal [of "[]" "[]" System "[]"])
         (auto simp: submissions_logged_def releases_logged_def receipt_defs)
  next
    case (Inr x)
    then obtain route ev prior where x: "sel = Inr (route, ev, prior)" by (cases x) auto
    from select_from_selected [OF sel [unfolded select_route_def x]]
    obtain rest where prior: "no_effect prior"
      "map at_route prior @ route # rest = dp_routes (rq_delivery r)" by auto
    obtain res n st w2 l2 where
      sub: "submit_events fuel (logged env) route r c ?evs 0 driver_state_default (w1, []) = Some (res, n, st, (w2, l2))"
      using assms sel x l1
      by (cases "submit_events fuel (logged env) route r c ?evs 0 driver_state_default (w1, [])")
         (auto simp: execute_admitted_def)
    from submit_events_log [OF sub] obtain tail where
      n: "n \<le> length ?evs"
      and l2: "l2 = map (\<lambda>ev. Submitted route ev True) (filter is_irreversible (take n ?evs)) @ tail"
      and tl: "case res of None \<Rightarrow> n = length ?evs \<and> tail = []
        | Some f \<Rightarrow> n < length ?evs
            \<and> (tail = [] \<and> f = before_event (sf_fault f)
               \<or> is_irreversible (?evs ! n) \<and> tail = [Submitted route (?evs ! n) False])"
      by auto
    show ?thesis
    proof (cases res)
      case None
      with assms sel x l1 sub have rc: "rc = with_prior_attempts (receipt_complete (rq_target r) route ev n) prior"
        "calls = l2" by (auto simp: execute_admitted_def)
      have coh: "coherent rc" using rc(1) coherent_complete [OF prior(1)] by simp
      have fields: "rc_submitted rc = n" "rc_partial rc = False" "rc_selected rc = Some route"
        "rc_target rc = rq_target r" "rc_owed rc = 0" "rc_released rc = 0"
        "map at_route (rc_attempts rc) = map at_route prior @ [route]"
        using rc(1) by (simp_all add: receipt_defs)
      have "submissions_logged ?evs rc route l2"
        using tl None l2 n fields by (auto simp: submissions_logged_def)
      then show ?thesis
        using rc(2) coh fields prior(2)
        by (intro goal [of l2 "[]" route "[]"]) (auto simp: releases_logged_def)
    next
      case (Some failure)
      let ?stopped = "\<lparr>ss_route = route, ss_evidence = ev, ss_prior = prior, ss_submitted = n, ss_failure = failure\<rparr>"
      from assms sel x l1 sub Some have stop: "stopped_receipt (logged env) r ?stopped st c (w2, l2) = (rc, (w', calls))"
        by (simp add: execute_admitted_def)
      have subs: "submissions_logged ?evs rc' route l2"
        if "rc_submitted rc' = n" "rc_partial rc' = sf_may_have_effect failure" "rc_outcome rc' \<noteq> Complete" for rc'
        using that tl Some l2 n by (auto simp: submissions_logged_def before_event_def dest!: arg_cong [of _ _ sf_may_have_effect])
      show ?thesis
      proof (cases "n = 0 \<and> \<not> sf_may_have_effect failure")
        case True
        with stop have rc: "rc = with_prior_attempts (receipt_unexecuted (rq_target r) (sf_fault failure))
                              (prior @ [attempt_refused route (sf_fault failure)])" "calls = l2"
          by (auto simp: stopped_receipt_def)
        have "submissions_logged ?evs rc route l2"
          using subs [of rc] True rc by (simp add: receipt_defs)
        moreover have "no_effect (prior @ [attempt_refused route (sf_fault failure)])" using prior by simp
        ultimately show ?thesis
          using rc prior coherent_unexecuted [of "prior @ [attempt_refused route (sf_fault failure)]" "rq_target r"]
          by (intro goal [of l2 "[]" route "[]"]) (auto simp: releases_logged_def receipt_defs)
      next
        case False
        let ?partial = "with_prior_attempts (receipt_partial (rq_target r) route ev n (sf_may_have_effect failure)
                          (sf_fault failure)) prior"
        let ?owed = "owed_releases r ?stopped st"
        from False stop have "run_cleanup (logged env) ?partial r ?stopped st c (w2, l2) = (rc, (w', calls))"
          by (auto simp: stopped_receipt_def)
        then obtain released rels where
          rc: "rc = with_cleanup ?partial released (length ?owed) \<or> rc = with_exhausted_cleanup ?partial released (length ?owed)"
          and lg: "calls = l2 @ rels"
          and rl: "releases_logged ?owed (cb_max_events (rq_cleanup r)) rc route rels"
          by (rule run_cleanup_log) auto
        have fields: "rc_submitted rc = n" "rc_partial rc = sf_may_have_effect failure" "rc_outcome rc = Partial"
          "rc_selected rc = Some route" "rc_target rc = rq_target r"
          "map at_route (rc_attempts rc) = map at_route prior @ [route]"
          using rc by (auto simp: receipt_partial_def from_terminal_attempt_def attempt_partial_def with_prior_attempts_def)
        have "released \<le> length ?owed" using rl rc by (auto simp: releases_logged_def)
        with rc prior have coh: "coherent rc" using coherent_partial by blast
        have owed: "\<exists>typed b. length typed \<le> 1
            \<and> ?owed = map ReleaseUnicode typed @ map ReleaseLogical (possibly_held_after (rq_sequence r) n b)"
          by (intro exI [of _ "case ds_pending_unicode st of Some u \<Rightarrow> [u] | None \<Rightarrow> []"]
                exI [of _ "sf_may_leave_pressed failure"])
             (simp add: owed_releases_def split: option.splits)
        show ?thesis
          using subs [of rc] fields lg rl coh owed prior
          by (intro goal [of l2 rels route ?owed]) auto
      qed
    qed
  qed
qed

text \<open>Where a receipt's cleanup comes from: the driver state and the world the submissions left.\<close>

definition cleanup_accounted ::
    "'w input_env \<Rightarrow> input_request \<Rightarrow> operation_context \<Rightarrow> input_delivery \<Rightarrow> submission_failure \<Rightarrow> driver_state \<Rightarrow> 'w
     \<Rightarrow> input_receipt \<Rightarrow> native_call list \<Rightarrow> bool" where
  "cleanup_accounted env r c route failure st w rc rels \<longleftrightarrow>
     (let owed = (case ds_pending_unicode st of Some u \<Rightarrow> [ReleaseUnicode u] | None \<Rightarrow> [])
            @ map ReleaseLogical (possibly_held_after (rq_sequence r) (rc_submitted rc) (sf_may_leave_pressed failure))
      in rc_owed rc = length owed
         \<and> (if owed = [] then rels = [] \<and> rc_released rc = 0 \<and> rc_cleanup rc = NotNeeded
            else \<exists>ob w1 exhausted. env_look env w = (ob, w1)
              \<and> cleanup_run env route (cb_max_events (rq_cleanup r)) (cleanup_context (rq_cleanup r) c (obs_now ob))
                  owed st w1 (rc_released rc) rels exhausted
              \<and> rc_cleanup rc = (if rc_released rc = length owed then CleanupComplete
                                 else if exhausted then CleanupExhausted else Incomplete)))"

lemma run_cleanup_accounted:
  assumes "run_cleanup (logged env) receipt r stopped st c (w, l) = (rc, (w', l'))"
    "rc_submitted receipt = ss_submitted stopped"
  shows "\<exists>rels. l' = l @ rels \<and> cleanup_accounted env r c (ss_route stopped) (ss_failure stopped) st w rc rels"
proof -
  let ?owed = "owed_releases r stopped st"
  obtain ob w1 where look: "env_look env w = (ob, w1)" by fastforce
  show ?thesis
  proof (cases "?owed = []")
    case True
    then have "rc = with_cleanup receipt 0 0" "l' = l" using assms(1) by (simp_all add: run_cleanup_def)
    then show ?thesis using True assms(2)
      by (intro exI [of _ "[]"]) (simp add: cleanup_accounted_def owed_releases_def with_cleanup_def)
  next
    case False
    let ?cl = "cleanup_context (rq_cleanup r) c (obs_now ob)"
    obtain released exhausted st1 w2 l2 where
      loop: "release_loop (logged env) (ss_route stopped) (rq_cleanup r) ?cl 0 ?owed 0 st (w1, l)
             = ((released, exhausted), st1, (w2, l2))" by (metis prod.exhaust)
    then have rc: "rc = (if exhausted then with_exhausted_cleanup receipt released (length ?owed)
        else with_cleanup receipt released (length ?owed))" "l' = l2"
      using assms(1) False look by (auto simp: run_cleanup_def Let_def split: if_splits)
    from release_loop_run [OF loop] obtain rels where k: "l2 = l @ rels"
      "cleanup_run env (ss_route stopped) (cb_max_events (rq_cleanup r)) ?cl ?owed st w1 released rels exhausted" by auto
    have "released \<le> length ?owed" using k(2) by (simp add: cleanup_run_def)
    then have fields: "rc_submitted rc = ss_submitted stopped" "rc_owed rc = length ?owed" "rc_released rc = released"
      "rc_cleanup rc = (if released = length ?owed then CleanupComplete
                        else if exhausted then CleanupExhausted else Incomplete)"
      using rc(1) assms(2) False by (auto simp: with_cleanup_def with_exhausted_cleanup_def)
    have owed: "?owed = (case ds_pending_unicode st of Some u \<Rightarrow> [ReleaseUnicode u] | None \<Rightarrow> [])
        @ map ReleaseLogical (possibly_held_after (rq_sequence r) (rc_submitted rc) (sf_may_leave_pressed (ss_failure stopped)))"
      using fields(1) by (simp add: owed_releases_def)
    have "\<exists>ob w1 exhausted. env_look env w = (ob, w1)
        \<and> cleanup_run env (ss_route stopped) (cb_max_events (rq_cleanup r)) (cleanup_context (rq_cleanup r) c (obs_now ob))
            ?owed st w1 (rc_released rc) rels exhausted
        \<and> rc_cleanup rc = (if rc_released rc = length ?owed then CleanupComplete
                           else if exhausted then CleanupExhausted else Incomplete)"
      unfolding fields(3) using look k(2) fields(4) by blast
    then have "cleanup_accounted env r c (ss_route stopped) (ss_failure stopped) st w rc rels"
      unfolding cleanup_accounted_def Let_def owed [symmetric] using fields(2) False by simp
    then show ?thesis using k(1) rc(2) by blast
  qed
qed

lemma stopped_receipt_accounted:
  assumes "stopped_receipt (logged env) r stopped st c (w, l) = (rc, (w', l'))"
  shows "(rc_owed rc = 0 \<and> rc_cleanup rc = NotNeeded \<and> l' = l \<and> ss_submitted stopped = 0
      \<and> \<not> sf_may_have_effect (ss_failure stopped))
    \<or> (\<exists>rels. l' = l @ rels \<and> rc_submitted rc = ss_submitted stopped \<and> rc_selected rc = Some (ss_route stopped)
         \<and> (0 < ss_submitted stopped \<or> sf_may_have_effect (ss_failure stopped))
         \<and> cleanup_accounted env r c (ss_route stopped) (ss_failure stopped) st w rc rels)"
proof (cases "ss_submitted stopped = 0 \<and> \<not> sf_may_have_effect (ss_failure stopped)")
  case True
  then have "rc = with_prior_attempts (receipt_unexecuted (rq_target r) (sf_fault (ss_failure stopped)))
      (ss_prior stopped @ [attempt_refused (ss_route stopped) (sf_fault (ss_failure stopped))])" "l' = l"
    using assms by (simp_all add: stopped_receipt_def)
  then show ?thesis using True by (simp add: receipt_defs)
next
  case False
  let ?p = "with_prior_attempts (receipt_partial (rq_target r) (ss_route stopped) (ss_evidence stopped)
      (ss_submitted stopped) (sf_may_have_effect (ss_failure stopped)) (sf_fault (ss_failure stopped))) (ss_prior stopped)"
  have run: "run_cleanup (logged env) ?p r stopped st c (w, l) = (rc, (w', l'))"
    using assms False by (simp add: stopped_receipt_def)
  have p: "rc_submitted ?p = ss_submitted stopped" "rc_selected ?p = Some (ss_route stopped)"
    by (simp_all add: receipt_partial_def from_terminal_attempt_def attempt_partial_def with_prior_attempts_def)
  obtain released where "rc = with_cleanup ?p released (length (owed_releases r stopped st))
      \<or> rc = with_exhausted_cleanup ?p released (length (owed_releases r stopped st))"
    by (rule run_cleanup_log [OF run])
  then have "rc_submitted rc = ss_submitted stopped" "rc_selected rc = Some (ss_route stopped)" using p by auto
  then show ?thesis using run_cleanup_accounted [OF run p(1)] False by auto
qed

lemma execute_logged_Inr:
  assumes "execute fuel (logged env) d r c (w, []) = Some (Inr rc, (w', calls))"
  obtains w0 w1 where "execute_admitted fuel (logged env) d r c (w0, []) = Some (rc, (w1, calls))"
  using assms by (auto simp: execute_def split: sum.splits prod.splits option.splits)

lemma execute_logged_Inl:
  "execute fuel (logged env) d r c (w, []) = Some (Inl e, (w', calls)) \<Longrightarrow> calls = []"
  by (auto simp: execute_def split: sum.splits prod.splits option.splits)

text \<open>
  C7: every receipt the Windows controller returns, whatever the native driver, the clock and the token
  do, is coherent and addressed to the request's target, and the routes it records are the caller's own,
  in the caller's order, each at most once and none skipped; a request that is refused without a receipt
  reached no native call.
\<close>

theorem execute_receipt_coherent:
  assumes "execute fuel (logged env) d r c (w, []) = Some (res, (w', calls))"
  shows "case res of
           Inl e \<Rightarrow> calls = []
         | Inr rc \<Rightarrow> coherent rc \<and> rc_target rc = rq_target r
             \<and> (\<exists>rest. map at_route (rc_attempts rc) @ rest = dp_routes (rq_delivery r))"
proof (cases res)
  case (Inl e)
  with assms execute_logged_Inl show ?thesis by fastforce
next
  case (Inr rc)
  obtain w0 w1 where "execute_admitted fuel (logged env) d r c (w0, []) = Some (rc, (w1, calls))"
    using execute_logged_Inr assms Inr by metis
  from execute_admitted_log [OF this]
  have "coherent rc \<and> rc_target rc = rq_target r
        \<and> (\<exists>rest. map at_route (rc_attempts rc) @ rest = dp_routes (rq_delivery r))" by blast
  with Inr show ?thesis by simp
qed

text \<open>
  C1: a receipt tells the truth about what was submitted: the driver was asked to submit exactly the
  events of the reported prefix that are not delays, in order and once each, on one route, then at most
  the one event that failed, and nothing else; a complete receipt means every event went through, and
  only releases follow a failure.
\<close>

theorem execute_submits_prefix:
  assumes "execute fuel (logged env) d r c (w, []) = Some (Inr rc, (w', calls))"
  shows "\<exists>route subs rels.
     calls = subs @ rels \<and> (rc_selected rc = None \<or> rc_selected rc = Some route)
     \<and> submissions_logged (sq_events (rq_sequence r)) rc route subs
     \<and> list_all is_release rels
     \<and> (rc_outcome rc = Complete \<or> rc_outcome rc = Unexecuted \<longrightarrow> rels = [])"
proof -
  obtain w0 w1 where "execute_admitted fuel (logged env) d r c (w0, []) = Some (rc, (w1, calls))"
    using execute_logged_Inr assms by metis
  then obtain route subs rels owed where
    a: "calls = subs @ rels" "submissions_logged (sq_events (rq_sequence r)) rc route subs"
    "releases_logged owed (cb_max_events (rq_cleanup r)) rc route rels"
    "rc_selected rc = None \<or> rc_selected rc = Some route" "coherent rc"
    by (rule execute_admitted_log)
  have "list_all is_release rels"
    using a(3) by (auto simp: releases_logged_def list_all_iff)
  moreover have "rels = []" if "rc_outcome rc = Complete \<or> rc_outcome rc = Unexecuted"
  proof -
    have "rc_owed rc = 0" using that a(5) by (auto simp: coherent_def)
    with a(3) show ?thesis by (auto simp: releases_logged_def)
  qed
  ultimately show ?thesis using a by blast
qed

text \<open>
  C4: cleanup is exact. Without a stop that may have had effect nothing is owed and nothing is released.
  Otherwise what is owed is the pending half of a character in the driver's own state, first, and then, in
  order, the logical state the submitted prefix and the failing event may have left; the driver is asked for these
  releases in that order, one after the other under the cleanup's own deadline, and stops only when all
  succeeded, the event budget is used up, the deadline has passed, or the driver refuses one. The receipt counts what was owed
  and what succeeded, and says complete, exhausted or incomplete accordingly.
\<close>

theorem execute_cleanup_bounded:
  assumes "execute fuel (logged env) d r c (w, []) = Some (Inr rc, (w', calls))"
  shows "(rc_owed rc = 0 \<and> rc_cleanup rc = NotNeeded \<and> list_all (\<lambda>call. \<not> is_release call) calls
        \<and> (rc_outcome rc = Complete \<or> rc_outcome rc = Unexecuted))
    \<or> (\<exists>w0 w1 w2 route evidence prior failure st subs rels.
         env_admit env c w = (Inr (), w0)
         \<and> select_route (logged env) d r c (w0, []) = (Inr (route, evidence, prior), (w1, []))
         \<and> submit_events fuel (logged env) route r c (sq_events (rq_sequence r)) 0 driver_state_default (w1, [])
             = Some (Some failure, rc_submitted rc, st, (w2, subs))
         \<and> (0 < rc_submitted rc \<or> sf_may_have_effect failure)
         \<and> rc_outcome rc = Partial \<and> rc_selected rc = Some route \<and> calls = subs @ rels
         \<and> length rels \<le> cb_max_events (rq_cleanup r)
         \<and> cleanup_accounted env r c route failure st w2 rc rels)"
proof -
  obtain w0 w5 where adm: "env_admit env c w = (Inr (), w0)"
    and ex: "execute_admitted fuel (logged env) d r c (w0, []) = Some (rc, (w5, calls))"
    using assms by (auto simp: execute_def split: sum.splits prod.splits option.splits)
  obtain route0 subs0 rels0 owed0 where base: "calls = subs0 @ rels0"
    "submissions_logged (sq_events (rq_sequence r)) rc route0 subs0"
    "releases_logged owed0 (cb_max_events (rq_cleanup r)) rc route0 rels0" "coherent rc"
    by (rule execute_admitted_log [OF ex])
  have quiet: "list_all (\<lambda>call. \<not> is_release call) calls" if "rc_owed rc = 0"
    using that base(1-3) by (auto simp: releases_logged_def submissions_logged_def list_all_iff)
  obtain sel w1 l1 where sel: "select_route (logged env) d r c (w0, []) = (sel, (w1, l1))" by (metis prod.exhaust)
  then have l1: "l1 = []"
    using select_from_log [of env d r c _ "[]" _ w0 "[]"] unfolding select_route_def by (metis snd_conv)
  show ?thesis
  proof (cases sel)
    case (Inl refused)
    then have rc: "rc = refused" using ex sel l1 by (auto simp: execute_admitted_def)
    from select_from_refused [OF sel [unfolded select_route_def Inl]] obtain visited f where
      "rc = with_prior_attempts (receipt_unexecuted (rq_target r) f) visited" using rc by auto
    then show ?thesis using quiet by (simp add: receipt_defs)
  next
    case (Inr x)
    then obtain route evidence prior where x: "sel = Inr (route, evidence, prior)" by (cases x) auto
    obtain res n st w2 l2 where
      sub: "submit_events fuel (logged env) route r c (sq_events (rq_sequence r)) 0 driver_state_default (w1, [])
            = Some (res, n, st, (w2, l2))"
      using ex sel x l1
      by (cases "submit_events fuel (logged env) route r c (sq_events (rq_sequence r)) 0 driver_state_default (w1, [])")
         (auto simp: execute_admitted_def)
    show ?thesis
    proof (cases res)
      case None
      then have "rc = with_prior_attempts (receipt_complete (rq_target r) route evidence n) prior"
        using ex sel x l1 sub by (auto simp: execute_admitted_def)
      then show ?thesis using quiet by (simp add: receipt_defs)
    next
      case (Some failure)
      let ?s = "\<lparr>ss_route = route, ss_evidence = evidence, ss_prior = prior, ss_submitted = n, ss_failure = failure\<rparr>"
      have stop: "stopped_receipt (logged env) r ?s st c (w2, l2) = (rc, (w5, calls))"
        using ex sel x l1 sub Some by (simp add: execute_admitted_def)
      show ?thesis
      proof (cases "n = 0 \<and> \<not> sf_may_have_effect failure")
        case True
        then have "rc = with_prior_attempts (receipt_unexecuted (rq_target r) (sf_fault failure))
            (prior @ [attempt_refused route (sf_fault failure)])" using stop by (auto simp: stopped_receipt_def)
        then show ?thesis using quiet by (simp add: receipt_defs)
      next
        case False
        then obtain rels where rels: "calls = l2 @ rels" "rc_submitted rc = n" "rc_selected rc = Some route"
          "cleanup_accounted env r c route failure st w2 rc rels"
          using stopped_receipt_accounted [OF stop] by auto
        have "length rels \<le> cb_max_events (rq_cleanup r)"
          using rels(4) cleanup_run_length by (fastforce simp: cleanup_accounted_def Let_def split: if_splits)
        moreover have "rc_outcome rc = Partial"
        proof -
          have "rc_outcome rc \<noteq> Unexecuted" using base(4) rels(3) by (simp add: coherent_def)
          moreover have "rc_outcome rc \<noteq> Complete"
          proof
            assume "rc_outcome rc = Complete"
            then have "n = length (sq_events (rq_sequence r))" using base(2) rels(2) by (simp add: submissions_logged_def)
            then show False using submit_events_log [OF sub] Some by auto
          qed
          ultimately show ?thesis by (cases "rc_outcome rc") simp_all
        qed
        moreover have "submit_events fuel (logged env) route r c (sq_events (rq_sequence r)) 0 driver_state_default (w1, [])
            = Some (Some failure, rc_submitted rc, st, (w2, l2))" using sub Some rels(2) by simp
        moreover have "select_route (logged env) d r c (w0, []) = (Inr (route, evidence, prior), (w1, []))"
          using sel x l1 by simp
        moreover have "0 < rc_submitted rc \<or> sf_may_have_effect failure" using False rels(2) by auto
        ultimately show ?thesis using adm rels(1,3,4) by blast
      qed
    qed
  qed
qed

section \<open>Witnesses on concrete runs\<close>

definition win_target :: target_id where
  "win_target = \<lparr>tgt_engine = EngineId 1, tgt_provider = ProviderId ''windows'', tgt_ordinal = 1\<rparr>"

text \<open>A window's descriptor without window-message authority.\<close>

definition win_descriptor :: input_descriptor where
  "win_descriptor = descriptor_new win_target (win_input_capability ''fixture'' Window None False)"

text \<open>The driver refuses to submit the event \<open>bad\<close> before it has any effect, and accepts the rest.\<close>

definition refusing_env :: "input_event \<Rightarrow> nat input_env" where
  "refusing_env bad =
     clock_env\<lparr>drv_submit := \<lambda>route f ev g st c w.
       (if ev = bad then Inl (before_event PolicyRefused) else Inr (), st, w)\<rparr>"

definition chord_request :: input_request where
  "chord_request =
     with_focus (request_new win_target \<lparr>sq_events = [KeyPress (ModifierKey Control), KeyPress Tab]\<rparr>
                   (plan_require System)) RequireFocused"

lemma win_capability_window_System:
  "capability_pair (win_input_capability fixture Window class_name False) Keyboard System =
     \<lparr>rt_operation = Keyboard, rt_route = System, rt_support = Supported, rt_focus_required = True,
      rt_pointer_spaces = 0, rt_permission = None, rt_evidence = Some SystemInputAdmission\<rparr>"
  by (simp add: win_input_capability_def all_spaces_def Let_def capability_pair_def with_pair_def
        with_focus_required_def with_pointer_space_def input_capability_none_def nth_list_update
        pair_index_def input_delivery_all_def)

lemma chord_request_sel [simp]:
  "rq_target chord_request = win_target"
  "rq_sequence chord_request = \<lparr>sq_events = [KeyPress (ModifierKey Control), KeyPress Tab]\<rparr>"
  "dp_routes (rq_delivery chord_request) = [System]"
  "rq_focus chord_request = RequireFocused"
  "rq_cleanup chord_request = cleanup_contract"
  by (simp_all add: chord_request_def with_focus_def request_new_def plan_require_def)

lemma chord_run:
  "execute 1 (logged (refusing_env (KeyPress Tab))) win_descriptor chord_request context_new (0, []) =
     Some (Inr (with_cleanup (with_prior_attempts
                  (receipt_partial win_target System SystemInputAdmission 1 False PolicyRefused) []) 1 1),
           (4, [Submitted System (KeyPress (ModifierKey Control)) True,
                Submitted System (KeyPress Tab) False,
                Released System (ReleaseLogical (PressedKey (ModifierKey Control))) True]))"
proof -
  have ops: "operation_kinds \<lparr>sq_events = [KeyPress (ModifierKey Control), KeyPress Tab]\<rparr> = [Keyboard]"
    by (simp add: operation_kinds_def List.map_filter_simps add_kind_def)
  have v: "validate win_descriptor chord_request = Inr ()"
    by (simp add: validate_def request_check_def descriptor_new_def win_descriptor_def ops
          limits_contract_def sequence_max_events_def)
  have cap: "id_capability win_descriptor = win_input_capability ''fixture'' Window None False"
    by (simp add: win_descriptor_def descriptor_new_def)
  have pf: "preflight_route win_descriptor chord_request System = Inr SystemInputAdmission"
    by (simp add: preflight_route_def v ops cap win_capability_window_System route_may_attempt_def)
  show ?thesis
    by (simp add: execute_def v refusing_env_def clock_env_def execute_admitted_def select_route_def pf
          submit_event_def context_interruption_def context_new_def stopped_receipt_def before_event_def
          run_cleanup_def owed_releases_def possibly_held_after_def held_after_stack hold_stack_def
          driver_state_default_def cleanup_contract_def cleanup_max_events_def sequence_max_events_def
          cleanup_max_duration_def cleanup_context_def with_deadline_def duration_checked_add_def
          duration_max_def)
qed

theorem execute_receipt_coherent_witness:
  "coherent (with_cleanup (with_prior_attempts
      (receipt_partial win_target System SystemInputAdmission 1 False PolicyRefused) []) 1 1)"
  using execute_receipt_coherent [OF chord_run] by simp

theorem execute_submits_prefix_witness:
  "\<exists>route subs rels.
     [Submitted System (KeyPress (ModifierKey Control)) True, Submitted System (KeyPress Tab) False,
      Released System (ReleaseLogical (PressedKey (ModifierKey Control))) True] = subs @ rels
     \<and> submissions_logged [KeyPress (ModifierKey Control), KeyPress Tab]
         (with_cleanup (with_prior_attempts
            (receipt_partial win_target System SystemInputAdmission 1 False PolicyRefused) []) 1 1)
         route subs
     \<and> list_all is_release rels"
  using execute_submits_prefix [OF chord_run] by (simp only: chord_request_sel input_sequence.simps) blast

theorem execute_cleanup_bounded_witness:
  "\<exists>route failure st subs rels w2.
     [Submitted System (KeyPress (ModifierKey Control)) True, Submitted System (KeyPress Tab) False,
      Released System (ReleaseLogical (PressedKey (ModifierKey Control))) True] = subs @ rels
     \<and> cleanup_accounted (refusing_env (KeyPress Tab)) chord_request context_new route failure st w2
         (with_cleanup (with_prior_attempts
            (receipt_partial win_target System SystemInputAdmission 1 False PolicyRefused) []) 1 1) rels"
proof -
  have "rc_owed (with_cleanup (with_prior_attempts
            (receipt_partial win_target System SystemInputAdmission 1 False PolicyRefused) []) 1 1) \<noteq> 0" by simp
  with execute_cleanup_bounded [OF chord_run] show ?thesis by blast
qed

section \<open>A leading delay\<close>

text \<open>
  A delay counts as a submitted event. When the first native event after a delay is refused before it
  has any effect, the receipt is therefore \<open>Partial\<close>, reports possible native effect and carries the
  route's evidence, although the driver submitted nothing.
\<close>

definition delayed_request :: input_request where
  "delayed_request =
     with_focus (request_new win_target \<lparr>sq_events = [Delay 0, KeyPress Tab]\<rparr> (plan_require System))
       RequireFocused"

lemma delayed_request_sel [simp]:
  "rq_target delayed_request = win_target"
  "rq_sequence delayed_request = \<lparr>sq_events = [Delay 0, KeyPress Tab]\<rparr>"
  "dp_routes (rq_delivery delayed_request) = [System]"
  "rq_focus delayed_request = RequireFocused"
  by (simp_all add: delayed_request_def with_focus_def request_new_def plan_require_def)

text \<open>
  C27: whatever the descriptor, the driver and the clock: when a sequence begins with a delay that elapses and its
  next event is refused before it has any effect, by the driver or because the caller's context is interrupted
  before the driver is asked at all, the receipt is partial, counts one submitted event, reports possible native effect
  and carries the route's evidence, although the driver accepted nothing and nothing is owed.
\<close>

theorem leading_delay_reported_as_effect:
  assumes "validate d r = Inr ()" and "env_admit env c w = (Inr (), w0)"
    and "select_route (logged env) d r c (w0, []) = (Inr (route, evidence, prior), (w1, []))"
    and "sq_events (rq_sequence r) = Delay t # ev # evs" and "is_irreversible ev"
    and "wait_delay fuel env t c w1 = Some (Inr (), w2)" and "env_look env w2 = (ob, w3)"
    and "context_interruption c ob = Some i
      \<or> drv_submit env route (rq_focus r) ev (rq_geometry r) driver_state_default c w3
          = (Inl (before_event f), driver_state_default, w4)"
  shows "\<exists>rc w' calls. execute fuel (logged env) d r c (w, []) = Some (Inr rc, (w', calls))
    \<and> calls = (if context_interruption c ob = None then [Submitted route ev False] else [])
    \<and> rc_outcome rc = Partial \<and> rc_submitted rc = 1 \<and> \<not> rc_partial rc \<and> possible_native_effect rc
    \<and> rc_evidence rc = Some evidence \<and> rc_owed rc = 0"
proof -
  have first: "submit_event fuel (logged env) route r c (Delay t) driver_state_default (w1, [])
      = Some (Inr (), driver_state_default, (w2, []))"
    using assms(6) by (simp add: submit_event_def wait_delay_logged)
  obtain g w5 l where second: "submit_event fuel (logged env) route r c ev driver_state_default (w2, [])
      = Some (Inl (before_event g), driver_state_default, (w5, l))"
      "l = (if context_interruption c ob = None then [Submitted route ev False] else [])"
  proof (cases "context_interruption c ob")
    case (Some j)
    then show ?thesis using that [of "fault_of_interruption j" w3 "[]"] assms(5,7)
      by (cases ev) (simp_all add: submit_event_def)
  next
    case None
    then show ?thesis using that [of f w4 "[Submitted route ev False]"] assms(5,7,8)
      by (cases ev) (simp_all add: submit_event_def)
  qed
  let ?s = "\<lparr>ss_route = route, ss_evidence = evidence, ss_prior = prior, ss_submitted = 1, ss_failure = before_event g\<rparr>"
  have "submit_events fuel (logged env) route r c (sq_events (rq_sequence r)) 0 driver_state_default (w1, [])
      = Some (Some (before_event g), 1, driver_state_default, (w5, l))"
    using first second(1) assms(4) by simp
  moreover have "owed_releases r ?s driver_state_default = []"
    using assms(4) by (simp add: owed_releases_def driver_state_default_def before_event_def possibly_held_after_def
        held_after_stack hold_stack_def)
  ultimately have "execute_admitted fuel (logged env) d r c (w0, []) = Some (with_cleanup (with_prior_attempts
      (receipt_partial (rq_target r) route evidence 1 False g) prior) 0 0, (w5, l))"
    using assms(3) by (simp add: execute_admitted_def stopped_receipt_def run_cleanup_def) (simp add: before_event_def)
  then show ?thesis using assms(1,2) second(2)
    by (simp add: execute_def receipt_defs possible_native_effect_def)
qed

theorem leading_delay_reported_as_effect_witness:
  "\<exists>rc w' calls. execute 1 (logged (refusing_env (KeyPress Tab))) win_descriptor delayed_request context_new (0, []) =
       Some (Inr rc, (w', calls))
     \<and> calls = [Submitted System (KeyPress Tab) False]
     \<and> rc_outcome rc = Partial \<and> rc_submitted rc = 1 \<and> possible_native_effect rc
     \<and> rc_evidence rc = Some SystemInputAdmission"
proof -
  have ops: "operation_kinds \<lparr>sq_events = [Delay 0, KeyPress Tab]\<rparr> = [Keyboard]"
    by (simp add: operation_kinds_def List.map_filter_simps add_kind_def)
  have v: "validate win_descriptor delayed_request = Inr ()"
    by (simp add: validate_def request_check_def descriptor_new_def win_descriptor_def ops
          limits_contract_def sequence_max_events_def)
  have cap: "id_capability win_descriptor = win_input_capability ''fixture'' Window None False"
    by (simp add: win_descriptor_def descriptor_new_def)
  have pf: "preflight_route win_descriptor delayed_request System = Inr SystemInputAdmission"
    by (simp add: preflight_route_def v ops cap win_capability_window_System route_may_attempt_def)
  let ?env = "refusing_env (KeyPress Tab)"
  have adm: "env_admit ?env context_new 0 = (Inr (), 0)" by (simp add: refusing_env_def clock_env_def)
  have sel: "select_route (logged ?env) win_descriptor delayed_request context_new (0, [])
      = (Inr (System, SystemInputAdmission, []), (0, []))"
    by (simp add: select_route_def pf refusing_env_def clock_env_def)
  obtain w2 where wait: "wait_delay 1 ?env 0 context_new 0 = Some (Inr (), w2)"
    by (simp add: wait_delay_def refusing_env_def clock_env_def context_interruption_def context_new_def
        duration_checked_add_def duration_max_def)
  obtain ob w3 where look: "env_look ?env w2 = (ob, w3)" by fastforce
  have sub: "drv_submit ?env System (rq_focus delayed_request) (KeyPress Tab) (rq_geometry delayed_request)
      driver_state_default context_new w3 = (Inl (before_event PolicyRefused), driver_state_default, w3)"
    by (simp add: refusing_env_def)
  have none: "context_interruption context_new ob = None" by (simp add: context_interruption_def context_new_def)
  show ?thesis
    using leading_delay_reported_as_effect [OF v adm sel _ _ wait look, of "KeyPress Tab" "[]" Interrupted_DeadlineExceeded PolicyRefused w3] sub none
    by auto
qed

section \<open>The ledger answers only for the revision it holds\<close>

text \<open>
  A source frame resolves to a transform only when the ledger's latest frame of that stream has the
  same epoch and geometry revision and the source is not newer than it, and the transform is then that
  latest frame's own; once a frame of another revision is recorded, or the stream removed, no older
  source of that stream resolves.
\<close>

theorem ledger_resolves_latest_revision:
  "(resolve_source_transform l source = Inr tr \<longleftrightarrow>
      (\<exists>stamp. l (fs_stream source) = Some \<lparr>ge_stamp = stamp, ge_transform = tr\<rparr>
         \<and> fs_epoch stamp = fs_epoch source \<and> fs_geometry stamp = fs_geometry source
         \<and> (stamp_order source stamp = Inr Before \<or> stamp_order source stamp = Inr Same)))
   \<and> (resolve_source_transform (ledger_record l stamp' tr') source =
        (if fs_stream source \<noteq> fs_stream stamp' then resolve_source_transform l source
         else if fs_epoch stamp' = fs_epoch source \<and> fs_geometry stamp' = fs_geometry source
              then (if stamp_order source stamp' = Inr After then Inl UnsupportedCoordinate else Inr tr')
         else Inl FaultGeometryChanged))
   \<and> resolve_source_transform (ledger_remove l (fs_stream source)) source = Inl UnsupportedCoordinate"
proof (intro conjI)
  show "resolve_source_transform l source = Inr tr \<longleftrightarrow>
      (\<exists>stamp. l (fs_stream source) = Some \<lparr>ge_stamp = stamp, ge_transform = tr\<rparr>
         \<and> fs_epoch stamp = fs_epoch source \<and> fs_geometry stamp = fs_geometry source
         \<and> (stamp_order source stamp = Inr Before \<or> stamp_order source stamp = Inr Same))"
  proof (cases "l (fs_stream source)")
    case None
    then show ?thesis by (simp add: resolve_source_transform_def)
  next
    case (Some entry)
    then show ?thesis
      by (cases entry)
         (auto simp: resolve_source_transform_def split: sum.splits frame_order.splits if_splits)
  qed
  show "resolve_source_transform (ledger_record l stamp' tr') source =
        (if fs_stream source \<noteq> fs_stream stamp' then resolve_source_transform l source
         else if fs_epoch stamp' = fs_epoch source \<and> fs_geometry stamp' = fs_geometry source
              then (if stamp_order source stamp' = Inr After then Inl UnsupportedCoordinate else Inr tr')
         else Inl FaultGeometryChanged)"
    by (auto simp: resolve_source_transform_def ledger_record_def stamp_order_position
          split: sum.splits frame_order.splits)
qed (simp add: resolve_source_transform_def ledger_remove_def)

end
