(* ===== verification/Admission.thy ===== *)
theory Admission
  imports InputModel
begin

text \<open>
  The admission gate of an input controller, \<open>Admission\<close> in
  \<open>crates/automation/input/src/controller.rs\<close>, under every interleaving of any number of threads.

  Each section the code runs under its mutex is one function on \<open>admission_state\<close>; the thread programs
  \<open>admit\<close> and \<open>drain\<close>, the guard's and the entry's \<open>drop\<close> and \<open>begin_close\<close> are the rules of a step
  relation over a system that also records where each thread is and which guards are outstanding. A
  condition-variable wait with a timeout may end at any time, so waking is always enabled and
  notifications need no state. The operation's clock and token are consulted between the sections, by
  the rules that take an observation.
\<close>

section \<open>The sections under the mutex\<close>

record 't admission_state =
  ad_busy :: bool
  ad_owner :: "'t option"
  ad_waiters :: nat
  ad_pending :: nat
  ad_lifecycle :: lifecycle
  ad_entering :: "'t list"

definition admission_new :: "'t admission_state" where
  "admission_new = \<lparr>ad_busy = False, ad_owner = None, ad_waiters = 0, ad_pending = 0,
                    ad_lifecycle = LcOpen, ad_entering = []\<rparr>"

definition reentrant :: "'t \<Rightarrow> 't admission_state \<Rightarrow> bool" where
  "reentrant t st \<longleftrightarrow> ad_owner st = Some t \<or> t \<in> set (ad_entering st)"

text \<open>The first section of \<open>admit\<close>.\<close>

definition adm_enter :: "'t \<Rightarrow> 't admission_state \<Rightarrow> error + 't admission_state" where
  "adm_enter t st =
     (if reentrant t st then Inl (input_error SubmissionFailed)
      else if ad_lifecycle st \<noteq> LcOpen then Inl (input_error ControllerClosed)
      else Inr (st\<lparr>ad_entering := ad_entering st @ [t], ad_pending := ad_pending st + 1\<rparr>))"

text \<open>\<open>Vec::swap_remove\<close> and the entry's \<open>unregister\<close>; \<open>None\<close> is the panic of the failed \<open>expect\<close>.\<close>

definition swap_remove :: "nat \<Rightarrow> 'a list \<Rightarrow> 'a list" where
  "swap_remove i xs = (if i = length xs - 1 then butlast xs else (butlast xs)[i := last xs])"

fun position :: "'a \<Rightarrow> 'a list \<Rightarrow> nat option" where
  "position x [] = None"
| "position x (y # ys) = (if y = x then Some 0 else map_option Suc (position x ys))"

definition unregister :: "'t \<Rightarrow> bool \<Rightarrow> 't admission_state \<Rightarrow> ('t admission_state \<times> bool) option" where
  "unregister t blocks_close st =
     (case position t (ad_entering st) of
        None \<Rightarrow> None
      | Some index \<Rightarrow>
          (let st = st\<lparr>ad_entering := swap_remove index (ad_entering st)\<rparr>;
               st = (if blocks_close then st\<lparr>ad_pending := ad_pending st - 1\<rparr> else st)
           in Some (st, blocks_close \<and> ad_pending st = 0)))"

text \<open>One round of \<open>admit\<close>'s loop: closed, granted, or registered as a waiter.\<close>

datatype 's try_result = TryClosed | TryGranted 's | TryWait 's

definition adm_try :: "'t \<Rightarrow> 't admission_state \<Rightarrow> 't admission_state try_result option" where
  "adm_try t st =
     (if ad_lifecycle st \<noteq> LcOpen then Some TryClosed
      else if \<not> ad_busy st then
        map_option (\<lambda>(st, notify). TryGranted st)
          (unregister t True (st\<lparr>ad_busy := True, ad_owner := Some t\<rparr>))
      else Some (TryWait (st\<lparr>ad_waiters := ad_waiters st + 1\<rparr>)))"

definition adm_wake :: "'t admission_state \<Rightarrow> 't admission_state" where
  "adm_wake st = st\<lparr>ad_waiters := ad_waiters st - 1\<rparr>"

definition guard_drop :: "'t admission_state \<Rightarrow> 't admission_state" where
  "guard_drop st = st\<lparr>ad_busy := False, ad_owner := None\<rparr>"

definition begin_close :: "'t admission_state \<Rightarrow> 't admission_state" where
  "begin_close st = (if ad_lifecycle st = LcOpen then st\<lparr>ad_lifecycle := LcClosing\<rparr> else st)"

definition drain_enter :: "'t \<Rightarrow> 't admission_state \<Rightarrow> error + 't admission_state" where
  "drain_enter t st =
     (if reentrant t st then Inl (input_error SubmissionFailed)
      else Inr (st\<lparr>ad_entering := ad_entering st @ [t]\<rparr>))"

datatype drain_view = DrainClosed | DrainQuiet | DrainWait

definition drain_look :: "'t admission_state \<Rightarrow> drain_view" where
  "drain_look st =
     (if ad_lifecycle st = LcClosed then DrainClosed
      else if \<not> ad_busy st \<and> ad_waiters st = 0 \<and> ad_pending st = 0 then DrainQuiet
      else DrainWait)"

definition drain_finish :: "'t admission_state \<Rightarrow> 't admission_state" where
  "drain_finish st = (if ad_lifecycle st \<noteq> LcClosed then st\<lparr>ad_lifecycle := LcClosed\<rparr> else st)"

section \<open>Thread programs\<close>

text \<open>Where a thread is: \<open>A\<close> in \<open>admit\<close>, \<open>D\<close> in \<open>drain\<close>. A holder of a guard may be anywhere.\<close>

datatype pc =
    Idle
  | AEntering operation_context
  | ATrying operation
  | AWaiting operation
  | AWoken operation
  | ALeaving error
  | AGranted operation
  | DEntering operation_context
  | DClosing operation_context
  | DTrying operation
  | DWaiting operation
  | DWoken operation
  | DQuiet operation
  | DFinal
  | DLeaving

record 't system =
  sys_ad :: "'t admission_state"
  sys_pc :: "'t \<Rightarrow> pc"
  sys_guards :: "'t list"

definition system_new :: "'t system" where
  "system_new = \<lparr>sys_ad = admission_new, sys_pc = (\<lambda>_. Idle), sys_guards = []\<rparr>"

definition moved :: "'t system \<Rightarrow> 't \<Rightarrow> pc \<Rightarrow> 't admission_state \<Rightarrow> 't system" where
  "moved s t p st = s\<lparr>sys_pc := (sys_pc s)(t := p), sys_ad := st\<rparr>"

inductive adm_step :: "'t system \<Rightarrow> 't system \<Rightarrow> bool" where
  enter: "sys_pc s t = Idle \<Longrightarrow> adm_enter t (sys_ad s) = Inr st \<Longrightarrow>
            adm_step s (moved s t (AEntering c) st)"
| op_admit: "sys_pc s t = AEntering c \<Longrightarrow> admit c ob = Inr op \<Longrightarrow>
            adm_step s (moved s t (ATrying op) (sys_ad s))"
| op_refuse: "sys_pc s t = AEntering c \<Longrightarrow> admit c ob = Inl i \<Longrightarrow>
            adm_step s (moved s t (ALeaving (interruption_error i)) (sys_ad s))"
| try_closed: "sys_pc s t = ATrying op \<Longrightarrow> adm_try t (sys_ad s) = Some TryClosed \<Longrightarrow>
            adm_step s (moved s t (ALeaving (input_error ControllerClosed)) (sys_ad s))"
| try_granted: "sys_pc s t = ATrying op \<Longrightarrow> adm_try t (sys_ad s) = Some (TryGranted st) \<Longrightarrow>
            adm_step s (moved s t (AGranted op) st)"
| try_wait: "sys_pc s t = ATrying op \<Longrightarrow> adm_try t (sys_ad s) = Some (TryWait st) \<Longrightarrow>
            adm_step s (moved s t (AWaiting op) st)"
| wake: "sys_pc s t = AWaiting op \<Longrightarrow>
            adm_step s (moved s t (AWoken op) (adm_wake (sys_ad s)))"
| check_ok: "sys_pc s t = AWoken op \<Longrightarrow> checkpoint op ob = (Inr (), op') \<Longrightarrow>
            adm_step s (moved s t (ATrying op') (sys_ad s))"
| check_fail: "sys_pc s t = AWoken op \<Longrightarrow> checkpoint op ob = (Inl i, op') \<Longrightarrow>
            adm_step s (moved s t (ALeaving (interruption_error i)) (sys_ad s))"
| leave: "sys_pc s t = ALeaving e \<Longrightarrow> unregister t True (sys_ad s) = Some (st, notify) \<Longrightarrow>
            adm_step s (moved s t Idle st)"
| commit_ok: "sys_pc s t = AGranted op \<Longrightarrow> commit op ob () = Inr () \<Longrightarrow>
            adm_step s ((moved s t Idle (sys_ad s))\<lparr>sys_guards := t # sys_guards s\<rparr>)"
| commit_fail: "sys_pc s t = AGranted op \<Longrightarrow> commit op ob () = Inl i \<Longrightarrow>
            adm_step s (moved s t Idle (guard_drop (sys_ad s)))"
| drop_guard: "g \<in> set (sys_guards s) \<Longrightarrow>
            adm_step s (s\<lparr>sys_guards := remove1 g (sys_guards s), sys_ad := guard_drop (sys_ad s)\<rparr>)"
| close: "adm_step s (s\<lparr>sys_ad := begin_close (sys_ad s)\<rparr>)"
| d_enter: "sys_pc s t = Idle \<Longrightarrow> drain_enter t (sys_ad s) = Inr st \<Longrightarrow>
            adm_step s (moved s t (DEntering c) st)"
| d_begin: "sys_pc s t = DEntering c \<Longrightarrow>
            adm_step s (moved s t (DClosing c) (begin_close (sys_ad s)))"
| d_admit: "sys_pc s t = DClosing c \<Longrightarrow> admit c ob = Inr op \<Longrightarrow>
            adm_step s (moved s t (DTrying op) (sys_ad s))"
| d_refuse: "sys_pc s t = DClosing c \<Longrightarrow> admit c ob = Inl i \<Longrightarrow>
            adm_step s (moved s t DLeaving (sys_ad s))"
| d_closed: "sys_pc s t = DTrying op \<Longrightarrow> drain_look (sys_ad s) = DrainClosed \<Longrightarrow>
            adm_step s (moved s t DLeaving (sys_ad s))"
| d_quiet: "sys_pc s t = DTrying op \<Longrightarrow> drain_look (sys_ad s) = DrainQuiet \<Longrightarrow>
            adm_step s (moved s t (DQuiet op) (sys_ad s))"
| d_wait: "sys_pc s t = DTrying op \<Longrightarrow> drain_look (sys_ad s) = DrainWait \<Longrightarrow>
            adm_step s (moved s t (DWaiting op) (sys_ad s))"
| d_wake: "sys_pc s t = DWaiting op \<Longrightarrow>
            adm_step s (moved s t (DWoken op) (sys_ad s))"
| d_check_ok: "sys_pc s t = DWoken op \<Longrightarrow> checkpoint op ob = (Inr (), op') \<Longrightarrow>
            adm_step s (moved s t (DTrying op') (sys_ad s))"
| d_check_fail: "sys_pc s t = DWoken op \<Longrightarrow> checkpoint op ob = (Inl i, op') \<Longrightarrow>
            adm_step s (moved s t DLeaving (sys_ad s))"
| d_commit_ok: "sys_pc s t = DQuiet op \<Longrightarrow> commit op ob () = Inr () \<Longrightarrow>
            adm_step s (moved s t DFinal (sys_ad s))"
| d_commit_fail: "sys_pc s t = DQuiet op \<Longrightarrow> commit op ob () = Inl i \<Longrightarrow>
            adm_step s (moved s t DLeaving (sys_ad s))"
| d_final: "sys_pc s t = DFinal \<Longrightarrow>
            adm_step s (moved s t DLeaving (drain_finish (sys_ad s)))"
| d_leave: "sys_pc s t = DLeaving \<Longrightarrow> unregister t False (sys_ad s) = Some (st, notify) \<Longrightarrow>
            adm_step s (moved s t Idle st)"

definition adm_reachable :: "'t system \<Rightarrow> bool" where
  "adm_reachable s \<longleftrightarrow> adm_step\<^sup>*\<^sup>* system_new s"

section \<open>Registration\<close>

lemma position_None_iff: "position x xs = None \<longleftrightarrow> x \<notin> set xs"
  by (induction xs) auto

lemma position_Some: "position x xs = Some i \<Longrightarrow> i < length xs \<and> xs ! i = x"
  by (induction xs arbitrary: i) (auto split: if_splits)

lemma mset_swap_remove:
  assumes "i < length xs"
  shows "mset (swap_remove i xs) = mset xs - {#xs ! i#}"
proof -
  have ne: "xs \<noteq> []" using assms by auto
  then have split: "xs = butlast xs @ [last xs]" by simp
  show ?thesis
  proof (cases "i = length xs - 1")
    case True
    with ne have "xs ! i = last xs" by (simp add: last_conv_nth)
    with split True show ?thesis
      by (metis add_diff_cancel_right' mset.simps(1) mset.simps(2) mset_append swap_remove_def)
  next
    case False
    with assms have lt: "i < length (butlast xs)" by simp
    then have "xs ! i = butlast xs ! i" by (simp add: nth_butlast)
    moreover have "mset xs = add_mset (last xs) (mset (butlast xs))"
      using split by (metis mset.simps(1) mset.simps(2) mset_append union_mset_add_mset_right add.right_neutral)
    moreover have "butlast xs ! i \<in># mset (butlast xs)" using lt by simp
    ultimately show ?thesis
      using False lt by (simp add: swap_remove_def mset_update)
  qed
qed

lemma position_Some_mem: "position x xs = Some i \<Longrightarrow> x \<in> set xs"
  using position_None_iff [of x xs] by auto

lemma unregister_Some:
  assumes "unregister t b st = Some (st', notify)"
  shows "mset (ad_entering st') = mset (ad_entering st) - {#t#}" "t \<in> set (ad_entering st)"
    "ad_pending st' = (if b then ad_pending st - 1 else ad_pending st)"
    "ad_busy st' = ad_busy st" "ad_owner st' = ad_owner st" "ad_waiters st' = ad_waiters st"
    "ad_lifecycle st' = ad_lifecycle st"
proof -
  obtain i where i: "position t (ad_entering st) = Some i"
    and st': "st' = (if b then st\<lparr>ad_entering := swap_remove i (ad_entering st), ad_pending := ad_pending st - 1\<rparr>
                     else st\<lparr>ad_entering := swap_remove i (ad_entering st)\<rparr>)"
    using assms by (auto simp: unregister_def Let_def split: option.splits)
  note p = position_Some [OF i] position_Some_mem [OF i]
  show "mset (ad_entering st') = mset (ad_entering st) - {#t#}" "t \<in> set (ad_entering st)"
    "ad_pending st' = (if b then ad_pending st - 1 else ad_pending st)"
    "ad_busy st' = ad_busy st" "ad_owner st' = ad_owner st" "ad_waiters st' = ad_waiters st"
    "ad_lifecycle st' = ad_lifecycle st"
    using p st' by (auto simp: mset_swap_remove)
qed

lemma unregister_SomeD:
  "unregister t b st = Some (st', notify) \<Longrightarrow>
     mset (ad_entering st') = mset (ad_entering st) - {#t#} \<and> t \<in> set (ad_entering st)
     \<and> ad_pending st' = (if b then ad_pending st - 1 else ad_pending st)
     \<and> ad_busy st' = ad_busy st \<and> ad_owner st' = ad_owner st \<and> ad_waiters st' = ad_waiters st
     \<and> ad_lifecycle st' = ad_lifecycle st"
  by (intro conjI; erule unregister_Some)

lemma unregister_None_iff: "unregister t b st = None \<longleftrightarrow> t \<notin> set (ad_entering st)"
  by (auto simp: unregister_def Let_def position_None_iff position_Some_mem split: option.splits)

section \<open>The invariant\<close>

text \<open>What a position in the code stands for: registered in \<open>entering\<close>, counted as a pending admission,
  counted as a waiter, holding the controller before the guard exists, past the quiescence check.\<close>

fun registered :: "pc \<Rightarrow> bool" where
  "registered Idle = False"
| "registered (AGranted _) = False"
| "registered _ = True"

fun blocking :: "pc \<Rightarrow> bool" where
  "blocking (AEntering _) = True"
| "blocking (ATrying _) = True"
| "blocking (AWaiting _) = True"
| "blocking (AWoken _) = True"
| "blocking (ALeaving _) = True"
| "blocking _ = False"

fun waiting :: "pc \<Rightarrow> bool" where
  "waiting (AWaiting _) = True"
| "waiting _ = False"

fun granted :: "pc \<Rightarrow> bool" where
  "granted (AGranted _) = True"
| "granted _ = False"

fun past_quiet :: "pc \<Rightarrow> bool" where
  "past_quiet (DQuiet _) = True"
| "past_quiet DFinal = True"
| "past_quiet _ = False"

fun draining :: "pc \<Rightarrow> bool" where
  "draining (DClosing _) = True"
| "draining (DTrying _) = True"
| "draining (DWaiting _) = True"
| "draining (DWoken _) = True"
| "draining (DQuiet _) = True"
| "draining DFinal = True"
| "draining _ = False"

definition quiescent :: "'t admission_state \<Rightarrow> bool" where
  "quiescent st \<longleftrightarrow> \<not> ad_busy st \<and> ad_waiters st = 0 \<and> ad_pending st = 0"

definition counted :: "'t system \<Rightarrow> bool" where
  "counted s \<longleftrightarrow>
     finite {t. sys_pc s t \<noteq> Idle}
     \<and> mset (ad_entering (sys_ad s)) = mset_set {t. registered (sys_pc s t)}
     \<and> ad_pending (sys_ad s) = card {t. blocking (sys_pc s t)}
     \<and> ad_waiters (sys_ad s) = card {t. waiting (sys_pc s t)}"

definition held :: "'t system \<Rightarrow> bool" where
  "held s \<longleftrightarrow>
     (case ad_owner (sys_ad s) of
        None \<Rightarrow> \<not> ad_busy (sys_ad s) \<and> sys_guards s = [] \<and> (\<forall>t. \<not> granted (sys_pc s t))
      | Some h \<Rightarrow> ad_busy (sys_ad s)
          \<and> (sys_guards s = [h] \<and> (\<forall>t. \<not> granted (sys_pc s t))
             \<or> sys_guards s = [] \<and> (\<forall>t. granted (sys_pc s t) = (t = h))))"

definition settled :: "'t system \<Rightarrow> bool" where
  "settled s \<longleftrightarrow>
     (\<forall>t. draining (sys_pc s t) \<longrightarrow> ad_lifecycle (sys_ad s) \<noteq> LcOpen)
     \<and> (\<forall>t. past_quiet (sys_pc s t) \<longrightarrow> quiescent (sys_ad s))
     \<and> (ad_lifecycle (sys_ad s) = LcClosed \<longrightarrow> quiescent (sys_ad s))"

lemma moved_sel [simp]:
  "sys_pc (moved s t p st) = (sys_pc s)(t := p)"
  "sys_ad (moved s t p st) = st"
  "sys_guards (moved s t p st) = sys_guards s"
  by (simp_all add: moved_def)

lemma finite_pc:
  assumes "finite {t. sys_pc s t \<noteq> Idle}"
  shows "finite {t. registered (sys_pc s t)}" "finite {t. blocking (sys_pc s t)}"
    "finite {t. waiting (sys_pc s t)}"
  by (rule finite_subset [OF _ assms], force)+

text \<open>
  A thread's move keeps the counts when the admission state changes by the difference between what the
  thread counted for before and after.
\<close>

lemma counted_moved:
  assumes "counted s"
    and "mset (ad_entering st) + (if registered (sys_pc s t) then {#t#} else {#})
         = mset (ad_entering (sys_ad s)) + (if registered p then {#t#} else {#})"
    and "ad_pending st + (if blocking (sys_pc s t) then 1 else 0)
         = ad_pending (sys_ad s) + (if blocking p then 1 else 0)"
    and "ad_waiters st + (if waiting (sys_pc s t) then 1 else 0)
         = ad_waiters (sys_ad s) + (if waiting p then 1 else 0)"
  shows "counted (moved s t p st)"
proof -
  have fin: "finite {t. sys_pc s t \<noteq> Idle}" using assms(1) by (simp add: counted_def)
  note f = finite_pc [OF fin]
  have "finite {u. ((sys_pc s)(t := p)) u \<noteq> Idle}"
    by (rule finite_subset [of _ "insert t {t. sys_pc s t \<noteq> Idle}"]) (use fin in auto)
  moreover have "mset (ad_entering st) = mset_set {u. registered (((sys_pc s)(t := p)) u)}"
  proof -
    let ?R = "{u. registered (sys_pc s u)}"
    have new: "{u. registered (((sys_pc s)(t := p)) u)} = (?R - {t}) \<union> (if registered p then {t} else {})"
      by auto
    have "mset_set ((?R - {t}) \<union> (if registered p then {t} else {}))
          = mset_set (?R - {t}) + (if registered p then {#t#} else {#})"
      using f by (simp add: mset_set.insert_remove)
    moreover have "mset_set ?R = mset_set (?R - {t}) + (if registered (sys_pc s t) then {#t#} else {#})"
    proof (cases "registered (sys_pc s t)")
      case True
      with f mset_set.remove [of ?R t] show ?thesis by simp
    qed simp
    ultimately show ?thesis
      using assms(1,2) unfolding new counted_def by (simp split: if_splits)
  qed
  ultimately show ?thesis
    using assms(1,3,4) card_update [of blocking "sys_pc s" t p] card_update [of waiting "sys_pc s" t p] f
    by (simp add: counted_def)
qed

lemma counted_registered:
  assumes "counted s"
  shows "t \<in> set (ad_entering (sys_ad s)) \<longleftrightarrow> registered (sys_pc s t)"
    "blocking (sys_pc s t) \<Longrightarrow> 0 < ad_pending (sys_ad s)"
    "waiting (sys_pc s t) \<Longrightarrow> 0 < ad_waiters (sys_ad s)"
proof -
  have fin: "finite {t. sys_pc s t \<noteq> Idle}" using assms by (simp add: counted_def)
  note f = finite_pc [OF fin]
  have "set (ad_entering (sys_ad s)) = {t. registered (sys_pc s t)}"
    using assms f by (metis counted_def finite_set_mset_mset_set set_mset_mset)
  then show "t \<in> set (ad_entering (sys_ad s)) \<longleftrightarrow> registered (sys_pc s t)" by simp
  show "blocking (sys_pc s t) \<Longrightarrow> 0 < ad_pending (sys_ad s)"
    using assms f by (auto simp: counted_def card_gt_0_iff)
  show "waiting (sys_pc s t) \<Longrightarrow> 0 < ad_waiters (sys_ad s)"
    using assms f by (auto simp: counted_def card_gt_0_iff)
qed

lemma counted_same_ad:
  assumes "counted s" "ad_entering (sys_ad s') = ad_entering (sys_ad s)"
    "ad_pending (sys_ad s') = ad_pending (sys_ad s)" "ad_waiters (sys_ad s') = ad_waiters (sys_ad s)"
    "sys_pc s' = sys_pc s"
  shows "counted s'"
  using assms by (simp add: counted_def)

lemma adm_enter_Inr:
  "adm_enter t st = Inr st' \<longleftrightarrow> \<not> reentrant t st \<and> ad_lifecycle st = LcOpen
     \<and> st' = st\<lparr>ad_entering := ad_entering st @ [t], ad_pending := ad_pending st + 1\<rparr>"
  by (auto simp: adm_enter_def)

lemma drain_enter_Inr:
  "drain_enter t st = Inr st' \<longleftrightarrow> \<not> reentrant t st
     \<and> st' = st\<lparr>ad_entering := ad_entering st @ [t]\<rparr>"
  by (auto simp: drain_enter_def)

lemma adm_try_cases:
  "adm_try t st = Some TryClosed \<longleftrightarrow> ad_lifecycle st \<noteq> LcOpen"
  "adm_try t st = Some (TryWait st') \<longleftrightarrow>
     ad_lifecycle st = LcOpen \<and> ad_busy st \<and> st' = st\<lparr>ad_waiters := ad_waiters st + 1\<rparr>"
  "adm_try t st = Some (TryGranted st') \<longleftrightarrow>
     ad_lifecycle st = LcOpen \<and> \<not> ad_busy st
     \<and> (\<exists>n. unregister t True (st\<lparr>ad_busy := True, ad_owner := Some t\<rparr>) = Some (st', n))"
  by (auto simp: adm_try_def)

lemma section_sel [simp]:
  "ad_entering (guard_drop st) = ad_entering st" "ad_pending (guard_drop st) = ad_pending st"
  "ad_waiters (guard_drop st) = ad_waiters st" "ad_lifecycle (guard_drop st) = ad_lifecycle st"
  "\<not> ad_busy (guard_drop st)" "ad_owner (guard_drop st) = None"
  "ad_entering (begin_close st) = ad_entering st" "ad_pending (begin_close st) = ad_pending st"
  "ad_waiters (begin_close st) = ad_waiters st" "ad_busy (begin_close st) = ad_busy st"
  "ad_owner (begin_close st) = ad_owner st"
  "ad_lifecycle (begin_close st) = (if ad_lifecycle st = LcOpen then LcClosing else ad_lifecycle st)"
  "ad_entering (drain_finish st) = ad_entering st" "ad_pending (drain_finish st) = ad_pending st"
  "ad_waiters (drain_finish st) = ad_waiters st" "ad_busy (drain_finish st) = ad_busy st"
  "ad_owner (drain_finish st) = ad_owner st" "ad_lifecycle (drain_finish st) = LcClosed"
  "ad_entering (adm_wake st) = ad_entering st" "ad_pending (adm_wake st) = ad_pending st"
  "ad_waiters (adm_wake st) = ad_waiters st - 1" "ad_busy (adm_wake st) = ad_busy st"
  "ad_owner (adm_wake st) = ad_owner st" "ad_lifecycle (adm_wake st) = ad_lifecycle st"
  by (auto simp: guard_drop_def begin_close_def drain_finish_def adm_wake_def)

lemma counted_step: "adm_step s s' \<Longrightarrow> counted s \<Longrightarrow> counted s'"
proof (induction rule: adm_step.induct)
  case (try_granted s t op st)
  then show ?case
    by (intro counted_moved)
       (auto simp: adm_try_cases dest!: unregister_SomeD dest: counted_registered(2) [of s t])
next
  case (leave s t e st notify)
  then show ?case
    by (intro counted_moved)
       (auto dest!: unregister_SomeD dest: counted_registered(2) [of s t])
next
  case (d_leave s t st notify)
  then show ?case
    by (intro counted_moved)
       (auto dest!: unregister_SomeD dest: counted_registered(2) [of s t])
next
  case (wake s t op)
  then show ?case
    using counted_registered(3) [of s t] by (intro counted_moved) auto
next
  case (commit_ok s t op ob)
  then have "counted (moved s t Idle (sys_ad s))" by (intro counted_moved) auto
  then show ?case by (rule counted_same_ad) simp_all
next
  case (drop_guard g s)
  then show ?case by (elim counted_same_ad) simp_all
next
  case (close s)
  then show ?case by (elim counted_same_ad) simp_all
qed (intro counted_moved; auto simp: adm_enter_Inr drain_enter_Inr adm_try_cases)+

lemma held_moved:
  assumes "held s" "ad_owner st = ad_owner (sys_ad s)" "ad_busy st = ad_busy (sys_ad s)"
    "granted p = granted (sys_pc s t)"
  shows "held (moved s t p st)"
proof -
  have "granted (((sys_pc s)(t := p)) u) = granted (sys_pc s u)" for u using assms(4) by simp
  with assms show ?thesis by (cases "ad_owner (sys_ad s)") (simp_all add: held_def)
qed

lemma held_granted: "held s \<Longrightarrow> granted (sys_pc s t) \<Longrightarrow> ad_owner (sys_ad s) = Some t \<and> sys_guards s = []"
  by (auto simp: held_def split: option.splits)

lemma held_guards: "held s \<Longrightarrow> g \<in> set (sys_guards s) \<Longrightarrow>
    sys_guards s = [g] \<and> (\<forall>t. \<not> granted (sys_pc s t))"
  by (auto simp: held_def split: option.splits)

lemma held_free: "held s \<Longrightarrow> \<not> ad_busy (sys_ad s) \<Longrightarrow>
    ad_owner (sys_ad s) = None \<and> sys_guards s = [] \<and> (\<forall>t. \<not> granted (sys_pc s t))"
  by (auto simp: held_def split: option.splits)

lemma held_step: "adm_step s s' \<Longrightarrow> held s \<Longrightarrow> held s'"
proof (induction rule: adm_step.induct)
  case (try_granted s t op st)
  from try_granted.hyps have free: "\<not> ad_busy (sys_ad s)" "ad_busy st" "ad_owner st = Some t"
    by (auto simp: adm_try_cases dest!: unregister_SomeD)
  from held_free [OF try_granted.prems free(1)] free show ?case
    by (auto simp: held_def)
next
  case (commit_ok s t op ob)
  then have "granted (sys_pc s t)" by simp
  from held_granted [OF commit_ok.prems this] commit_ok show ?case
    by (auto simp: held_def)
next
  case (commit_fail s t op ob i)
  then have "granted (sys_pc s t)" by simp
  from held_granted [OF commit_fail.prems this] commit_fail show ?case
    by (auto simp: held_def)
next
  case (drop_guard g s)
  from held_guards [OF drop_guard.prems drop_guard.hyps] show ?case by (simp add: held_def)
next
  case (close s)
  then show ?case by (cases "ad_owner (sys_ad s)") (simp_all add: held_def)
qed (intro held_moved; auto simp: adm_enter_Inr drain_enter_Inr adm_try_cases dest!: unregister_SomeD)+

lemma settled_moved:
  assumes "settled s"
    and "draining p \<Longrightarrow> ad_lifecycle st \<noteq> LcOpen" "past_quiet p \<Longrightarrow> quiescent st"
    and "ad_lifecycle (sys_ad s) \<noteq> LcOpen \<Longrightarrow> ad_lifecycle st \<noteq> LcOpen"
    and "quiescent (sys_ad s) \<Longrightarrow> ad_lifecycle (sys_ad s) \<noteq> LcOpen \<Longrightarrow> quiescent st"
    and "ad_lifecycle st = LcClosed \<Longrightarrow> ad_lifecycle (sys_ad s) = LcClosed \<or> past_quiet (sys_pc s t)"
  shows "settled (moved s t p st)"
proof -
  have dr: "\<And>u. past_quiet (sys_pc s u) \<Longrightarrow> draining (sys_pc s u)"
    by (metis draining.simps(5,6) past_quiet.elims(2))
  then show ?thesis
    using assms unfolding settled_def moved_sel fun_upd_def by (smt (verit, ccfv_threshold) lifecycle.distinct)
qed

lemma settled_same_ad:
  assumes "settled s" "draining p \<Longrightarrow> draining (sys_pc s t)" "past_quiet p \<Longrightarrow> past_quiet (sys_pc s t)"
  shows "settled (moved s t p (sys_ad s))"
  using assms unfolding settled_def by auto

lemma settled_step: "adm_step s s' \<Longrightarrow> counted s \<Longrightarrow> settled s \<Longrightarrow> settled s'"
proof (induction rule: adm_step.induct)
  case (try_granted s t op st)
  then show ?case
    by (intro settled_moved)
       (auto simp: adm_try_cases dest!: unregister_SomeD)
next
  case (try_wait s t op st)
  then show ?case by (intro settled_moved) (auto simp: adm_try_cases)
next
  case (commit_ok s t op ob)
  then have "settled (moved s t Idle (sys_ad s))" by (intro settled_moved) auto
  then show ?case by (simp add: settled_def)
next
  case (drop_guard g s)
  then show ?case by (auto simp: settled_def quiescent_def)
next
  case (close s)
  then show ?case by (auto simp: settled_def quiescent_def)
next
  case (d_final s t)
  then have "past_quiet (sys_pc s t)" by simp
  with d_final.prems have "quiescent (sys_ad s)" unfolding settled_def by blast
  with d_final show ?case by (intro settled_moved) (auto simp: quiescent_def)
next
  case (d_quiet s t op)
  then have "draining (sys_pc s t)" by simp
  with d_quiet.prems have "ad_lifecycle (sys_ad s) \<noteq> LcOpen" unfolding settled_def by blast
  with d_quiet show ?case
    by (intro settled_moved) (auto simp: settled_def drain_look_def quiescent_def split: if_splits)
next
  case (enter s t st c)
  then show ?case by (intro settled_moved) (auto simp: adm_enter_Inr)
next
  case (wake s t op)
  then show ?case by (intro settled_moved) (auto simp: quiescent_def)
next
  case (leave s t e st notify)
  then show ?case by (intro settled_moved) (auto simp: quiescent_def dest!: unregister_SomeD)
next
  case (commit_fail s t op ob i)
  then show ?case by (intro settled_moved) (auto simp: quiescent_def)
next
  case (d_enter s t st c)
  then show ?case by (intro settled_moved) (auto simp: drain_enter_Inr quiescent_def)
next
  case (d_begin s t c)
  then show ?case by (intro settled_moved) (auto simp: quiescent_def split: if_splits)
next
  case (d_leave s t st notify)
  then show ?case by (intro settled_moved) (auto simp: quiescent_def dest!: unregister_SomeD)
qed (intro settled_same_ad; simp)+

interpretation gate_invariant: invariant_machine adm_step system_new "\<lambda>s. counted s \<and> held s \<and> settled s"
proof
  show "counted system_new \<and> held system_new \<and> settled system_new"
    by (simp add: counted_def held_def settled_def system_new_def admission_new_def)
qed (use counted_step held_step settled_step in blast)

lemma adm_invariant: "adm_reachable s \<Longrightarrow> counted s \<and> held s \<and> settled s"
  unfolding adm_reachable_def by (rule gate_invariant.inv_reachable)

interpretation gate: staged_machine adm_step "\<lambda>s. lifecycle_stage (ad_lifecycle (sys_ad s))"
proof
  fix s s' :: "'a system"
  assume "adm_step s s'"
  then show "lifecycle_stage (ad_lifecycle (sys_ad s)) \<le> lifecycle_stage (ad_lifecycle (sys_ad s'))"
    by induction
       (auto simp: adm_enter_Inr drain_enter_Inr adm_try_cases dest!: unregister_SomeD)
qed

text \<open>
  C2: mutual exclusion under every interleaving: at most one guard is ever outstanding, the controller
  is marked busy exactly while a guard is outstanding or about to be handed out, and its recorded owner
  is the thread that acquired it; an operation that expired at its commit leaves the controller free.
\<close>

theorem one_guard_at_a_time:
  assumes "adm_reachable s"
  shows "length (sys_guards s) + card {t. granted (sys_pc s t)} \<le> 1
    \<and> ad_busy (sys_ad s) = (sys_guards s \<noteq> [] \<or> (\<exists>t. granted (sys_pc s t)))
    \<and> (\<forall>g. g \<in> set (sys_guards s) \<longrightarrow> ad_owner (sys_ad s) = Some g)"
proof -
  have h: "held s" using adm_invariant [OF assms] by simp
  show ?thesis
  proof (cases "ad_owner (sys_ad s)")
    case None
    with h show ?thesis by (simp add: held_def)
  next
    case (Some o')
    with h have "ad_busy (sys_ad s)" and
      "sys_guards s = [o'] \<and> (\<forall>t. \<not> granted (sys_pc s t))
       \<or> sys_guards s = [] \<and> (\<forall>t. granted (sys_pc s t) = (t = o'))"
      by (auto simp: held_def)
    with Some show ?thesis by auto
  qed
qed

text \<open>
  C3: close never strands a sequence: whenever the controller is closed no guard is outstanding, nobody
  waits and no admission is pending, and from then on, whatever the threads do, it stays closed and no
  guard is ever handed out again.
\<close>

theorem closed_is_final:
  assumes "adm_reachable s" and "ad_lifecycle (sys_ad s) = LcClosed" and "adm_step\<^sup>*\<^sup>* s s'"
  shows "ad_lifecycle (sys_ad s') = LcClosed \<and> sys_guards s' = []
    \<and> ad_waiters (sys_ad s') = 0 \<and> ad_pending (sys_ad s') = 0
    \<and> (\<forall>t. \<not> blocking (sys_pc s' t) \<and> \<not> granted (sys_pc s' t))"
proof -
  have r: "adm_reachable s'" using assms(1,3) by (simp add: adm_reachable_def)
  note inv = adm_invariant [OF r]
  have "lifecycle_stage LcClosed \<le> lifecycle_stage (ad_lifecycle (sys_ad s'))"
    using gate.stage_run [OF assms(3)] assms(2) by simp
  then have closed: "ad_lifecycle (sys_ad s') = LcClosed"
    by (cases "ad_lifecycle (sys_ad s')") simp_all
  with inv have q: "quiescent (sys_ad s')" by (simp add: settled_def)
  then have "sys_guards s' = []" "\<And>t. \<not> granted (sys_pc s' t)"
    using held_free [of s'] inv by (auto simp: quiescent_def)
  moreover have "\<not> blocking (sys_pc s' t)" for t
    using counted_registered(2) [of s' t] inv q by (auto simp: quiescent_def)
  ultimately show ?thesis using closed q by (simp add: quiescent_def)
qed

text \<open>
  C22: nothing is left behind: once every thread has returned from \<open>admit\<close> and \<open>drain\<close>, however they
  returned, no registration, waiter or pending admission remains, so an expired waiter never leaves the
  controller blocked.
\<close>

theorem no_registration_leaks:
  assumes "adm_reachable s" and "sys_pc s = (\<lambda>_. Idle)"
  shows "ad_entering (sys_ad s) = [] \<and> ad_waiters (sys_ad s) = 0 \<and> ad_pending (sys_ad s) = 0
    \<and> ad_busy (sys_ad s) = (sys_guards s \<noteq> [])"
proof -
  have inv: "counted s" "held s" using adm_invariant [OF assms(1)] by simp_all
  have "ad_busy (sys_ad s) = (sys_guards s \<noteq> [])"
    using inv(2) assms(2) by (auto simp: held_def split: option.splits)
  with inv(1) assms(2) show ?thesis by (simp add: counted_def)
qed

section \<open>Every waiting thread can leave\<close>

text \<open>
  C21: no thread inside \<open>admit\<close> or \<open>drain\<close> is ever stuck, whatever the others do: in every reachable
  state it has a step of its own, its registration is found when it leaves (the code's \<open>expect\<close> cannot
  fail), and the counters it decrements are positive.
\<close>

theorem no_thread_is_stuck:
  assumes "adm_reachable s" and "sys_pc s t \<noteq> Idle"
  shows "\<exists>s'. adm_step s s' \<and> sys_pc s' t \<noteq> sys_pc s t
    \<and> (registered (sys_pc s t) = (\<forall>b. unregister t b (sys_ad s) \<noteq> None))
    \<and> (blocking (sys_pc s t) \<longrightarrow> 0 < ad_pending (sys_ad s))
    \<and> (waiting (sys_pc s t) \<longrightarrow> 0 < ad_waiters (sys_ad s))"
proof -
  have inv: "counted s" using adm_invariant [OF assms(1)] by simp
  note reg = counted_registered [OF inv, of t]
  have unreg: "registered (sys_pc s t) = (\<forall>b. unregister t b (sys_ad s) \<noteq> None)"
    using reg(1) by (simp add: unregister_None_iff)
  have unreg': "registered (sys_pc s t) \<Longrightarrow> \<exists>st n. unregister t b (sys_ad s) = Some (st, n)" for b
    using unreg by (cases "unregister t b (sys_ad s)") (auto simp del: not_None_eq)
  have ex: "\<exists>s'. adm_step s s' \<and> sys_pc s' t \<noteq> sys_pc s t"
  proof (cases "sys_pc s t")
    case Idle
    with assms(2) show ?thesis by simp
  next
    case (AEntering c)
    let ?ob = "\<lparr>obs_cancelled = False, obs_now = instant_origin\<rparr>"
    show ?thesis
      using adm_step.op_admit [OF AEntering, of ?ob] adm_step.op_refuse [OF AEntering, of ?ob] AEntering
      by (cases "admit c ?ob") force+
  next
    case (ATrying op)
    have "t \<in> set (ad_entering (sys_ad s))" using ATrying reg(1) by simp
    then have "adm_try t (sys_ad s) \<noteq> None"
      by (simp add: adm_try_def unregister_None_iff del: not_None_eq)
    then obtain r where "adm_try t (sys_ad s) = Some r" by auto
    with ATrying adm_step.try_closed [OF ATrying] adm_step.try_granted [OF ATrying]
      adm_step.try_wait [OF ATrying] show ?thesis
      by (cases r) force+
  next
    case (AWaiting op)
    with adm_step.wake [OF AWaiting] show ?thesis by force
  next
    case (AWoken op)
    obtain r op' where "checkpoint op \<lparr>obs_cancelled = False, obs_now = instant_origin\<rparr> = (r, op')"
      by fastforce
    with AWoken adm_step.check_ok [OF AWoken] adm_step.check_fail [OF AWoken] show ?thesis
      by (cases r) force+
  next
    case (ALeaving e)
    with unreg' [of True] adm_step.leave [OF ALeaving] show ?thesis by force
  next
    case (AGranted op)
    let ?ob = "\<lparr>obs_cancelled = False, obs_now = instant_origin\<rparr>"
    show ?thesis
      using adm_step.commit_ok [OF AGranted, of ?ob] adm_step.commit_fail [OF AGranted, of ?ob] AGranted
      by (cases "commit op ?ob ()") force+
  next
    case (DEntering c)
    with adm_step.d_begin [OF DEntering] show ?thesis by force
  next
    case (DClosing c)
    let ?ob = "\<lparr>obs_cancelled = False, obs_now = instant_origin\<rparr>"
    show ?thesis
      using adm_step.d_admit [OF DClosing, of ?ob] adm_step.d_refuse [OF DClosing, of ?ob] DClosing
      by (cases "admit c ?ob") force+
  next
    case (DTrying op)
    with adm_step.d_closed [OF DTrying] adm_step.d_quiet [OF DTrying] adm_step.d_wait [OF DTrying]
    show ?thesis by (cases "drain_look (sys_ad s)") force+
  next
    case (DWaiting op)
    with adm_step.d_wake [OF DWaiting] show ?thesis by force
  next
    case (DWoken op)
    obtain r op' where "checkpoint op \<lparr>obs_cancelled = False, obs_now = instant_origin\<rparr> = (r, op')"
      by fastforce
    with DWoken adm_step.d_check_ok [OF DWoken] adm_step.d_check_fail [OF DWoken] show ?thesis
      by (cases r) force+
  next
    case (DQuiet op)
    let ?ob = "\<lparr>obs_cancelled = False, obs_now = instant_origin\<rparr>"
    show ?thesis
      using adm_step.d_commit_ok [OF DQuiet, of ?ob] adm_step.d_commit_fail [OF DQuiet, of ?ob] DQuiet
      by (cases "commit op ?ob ()") force+
  next
    case DFinal
    with adm_step.d_final [OF DFinal] show ?thesis by force
  next
    case DLeaving
    with unreg' [of False] adm_step.d_leave [OF DLeaving] show ?thesis by force
  qed
  with unreg reg show ?thesis by blast
qed

section \<open>Concrete runs\<close>

definition quiet_observation :: observation where
  "quiet_observation = \<lparr>obs_cancelled = False, obs_now = instant_origin\<rparr>"

lemma quiet_admit: "admit context_new quiet_observation = Inr \<lparr>op_context = context_new, op_terminal = None\<rparr>"
  by (simp add: admit_def context_interruption_def context_new_def quiet_observation_def)

lemma quiet_commit: "commit \<lparr>op_context = context_new, op_terminal = None\<rparr> quiet_observation () = Inr ()"
  by (simp add: commit_def context_interruption_def context_new_def quiet_observation_def)

definition opened :: operation where
  "opened = \<lparr>op_context = context_new, op_terminal = None\<rparr>"

text \<open>Thread 0 enters, is granted the idle controller and receives its guard.\<close>

definition run_entered :: "nat system" where
  "run_entered = moved system_new 0 (AEntering context_new)
     (admission_new\<lparr>ad_entering := [0], ad_pending := 1\<rparr>)"

definition run_guarded :: "nat system" where
  "run_guarded = \<lparr>sys_ad = admission_new\<lparr>ad_busy := True, ad_owner := Some 0\<rparr>,
                  sys_pc = (\<lambda>_. Idle), sys_guards = [0]\<rparr>"

lemma run_entered_reachable: "adm_reachable run_entered"
proof -
  have "adm_step system_new run_entered"
    unfolding run_entered_def
    by (rule adm_step.enter)
       (simp_all add: system_new_def adm_enter_def reentrant_def admission_new_def)
  then show ?thesis by (simp add: adm_reachable_def)
qed

lemma run_guarded_reachable: "adm_reachable run_guarded"
proof -
  let ?entered = "admission_new\<lparr>ad_entering := [0 :: nat], ad_pending := 1\<rparr>"
  let ?busy = "admission_new\<lparr>ad_busy := True, ad_owner := Some (0 :: nat)\<rparr>"
  let ?s1 = "moved run_entered 0 (ATrying opened) ?entered"
  let ?s2 = "moved ?s1 0 (AGranted opened) ?busy"
  have "adm_step run_entered ?s1"
    using adm_step.op_admit [of run_entered 0 context_new quiet_observation opened] quiet_admit
    by (simp add: run_entered_def opened_def)
  moreover have "adm_try 0 ?entered = Some (TryGranted ?busy)"
    by (simp add: adm_try_def admission_new_def unregister_def swap_remove_def)
  then have "adm_step ?s1 ?s2"
    using adm_step.try_granted [of ?s1 0 opened ?busy] by simp
  moreover have "adm_step ?s2 ((moved ?s2 0 Idle ?busy)\<lparr>sys_guards := 0 # sys_guards ?s2\<rparr>)"
    using adm_step.commit_ok [of ?s2 0 opened quiet_observation] quiet_commit by (simp add: opened_def)
  moreover have "(moved ?s2 0 Idle ?busy)\<lparr>sys_guards := 0 # sys_guards ?s2\<rparr> = run_guarded"
    by (simp add: moved_def run_entered_def system_new_def run_guarded_def fun_eq_iff)
  ultimately show ?thesis
    using run_entered_reachable unfolding adm_reachable_def
    by (metis rtranclp.rtrancl_into_rtrancl)
qed

text \<open>Thread 0 drains the idle controller.\<close>

definition run_closed :: "nat system" where
  "run_closed = moved system_new 0 DLeaving (admission_new\<lparr>ad_lifecycle := LcClosed, ad_entering := [0]\<rparr>)"

lemma run_closed_reachable: "adm_reachable run_closed"
proof -
  let ?in = "admission_new\<lparr>ad_entering := [0 :: nat]\<rparr>"
  let ?cl = "admission_new\<lparr>ad_lifecycle := LcClosing, ad_entering := [0 :: nat]\<rparr>"
  let ?s = "\<lambda>p st. moved system_new 0 p st"
  have again: "moved (?s p st) 0 p' st' = ?s p' st'" for p st p' st'
    by (simp add: moved_def)
  have "adm_step system_new (?s (DEntering context_new) ?in)"
    by (rule adm_step.d_enter)
       (simp_all add: system_new_def drain_enter_def reentrant_def admission_new_def)
  moreover have "adm_step (?s (DEntering context_new) ?in) (?s (DClosing context_new) ?cl)"
    using adm_step.d_begin [of "?s (DEntering context_new) ?in" 0 context_new]
    by (simp add: again begin_close_def admission_new_def)
  moreover have "adm_step (?s (DClosing context_new) ?cl) (?s (DTrying opened) ?cl)"
    using adm_step.d_admit [of "?s (DClosing context_new) ?cl" 0 context_new quiet_observation opened]
      quiet_admit by (simp add: again opened_def)
  moreover have "adm_step (?s (DTrying opened) ?cl) (?s (DQuiet opened) ?cl)"
    using adm_step.d_quiet [of "?s (DTrying opened) ?cl" 0 opened]
    by (simp add: again drain_look_def admission_new_def)
  moreover have "adm_step (?s (DQuiet opened) ?cl) (?s DFinal ?cl)"
    using adm_step.d_commit_ok [of "?s (DQuiet opened) ?cl" 0 opened quiet_observation] quiet_commit
    by (simp add: again opened_def)
  moreover have "adm_step (?s DFinal ?cl) run_closed"
    using adm_step.d_final [of "?s DFinal ?cl" 0]
    by (simp add: again drain_finish_def run_closed_def admission_new_def)
  ultimately show ?thesis
    unfolding adm_reachable_def by (meson converse_rtranclp_into_rtranclp rtranclp.rtrancl_refl)
qed

theorem one_guard_at_a_time_witness:
  "length (sys_guards run_guarded) + card {t. granted (sys_pc run_guarded t)} \<le> 1
   \<and> ad_busy (sys_ad run_guarded)"
  using one_guard_at_a_time [OF run_guarded_reachable] by (simp add: run_guarded_def)

theorem closed_is_final_witness:
  "ad_lifecycle (sys_ad run_closed) = LcClosed \<and> sys_guards run_closed = []"
  using closed_is_final [OF run_closed_reachable, of run_closed] by (simp add: run_closed_def)

theorem no_registration_leaks_witness:
  "ad_entering (sys_ad run_guarded) = [] \<and> ad_busy (sys_ad run_guarded)"
  using no_registration_leaks [OF run_guarded_reachable] by (simp add: run_guarded_def)

theorem no_thread_is_stuck_witness:
  "\<exists>s'. adm_step run_entered s' \<and> sys_pc s' 0 \<noteq> AEntering context_new"
  using no_thread_is_stuck [OF run_entered_reachable, of 0] by (auto simp: run_entered_def)

end
