(* ===== verification/Frame.thy ===== *)
theory Frame
  imports Transform Operation
begin

text \<open>
  What a published frame is: the pixel formats and descriptors of
  \<open>crates/automation/capture/src/descriptor.rs\<close>, the faults of \<open>fault.rs\<close>, the CPU storage of
  \<open>storage.rs\<close>, and the immutable frames and views of \<open>frame.rs\<close>.

  A frame's storage is a handle of type \<open>'p\<close>: what it holds is the provider's. \<open>usize\<close> is 64 bits wide, as
  on every target the program supports.
\<close>

section \<open>usize arithmetic\<close>

definition usize_limit :: nat where "usize_limit = 2 ^ 64"

definition usize_add :: "nat \<Rightarrow> nat \<Rightarrow> nat option" where
  "usize_add a b = (if a + b < usize_limit then Some (a + b) else None)"

definition usize_mul :: "nat \<Rightarrow> nat \<Rightarrow> nat option" where
  "usize_mul a b = (if a * b < usize_limit then Some (a * b) else None)"

definition usize_saturating_mul :: "nat \<Rightarrow> nat \<Rightarrow> nat" where
  "usize_saturating_mul a b = min (a * b) (usize_limit - 1)"

definition usize_of_i32 :: "int \<Rightarrow> nat option" where
  "usize_of_i32 i = (if 0 \<le> i then Some (nat i) else None)"

named_theorems usize_simps \<open>when a checked operation on sizes succeeds\<close>

lemma usize_add_Some [usize_simps]: "usize_add a b = Some c \<longleftrightarrow> c = a + b \<and> a + b < usize_limit"
  by (auto simp: usize_add_def)

lemma usize_mul_Some [usize_simps]: "usize_mul a b = Some c \<longleftrightarrow> c = a * b \<and> a * b < usize_limit"
  by (auto simp: usize_mul_def)

lemma usize_of_i32_Some [usize_simps]: "usize_of_i32 i = Some c \<longleftrightarrow> 0 \<le> i \<and> c = nat i"
  by (auto simp: usize_of_i32_def)

section \<open>fault.rs\<close>

datatype capture_fault =
    InconsistentDescriptor
  | ByteLengthMismatch
  | UnsupportedFormat
  | CaptureUnsupportedCoordinate
  | RegionOutsideFrame
  | CaptureForeignTarget
  | CaptureUnknownTarget
  | CaptureTargetLost
  | WindowGeometryChanged
  | SessionClosed
  | UnsupportedOption
  | SourceInvalid
  | ForeignStream
  | StreamEnded
  | AccessDenied
  | CaptureItemClosed
  | DisplayDisconnected
  | DeviceRemoved
  | DeviceReset
  | ExplicitlyStopped
  | StorageBudgetExhausted
  | ResourceLimitExceeded

fun capture_fault_status :: "capture_fault \<Rightarrow> status" where
  "capture_fault_status InconsistentDescriptor = InvalidArgument"
| "capture_fault_status ByteLengthMismatch = InvalidArgument"
| "capture_fault_status RegionOutsideFrame = InvalidArgument"
| "capture_fault_status CaptureForeignTarget = InvalidArgument"
| "capture_fault_status CaptureUnknownTarget = InvalidArgument"
| "capture_fault_status ForeignStream = InvalidArgument"
| "capture_fault_status UnsupportedFormat = Unsupported"
| "capture_fault_status CaptureUnsupportedCoordinate = Unsupported"
| "capture_fault_status UnsupportedOption = Unsupported"
| "capture_fault_status SessionClosed = Closed"
| "capture_fault_status StreamEnded = Closed"
| "capture_fault_status ExplicitlyStopped = Closed"
| "capture_fault_status CaptureTargetLost = TargetLost"
| "capture_fault_status CaptureItemClosed = TargetLost"
| "capture_fault_status DisplayDisconnected = TargetLost"
| "capture_fault_status StorageBudgetExhausted = LimitExceeded"
| "capture_fault_status ResourceLimitExceeded = LimitExceeded"
| "capture_fault_status SourceInvalid = CaptureFailed"
| "capture_fault_status WindowGeometryChanged = CaptureFailed"
| "capture_fault_status AccessDenied = CaptureFailed"
| "capture_fault_status DeviceRemoved = CaptureFailed"
| "capture_fault_status DeviceReset = CaptureFailed"

fun capture_fault_detail :: "capture_fault \<Rightarrow> string" where
  "capture_fault_detail InconsistentDescriptor = ''frame descriptor is internally inconsistent''"
| "capture_fault_detail ByteLengthMismatch = ''pixel bytes do not match the descriptor length''"
| "capture_fault_detail UnsupportedFormat = ''requested pixel format is not supported''"
| "capture_fault_detail CaptureUnsupportedCoordinate =
     ''frame transform does not support the requested coordinate space''"
| "capture_fault_detail RegionOutsideFrame = ''region falls outside its source frame''"
| "capture_fault_detail CaptureForeignTarget = ''target identity was not issued by this provider''"
| "capture_fault_detail CaptureUnknownTarget = ''no such target''"
| "capture_fault_detail CaptureTargetLost = ''target no longer exists''"
| "capture_fault_detail WindowGeometryChanged = ''retained window capture geometry changed''"
| "capture_fault_detail SessionClosed = ''session is closed''"
| "capture_fault_detail UnsupportedOption = ''required capture option is not supported''"
| "capture_fault_detail SourceInvalid = ''configured capture source is invalid''"
| "capture_fault_detail ForeignStream = ''frame stamp belongs to another stream''"
| "capture_fault_detail StreamEnded = ''stream published its final frame''"
| "capture_fault_detail AccessDenied = ''operating system refused capture access''"
| "capture_fault_detail CaptureItemClosed = ''native capture item closed''"
| "capture_fault_detail DisplayDisconnected = ''captured display disconnected''"
| "capture_fault_detail DeviceRemoved = ''native graphics device was removed''"
| "capture_fault_detail DeviceReset = ''native graphics device was reset''"
| "capture_fault_detail ExplicitlyStopped = ''capture was explicitly stopped''"
| "capture_fault_detail StorageBudgetExhausted =
     ''every unit of the session's storage budget is retained by a caller''"
| "capture_fault_detail ResourceLimitExceeded =
     ''native capture resource exceeds its reviewed allocation limit''"

definition capture_error :: "capture_fault \<Rightarrow> error" where
  "capture_error f = mk_error (capture_fault_status f) (capture_fault_detail f)"

section \<open>Pixel formats and descriptors\<close>

datatype pixel_format = Rgba8 | Bgra8

fun bytes_per_pixel :: "pixel_format \<Rightarrow> nat" where
  "bytes_per_pixel Rgba8 = 4"
| "bytes_per_pixel Bgra8 = 4"

fun pixel_format_as_str :: "pixel_format \<Rightarrow> string" where
  "pixel_format_as_str Rgba8 = ''rgba8''"
| "pixel_format_as_str Bgra8 = ''bgra8''"

fun needs_swap :: "pixel_format \<Rightarrow> pixel_format \<Rightarrow> bool" where
  "needs_swap Rgba8 Rgba8 = False"
| "needs_swap Bgra8 Bgra8 = False"
| "needs_swap Rgba8 Bgra8 = True"
| "needs_swap Bgra8 Rgba8 = True"

record frame_descriptor =
  fd_extent :: pixel_extent
  fd_format :: pixel_format
  fd_stride :: nat

text \<open>The product is taken in \<open>u64\<close>, where it cannot overflow; \<open>usize\<close> holds every \<open>u64\<close>.\<close>

definition row_bytes_of :: "u32 \<Rightarrow> pixel_format \<Rightarrow> capture_fault + nat" where
  "row_bytes_of width format =
     (let bytes = unat width * bytes_per_pixel format
      in if bytes < usize_limit then Inr bytes else Inl InconsistentDescriptor)"

definition descriptor_new ::
    "pixel_extent \<Rightarrow> pixel_format \<Rightarrow> nat \<Rightarrow> capture_fault + frame_descriptor" where
  "descriptor_new extent format stride =
     (if extent_is_empty extent then Inl InconsistentDescriptor
      else and_then (row_bytes_of (px_width extent) format) (\<lambda>row.
        if stride < row then Inl InconsistentDescriptor
        else and_then (ok_or InconsistentDescriptor (usize_mul stride (unat (px_height extent)))) (\<lambda>_.
          Inr \<lparr>fd_extent = extent, fd_format = format, fd_stride = stride\<rparr>)))"

definition descriptor_packed :: "pixel_extent \<Rightarrow> pixel_format \<Rightarrow> capture_fault + frame_descriptor" where
  "descriptor_packed extent format =
     and_then (row_bytes_of (px_width extent) format) (\<lambda>stride. descriptor_new extent format stride)"

definition row_bytes :: "frame_descriptor \<Rightarrow> nat" where
  "row_bytes d = (case row_bytes_of (px_width (fd_extent d)) (fd_format d) of Inl _ \<Rightarrow> 0 | Inr n \<Rightarrow> n)"

definition byte_len :: "frame_descriptor \<Rightarrow> nat" where
  "byte_len d = usize_saturating_mul (fd_stride d) (unat (px_height (fd_extent d)))"

section \<open>Coordinate support of a target\<close>

record coordinate_support =
  cs_target_normalized :: bool
  cs_target_logical :: bool
  cs_desktop_logical :: bool

definition support_frame_only :: coordinate_support where
  "support_frame_only =
     \<lparr>cs_target_normalized = False, cs_target_logical = False, cs_desktop_logical = False\<rparr>"

definition support_with_target_extent :: coordinate_support where
  "support_with_target_extent =
     \<lparr>cs_target_normalized = True, cs_target_logical = False, cs_desktop_logical = False\<rparr>"

definition support_with_target_placement :: coordinate_support where
  "support_with_target_placement =
     \<lparr>cs_target_normalized = True, cs_target_logical = True, cs_desktop_logical = True\<rparr>"

fun coordinate_supports :: "coordinate_support \<Rightarrow> coordinate_space \<Rightarrow> bool" where
  "coordinate_supports c CapturePixels = True"
| "coordinate_supports c FrameNormalized = True"
| "coordinate_supports c TargetNormalized = cs_target_normalized c"
| "coordinate_supports c TargetLogical = cs_target_logical c"
| "coordinate_supports c DesktopLogical = cs_desktop_logical c"

section \<open>Storage\<close>

type_synonym bytes = "u8 list"

text \<open>
  Storage backed by CPU bytes. The pixels are immutable and shared by reference, so a value stands for
  every handle to them; the retainer of \<open>with_retainer\<close> only keeps an accounting entry alive.
\<close>

record cpu_frame_storage =
  cst_descriptor :: frame_descriptor
  cst_pixels :: bytes

definition cpu_storage_from_validated :: "frame_descriptor \<Rightarrow> bytes \<Rightarrow> cpu_frame_storage" where
  "cpu_storage_from_validated d px = \<lparr>cst_descriptor = d, cst_pixels = px\<rparr>"

definition cpu_storage_new :: "frame_descriptor \<Rightarrow> bytes \<Rightarrow> capture_fault + cpu_frame_storage" where
  "cpu_storage_new d px =
     (if length px \<noteq> byte_len d then Inl ByteLengthMismatch
      else Inr (cpu_storage_from_validated d px))"

section \<open>Frames\<close>

record 'p frame =
  fr_stamp :: frame_stamp
  fr_captured_at :: instant
  fr_descriptor :: frame_descriptor
  fr_transform :: transform_snapshot
  fr_storage :: 'p

definition frame_validate ::
    "frame_stamp \<Rightarrow> frame_descriptor \<Rightarrow> transform_snapshot \<Rightarrow> capture_fault + unit" where
  "frame_validate stamp d transform =
     (if ts_extent transform \<noteq> fd_extent d then Inl InconsistentDescriptor
      else if ts_geometry transform \<noteq> fs_geometry stamp then Inl InconsistentDescriptor
      else Inr ())"

definition frame_from_validated ::
    "frame_stamp \<Rightarrow> instant \<Rightarrow> frame_descriptor \<Rightarrow> transform_snapshot \<Rightarrow> 'p \<Rightarrow> 'p frame" where
  "frame_from_validated stamp captured d transform storage =
     \<lparr>fr_stamp = stamp, fr_captured_at = captured, fr_descriptor = d, fr_transform = transform,
      fr_storage = storage\<rparr>"

definition frame_new ::
    "frame_stamp \<Rightarrow> instant \<Rightarrow> frame_descriptor \<Rightarrow> transform_snapshot \<Rightarrow> bytes
     \<Rightarrow> capture_fault + cpu_frame_storage frame" where
  "frame_new stamp captured d transform px =
     and_then (frame_validate stamp d transform) (\<lambda>_.
     and_then (cpu_storage_new d px) (\<lambda>storage.
       Inr (frame_from_validated stamp captured d transform storage)))"

text \<open>\<open>descriptor_of\<close> is the storage's own answer.\<close>

definition frame_from_storage ::
    "('p \<Rightarrow> frame_descriptor) \<Rightarrow> frame_stamp \<Rightarrow> instant \<Rightarrow> transform_snapshot \<Rightarrow> 'p
     \<Rightarrow> capture_fault + 'p frame" where
  "frame_from_storage descriptor_of stamp captured transform storage =
     and_then (frame_validate stamp (descriptor_of storage) transform) (\<lambda>_.
       Inr (frame_from_validated stamp captured (descriptor_of storage) transform storage))"

definition bounds :: "'p frame \<Rightarrow> capture_fault + pixel_rect" where
  "bounds f = map_err (\<lambda>_. InconsistentDescriptor) (to_rect (fd_extent (fr_descriptor f)))"

record 'p frame_view =
  fv_frame :: "'p frame"
  fv_region :: pixel_rect

definition view_new :: "'p frame \<Rightarrow> pixel_rect \<Rightarrow> capture_fault + 'p frame_view" where
  "view_new f region =
     and_then (bounds f) (\<lambda>b.
       if pixel_rect_is_empty region \<or> \<not> contains_rect b region then Inl RegionOutsideFrame
       else Inr \<lparr>fv_frame = f, fv_region = region\<rparr>)"

definition view_fault :: "geometry_fault \<Rightarrow> capture_fault" where
  "view_fault f = (case f of ConversionUnsupported \<Rightarrow> CaptureUnsupportedCoordinate | _ \<Rightarrow> RegionOutsideFrame)"

definition frame_view_of :: "'p frame \<Rightarrow> rect \<Rightarrow> clip_policy \<Rightarrow> capture_fault + 'p frame_view" where
  "frame_view_of f region policy =
     and_then (map_err view_fault (resolve_capture_pixels (fr_transform f) region policy)) (view_new f)"

definition full_view :: "'p frame \<Rightarrow> capture_fault + 'p frame_view" where
  "full_view f = and_then (bounds f) (view_new f)"

section \<open>Descriptors\<close>

definition valid_descriptor :: "frame_descriptor \<Rightarrow> bool" where
  "valid_descriptor d \<longleftrightarrow> \<not> extent_is_empty (fd_extent d)
     \<and> unat (px_width (fd_extent d)) * 4 \<le> fd_stride d
     \<and> fd_stride d * unat (px_height (fd_extent d)) < usize_limit"

lemma bytes_per_pixel_4 [simp]: "bytes_per_pixel f = 4"
  by (cases f) simp_all

lemma row_bytes_of_Inr [simp]: "row_bytes_of w f = Inr (unat w * 4)"
proof -
  have "unat w < 2 ^ 32" using unsigned_less [of w] by simp
  then show ?thesis by (simp add: row_bytes_of_def Let_def usize_limit_def)
qed

lemma row_bytes_eq [simp]: "row_bytes d = unat (px_width (fd_extent d)) * 4"
  by (simp add: row_bytes_def)

lemma descriptor_new_Inr:
  "descriptor_new e f s = Inr d \<longleftrightarrow> d = \<lparr>fd_extent = e, fd_format = f, fd_stride = s\<rparr> \<and> valid_descriptor d"
  by (auto simp: descriptor_new_def valid_descriptor_def result_simps usize_simps)

lemma byte_len_valid [simp]:
  "valid_descriptor d \<Longrightarrow> byte_len d = fd_stride d * unat (px_height (fd_extent d))"
  by (simp add: valid_descriptor_def byte_len_def usize_saturating_mul_def usize_limit_def)

lemma u32_product_bound: "unat (w :: u32) * 4 * unat (h :: u32) < usize_limit \<longleftrightarrow> unat w * unat h < 2 ^ 62"
  by (simp add: usize_limit_def mult.commute)

text \<open>
  A packed descriptor exists for every non-empty extent whose byte count is representable and for no
  other; its rows have no padding and its byte length is exactly four bytes per pixel.
\<close>

theorem packed_descriptor_exact:
  "(\<exists>d. descriptor_packed e f = Inr d \<and> fd_extent d = e \<and> fd_format d = f
        \<and> fd_stride d = row_bytes d \<and> byte_len d = 4 * (unat (px_width e) * unat (px_height e)))
     = (px_width e \<noteq> 0 \<and> px_height e \<noteq> 0 \<and> unat (px_width e) * unat (px_height e) < 2 ^ 62)"
  (is "?L = ?R")
proof
  assume ?L
  then show ?R
    by (auto simp: descriptor_packed_def descriptor_new_Inr valid_descriptor_def extent_is_empty_def
          u32_product_bound)
next
  assume r: ?R
  let ?d = "\<lparr>fd_extent = e, fd_format = f, fd_stride = unat (px_width e) * 4\<rparr>"
  have v: "valid_descriptor ?d"
    using r by (simp add: valid_descriptor_def extent_is_empty_def u32_product_bound)
  have "descriptor_packed e f = Inr ?d"
    unfolding descriptor_packed_def by (simp add: descriptor_new_Inr v)
  with v show ?L by simp
qed

section \<open>Views\<close>

lemma bounds_Inr:
  "bounds f = Inr b \<longleftrightarrow> fits_i32 (fd_extent (fr_descriptor f)) \<and> b = frame_rect (fd_extent (fr_descriptor f))"
  by (auto simp: bounds_def to_rect_eq result_simps)

lemma resolve_against_in_bounds:
  assumes "valid_pixel_rect r" "resolve_against r e policy = Inr q"
  shows "fits_i32 e \<and> valid_pixel_rect q \<and> \<not> pixel_rect_is_empty q \<and> contains_rect (frame_rect e) q"
proof -
  have fits: "fits_i32 e" using assms(2) by (auto simp: resolve_against_def to_rect_eq result_simps split: if_splits)
  note facts = resolve_against_facts [OF assms(1) fits assms(2)]
  then have "pixels q \<subseteq> pixels (frame_rect e)" by auto
  with facts fits show ?thesis by (simp add: pixel_rect_is_empty_iff contains_rect_iff)
qed

lemma resolve_capture_pixels_in_bounds:
  assumes "resolve_capture_pixels s r policy = Inr q"
  shows "fits_i32 (ts_extent s) \<and> valid_pixel_rect q \<and> \<not> pixel_rect_is_empty q
         \<and> contains_rect (frame_rect (ts_extent s)) q"
proof -
  show ?thesis
  proof (rule resolve_capture_pixels_Inr [OF assms])
    fix l t b e lf tf bf ef
    assume o: "lf \<le> bf" "tf \<le> ef" "in_i32 lf" "in_i32 tf" "in_i32 bf" "in_i32 ef"
      and res: "resolve_against \<lparr>pr_left = lf, pr_top = tf, pr_right = bf, pr_bottom = ef\<rparr>
                  (ts_extent s) policy = Inr q"
    have "valid_pixel_rect \<lparr>pr_left = lf, pr_top = tf, pr_right = bf, pr_bottom = ef\<rparr>"
      using o by (simp add: valid_pixel_rect_def)
    from resolve_against_in_bounds [OF this res] show ?thesis .
  qed
qed

text \<open>
  A view taken over a validated frame never fails the second bounds check: whatever region and policy,
  a region that resolves against the frame's transform gives a view of exactly the resolved pixels, which
  lie inside the frame, and the only faults are the coordinate and the region ones.
\<close>

theorem view_never_leaves_frame:
  assumes "frame_validate (fr_stamp f) (fr_descriptor f) (fr_transform f) = Inr ()"
  shows "frame_view_of f region policy =
           (case resolve_capture_pixels (fr_transform f) region policy of
              Inl ConversionUnsupported \<Rightarrow> Inl CaptureUnsupportedCoordinate
            | Inl _ \<Rightarrow> Inl RegionOutsideFrame
            | Inr q \<Rightarrow> Inr \<lparr>fv_frame = f, fv_region = q\<rparr>)
       \<and> (frame_view_of f region policy = Inr v \<longrightarrow>
            contains_rect (frame_rect (fd_extent (fr_descriptor f))) (fv_region v)
            \<and> pixels (fv_region v) \<noteq> {})"
proof (cases "resolve_capture_pixels (fr_transform f) region policy")
  case (Inl fault)
  then show ?thesis by (cases fault) (simp_all add: frame_view_of_def view_fault_def)
next
  case (Inr q)
  have "ts_extent (fr_transform f) = fd_extent (fr_descriptor f)"
    using assms by (simp add: frame_validate_def split: if_splits)
  with resolve_capture_pixels_in_bounds [OF Inr]
  have b: "bounds f = Inr (frame_rect (fd_extent (fr_descriptor f)))"
    and q: "\<not> pixel_rect_is_empty q" "contains_rect (frame_rect (fd_extent (fr_descriptor f))) q"
      "pixels q \<noteq> {}"
    by (auto simp: bounds_Inr dest: pixel_rect_is_empty_iff)
  have "frame_view_of f region policy = Inr \<lparr>fv_frame = f, fv_region = q\<rparr>"
    using q(1,2) by (simp add: frame_view_of_def view_new_def Inr b)
  with Inr q show ?thesis by auto
qed

definition small_frame :: "unit frame" where
  "small_frame = \<lparr>fr_stamp = stamp_new \<lparr>str_engine = EngineId 1, str_ordinal = 1\<rparr> epoch_first sequence_first
                               revision_first,
                   fr_captured_at = instant_origin,
                   fr_descriptor = \<lparr>fd_extent = \<lparr>px_width = 10, px_height = 8\<rparr>, fd_format = Rgba8, fd_stride = 40\<rparr>,
                   fr_transform = frame_only revision_first \<lparr>px_width = 10, px_height = 8\<rparr>,
                   fr_storage = ()\<rparr>"

theorem view_never_leaves_frame_witness:
  "frame_view_of small_frame
     \<lparr>rc_space = TargetLogical, rc_left = Fin 0, rc_top = Fin 0, rc_right = Fin 1, rc_bottom = Fin 1\<rparr> Reject
   = Inl CaptureUnsupportedCoordinate"
proof -
  have v: "frame_validate (fr_stamp small_frame) (fr_descriptor small_frame) (fr_transform small_frame) = Inr ()"
    by (simp add: frame_validate_def small_frame_def frame_only_def stamp_new_def)
  have r: "resolve_capture_pixels (fr_transform small_frame)
      \<lparr>rc_space = TargetLogical, rc_left = Fin 0, rc_top = Fin 0, rc_right = Fin 1, rc_bottom = Fin 1\<rparr> Reject
      = Inl ConversionUnsupported"
    by (simp add: resolve_capture_pixels_def project_to_pixels_def small_frame_def frame_only_def)
  show ?thesis
    using conjunct1 [OF view_never_leaves_frame [OF v, of
      "\<lparr>rc_space = TargetLogical, rc_left = Fin 0, rc_top = Fin 0, rc_right = Fin 1, rc_bottom = Fin 1\<rparr>"
      Reject]] r
    by simp
qed

end
