(* ===== verification/CaptureStream.thy ===== *)
theory CaptureStream
  imports Frame
begin

text \<open>
  The publication state of a capture stream, \<open>crates/automation/capture/src/stream.rs\<close>: what decides a
  frame's identity, the accounting of dropped candidates, waits for a frame, the terminal fault, close and
  drain.

  The state under the mutex is the record \<open>inner\<close>; the three atomics beside it are fields of
  \<open>stream_state\<close>. Every section the code runs under the mutex is one function. A publication holds the
  mutex from its rules to its commit, while the lock-free drops go on; the step relation of theory
  \<open>StreamSystem\<close> interleaves them. Storage is a handle of type \<open>'p\<close>.
\<close>

section \<open>Publications and requests\<close>

datatype continuity = Continuous | GeometryChanged | Discontinuous

record publication =
  pb_captured_at :: instant
  pb_descriptor :: frame_descriptor
  pb_placement :: "target_placement option"
  pb_pixels :: bytes
  pb_continuity :: continuity

record 'p storage_publication =
  sp_captured_at :: instant
  sp_placement :: "target_placement option"
  sp_storage :: 'p
  sp_continuity :: continuity

datatype frame_selection = Latest | NewerThan frame_stamp

record frame_request =
  frq_selection :: frame_selection

definition request_latest :: frame_request where
  "request_latest = \<lparr>frq_selection = Latest\<rparr>"

definition request_newer_than :: "frame_stamp \<Rightarrow> frame_request" where
  "request_newer_than stamp = \<lparr>frq_selection = NewerThan stamp\<rparr>"

section \<open>The state\<close>

record 'p inner =
  in_cursor :: stream_cursor
  in_geometry :: geometry_revision
  in_latest :: "'p frame option"
  in_lifecycle :: lifecycle
  in_waiters :: nat
  in_terminal :: "capture_fault option"

record 'p stream_state =
  st_inner :: "'p inner"
  st_covers_target :: bool
  st_pending_drops :: u64
  st_published_any :: bool
  st_accepting_drops :: bool

definition stream_build :: "stream_id \<Rightarrow> bool \<Rightarrow> 'p stream_state" where
  "stream_build stream covers_target =
     \<lparr>st_inner = \<lparr>in_cursor = cursor_new stream, in_geometry = revision_first, in_latest = None,
                  in_lifecycle = LcOpen, in_waiters = 0, in_terminal = None\<rparr>,
      st_covers_target = covers_target, st_pending_drops = 0, st_published_any = False,
      st_accepting_drops = True\<rparr>"

definition stream_new :: "stream_id \<Rightarrow> 'p stream_state" where
  "stream_new stream = stream_build stream False"

definition stream_with_target_extent :: "stream_id \<Rightarrow> 'p stream_state" where
  "stream_with_target_extent stream = stream_build stream True"

section \<open>The rules of a publication\<close>

record prepared =
  pp_cursor :: stream_cursor
  pp_geometry :: geometry_revision
  pp_stamp :: frame_stamp
  pp_transform :: transform_snapshot
  pp_consumed :: u64

text \<open>The continuity the stream enforces, whatever the adapter declared.\<close>

definition resolved_continuity ::
    "'p frame option \<Rightarrow> frame_descriptor \<Rightarrow> target_placement option \<Rightarrow> continuity \<Rightarrow> continuity" where
  "resolved_continuity current d plc declared =
     (let reshaped = (case current of
                        None \<Rightarrow> False
                      | Some f \<Rightarrow> fd_extent (fr_descriptor f) \<noteq> fd_extent d
                                  \<or> fd_format (fr_descriptor f) \<noteq> fd_format d);
          replaced_transform = (case current of
                        None \<Rightarrow> False
                      | Some f \<Rightarrow> \<not> same_placement (ts_target (fr_transform f)) plc)
      in if reshaped then Discontinuous
         else if replaced_transform \<and> declared = Continuous then GeometryChanged
         else declared)"

definition next_geometry :: "geometry_revision \<Rightarrow> continuity \<Rightarrow> error + geometry_revision" where
  "next_geometry g continuity =
     (if continuity \<noteq> Continuous
      then ok_or (mk_error LimitExceeded ''geometry revisions exhausted'') (revision_next g)
      else Inr g)"

text \<open>The cursor after a new epoch or the skipped drops, and how many drops the frame makes visible.\<close>

definition advance_cursor ::
    "stream_cursor \<Rightarrow> 'p frame option \<Rightarrow> continuity \<Rightarrow> u64 \<Rightarrow> error + stream_cursor \<times> u64" where
  "advance_cursor cursor current continuity pending_drops =
     (if continuity = Discontinuous \<and> current \<noteq> None
      then and_then (map_err identity_error (cursor_begin_epoch cursor)) (\<lambda>(_, cursor). Inr (cursor, 0))
      else if current \<noteq> None
      then and_then (map_err identity_error (cursor_skip cursor pending_drops)) (\<lambda>cursor. Inr (cursor, pending_drops))
      else Inr (cursor, 0))"

definition snapshot_for ::
    "geometry_revision \<Rightarrow> pixel_extent \<Rightarrow> target_placement option \<Rightarrow> bool \<Rightarrow> capture_fault + transform_snapshot" where
  "snapshot_for g e plc covers_target =
     (case plc of
        Some p \<Rightarrow> map_err (\<lambda>_. InconsistentDescriptor) (with_target g e p)
      | None \<Rightarrow> Inr (if covers_target then with_target_extent g e else frame_only g e))"

definition prepare ::
    "'p inner \<Rightarrow> bool \<Rightarrow> frame_descriptor \<Rightarrow> target_placement option \<Rightarrow> continuity \<Rightarrow> nat option \<Rightarrow> u64
     \<Rightarrow> error + prepared" where
  "prepare st covers_target d plc declared pixel_len pending_drops =
     (case in_terminal st of
        Some terminal \<Rightarrow> Inl (capture_error terminal)
      | None \<Rightarrow>
          if in_lifecycle st \<noteq> LcOpen then Inl (capture_error SessionClosed)
          else if (case pixel_len of None \<Rightarrow> False | Some len \<Rightarrow> len \<noteq> byte_len d)
          then Inl (capture_error ByteLengthMismatch)
          else
            (let continuity = resolved_continuity (in_latest st) d plc declared
             in and_then (next_geometry (in_geometry st) continuity) (\<lambda>geometry.
                and_then (advance_cursor (in_cursor st) (in_latest st) continuity pending_drops) (\<lambda>(cursor, consumed).
                and_then (map_err identity_error (cursor_publish cursor geometry)) (\<lambda>(stamp, cursor).
                and_then (map_err capture_error (snapshot_for geometry (fd_extent d) plc covers_target)) (\<lambda>transform.
                and_then (map_err capture_error (frame_validate stamp d transform)) (\<lambda>_.
                  Inr \<lparr>pp_cursor = cursor, pp_geometry = geometry, pp_stamp = stamp,
                       pp_transform = transform, pp_consumed = consumed\<rparr>)))))))"

definition prepared_frame :: "prepared \<Rightarrow> instant \<Rightarrow> frame_descriptor \<Rightarrow> 'p \<Rightarrow> 'p frame" where
  "prepared_frame p captured d storage =
     frame_from_validated (pp_stamp p) captured d (pp_transform p) storage"

definition install :: "prepared \<Rightarrow> 'p frame \<Rightarrow> 'p inner \<Rightarrow> 'p inner" where
  "install p f st =
     st\<lparr>in_cursor := pp_cursor p, in_geometry := pp_geometry p, in_latest := Some f\<rparr>"

definition commit_with ::
    "'p stream_state \<Rightarrow> prepared \<Rightarrow> 'p frame \<Rightarrow> 'p stream_state" where
  "commit_with s p f =
     s\<lparr>st_inner := install p f (st_inner s),
       st_pending_drops := (if pp_consumed p > 0 then st_pending_drops s - pp_consumed p else st_pending_drops s),
       st_published_any := True\<rparr>"

text \<open>
  A refusal hands the publication back. \<open>hook\<close> is the adapter's \<open>before_observe\<close>, which records what it
  likes in a world of its own before the frame can be observed.
\<close>

definition publish_storage_with ::
    "('p \<Rightarrow> frame_descriptor) \<Rightarrow> ('p frame \<Rightarrow> 'w \<Rightarrow> 'w) \<Rightarrow> 'p storage_publication \<Rightarrow> 'p stream_state \<Rightarrow> 'w
     \<Rightarrow> (error \<times> 'p storage_publication + 'p frame) \<times> 'p stream_state \<times> 'w" where
  "publish_storage_with descriptor_of hook pub s w =
     (let d = descriptor_of (sp_storage pub)
      in case prepare (st_inner s) (st_covers_target s) d (sp_placement pub) (sp_continuity pub) None
                (st_pending_drops s) of
           Inl e \<Rightarrow> (Inl (e, pub), s, w)
         | Inr p \<Rightarrow>
             (let f = prepared_frame p (sp_captured_at pub) d (sp_storage pub)
              in (Inr f, commit_with s p f, hook f w)))"

definition publish_storage ::
    "('p \<Rightarrow> frame_descriptor) \<Rightarrow> 'p storage_publication \<Rightarrow> 'p stream_state
     \<Rightarrow> (error \<times> 'p storage_publication + 'p frame) \<times> 'p stream_state" where
  "publish_storage descriptor_of pub s =
     (case publish_storage_with descriptor_of (\<lambda>_ w. w) pub s () of (r, s, _) \<Rightarrow> (r, s))"

text \<open>\<open>wrap\<close> makes a storage handle of the CPU storage.\<close>

definition publish_recoverable ::
    "(cpu_frame_storage \<Rightarrow> 'p) \<Rightarrow> publication \<Rightarrow> 'p stream_state
     \<Rightarrow> (error \<times> publication + 'p frame) \<times> 'p stream_state" where
  "publish_recoverable wrap pub s =
     (case prepare (st_inner s) (st_covers_target s) (pb_descriptor pub) (pb_placement pub) (pb_continuity pub)
             (Some (length (pb_pixels pub))) (st_pending_drops s) of
        Inl e \<Rightarrow> (Inl (e, pub), s)
      | Inr p \<Rightarrow>
          (let f = prepared_frame p (pb_captured_at pub) (pb_descriptor pub)
                     (wrap (cpu_storage_from_validated (pb_descriptor pub) (pb_pixels pub)))
           in (Inr f, commit_with s p f)))"

definition publish ::
    "(cpu_frame_storage \<Rightarrow> 'p) \<Rightarrow> publication \<Rightarrow> 'p stream_state \<Rightarrow> (error + 'p frame) \<times> 'p stream_state" where
  "publish wrap pub s = (case publish_recoverable wrap pub s of (r, s) \<Rightarrow> (map_err fst r, s))"

section \<open>Dropped candidates\<close>

definition drops_exhausted :: error where
  "drops_exhausted = mk_error LimitExceeded ''pending frame drops exhausted''"

definition count_drop :: "'p stream_state \<Rightarrow> (error + bool) \<times> 'p stream_state" where
  "count_drop s =
     (case checked_add (st_pending_drops s) 1 of
        None \<Rightarrow> (Inl drops_exhausted, s)
      | Some v \<Rightarrow> (Inr True, s\<lparr>st_pending_drops := v\<rparr>))"

definition try_record_drop :: "'p stream_state \<Rightarrow> (error + bool) \<times> 'p stream_state" where
  "try_record_drop s =
     (if \<not> st_accepting_drops s then (Inl (capture_error SessionClosed), s)
      else if \<not> st_published_any s then (Inr False, s)
      else count_drop s)"

section \<open>Waiting for a frame\<close>

definition qualifying :: "'p inner \<Rightarrow> frame_request \<Rightarrow> error + 'p frame option" where
  "qualifying st r =
     (case in_latest st of
        None \<Rightarrow> Inr None
      | Some current \<Rightarrow>
          (case frq_selection r of
             Latest \<Rightarrow> Inr (Some current)
           | NewerThan stamp \<Rightarrow>
               (case stamp_order (fr_stamp current) stamp of
                  Inr After \<Rightarrow> Inr (Some current)
                | Inr _ \<Rightarrow> Inr None
                | Inl _ \<Rightarrow> Inl (capture_error ForeignStream))))"

text \<open>One round of the loop of \<open>frame\<close> under the mutex.\<close>

datatype 'p frame_look = LookError error | LookCandidate "'p frame" | LookWait "'p inner"

definition frame_look :: "'p inner \<Rightarrow> frame_request \<Rightarrow> 'p frame_look" where
  "frame_look st r =
     (case in_terminal st of
        Some terminal \<Rightarrow> LookError (capture_error terminal)
      | None \<Rightarrow>
          if in_lifecycle st \<noteq> LcOpen then LookError (capture_error SessionClosed)
          else (case qualifying st r of
                  Inl e \<Rightarrow> LookError e
                | Inr (Some f) \<Rightarrow> LookCandidate f
                | Inr None \<Rightarrow> LookWait (st\<lparr>in_waiters := in_waiters st + 1\<rparr>)))"

definition frame_wake :: "'p inner \<Rightarrow> 'p inner" where
  "frame_wake st = st\<lparr>in_waiters := in_waiters st - 1\<rparr>"

definition commit_frame_after_operation :: "'p inner \<Rightarrow> 'p frame \<Rightarrow> error + unit" where
  "commit_frame_after_operation st f =
     (if fs_stream (fr_stamp f) \<noteq> cur_stream (in_cursor st) then Inl (capture_error ForeignStream)
      else (case in_terminal st of
              Some terminal \<Rightarrow> Inl (capture_error terminal)
            | None \<Rightarrow> if in_lifecycle st \<noteq> LcOpen then Inl (capture_error SessionClosed) else Inr ()))"

text \<open>\<open>first\<close> and \<open>final\<close> are the looks of the admission and of the commit.\<close>

definition commit_frame ::
    "operation_context \<Rightarrow> observation \<Rightarrow> observation \<Rightarrow> 'p inner \<Rightarrow> 'p frame \<Rightarrow> error + unit" where
  "commit_frame c first final st f =
     and_then (map_err interruption_error (and_then (admit c first) (\<lambda>op. commit op final ())))
       (\<lambda>_. commit_frame_after_operation st f)"

section \<open>The end of a stream\<close>

definition stop_drops :: "'p stream_state \<Rightarrow> 'p stream_state" where
  "stop_drops s = s\<lparr>st_accepting_drops := False\<rparr>"

definition terminate_section :: "capture_fault \<Rightarrow> 'p inner \<Rightarrow> 'p inner" where
  "terminate_section fault st =
     (let st = (if in_lifecycle st \<noteq> LcClosed \<and> in_terminal st = None
                then st\<lparr>in_terminal := Some fault\<rparr> else st)
      in if in_lifecycle st = LcOpen then st\<lparr>in_lifecycle := LcClosing\<rparr> else st)"

definition terminate :: "capture_fault \<Rightarrow> 'p stream_state \<Rightarrow> 'p stream_state" where
  "terminate fault s = (let s = stop_drops s in s\<lparr>st_inner := terminate_section fault (st_inner s)\<rparr>)"

definition stream_close_section :: "'p inner \<Rightarrow> 'p inner" where
  "stream_close_section st = (if in_lifecycle st = LcOpen then st\<lparr>in_lifecycle := LcClosing\<rparr> else st)"

definition stream_begin_close :: "'p stream_state \<Rightarrow> 'p stream_state" where
  "stream_begin_close s = (let s = stop_drops s in s\<lparr>st_inner := stream_close_section (st_inner s)\<rparr>)"

datatype stream_drain_view = StreamClosed | StreamQuiet | StreamBusy

definition stream_drain_look :: "'p inner \<Rightarrow> stream_drain_view" where
  "stream_drain_look st =
     (if in_lifecycle st = LcClosed then StreamClosed
      else if in_waiters st = 0 then StreamQuiet
      else StreamBusy)"

text \<open>The final section; \<open>None\<close> is a failed debug assertion.\<close>

definition stream_drain_finish :: "'p inner \<Rightarrow> 'p inner option" where
  "stream_drain_finish st =
     (if in_lifecycle st \<noteq> LcClosed
      then if in_lifecycle st = LcClosing \<and> in_waiters st = 0
           then Some (st\<lparr>in_lifecycle := LcClosed, in_latest := None\<rparr>) else None
      else Some st)"

section \<open>What a prepared publication is\<close>

lemma revision_next_Some:
  "revision_next g = Some h \<Longrightarrow> unat (revision_value h) = Suc (unat (revision_value g))"
  by (cases g) (auto dest!: checked_add_Some_unat)

lemma next_geometry_Inr:
  "next_geometry g c = Inr h \<longleftrightarrow> (if c = Continuous then h = g else revision_next g = Some h)"
  by (auto simp: next_geometry_def result_simps)

lemma cursor_skip_Inr:
  assumes "cursor_skip c n = Inr c'"
  shows "cur_epoch c' = cur_epoch c" "cur_stream c' = cur_stream c"
  using assms by (auto simp: cursor_skip_def result_simps split: if_splits)

lemma snapshot_for_Inr:
  assumes "snapshot_for g e plc cov = Inr t"
  shows "ts_geometry t = g" "ts_extent t = e" "ts_target t = plc"
    "ts_covers_target t = (plc \<noteq> None \<or> cov)"
  using assms
  by (auto simp: snapshot_for_def with_target_def with_target_extent_def frame_only_def result_simps
      split: option.splits if_splits)

text \<open>The transform of a frame of a stream is fixed by its revision, extent and placement.\<close>

definition stream_transform :: "bool \<Rightarrow> 'p frame \<Rightarrow> bool" where
  "stream_transform cov f \<longleftrightarrow> ts_geometry (fr_transform f) = fs_geometry (fr_stamp f)
     \<and> ts_extent (fr_transform f) = fd_extent (fr_descriptor f)
     \<and> ts_covers_target (fr_transform f) = (ts_target (fr_transform f) \<noteq> None \<or> cov)"

definition revision_nat :: "'p frame \<Rightarrow> nat" where
  "revision_nat f = unat (revision_value (fs_geometry (fr_stamp f)))"

definition epoch_nat :: "'p frame \<Rightarrow> nat" where
  "epoch_nat f = unat (epoch_value (fs_epoch (fr_stamp f)))"

definition sequence_nat :: "'p frame \<Rightarrow> nat" where
  "sequence_nat f = unat (sequence_value (fs_sequence (fr_stamp f)))"

lemma stamp_position_nat: "stamp_position (fr_stamp f) = epoch_nat f * 2 ^ 64 + sequence_nat f"
  by (simp add: stamp_position_def epoch_nat_def sequence_nat_def)

text \<open>How the next published frame relates to the one before it.\<close>

definition follows :: "'p frame \<Rightarrow> 'p frame \<Rightarrow> bool" where
  "follows old new \<longleftrightarrow>
     fs_stream (fr_stamp new) = fs_stream (fr_stamp old)
     \<and> (epoch_nat new = epoch_nat old \<and> sequence_nat old < sequence_nat new
         \<and> fd_extent (fr_descriptor new) = fd_extent (fr_descriptor old)
         \<and> fd_format (fr_descriptor new) = fd_format (fr_descriptor old)
        \<or> epoch_nat new = Suc (epoch_nat old) \<and> sequence_nat new = 0 \<and> revision_nat old < revision_nat new)
     \<and> (revision_nat new = revision_nat old \<and> fr_transform new = fr_transform old
        \<or> revision_nat new = Suc (revision_nat old))"

text \<open>The cursor and the revision counter stand right behind the current frame.\<close>

definition stands_behind :: "'p inner \<Rightarrow> 'p frame \<Rightarrow> bool" where
  "stands_behind st f \<longleftrightarrow>
     cur_epoch (in_cursor st) = fs_epoch (fr_stamp f) \<and> cur_stream (in_cursor st) = fs_stream (fr_stamp f)
     \<and> cursor_mark (in_cursor st) = Suc (stamp_position (fr_stamp f))
     \<and> in_geometry st = fs_geometry (fr_stamp f)"

lemma prepare_parts:
  assumes "prepare st cov d plc declared len pending = Inr p"
  obtains continuity cursor where
    "in_terminal st = None" "in_lifecycle st = LcOpen"
    "continuity = resolved_continuity (in_latest st) d plc declared"
    "next_geometry (in_geometry st) continuity = Inr (pp_geometry p)"
    "advance_cursor (in_cursor st) (in_latest st) continuity pending = Inr (cursor, pp_consumed p)"
    "cursor_publish cursor (pp_geometry p) = Inr (pp_stamp p, pp_cursor p)"
    "snapshot_for (pp_geometry p) (fd_extent d) plc cov = Inr (pp_transform p)"
    "case len of None \<Rightarrow> True | Some n \<Rightarrow> n = byte_len d"
  using assms
  by (auto simp: prepare_def Let_def result_simps split: option.splits if_splits prod.splits)

text \<open>Only the drop counter decides whether the frame validates: the stream's own frames always do.\<close>

lemma prepare_never_inconsistent:
  assumes "snapshot_for g (fd_extent d) plc cov = Inr t" "cursor_publish cursor g = Inr (stamp, cursor')"
  shows "frame_validate stamp d t = Inr ()"
  using snapshot_for_Inr(1,2) [OF assms(1)] cursor_publish_Inr(7) [OF assms(2)]
  by (simp add: frame_validate_def)

lemma prepared_stands_behind:
  assumes "prepare st cov d plc declared len pending = Inr p"
  shows "stands_behind (install p (prepared_frame p captured d storage) st) (prepared_frame p captured d storage)"
    "stream_transform cov (prepared_frame p captured d storage)"
  using assms
proof -
  from assms obtain continuity cursor where
    c: "cursor_publish cursor (pp_geometry p) = Inr (pp_stamp p, pp_cursor p)"
    and s: "snapshot_for (pp_geometry p) (fd_extent d) plc cov = Inr (pp_transform p)"
    by (rule prepare_parts)
  note c' = cursor_publish_Inr [OF c] and s' = snapshot_for_Inr [OF s]
  show "stands_behind (install p (prepared_frame p captured d storage) st) (prepared_frame p captured d storage)"
    using c' by (simp add: stands_behind_def install_def prepared_frame_def frame_from_validated_def)
  show "stream_transform cov (prepared_frame p captured d storage)"
    using c' s' by (simp add: stream_transform_def prepared_frame_def frame_from_validated_def)
qed


lemma advance_cursor_same_epoch:
  assumes "advance_cursor cursor (Some f) continuity v = Inr (c', consumed)" "continuity \<noteq> Discontinuous"
  shows "cur_epoch c' = cur_epoch cursor" "cur_stream c' = cur_stream cursor"
    "cursor_mark c' = cursor_mark cursor + unat v" "consumed = v"
  using assms cursor_skip_Inr [of cursor v c'] cursor_skip_mark [of cursor v c']
  by (auto simp: advance_cursor_def result_simps)

lemma advance_cursor_new_epoch:
  assumes "advance_cursor cursor (Some f) Discontinuous v = Inr (c', consumed)"
  shows "unat (epoch_value (cur_epoch c')) = Suc (unat (epoch_value (cur_epoch cursor)))"
    "cur_stream c' = cur_stream cursor" "cur_next_sequence c' = Some 0" "consumed = 0"
  using assms
  by (auto simp: advance_cursor_def result_simps dest: cursor_begin_epoch_Inr)

lemma advance_cursor_first:
  "advance_cursor cursor None continuity v = Inr (c', consumed) \<longleftrightarrow> c' = cursor \<and> consumed = 0"
  by (auto simp: advance_cursor_def)

lemma resolved_not_discontinuous:
  assumes "resolved_continuity (Some f) d plc declared \<noteq> Discontinuous"
  shows "fd_extent d = fd_extent (fr_descriptor f)" "fd_format d = fd_format (fr_descriptor f)"
  using assms by (auto simp: resolved_continuity_def Let_def split: if_splits)

lemma resolved_continuous:
  assumes "resolved_continuity (Some f) d plc declared = Continuous"
  shows "ts_target (fr_transform f) = plc"
  using assms by (auto simp: resolved_continuity_def Let_def same_placement_eq split: if_splits)

lemma stamp_sequence_of_mark:
  assumes "cursor_publish c g = Inr (stamp, c')" "cur_next_sequence c = Some n"
  shows "sequence_value (fs_sequence stamp) = n"
  using assms by (auto simp: cursor_publish_def stamp_new_def)

lemma prepared_follows:
  assumes prep: "prepare st cov d plc declared len pending = Inr p"
    and cur: "in_latest st = Some f" "stands_behind st f" "stream_transform cov f"
    and new_def: "new = prepared_frame p captured d storage"
  shows "follows f new
     \<and> (epoch_nat new = epoch_nat f \<and> sequence_nat new = Suc (sequence_nat f) + unat (pp_consumed p)
          \<and> pp_consumed p = pending
        \<or> epoch_nat new = Suc (epoch_nat f) \<and> pp_consumed p = 0)"
proof -
  from prep obtain continuity cursor where
    k: "continuity = resolved_continuity (Some f) d plc declared"
    and g: "next_geometry (in_geometry st) continuity = Inr (pp_geometry p)"
    and a: "advance_cursor (in_cursor st) (Some f) continuity pending = Inr (cursor, pp_consumed p)"
    and c: "cursor_publish cursor (pp_geometry p) = Inr (pp_stamp p, pp_cursor p)"
    and s: "snapshot_for (pp_geometry p) (fd_extent d) plc cov = Inr (pp_transform p)"
    unfolding cur(1) [symmetric] by (rule prepare_parts)
  note c' = cursor_publish_Inr [OF c] and s' = snapshot_for_Inr [OF s]
  have new: "fr_stamp new = pp_stamp p" "fr_descriptor new = d" "fr_transform new = pp_transform p"
    by (simp_all add: new_def prepared_frame_def frame_from_validated_def)
  note behind = cur(2) [unfolded stands_behind_def]
  have rev_step: "revision_nat new = Suc (revision_nat f)" if "continuity \<noteq> Continuous"
  proof -
    have "revision_next (fs_geometry (fr_stamp f)) = Some (fs_geometry (pp_stamp p))"
      using g that behind c'(7) by (simp add: next_geometry_Inr)
    then show ?thesis by (simp add: revision_nat_def new revision_next_Some)
  qed
  show ?thesis
  proof (cases "continuity = Discontinuous")
    case True
    note a' = advance_cursor_new_epoch [OF a [unfolded True]]
    have "epoch_nat new = Suc (epoch_nat f)" "fs_stream (fr_stamp new) = fs_stream (fr_stamp f)"
      using a' c' behind by (simp_all add: epoch_nat_def new)
    moreover have "sequence_nat new = 0"
      using stamp_sequence_of_mark [OF c a'(3)] by (simp add: sequence_nat_def new)
    ultimately show ?thesis using rev_step True a'(4) by (simp add: follows_def)
  next
    case False
    note a' = advance_cursor_same_epoch [OF a False]
    note same = resolved_not_discontinuous [OF False [unfolded k]]
    have ep: "epoch_nat new = epoch_nat f" and st: "fs_stream (fr_stamp new) = fs_stream (fr_stamp f)"
      using a' c' behind by (simp_all add: epoch_nat_def new)
    have "stamp_position (fr_stamp new) = Suc (stamp_position (fr_stamp f)) + unat pending"
      using a'(3) c'(2) behind by (simp add: new)
    then have sq: "sequence_nat new = Suc (sequence_nat f) + unat pending"
      using ep by (simp add: stamp_position_nat)
    have "revision_nat new = revision_nat f \<and> fr_transform new = fr_transform f
          \<or> revision_nat new = Suc (revision_nat f)"
    proof (cases "continuity = Continuous")
      case True
      then have eq: "fs_geometry (fr_stamp new) = fs_geometry (fr_stamp f)"
        using g behind c'(7) by (simp add: next_geometry_Inr new)
      have "ts_target (fr_transform f) = plc" using resolved_continuous [OF True [unfolded k]] .
      with eq s' c'(7) same cur(3) have "fr_transform new = fr_transform f"
        by (intro transform_snapshot.equality) (simp_all add: new stream_transform_def)
      with eq show ?thesis by (simp add: revision_nat_def)
    qed (use rev_step in simp)
    with ep st sq same a'(4) show ?thesis by (simp add: follows_def new)
  qed
qed

lemma prepared_first:
  assumes prep: "prepare st cov d plc declared len pending = Inr p" and "in_latest st = None"
  shows "fs_stream (pp_stamp p) = cur_stream (in_cursor st)" "pp_consumed p = 0"
    "stamp_position (pp_stamp p) = cursor_mark (in_cursor st)"
proof -
  from prep obtain continuity cursor where
    a: "advance_cursor (in_cursor st) (in_latest st) continuity pending = Inr (cursor, pp_consumed p)"
    and c: "cursor_publish cursor (pp_geometry p) = Inr (pp_stamp p, pp_cursor p)"
    by (rule prepare_parts)
  from a have "cursor = in_cursor st" "pp_consumed p = 0"
    unfolding assms(2) by (simp_all add: advance_cursor_first)
  then show "fs_stream (pp_stamp p) = cur_stream (in_cursor st)" "pp_consumed p = 0"
    "stamp_position (pp_stamp p) = cursor_mark (in_cursor st)"
    using cursor_publish_Inr [OF c] by simp_all
qed

section \<open>Chains of frames\<close>

text \<open>A stream's frames, newest first, and the drops their sequences make visible.\<close>

fun chained :: "'p frame list \<Rightarrow> bool" where
  "chained (new # old # fs) = (follows old new \<and> chained (old # fs))"
| "chained fs = True"

definition gap :: "'p frame \<Rightarrow> 'p frame \<Rightarrow> nat" where
  "gap old new = (if epoch_nat new = epoch_nat old then sequence_nat new - Suc (sequence_nat old) else 0)"

fun visible_drops :: "'p frame list \<Rightarrow> nat" where
  "visible_drops (new # old # fs) = gap old new + visible_drops (old # fs)"
| "visible_drops fs = 0"

lemma follows_position: "follows old new \<Longrightarrow> stamp_position (fr_stamp old) < stamp_position (fr_stamp new)"
proof -
  assume f: "follows old new"
  have "sequence_nat old < 2 ^ 64" "sequence_nat new < 2 ^ 64"
    by (simp_all add: sequence_nat_def)
  with f show ?thesis
    unfolding stamp_position_nat by (subst block_less_iff) (auto simp: follows_def)
qed

lemma follows_revision: "follows old new \<Longrightarrow> revision_nat old \<le> revision_nat new"
  by (auto simp: follows_def)

lemma follows_same_revision:
  "follows old new \<Longrightarrow> revision_nat new = revision_nat old \<Longrightarrow>
     fr_transform new = fr_transform old \<and> epoch_nat new = epoch_nat old
     \<and> fd_extent (fr_descriptor new) = fd_extent (fr_descriptor old)
     \<and> fd_format (fr_descriptor new) = fd_format (fr_descriptor old)"
  by (auto simp: follows_def)

lemma chained_Cons:
  "chained (new # fs) \<longleftrightarrow> chained fs \<and> (case fs of [] \<Rightarrow> True | old # _ \<Rightarrow> follows old new)"
  by (cases fs) auto

text \<open>Along a chain, every older frame is before the newest one.\<close>

lemma chained_older:
  assumes "chained (new # fs)" "f \<in> set fs"
  shows "stamp_order (fr_stamp f) (fr_stamp new) = Inr Before \<and> revision_nat f \<le> revision_nat new
    \<and> (revision_nat f = revision_nat new \<longrightarrow>
         fr_transform f = fr_transform new \<and> epoch_nat f = epoch_nat new
         \<and> fd_format (fr_descriptor f) = fd_format (fr_descriptor new))"
  using assms
proof (induction fs arbitrary: new)
  case Nil
  then show ?case by simp
next
  case (Cons old fs)
  have fo: "follows old new" and ch: "chained (old # fs)" using Cons.prems(1) by simp_all
  have here: "stamp_order (fr_stamp old) (fr_stamp new) = Inr Before"
    using follows_position [OF fo] fo by (simp add: stamp_order_Before_iff follows_def)
  show ?case
  proof (cases "f = old")
    case True
    with here follows_revision [OF fo] follows_same_revision [OF fo] show ?thesis by simp
  next
    case False
    with Cons.prems(2) have "f \<in> set fs" by simp
    note ih = Cons.IH [OF ch this]
    have "stamp_order (fr_stamp f) (fr_stamp new) = Inr Before"
      using ih here by (auto simp: stamp_order_Before_iff)
    with ih follows_revision [OF fo] follows_same_revision [OF fo] show ?thesis by auto
  qed
qed

lemma chained_sorted:
  "chained fs \<Longrightarrow> sorted_wrt (\<lambda>new old. stamp_order (fr_stamp old) (fr_stamp new) = Inr Before) fs"
proof (induction fs)
  case Nil
  then show ?case by simp
next
  case (Cons new fs)
  then show ?case using chained_older [OF Cons.prems] by (simp add: chained_Cons)
qed

lemma chained_same_revision:
  assumes "chained fs" "f \<in> set fs" "g \<in> set fs" "revision_nat f = revision_nat g"
  shows "fr_transform f = fr_transform g \<and> epoch_nat f = epoch_nat g
         \<and> fd_format (fr_descriptor f) = fd_format (fr_descriptor g)"
  using assms
proof (induction fs)
  case Nil
  then show ?case by simp
next
  case (Cons new fs)
  from Cons.prems(1) have "chained fs" by (simp add: chained_Cons)
  with Cons chained_older [OF Cons.prems(1), of f] chained_older [OF Cons.prems(1), of g]
  show ?case by (cases "f = new"; cases "g = new") auto
qed

end
