(* ===== verification/StreamSystem.thy ===== *)
theory StreamSystem
  imports CaptureStream
begin

text \<open>
  Any number of threads on one capture stream, under every interleaving: publishers, producer callbacks
  that record drops, callers waiting for a frame, adapters ending the stream and callers closing it.

  A publisher holds the mutex from its rules to its commit; the atomics beside the mutex are read and
  written one at a time. A condition wait with a timeout may end at any time. The system also keeps what a
  proof needs to speak about: every frame published so far, how many drops were recorded, and which frame
  each finished request was answered with.
\<close>

section \<open>Threads\<close>

datatype 'p stream_pc =
    SIdle
  | PHolding prepared instant frame_descriptor 'p
  | PInstalled
  | DropAccepted
  | DropPublished
  | FLooking frame_request operation
  | FWaiting frame_request operation
  | FWoken frame_request operation
  | FCandidate frame_request operation "'p frame"
  | FCommitted frame_request "'p frame"
  | TStored capture_fault
  | CStored
  | DrStored operation_context
  | DrAdmitting operation_context
  | DrLooking operation
  | DrDone operation
  | DrWaiting operation
  | DrWoken operation
  | DrQuiet operation
  | DrFinal

record ('t, 'p) stream_system =
  ss_stream :: "'p stream_state"
  ss_pc :: "'t \<Rightarrow> 'p stream_pc"
  ss_mutex :: "'t option"
  ss_history :: "'p frame list"
  ss_recorded :: nat
  ss_delivered :: "(frame_request \<times> 'p frame) list"

definition stream_system_new :: "stream_id \<Rightarrow> bool \<Rightarrow> ('t, 'p) stream_system" where
  "stream_system_new stream cov =
     \<lparr>ss_stream = stream_build stream cov, ss_pc = (\<lambda>_. SIdle), ss_mutex = None, ss_history = [],
      ss_recorded = 0, ss_delivered = []\<rparr>"

definition goto :: "('t, 'p) stream_system \<Rightarrow> 't \<Rightarrow> 'p stream_pc \<Rightarrow> ('t, 'p) stream_system" where
  "goto s t p = s\<lparr>ss_pc := (ss_pc s)(t := p)\<rparr>"

definition with_inner :: "('t, 'p) stream_system \<Rightarrow> 'p inner \<Rightarrow> ('t, 'p) stream_system" where
  "with_inner s i = s\<lparr>ss_stream := (ss_stream s)\<lparr>st_inner := i\<rparr>\<rparr>"

definition with_stream :: "('t, 'p) stream_system \<Rightarrow> 'p stream_state \<Rightarrow> ('t, 'p) stream_system" where
  "with_stream s st = s\<lparr>ss_stream := st\<rparr>"

abbreviation ss_inner :: "('t, 'p) stream_system \<Rightarrow> 'p inner" where
  "ss_inner s \<equiv> st_inner (ss_stream s)"

text \<open>The two halves of a commit: what is written under the mutex, then the flag that opens the drops.\<close>

definition install_stream :: "'p stream_state \<Rightarrow> prepared \<Rightarrow> 'p frame \<Rightarrow> 'p stream_state" where
  "install_stream s p f =
     s\<lparr>st_inner := install p f (st_inner s),
       st_pending_drops := (if pp_consumed p > 0 then st_pending_drops s - pp_consumed p else st_pending_drops s)\<rparr>"

definition mark_published :: "'p stream_state \<Rightarrow> 'p stream_state" where
  "mark_published s = s\<lparr>st_published_any := True\<rparr>"

lemma commit_with_halves: "commit_with s p f = mark_published (install_stream s p f)"
  by (simp add: commit_with_def mark_published_def install_stream_def)

inductive stream_step :: "('t, 'p) stream_system \<Rightarrow> ('t, 'p) stream_system \<Rightarrow> bool" where
  p_prepare: "ss_pc s t = SIdle \<Longrightarrow> ss_mutex s = None \<Longrightarrow>
      prepare (ss_inner s) (st_covers_target (ss_stream s)) d plc declared len
        (st_pending_drops (ss_stream s)) = Inr p \<Longrightarrow>
      stream_step s ((goto s t (PHolding p captured d storage))\<lparr>ss_mutex := Some t\<rparr>)"
| p_install: "ss_pc s t = PHolding p captured d storage \<Longrightarrow> f = prepared_frame p captured d storage \<Longrightarrow>
      stream_step s ((with_stream (goto s t PInstalled) (install_stream (ss_stream s) p f))
                        \<lparr>ss_history := f # ss_history s\<rparr>)"
| p_release: "ss_pc s t = PInstalled \<Longrightarrow>
      stream_step s ((with_stream (goto s t SIdle) (mark_published (ss_stream s)))\<lparr>ss_mutex := None\<rparr>)"
| d_accepted: "ss_pc s t = SIdle \<Longrightarrow> st_accepting_drops (ss_stream s) \<Longrightarrow>
      stream_step s (goto s t DropAccepted)"
| d_unpublished: "ss_pc s t = DropAccepted \<Longrightarrow> \<not> st_published_any (ss_stream s) \<Longrightarrow>
      stream_step s (goto s t SIdle)"
| d_published: "ss_pc s t = DropAccepted \<Longrightarrow> st_published_any (ss_stream s) \<Longrightarrow>
      stream_step s (goto s t DropPublished)"
| d_counted: "ss_pc s t = DropPublished \<Longrightarrow> count_drop (ss_stream s) = (Inr True, st) \<Longrightarrow>
      stream_step s ((with_stream (goto s t SIdle) st)\<lparr>ss_recorded := ss_recorded s + 1\<rparr>)"
| d_exhausted: "ss_pc s t = DropPublished \<Longrightarrow> count_drop (ss_stream s) = (Inl e, st) \<Longrightarrow>
      stream_step s (with_stream (goto s t SIdle) st)"
| f_admit: "ss_pc s t = SIdle \<Longrightarrow> admit c ob = Inr op \<Longrightarrow> stream_step s (goto s t (FLooking r op))"
| f_error: "ss_pc s t = FLooking r op \<Longrightarrow> ss_mutex s = None \<Longrightarrow>
      frame_look (ss_inner s) r = LookError e \<Longrightarrow> stream_step s (goto s t SIdle)"
| f_candidate: "ss_pc s t = FLooking r op \<Longrightarrow> ss_mutex s = None \<Longrightarrow>
      frame_look (ss_inner s) r = LookCandidate f \<Longrightarrow> stream_step s (goto s t (FCandidate r op f))"
| f_wait: "ss_pc s t = FLooking r op \<Longrightarrow> ss_mutex s = None \<Longrightarrow>
      frame_look (ss_inner s) r = LookWait i \<Longrightarrow>
      stream_step s (with_inner (goto s t (FWaiting r op)) i)"
| f_wake: "ss_pc s t = FWaiting r op \<Longrightarrow> ss_mutex s = None \<Longrightarrow>
      stream_step s (with_inner (goto s t (FWoken r op)) (frame_wake (ss_inner s)))"
| f_check_ok: "ss_pc s t = FWoken r op \<Longrightarrow> checkpoint op ob = (Inr (), op') \<Longrightarrow>
      stream_step s (goto s t (FLooking r op'))"
| f_check_fail: "ss_pc s t = FWoken r op \<Longrightarrow> checkpoint op ob = (Inl i, op') \<Longrightarrow>
      stream_step s (goto s t SIdle)"
| f_commit_ok: "ss_pc s t = FCandidate r op f \<Longrightarrow> commit op ob f = Inr f' \<Longrightarrow>
      stream_step s (goto s t (FCommitted r f'))"
| f_commit_fail: "ss_pc s t = FCandidate r op f \<Longrightarrow> commit op ob f = Inl i \<Longrightarrow>
      stream_step s (goto s t SIdle)"
| f_return: "ss_pc s t = FCommitted r f \<Longrightarrow> ss_mutex s = None \<Longrightarrow>
      commit_frame_after_operation (ss_inner s) f = Inr () \<Longrightarrow>
      stream_step s ((goto s t SIdle)\<lparr>ss_delivered := (r, f) # ss_delivered s\<rparr>)"
| f_revoked: "ss_pc s t = FCommitted r f \<Longrightarrow> ss_mutex s = None \<Longrightarrow>
      commit_frame_after_operation (ss_inner s) f = Inl e \<Longrightarrow> stream_step s (goto s t SIdle)"
| t_store: "ss_pc s t = SIdle \<Longrightarrow>
      stream_step s (with_stream (goto s t (TStored fault)) (stop_drops (ss_stream s)))"
| t_section: "ss_pc s t = TStored fault \<Longrightarrow> ss_mutex s = None \<Longrightarrow>
      stream_step s (with_inner (goto s t SIdle) (terminate_section fault (ss_inner s)))"
| c_store: "ss_pc s t = SIdle \<Longrightarrow>
      stream_step s (with_stream (goto s t CStored) (stop_drops (ss_stream s)))"
| c_section: "ss_pc s t = CStored \<Longrightarrow> ss_mutex s = None \<Longrightarrow>
      stream_step s (with_inner (goto s t SIdle) (stream_close_section (ss_inner s)))"
| dr_store: "ss_pc s t = SIdle \<Longrightarrow>
      stream_step s (with_stream (goto s t (DrStored c)) (stop_drops (ss_stream s)))"
| dr_section: "ss_pc s t = DrStored c \<Longrightarrow> ss_mutex s = None \<Longrightarrow>
      stream_step s (with_inner (goto s t (DrAdmitting c)) (stream_close_section (ss_inner s)))"
| dr_admit: "ss_pc s t = DrAdmitting c \<Longrightarrow> admit c ob = Inr op \<Longrightarrow>
      stream_step s (goto s t (DrLooking op))"
| dr_refuse: "ss_pc s t = DrAdmitting c \<Longrightarrow> admit c ob = Inl i \<Longrightarrow> stream_step s (goto s t SIdle)"
| dr_closed: "ss_pc s t = DrLooking op \<Longrightarrow> ss_mutex s = None \<Longrightarrow>
      stream_drain_look (ss_inner s) = StreamClosed \<Longrightarrow> stream_step s (goto s t (DrDone op))"
| dr_quiet: "ss_pc s t = DrLooking op \<Longrightarrow> ss_mutex s = None \<Longrightarrow>
      stream_drain_look (ss_inner s) = StreamQuiet \<Longrightarrow> stream_step s (goto s t (DrQuiet op))"
| dr_busy: "ss_pc s t = DrLooking op \<Longrightarrow> ss_mutex s = None \<Longrightarrow>
      stream_drain_look (ss_inner s) = StreamBusy \<Longrightarrow> stream_step s (goto s t (DrWaiting op))"
| dr_done: "ss_pc s t = DrDone op \<Longrightarrow> stream_step s (goto s t SIdle)"
| dr_wake: "ss_pc s t = DrWaiting op \<Longrightarrow> stream_step s (goto s t (DrWoken op))"
| dr_check_ok: "ss_pc s t = DrWoken op \<Longrightarrow> checkpoint op ob = (Inr (), op') \<Longrightarrow>
      stream_step s (goto s t (DrLooking op'))"
| dr_check_fail: "ss_pc s t = DrWoken op \<Longrightarrow> checkpoint op ob = (Inl i, op') \<Longrightarrow>
      stream_step s (goto s t SIdle)"
| dr_commit_ok: "ss_pc s t = DrQuiet op \<Longrightarrow> commit op ob () = Inr () \<Longrightarrow>
      stream_step s (goto s t DrFinal)"
| dr_commit_fail: "ss_pc s t = DrQuiet op \<Longrightarrow> commit op ob () = Inl i \<Longrightarrow>
      stream_step s (goto s t SIdle)"
| dr_final: "ss_pc s t = DrFinal \<Longrightarrow> ss_mutex s = None \<Longrightarrow>
      stream_drain_finish (ss_inner s) = Some i \<Longrightarrow> stream_step s (with_inner (goto s t SIdle) i)"

definition stream_reachable :: "stream_id \<Rightarrow> bool \<Rightarrow> ('t, 'p) stream_system \<Rightarrow> bool" where
  "stream_reachable stream cov s \<longleftrightarrow> stream_step\<^sup>*\<^sup>* (stream_system_new stream cov) s"

lemma goto_sel [simp]:
  "ss_pc (goto s t p) = (ss_pc s)(t := p)" "ss_stream (goto s t p) = ss_stream s"
  "ss_mutex (goto s t p) = ss_mutex s" "ss_history (goto s t p) = ss_history s"
  "ss_recorded (goto s t p) = ss_recorded s" "ss_delivered (goto s t p) = ss_delivered s"
  by (simp_all add: goto_def)

lemma with_inner_sel [simp]:
  "ss_pc (with_inner s i) = ss_pc s" "ss_stream (with_inner s i) = (ss_stream s)\<lparr>st_inner := i\<rparr>"
  "ss_mutex (with_inner s i) = ss_mutex s" "ss_history (with_inner s i) = ss_history s"
  "ss_recorded (with_inner s i) = ss_recorded s" "ss_delivered (with_inner s i) = ss_delivered s"
  by (simp_all add: with_inner_def)

lemma with_stream_sel [simp]:
  "ss_pc (with_stream s st) = ss_pc s" "ss_stream (with_stream s st) = st"
  "ss_mutex (with_stream s st) = ss_mutex s" "ss_history (with_stream s st) = ss_history s"
  "ss_recorded (with_stream s st) = ss_recorded s" "ss_delivered (with_stream s st) = ss_delivered s"
  by (simp_all add: with_stream_def)

section \<open>What each section changes\<close>

lemma stop_drops_sel [simp]:
  "st_inner (stop_drops s) = st_inner s" "st_pending_drops (stop_drops s) = st_pending_drops s"
  "st_published_any (stop_drops s) = st_published_any s" "st_covers_target (stop_drops s) = st_covers_target s"
  by (simp_all add: stop_drops_def)

lemma mark_published_sel [simp]:
  "st_inner (mark_published s) = st_inner s" "st_pending_drops (mark_published s) = st_pending_drops s"
  "st_published_any (mark_published s)" "st_covers_target (mark_published s) = st_covers_target s"
  by (simp_all add: mark_published_def)

lemma install_stream_sel [simp]:
  "st_inner (install_stream s p f) = install p f (st_inner s)"
  "st_published_any (install_stream s p f) = st_published_any s"
  "st_covers_target (install_stream s p f) = st_covers_target s"
  by (simp_all add: install_stream_def)

lemma install_sel [simp]:
  "in_latest (install p f st) = Some f" "in_lifecycle (install p f st) = in_lifecycle st"
  "in_waiters (install p f st) = in_waiters st" "in_terminal (install p f st) = in_terminal st"
  "in_cursor (install p f st) = pp_cursor p" "in_geometry (install p f st) = pp_geometry p"
  by (simp_all add: install_def)

lemma count_drop_Inr:
  "count_drop s = (Inr b, s') \<Longrightarrow>
     s' = s\<lparr>st_pending_drops := st_pending_drops s'\<rparr> \<and> unat (st_pending_drops s') = unat (st_pending_drops s) + 1"
  by (auto simp: count_drop_def dest!: checked_add_Some_unat split: option.splits)

lemma count_drop_inner: "count_drop s = (r, s') \<Longrightarrow> st_inner s' = st_inner s"
  by (auto simp: count_drop_def split: option.splits)

lemma count_drop_Inl: "count_drop s = (Inl e, s') \<Longrightarrow> s' = s"
  by (auto simp: count_drop_def split: option.splits)

lemma terminate_section_sel [simp]:
  "in_cursor (terminate_section f st) = in_cursor st" "in_geometry (terminate_section f st) = in_geometry st"
  "in_latest (terminate_section f st) = in_latest st" "in_waiters (terminate_section f st) = in_waiters st"
  "in_lifecycle (terminate_section f st) = (if in_lifecycle st = LcOpen then LcClosing else in_lifecycle st)"
  "in_terminal (terminate_section f st) =
     (if in_lifecycle st \<noteq> LcClosed \<and> in_terminal st = None then Some f else in_terminal st)"
  by (simp_all add: terminate_section_def Let_def)

lemma stream_close_section_sel [simp]:
  "in_cursor (stream_close_section st) = in_cursor st" "in_geometry (stream_close_section st) = in_geometry st"
  "in_latest (stream_close_section st) = in_latest st" "in_waiters (stream_close_section st) = in_waiters st"
  "in_lifecycle (stream_close_section st) = (if in_lifecycle st = LcOpen then LcClosing else in_lifecycle st)"
  "in_terminal (stream_close_section st) = in_terminal st"
  by (simp_all add: stream_close_section_def)

lemma frame_wake_sel [simp]:
  "in_cursor (frame_wake st) = in_cursor st" "in_geometry (frame_wake st) = in_geometry st"
  "in_latest (frame_wake st) = in_latest st" "in_waiters (frame_wake st) = in_waiters st - 1"
  "in_lifecycle (frame_wake st) = in_lifecycle st" "in_terminal (frame_wake st) = in_terminal st"
  by (simp_all add: frame_wake_def)

lemma frame_look_cases:
  "frame_look st r = LookWait i \<longleftrightarrow>
     in_terminal st = None \<and> in_lifecycle st = LcOpen \<and> qualifying st r = Inr None
     \<and> i = st\<lparr>in_waiters := in_waiters st + 1\<rparr>"
  "frame_look st r = LookCandidate f \<longleftrightarrow>
     in_terminal st = None \<and> in_lifecycle st = LcOpen \<and> qualifying st r = Inr (Some f)"
  by (auto simp: frame_look_def split: option.splits sum.splits)

lemma stream_drain_look_Quiet [simp]:
  "stream_drain_look st = StreamQuiet \<longleftrightarrow> in_lifecycle st \<noteq> LcClosed \<and> in_waiters st = 0"
  by (simp add: stream_drain_look_def)

lemma stream_drain_finish_Some:
  "stream_drain_finish st = Some i \<longleftrightarrow>
     in_lifecycle st = LcClosed \<and> i = st
     \<or> in_lifecycle st = LcClosing \<and> in_waiters st = 0 \<and> i = st\<lparr>in_lifecycle := LcClosed, in_latest := None\<rparr>"
  by (auto simp: stream_drain_finish_def)

text \<open>The answer a request accepts.\<close>

definition answers :: "frame_request \<Rightarrow> 'p frame \<Rightarrow> bool" where
  "answers r f \<longleftrightarrow>
     (case frq_selection r of Latest \<Rightarrow> True | NewerThan stamp \<Rightarrow> stamp_order (fr_stamp f) stamp = Inr After)"

lemma qualifying_Some:
  "qualifying st r = Inr (Some f) \<longleftrightarrow> in_latest st = Some f \<and> answers r f"
  by (auto simp: qualifying_def answers_def split: option.splits frame_selection.splits sum.splits frame_order.splits)

section \<open>Invariants\<close>

fun holds_mutex :: "'p stream_pc \<Rightarrow> bool" where
  "holds_mutex (PHolding p captured d storage) = True"
| "holds_mutex PInstalled = True"
| "holds_mutex _ = False"

definition mutex_ok :: "('t, 'p) stream_system \<Rightarrow> bool" where
  "mutex_ok s \<longleftrightarrow> (\<forall>t. holds_mutex (ss_pc s t) = (ss_mutex s = Some t))"

lemma mutex_ok_goto: "mutex_ok s \<Longrightarrow> holds_mutex p = holds_mutex (ss_pc s t) \<Longrightarrow> mutex_ok (goto s t p)"
  by (simp add: mutex_ok_def)

lemma mutex_ok_frame [simp]:
  "mutex_ok (with_inner s i) = mutex_ok s" "mutex_ok (with_stream s st) = mutex_ok s"
  "mutex_ok (s\<lparr>ss_history := h\<rparr>) = mutex_ok s" "mutex_ok (s\<lparr>ss_recorded := n\<rparr>) = mutex_ok s"
  "mutex_ok (s\<lparr>ss_delivered := l\<rparr>) = mutex_ok s"
  by (simp_all add: mutex_ok_def)

lemma mutex_ok_step: "stream_step s s' \<Longrightarrow> mutex_ok s \<Longrightarrow> mutex_ok s'"
proof (induction rule: stream_step.induct)
  case (p_prepare s t d plc declared len p captured storage)
  then show ?case by (auto simp: mutex_ok_def)
next
  case (p_release s t)
  then have "ss_mutex s = Some t" by (metis holds_mutex.simps(2) mutex_ok_def)
  with p_release show ?case by (auto simp: mutex_ok_def)
qed (simp_all add: mutex_ok_goto)

lemma mutex_free: "mutex_ok s \<Longrightarrow> ss_mutex s = None \<Longrightarrow> \<not> holds_mutex (ss_pc s t)"
  by (simp add: mutex_ok_def)

lemma mutex_alone: "mutex_ok s \<Longrightarrow> holds_mutex (ss_pc s t) \<Longrightarrow> holds_mutex (ss_pc s u) \<Longrightarrow> u = t"
  by (simp add: mutex_ok_def)

text \<open>A publisher that holds the mutex has prepared against the state it will commit to.\<close>

definition prepared_against :: "'p stream_state \<Rightarrow> prepared \<Rightarrow> frame_descriptor \<Rightarrow> bool" where
  "prepared_against st p d \<longleftrightarrow>
     (\<exists>plc declared len v. prepare (st_inner st) (st_covers_target st) d plc declared len v = Inr p
        \<and> unat v \<le> unat (st_pending_drops st))"

lemma prepared_against_mono:
  assumes "prepared_against st p d" "st_inner st' = st_inner st" "st_covers_target st' = st_covers_target st"
    "unat (st_pending_drops st) \<le> unat (st_pending_drops st')"
  shows "prepared_against st' p d"
proof -
  obtain plc declared len v where "prepare (st_inner st) (st_covers_target st) d plc declared len v = Inr p"
    "unat v \<le> unat (st_pending_drops st)"
    using assms(1) by (auto simp: prepared_against_def)
  then have "prepare (st_inner st') (st_covers_target st') d plc declared len v = Inr p"
    "unat v \<le> unat (st_pending_drops st')" using assms(2-4) by simp_all
  then show ?thesis unfolding prepared_against_def by blast
qed

definition prepared_ok :: "('t, 'p) stream_system \<Rightarrow> bool" where
  "prepared_ok s \<longleftrightarrow>
     (\<forall>t p captured d storage. ss_pc s t = PHolding p captured d storage \<longrightarrow>
        prepared_against (ss_stream s) p d)"

lemma prepared_ok_free: "(\<And>t. \<not> holds_mutex (ss_pc s t)) \<Longrightarrow> prepared_ok s"
  unfolding prepared_ok_def by (metis holds_mutex.simps(1))

lemma prepared_ok_goto: "prepared_ok s \<Longrightarrow> \<not> holds_mutex p \<Longrightarrow> prepared_ok (goto s t p)"
  unfolding prepared_ok_def by (metis fun_upd_apply goto_sel(1,2) holds_mutex.simps(1))

lemma prepared_ok_frame [simp]:
  "prepared_ok (s\<lparr>ss_history := h\<rparr>) = prepared_ok s" "prepared_ok (s\<lparr>ss_recorded := n\<rparr>) = prepared_ok s"
  "prepared_ok (s\<lparr>ss_delivered := l\<rparr>) = prepared_ok s" "prepared_ok (s\<lparr>ss_mutex := m\<rparr>) = prepared_ok s"
  by (simp_all add: prepared_ok_def)

lemma prepared_ok_with_stream:
  assumes "prepared_ok s" "st_inner st = ss_inner s" "st_covers_target st = st_covers_target (ss_stream s)"
    "unat (st_pending_drops (ss_stream s)) \<le> unat (st_pending_drops st)"
  shows "prepared_ok (with_stream s st)"
  using assms unfolding prepared_ok_def with_stream_sel by (blast intro: prepared_against_mono)

lemma prepared_ok_locked:
  assumes "mutex_ok s" "ss_mutex s = None" "\<not> holds_mutex p"
  shows "prepared_ok (with_inner (goto s t p) i)"
  using assms mutex_free [OF assms(1,2)] by (intro prepared_ok_free) simp

lemma prepared_ok_step: "stream_step s s' \<Longrightarrow> mutex_ok s \<Longrightarrow> prepared_ok s \<Longrightarrow> prepared_ok s'"
proof (induction rule: stream_step.induct)
  case (p_install s t p captured d storage f)
  have "\<not> holds_mutex (ss_pc s u)" if "u \<noteq> t" for u
    using mutex_alone [OF p_install(3), of t u] p_install(1) that by auto
  then have "ss_pc s u \<noteq> PHolding q c e x" if "u \<noteq> t" for u q c e x
    using that by (metis holds_mutex.simps(1))
  then show ?case by (auto simp: prepared_ok_def)
next
  case (p_prepare s t d plc declared len p captured storage)
  have "ss_pc s u \<noteq> PHolding q c e x" for u q c e x
    using mutex_free [OF p_prepare(4,2), of u] by (metis holds_mutex.simps(1))
  moreover have "prepared_against (ss_stream s) p d"
    using p_prepare(3) unfolding prepared_against_def by blast
  ultimately show ?case by (auto simp: prepared_ok_def)
next
  case (d_counted s t st)
  from count_drop_Inr [OF d_counted(2)] obtain v where
    st: "st = (ss_stream s)\<lparr>st_pending_drops := v\<rparr>" "unat v = unat (st_pending_drops (ss_stream s)) + 1"
    by metis
  with d_counted show ?case by (simp add: prepared_ok_goto prepared_ok_with_stream)
next
  case (d_exhausted s t e st)
  with count_drop_Inl [OF d_exhausted(2)] show ?case
    by (simp add: prepared_ok_goto prepared_ok_with_stream)
qed (simp_all add: prepared_ok_goto prepared_ok_locked prepared_ok_with_stream)

text \<open>The history is a chain that the current state continues.\<close>

definition history_fits :: "stream_id \<Rightarrow> bool \<Rightarrow> 'p inner \<Rightarrow> 'p frame list \<Rightarrow> bool" where
  "history_fits stream cov i h \<longleftrightarrow>
     cur_stream (in_cursor i) = stream \<and> chained h
     \<and> (\<forall>f\<in>set h. stream_transform cov f \<and> fs_stream (fr_stamp f) = stream)
     \<and> (case h of
          [] \<Rightarrow> in_latest i = None \<and> cursor_mark (in_cursor i) = 0
        | f # _ \<Rightarrow> stands_behind i f
            \<and> (in_latest i = Some f \<or> in_latest i = None \<and> in_lifecycle i = LcClosed))"

lemma history_fits_same:
  assumes "history_fits stream cov i h" "in_cursor i' = in_cursor i" "in_geometry i' = in_geometry i"
    "in_latest i' = in_latest i \<or> in_latest i' = None \<and> in_lifecycle i' = LcClosed"
    "in_lifecycle i = LcClosed \<Longrightarrow> in_lifecycle i' = LcClosed"
  shows "history_fits stream cov i' h"
proof (cases h)
  case Nil
  with assms show ?thesis by (auto simp: history_fits_def)
next
  case (Cons f fs)
  have "stands_behind i' f = stands_behind i f" using assms(2,3) by (simp add: stands_behind_def)
  moreover have "in_latest i' = Some f \<or> in_latest i' = None \<and> in_lifecycle i' = LcClosed"
    using assms(1,4,5) Cons by (auto simp: history_fits_def)
  ultimately show ?thesis using assms(1,2) Cons by (simp add: history_fits_def)
qed

text \<open>An installed frame continues the chain, and its gap is exactly the drops it consumed.\<close>

lemma installed:
  assumes fits: "history_fits stream cov i h"
    and prep: "prepare i cov d plc declared len v = Inr p" and f: "f = prepared_frame p captured d storage"
  shows "history_fits stream cov (install p f i) (f # h)"
    "visible_drops (f # h) = unat (pp_consumed p) + visible_drops h"
    "pp_consumed p = 0 \<or> pp_consumed p = v" "h = [] \<Longrightarrow> pp_consumed p = 0"
proof -
  have open': "in_lifecycle i = LcOpen" using prep by (auto elim: prepare_parts)
  note behind = prepared_stands_behind [OF prep, of captured storage, folded f]
  have "history_fits stream cov (install p f i) (f # h)
      \<and> visible_drops (f # h) = unat (pp_consumed p) + visible_drops h
      \<and> (pp_consumed p = 0 \<or> pp_consumed p = v) \<and> (h = [] \<longrightarrow> pp_consumed p = 0)"
  proof (cases h)
    case Nil
    with fits have "in_latest i = None" "cur_stream (in_cursor i) = stream"
      by (simp_all add: history_fits_def)
    moreover note prepared_first [OF prep this(1)]
    moreover have "cur_stream (pp_cursor p) = fs_stream (fr_stamp f)"
      using behind(1) by (simp add: stands_behind_def)
    moreover have "fs_stream (fr_stamp f) = fs_stream (pp_stamp p)"
      by (simp add: f prepared_frame_def frame_from_validated_def)
    ultimately show ?thesis using behind Nil by (simp add: history_fits_def)
  next
    case (Cons g gs)
    with fits open' have g: "in_latest i = Some g" "stands_behind i g" "stream_transform cov g"
      by (auto simp: history_fits_def)
    note fol = prepared_follows [OF prep g f]
    then have "fs_stream (fr_stamp f) = fs_stream (fr_stamp g)" by (simp add: follows_def)
    moreover have "cur_stream (pp_cursor p) = fs_stream (fr_stamp f)"
      using behind(1) by (simp add: stands_behind_def)
    moreover have "gap g f = unat (pp_consumed p)" using fol by (auto simp: gap_def)
    ultimately show ?thesis using fits behind Cons fol by (auto simp: history_fits_def)
  qed
  then show "history_fits stream cov (install p f i) (f # h)"
    "visible_drops (f # h) = unat (pp_consumed p) + visible_drops h"
    "pp_consumed p = 0 \<or> pp_consumed p = v" "h = [] \<Longrightarrow> pp_consumed p = 0"
    by simp_all
qed

definition history_ok :: "stream_id \<Rightarrow> bool \<Rightarrow> ('t, 'p) stream_system \<Rightarrow> bool" where
  "history_ok stream cov s \<longleftrightarrow>
     st_covers_target (ss_stream s) = cov \<and> history_fits stream cov (ss_inner s) (ss_history s)"

lemma prepared_held:
  assumes "prepared_ok s" "ss_pc s t = PHolding p captured d storage" "history_ok stream cov s"
  obtains plc declared len v where "prepare (ss_inner s) cov d plc declared len v = Inr p"
    "unat v \<le> unat (st_pending_drops (ss_stream s))" "history_fits stream cov (ss_inner s) (ss_history s)"
proof -
  have "prepared_against (ss_stream s) p d" using assms(1,2) unfolding prepared_ok_def by blast
  with assms(3) that show ?thesis unfolding prepared_against_def history_ok_def by blast
qed

lemma history_ok_frame [simp]:
  "history_ok stream cov (goto s t p) = history_ok stream cov s"
  "history_ok stream cov (s\<lparr>ss_recorded := n\<rparr>) = history_ok stream cov s"
  "history_ok stream cov (s\<lparr>ss_delivered := l\<rparr>) = history_ok stream cov s"
  "history_ok stream cov (s\<lparr>ss_mutex := m\<rparr>) = history_ok stream cov s"
  by (simp_all add: history_ok_def)

lemma history_ok_with_inner:
  assumes "history_ok stream cov s" "in_cursor i = in_cursor (ss_inner s)"
    "in_geometry i = in_geometry (ss_inner s)"
    "in_latest i = in_latest (ss_inner s) \<or> in_latest i = None \<and> in_lifecycle i = LcClosed"
    "in_lifecycle (ss_inner s) = LcClosed \<Longrightarrow> in_lifecycle i = LcClosed"
  shows "history_ok stream cov (with_inner s i)"
  using assms history_fits_same [of stream cov "ss_inner s" "ss_history s" i]
  by (simp add: history_ok_def)

lemma history_ok_with_stream:
  assumes "history_ok stream cov s" "st_inner st = ss_inner s"
    "st_covers_target st = st_covers_target (ss_stream s)"
  shows "history_ok stream cov (with_stream s st)"
  using assms by (simp add: history_ok_def)

lemma history_ok_step: "stream_step s s' \<Longrightarrow> prepared_ok s \<Longrightarrow> history_ok stream cov s \<Longrightarrow> history_ok stream cov s'"
proof (induction rule: stream_step.induct)
  case (p_install s t p captured d storage f)
  obtain plc declared len v where "prepare (ss_inner s) cov d plc declared len v = Inr p"
    and fits: "history_fits stream cov (ss_inner s) (ss_history s)"
    by (rule prepared_held [OF p_install(3,1,4)])
  with installed(1) [OF fits this(1) p_install(2)] p_install(4) show ?case by (simp add: history_ok_def)
next
  case (d_counted s t st)
  from count_drop_Inr [OF d_counted(2)] obtain v where "st = (ss_stream s)\<lparr>st_pending_drops := v\<rparr>" by metis
  with d_counted show ?case by (simp add: history_ok_with_stream)
next
  case (d_exhausted s t e st)
  with count_drop_Inl [OF d_exhausted(2)] show ?case by (simp add: history_ok_with_stream)
qed (auto intro!: history_ok_with_inner history_ok_with_stream simp: frame_look_cases stream_drain_finish_Some)

text \<open>No drop is lost: it is pending or visible.\<close>

fun published_pc :: "'p stream_pc \<Rightarrow> bool" where
  "published_pc PInstalled = True"
| "published_pc DropPublished = True"
| "published_pc _ = False"

definition drops_ok :: "('t, 'p) stream_system \<Rightarrow> bool" where
  "drops_ok s \<longleftrightarrow>
     ss_recorded s = unat (st_pending_drops (ss_stream s)) + visible_drops (ss_history s)
     \<and> (st_published_any (ss_stream s) \<longrightarrow> ss_history s \<noteq> [])
     \<and> (ss_recorded s \<noteq> 0 \<longrightarrow> ss_history s \<noteq> [])
     \<and> (\<forall>t. published_pc (ss_pc s t) \<longrightarrow> ss_history s \<noteq> [])"

lemma drops_ok_goto: "drops_ok s \<Longrightarrow> (published_pc p \<Longrightarrow> ss_history s \<noteq> []) \<Longrightarrow> drops_ok (goto s t p)"
  by (auto simp: drops_ok_def split: if_splits)

lemma drops_ok_frame [simp]:
  "drops_ok (with_inner s i) = drops_ok s" "drops_ok (s\<lparr>ss_delivered := l\<rparr>) = drops_ok s"
  "drops_ok (s\<lparr>ss_mutex := m\<rparr>) = drops_ok s"
  by (simp_all add: drops_ok_def)

lemma drops_ok_with_stream:
  assumes "drops_ok s" "st_pending_drops st = st_pending_drops (ss_stream s)"
    "st_published_any st \<Longrightarrow> ss_history s \<noteq> []"
  shows "drops_ok (with_stream s st)"
  using assms by (simp add: drops_ok_def)

lemma drops_ok_step:
  "stream_step s s' \<Longrightarrow> prepared_ok s \<Longrightarrow> history_ok stream cov s \<Longrightarrow> drops_ok s \<Longrightarrow> drops_ok s'"
proof (induction rule: stream_step.induct)
  case (p_install s t p captured d storage f)
  obtain plc declared len v where
    prep: "prepare (ss_inner s) cov d plc declared len v = Inr p"
    and v: "unat v \<le> unat (st_pending_drops (ss_stream s))"
    and fits: "history_fits stream cov (ss_inner s) (ss_history s)"
    by (rule prepared_held [OF p_install(3,1,4)])
  note inst = installed [OF fits prep p_install(2)]
  have le: "unat (pp_consumed p) \<le> unat (st_pending_drops (ss_stream s))" using inst(3) v by auto
  have "unat (st_pending_drops (install_stream (ss_stream s) p f)) + unat (pp_consumed p)
      = unat (st_pending_drops (ss_stream s))"
    using le by (simp add: install_stream_def unat_sub word_le_nat_alt word_neq_0_conv [symmetric])
  with p_install(5) inst(2) show ?case by (auto simp: drops_ok_def)
next
  case (p_release s t)
  then have "ss_history s \<noteq> []" by (metis drops_ok_def published_pc.simps(1))
  with p_release show ?case by (simp add: drops_ok_goto drops_ok_with_stream)
next
  case (d_counted s t st)
  from count_drop_Inr [OF d_counted(2)] obtain v where
    st: "st = (ss_stream s)\<lparr>st_pending_drops := v\<rparr>" "unat v = unat (st_pending_drops (ss_stream s)) + 1"
    by metis
  have "ss_history s \<noteq> []" using d_counted(1,5) by (metis drops_ok_def published_pc.simps(2))
  with st d_counted(5) show ?case by (auto simp: drops_ok_def)
next
  case (d_exhausted s t e st)
  with count_drop_Inl [OF d_exhausted(2)] show ?case by (auto simp: drops_ok_def)
qed (auto intro!: drops_ok_goto drops_ok_with_stream simp: drops_ok_def)

text \<open>Waiters, and what a drain may rely on.\<close>

fun waits_pc :: "'p stream_pc \<Rightarrow> bool" where
  "waits_pc (FWaiting r op) = True"
| "waits_pc _ = False"

fun closing_pc :: "'p stream_pc \<Rightarrow> bool" where
  "closing_pc (DrAdmitting c) = True"
| "closing_pc (DrLooking op) = True"
| "closing_pc (DrDone op) = True"
| "closing_pc (DrWaiting op) = True"
| "closing_pc (DrWoken op) = True"
| "closing_pc (DrQuiet op) = True"
| "closing_pc DrFinal = True"
| "closing_pc _ = False"

fun quiet_pc :: "'p stream_pc \<Rightarrow> bool" where
  "quiet_pc (DrQuiet op) = True"
| "quiet_pc DrFinal = True"
| "quiet_pc _ = False"

definition waits_counted :: "('t, 'p) stream_system \<Rightarrow> bool" where
  "waits_counted s \<longleftrightarrow> finite {t. waits_pc (ss_pc s t)}
     \<and> in_waiters (ss_inner s) = card {t. waits_pc (ss_pc s t)}"

definition closing_ok :: "('t, 'p) stream_system \<Rightarrow> bool" where
  "closing_ok s \<longleftrightarrow>
     (\<forall>t. closing_pc (ss_pc s t) \<longrightarrow> in_lifecycle (ss_inner s) \<noteq> LcOpen)
     \<and> (\<forall>t. quiet_pc (ss_pc s t) \<longrightarrow> in_waiters (ss_inner s) = 0)
     \<and> (in_lifecycle (ss_inner s) = LcClosed \<longrightarrow> in_waiters (ss_inner s) = 0)
     \<and> (in_terminal (ss_inner s) \<noteq> None \<longrightarrow> in_lifecycle (ss_inner s) \<noteq> LcOpen)"

lemma waits_counted_frame [simp]:
  "waits_counted (s\<lparr>ss_history := h\<rparr>) = waits_counted s" "waits_counted (s\<lparr>ss_recorded := n\<rparr>) = waits_counted s"
  "waits_counted (s\<lparr>ss_delivered := l\<rparr>) = waits_counted s" "waits_counted (s\<lparr>ss_mutex := m\<rparr>) = waits_counted s"
  by (simp_all add: waits_counted_def)

lemma waits_counted_moved:
  assumes "waits_counted s"
    and "in_waiters (st_inner st) + (if waits_pc (ss_pc s t) then 1 else 0)
         = in_waiters (ss_inner s) + (if waits_pc p then 1 else 0)"
  shows "waits_counted (with_stream (goto s t p) st)"
proof -
  have fin: "finite {t. waits_pc (ss_pc s t)}" using assms(1) by (simp add: waits_counted_def)
  have "finite {u. waits_pc (((ss_pc s)(t := p)) u)}"
    by (rule finite_subset [of _ "insert t {t. waits_pc (ss_pc s t)}"]) (use fin in auto)
  with assms card_update [of waits_pc "ss_pc s" t p, OF fin] show ?thesis
    by (simp add: waits_counted_def)
qed

lemma with_inner_stream: "with_inner s i = with_stream s ((ss_stream s)\<lparr>st_inner := i\<rparr>)"
  by (simp add: with_inner_def with_stream_def)

lemma goto_with_stream: "goto s t p = with_stream (goto s t p) (ss_stream s)"
  by (simp add: goto_def with_stream_def)

lemma waits_counted_goto:
  "waits_counted s \<Longrightarrow> waits_pc p = waits_pc (ss_pc s t) \<Longrightarrow> waits_counted (goto s t p)"
  by (subst goto_with_stream) (rule waits_counted_moved, simp_all)

lemma waits_positive: "waits_counted s \<Longrightarrow> waits_pc (ss_pc s t) \<Longrightarrow> 0 < in_waiters (ss_inner s)"
  by (auto simp: waits_counted_def card_gt_0_iff)

lemma waits_counted_step: "stream_step s s' \<Longrightarrow> waits_counted s \<Longrightarrow> waits_counted s'"
proof (induction rule: stream_step.induct)
  case (d_counted s t st)
  from count_drop_Inr [OF d_counted(2)] obtain v where "st = (ss_stream s)\<lparr>st_pending_drops := v\<rparr>" by metis
  with d_counted show ?case by (simp add: waits_counted_moved)
next
  case (d_exhausted s t e st)
  with count_drop_Inl [OF d_exhausted(2)] show ?case by (simp add: waits_counted_moved)
next
  case (f_wait s t r op i)
  then show ?case unfolding with_inner_stream by (auto simp: frame_look_cases intro: waits_counted_moved)
next
  case (f_wake s t r op)
  with waits_positive [OF f_wake(3), of t] show ?case
    unfolding with_inner_stream by (auto intro: waits_counted_moved)
next
  case (dr_final s t i)
  then show ?case
    unfolding with_inner_stream by (auto simp: stream_drain_finish_Some intro: waits_counted_moved)
qed (simp_all add: waits_counted_goto waits_counted_moved with_inner_stream)

lemma closing_ok_frame [simp]:
  "closing_ok (s\<lparr>ss_history := h\<rparr>) = closing_ok s" "closing_ok (s\<lparr>ss_recorded := n\<rparr>) = closing_ok s"
  "closing_ok (s\<lparr>ss_delivered := l\<rparr>) = closing_ok s" "closing_ok (s\<lparr>ss_mutex := m\<rparr>) = closing_ok s"
  by (simp_all add: closing_ok_def)

lemma quiet_closing: "quiet_pc p \<Longrightarrow> closing_pc p"
  by (cases p) simp_all

lemma closing_ok_moved:
  assumes "closing_ok s"
    and "closing_pc p \<Longrightarrow> in_lifecycle (st_inner st) \<noteq> LcOpen"
    and "quiet_pc p \<Longrightarrow> in_waiters (st_inner st) = 0"
    and "in_lifecycle (ss_inner s) \<noteq> LcOpen \<Longrightarrow>
         in_lifecycle (st_inner st) \<noteq> LcOpen \<and> in_waiters (st_inner st) \<le> in_waiters (ss_inner s)"
    and "in_lifecycle (st_inner st) = LcClosed \<Longrightarrow> in_waiters (st_inner st) = 0"
    and "in_terminal (st_inner st) \<noteq> None \<Longrightarrow> in_lifecycle (st_inner st) \<noteq> LcOpen"
  shows "closing_ok (with_stream (goto s t p) st)"
proof -
  have "in_lifecycle (st_inner st) \<noteq> LcOpen" if "closing_pc (((ss_pc s)(t := p)) u)" for u
    using that assms(1,2,4) by (auto simp: closing_ok_def split: if_splits)
  moreover have "in_waiters (st_inner st) = 0" if "quiet_pc (((ss_pc s)(t := p)) u)" for u
  proof (cases "u = t")
    case False
    with that have "quiet_pc (ss_pc s u)" by simp
    with assms(1) quiet_closing have "in_lifecycle (ss_inner s) \<noteq> LcOpen" "in_waiters (ss_inner s) = 0"
      by (auto simp: closing_ok_def)
    with assms(4) show ?thesis by simp
  qed (use that assms(3) in simp)
  ultimately show ?thesis using assms(5,6) by (simp add: closing_ok_def)
qed


lemma closing_ok_goto:
  "closing_ok s \<Longrightarrow> (closing_pc p \<Longrightarrow> in_lifecycle (ss_inner s) \<noteq> LcOpen) \<Longrightarrow>
     (quiet_pc p \<Longrightarrow> in_waiters (ss_inner s) = 0) \<Longrightarrow> closing_ok (goto s t p)"
  by (subst goto_with_stream) (rule closing_ok_moved; simp add: closing_ok_def)

lemma closing_here: "closing_ok s \<Longrightarrow> closing_pc (ss_pc s t) \<Longrightarrow> in_lifecycle (ss_inner s) \<noteq> LcOpen"
  by (auto simp: closing_ok_def)

lemma quiet_here: "closing_ok s \<Longrightarrow> quiet_pc (ss_pc s t) \<Longrightarrow> in_waiters (ss_inner s) = 0"
  by (auto simp: closing_ok_def)

lemma closing_ok_state:
  assumes "closing_ok s"
  shows "in_lifecycle (ss_inner s) = LcClosed \<Longrightarrow> in_waiters (ss_inner s) = 0"
    "in_terminal (ss_inner s) \<noteq> None \<Longrightarrow> in_lifecycle (ss_inner s) \<noteq> LcOpen"
  using assms by (simp_all add: closing_ok_def)

lemma closing_ok_step: "stream_step s s' \<Longrightarrow> closing_ok s \<Longrightarrow> closing_ok s'"
proof (induction rule: stream_step.induct)
  case (p_install s t p captured d storage f)
  with closing_ok_state [OF p_install(3)] show ?case
    unfolding closing_ok_frame by (intro closing_ok_moved) simp_all
next
  case (p_release s t)
  with closing_ok_state [OF p_release(2)] show ?case
    unfolding closing_ok_frame by (intro closing_ok_moved) simp_all
next
  case (d_counted s t st)
  from count_drop_Inr [OF d_counted(2)] obtain v where "st = (ss_stream s)\<lparr>st_pending_drops := v\<rparr>" by metis
  with d_counted closing_ok_state [OF d_counted(3)] show ?case
    unfolding closing_ok_frame by (intro closing_ok_moved) auto
next
  case (d_exhausted s t e st)
  with count_drop_Inl [OF d_exhausted(2)] closing_ok_state [OF d_exhausted(3)] show ?case
    unfolding closing_ok_frame by (intro closing_ok_moved) auto
next
  case (f_wait s t r op i)
  then show ?case unfolding with_inner_stream by (auto simp: frame_look_cases intro!: closing_ok_moved)
next
  case (f_wake s t r op)
  with closing_ok_state [OF f_wake(3)] show ?case
    unfolding with_inner_stream by (intro closing_ok_moved) auto
next
  case (t_store s t fault)
  with closing_ok_state [OF t_store(2)] show ?case
    unfolding closing_ok_frame by (intro closing_ok_moved) auto
next
  case (t_section s t fault)
  with closing_ok_state [OF t_section(3)] show ?case
    unfolding with_inner_stream by (intro closing_ok_moved) (auto split: if_splits)
next
  case (c_store s t)
  with closing_ok_state [OF c_store(2)] show ?case
    unfolding closing_ok_frame by (intro closing_ok_moved) auto
next
  case (c_section s t)
  with closing_ok_state [OF c_section(3)] show ?case
    unfolding with_inner_stream by (intro closing_ok_moved) (auto split: if_splits)
next
  case (dr_store s t c)
  with closing_ok_state [OF dr_store(2)] show ?case
    unfolding closing_ok_frame by (intro closing_ok_moved) auto
next
  case (dr_section s t c)
  with closing_ok_state [OF dr_section(3)] show ?case
    unfolding with_inner_stream by (intro closing_ok_moved) (auto split: if_splits)
next
  case (dr_admit s t c ob op)
  with closing_here [OF dr_admit(3), of t] show ?case by (intro closing_ok_goto) auto
next
  case (dr_closed s t op)
  with closing_here [OF dr_closed(4), of t] show ?case by (intro closing_ok_goto) auto
next
  case (dr_quiet s t op)
  with closing_here [OF dr_quiet(4), of t] show ?case by (intro closing_ok_goto) auto
next
  case (dr_busy s t op)
  with closing_here [OF dr_busy(4), of t] show ?case by (intro closing_ok_goto) auto
next
  case (dr_wake s t op)
  with closing_here [OF dr_wake(2), of t] show ?case by (intro closing_ok_goto) auto
next
  case (dr_check_ok s t op ob op')
  with closing_here [OF dr_check_ok(3), of t] show ?case by (intro closing_ok_goto) auto
next
  case (dr_commit_ok s t op ob)
  with closing_here [OF dr_commit_ok(3), of t] quiet_here [OF dr_commit_ok(3), of t] show ?case
    by (intro closing_ok_goto) auto
next
  case (dr_final s t i)
  with closing_ok_state [OF dr_final(4)] show ?case
    unfolding with_inner_stream by (intro closing_ok_moved) (auto simp: stream_drain_finish_Some)
qed (auto intro!: closing_ok_goto)

text \<open>Every answer given, or about to be given, is a published frame that the request accepts.\<close>

fun answer_pc :: "'p stream_pc \<Rightarrow> (frame_request \<times> 'p frame) option" where
  "answer_pc (FCandidate r op f) = Some (r, f)"
| "answer_pc (FCommitted r f) = Some (r, f)"
| "answer_pc _ = None"

definition answered :: "'p frame list \<Rightarrow> frame_request \<times> 'p frame \<Rightarrow> bool" where
  "answered h rf \<longleftrightarrow> (case rf of (r, f) \<Rightarrow> f \<in> set h \<and> answers r f)"

definition delivered_ok :: "('t, 'p) stream_system \<Rightarrow> bool" where
  "delivered_ok s \<longleftrightarrow>
     (\<forall>rf\<in>set (ss_delivered s). answered (ss_history s) rf)
     \<and> (\<forall>t rf. answer_pc (ss_pc s t) = Some rf \<longrightarrow> answered (ss_history s) rf)"

lemma delivered_ok_goto:
  "delivered_ok s \<Longrightarrow> (case answer_pc p of None \<Rightarrow> True | Some rf \<Rightarrow> answered (ss_history s) rf) \<Longrightarrow>
     delivered_ok (goto s t p)"
  by (auto simp: delivered_ok_def)

lemma delivered_ok_frame [simp]:
  "delivered_ok (with_inner s i) = delivered_ok s" "delivered_ok (with_stream s st) = delivered_ok s"
  "delivered_ok (s\<lparr>ss_recorded := n\<rparr>) = delivered_ok s" "delivered_ok (s\<lparr>ss_mutex := m\<rparr>) = delivered_ok s"
  by (simp_all add: delivered_ok_def)

lemma answered_here: "delivered_ok s \<Longrightarrow> answer_pc (ss_pc s t) = Some rf \<Longrightarrow> answered (ss_history s) rf"
  by (cases rf) (auto simp: delivered_ok_def)

lemma delivered_ok_step:
  "stream_step s s' \<Longrightarrow> history_ok stream cov s \<Longrightarrow> delivered_ok s \<Longrightarrow> delivered_ok s'"
proof (induction rule: stream_step.induct)
  case (p_install s t p captured d storage f)
  then show ?case by (auto simp: delivered_ok_def answered_def split: prod.splits)
next
  case (f_candidate s t r op f)
  from f_candidate(3) have "in_latest (ss_inner s) = Some f" "answers r f" "in_lifecycle (ss_inner s) = LcOpen"
    by (simp_all add: frame_look_cases qualifying_Some)
  with f_candidate(4) have "answered (ss_history s) (r, f)"
    by (auto simp: history_ok_def history_fits_def answered_def split: list.splits)
  with f_candidate(5) show ?case by (intro delivered_ok_goto) auto
next
  case (f_commit_ok s t r op f ob f')
  with answered_here [OF f_commit_ok(4), of t] show ?case
    by (intro delivered_ok_goto) (auto simp: commit_Inr_iff)
next
  case (f_return s t r f)
  with answered_here [OF f_return(5), of t] show ?case by (auto simp: delivered_ok_def)
qed (simp_all add: delivered_ok_goto)

section \<open>The invariant of every reachable system\<close>

definition stream_ok :: "stream_id \<Rightarrow> bool \<Rightarrow> ('t, 'p) stream_system \<Rightarrow> bool" where
  "stream_ok stream cov s \<longleftrightarrow> mutex_ok s \<and> prepared_ok s \<and> history_ok stream cov s \<and> drops_ok s
     \<and> waits_counted s \<and> closing_ok s \<and> delivered_ok s"

interpretation stream_inv: invariant_machine stream_step "stream_system_new stream cov" "stream_ok stream cov"
  for stream cov
proof
  show "stream_ok stream cov (stream_system_new stream cov)"
    by (simp add: stream_ok_def mutex_ok_def prepared_ok_def history_ok_def history_fits_def drops_ok_def
          waits_counted_def closing_ok_def delivered_ok_def stream_system_new_def stream_build_def
          cursor_new_def cursor_mark_def epoch_first_def)
next
  fix s s' :: "('a, 'b) stream_system"
  assume st: "stream_step s s'" and "stream_ok stream cov s"
  then have "mutex_ok s" "prepared_ok s" "history_ok stream cov s" "drops_ok s" "waits_counted s"
    "closing_ok s" "delivered_ok s" by (simp_all add: stream_ok_def)
  then show "stream_ok stream cov s'"
    unfolding stream_ok_def
    by (intro conjI mutex_ok_step [OF st] prepared_ok_step [OF st] history_ok_step [OF st] drops_ok_step [OF st]
          waits_counted_step [OF st] closing_ok_step [OF st] delivered_ok_step [OF st])
qed

lemma stream_invariant: "stream_reachable stream cov s \<Longrightarrow> stream_ok stream cov s"
  unfolding stream_reachable_def by (rule stream_inv.inv_reachable)

lemma stream_okD:
  assumes "stream_ok stream cov s"
  shows "mutex_ok s" "prepared_ok s" "history_ok stream cov s" "drops_ok s" "waits_counted s" "closing_ok s"
    "delivered_ok s" "history_fits stream cov (ss_inner s) (ss_history s)"
  using assms by (simp_all add: stream_ok_def history_ok_def)

lemma stream_reachable_step: "stream_reachable stream cov s \<Longrightarrow> stream_step\<^sup>*\<^sup>* s s' \<Longrightarrow> stream_reachable stream cov s'"
  by (simp add: stream_reachable_def)

section \<open>The stream as its callers may think of it\<close>

text \<open>
  The abstract stream: the frames published so far, where the stream is in its life, and why capture ended.
  It says nothing of cursors, counters, waiters, mutex or atomics.
\<close>

record 'p abstract_stream =
  as_frames :: "'p frame list"
  as_stage :: lifecycle
  as_cause :: "capture_fault option"

inductive abstract_step :: "'p abstract_stream \<Rightarrow> 'p abstract_stream \<Rightarrow> bool" where
  a_publish: "as_stage a = LcOpen \<Longrightarrow> as_cause a = None \<Longrightarrow>
      \<forall>g\<in>set (as_frames a). stamp_order (fr_stamp g) (fr_stamp f) = Inr Before \<Longrightarrow>
      abstract_step a (a\<lparr>as_frames := f # as_frames a\<rparr>)"
| a_fail: "as_stage a \<noteq> LcClosed \<Longrightarrow> as_cause a = None \<Longrightarrow>
      abstract_step a (a\<lparr>as_cause := Some fault, as_stage := LcClosing\<rparr>)"
| a_close: "as_stage a = LcOpen \<Longrightarrow> abstract_step a (a\<lparr>as_stage := LcClosing\<rparr>)"
| a_finish: "as_stage a = LcClosing \<Longrightarrow> abstract_step a (a\<lparr>as_stage := LcClosed\<rparr>)"

definition stream_abs :: "('t, 'p) stream_system \<Rightarrow> 'p abstract_stream" where
  "stream_abs s = \<lparr>as_frames = ss_history s, as_stage = in_lifecycle (ss_inner s),
                   as_cause = in_terminal (ss_inner s)\<rparr>"

lemma stream_abs_eq:
  "ss_history s' = ss_history s \<Longrightarrow> in_lifecycle (ss_inner s') = in_lifecycle (ss_inner s) \<Longrightarrow>
     in_terminal (ss_inner s') = in_terminal (ss_inner s) \<Longrightarrow> stream_abs s' = stream_abs s"
  by (simp add: stream_abs_def)

lemma stream_abs_sel [simp]:
  "as_frames (stream_abs s) = ss_history s" "as_stage (stream_abs s) = in_lifecycle (ss_inner s)"
  "as_cause (stream_abs s) = in_terminal (ss_inner s)"
  by (simp_all add: stream_abs_def)

lemma abs_close_section:
  assumes "closing_ok s" "in_lifecycle i = (if in_lifecycle (ss_inner s) = LcOpen then LcClosing else in_lifecycle (ss_inner s))"
    "in_terminal i = in_terminal (ss_inner s)"
  shows "stream_abs (with_inner (goto s t p) i) = stream_abs s
     \<or> abstract_step (stream_abs s) (stream_abs (with_inner (goto s t p) i))"
proof (cases "in_lifecycle (ss_inner s) = LcOpen")
  case True
  then have "stream_abs (with_inner (goto s t p) i) = (stream_abs s)\<lparr>as_stage := LcClosing\<rparr>"
    using assms by (simp add: stream_abs_def)
  with a_close [of "stream_abs s"] True show ?thesis by simp
next
  case False
  with assms show ?thesis by (simp add: stream_abs_def)
qed

text \<open>
  C36: the stream refines its abstract specification: every step of any thread in a reachable system leaves
  the abstract stream as it is or is one abstract step, so a frame appears only on an open stream and after
  every frame before it, the first fault is kept, and the stages follow in order.
\<close>

theorem stream_refines:
  assumes "stream_reachable stream cov s" and "stream_step s s'"
  shows "stream_abs s' = stream_abs s \<or> abstract_step (stream_abs s) (stream_abs s')"
proof -
  have ok: "stream_ok stream cov s" by (rule stream_invariant [OF assms(1)])
  from assms(2) ok show ?thesis
  proof (induction rule: stream_step.induct)
    case (p_install s t p captured d storage f)
    note okd = stream_okD [OF p_install(3)]
    obtain plc declared len v where prep: "prepare (ss_inner s) cov d plc declared len v = Inr p"
      by (rule prepared_held [OF okd(2) p_install(1) okd(3)])
    then have o: "in_lifecycle (ss_inner s) = LcOpen" "in_terminal (ss_inner s) = None"
      by (auto elim: prepare_parts)
    have "chained (f # ss_history s)"
      using installed(1) [OF okd(8) prep p_install(2)] by (simp add: history_fits_def)
    then have "\<forall>g\<in>set (ss_history s). stamp_order (fr_stamp g) (fr_stamp f) = Inr Before"
      using chained_older by blast
    with o a_publish [of "stream_abs s" f] show ?case by (simp add: stream_abs_def)
  next
    case (d_counted s t st)
    from count_drop_Inr [OF d_counted(2)] obtain v where "st = (ss_stream s)\<lparr>st_pending_drops := v\<rparr>" by metis
    then show ?case by (simp add: stream_abs_def)
  next
    case (d_exhausted s t e st)
    with count_drop_Inl [OF d_exhausted(2)] show ?case by (simp add: stream_abs_def)
  next
    case (f_wait s t r op i)
    then show ?case by (simp add: stream_abs_def frame_look_cases)
  next
    case (t_section s t fault)
    note okd = stream_okD [OF t_section(3)]
    show ?case
    proof (cases "in_lifecycle (ss_inner s) \<noteq> LcClosed \<and> in_terminal (ss_inner s) = None")
      case True
      then have "stream_abs (with_inner (goto s t SIdle) (terminate_section fault (ss_inner s)))
          = (stream_abs s)\<lparr>as_cause := Some fault, as_stage := LcClosing\<rparr>"
        by (cases "in_lifecycle (ss_inner s)") (simp_all add: stream_abs_def)
      with True a_fail [of "stream_abs s" fault] show ?thesis by simp
    next
      case False
      then show ?thesis using okd(6) by (intro abs_close_section) auto
    qed
  next
    case (c_section s t)
    from stream_okD(6) [OF c_section(3)] show ?case by (rule abs_close_section) simp_all
  next
    case (dr_section s t c)
    from stream_okD(6) [OF dr_section(3)] show ?case by (rule abs_close_section) simp_all
  next
    case (dr_final s t i)
    then show ?case
      using a_finish [of "stream_abs s"] by (auto simp: stream_abs_def stream_drain_finish_Some)
  qed (simp_all add: stream_abs_def)
qed

section \<open>Its theorems\<close>

text \<open>
  C31: whatever the threads do, the frames of a stream carry its identity and strictly increasing stamps,
  no two the same; two frames with the same geometry revision have the same transform, epoch and format,
  so an answer computed against a revision never meets another transform under it.
\<close>

theorem stream_frames_ordered:
  assumes "stream_reachable stream cov s"
  shows "sorted_wrt (\<lambda>new old. stamp_order (fr_stamp old) (fr_stamp new) = Inr Before) (ss_history s)
     \<and> (\<forall>f\<in>set (ss_history s). fs_stream (fr_stamp f) = stream
          \<and> ts_geometry (fr_transform f) = fs_geometry (fr_stamp f)
          \<and> ts_extent (fr_transform f) = fd_extent (fr_descriptor f)
          \<and> (\<forall>g\<in>set (ss_history s). fs_geometry (fr_stamp f) = fs_geometry (fr_stamp g) \<longrightarrow>
               fr_transform f = fr_transform g \<and> fs_epoch (fr_stamp f) = fs_epoch (fr_stamp g)
               \<and> fd_format (fr_descriptor f) = fd_format (fr_descriptor g)))"
proof -
  note fits = stream_okD(8) [OF stream_invariant [OF assms]]
  then have ch: "chained (ss_history s)" by (simp add: history_fits_def)
  have "fr_transform f = fr_transform g \<and> fs_epoch (fr_stamp f) = fs_epoch (fr_stamp g)
        \<and> fd_format (fr_descriptor f) = fd_format (fr_descriptor g)"
    if "f \<in> set (ss_history s)" "g \<in> set (ss_history s)" "fs_geometry (fr_stamp f) = fs_geometry (fr_stamp g)"
    for f g
    using chained_same_revision [OF ch that(1,2)] that(3)
    by (auto simp: revision_nat_def epoch_nat_def word_unat_eq_iff intro: stream_epoch.expand)
  moreover have "fs_stream (fr_stamp f) = stream \<and> ts_geometry (fr_transform f) = fs_geometry (fr_stamp f)
      \<and> ts_extent (fr_transform f) = fd_extent (fr_descriptor f)" if "f \<in> set (ss_history s)" for f
    using fits that by (simp add: history_fits_def stream_transform_def)
  ultimately show ?thesis using chained_sorted [OF ch] by blast
qed

text \<open>
  C32: no dropped candidate is forgotten or counted twice: under every interleaving of the lock-free drops
  with publications, the drops recorded so far are exactly those still pending and those that show as gaps
  between consecutive frames of one epoch; the counter never wraps.
\<close>

theorem drops_conserved:
  assumes "stream_reachable stream cov s"
  shows "ss_recorded s = unat (st_pending_drops (ss_stream s)) + visible_drops (ss_history s)
    \<and> (ss_history s = [] \<longrightarrow> ss_recorded s = 0 \<and> \<not> st_published_any (ss_stream s))"
proof -
  have "drops_ok s" by (rule stream_okD(4) [OF stream_invariant [OF assms]])
  then show ?thesis by (auto simp: drops_ok_def)
qed

text \<open>
  C33: whatever a caller is answered with is a frame this stream published, and one it asked for: a request
  for something newer than a stamp is only ever answered with a frame strictly after that stamp.
\<close>

theorem delivered_frames_answer:
  assumes "stream_reachable stream cov s" and "(r, f) \<in> set (ss_delivered s)"
  shows "f \<in> set (ss_history s)
    \<and> (case frq_selection r of Latest \<Rightarrow> True | NewerThan stamp \<Rightarrow> stamp_order (fr_stamp f) stamp = Inr After)"
proof -
  have "delivered_ok s" by (rule stream_okD(7) [OF stream_invariant [OF assms(1)]])
  with assms(2) have "answered (ss_history s) (r, f)" by (simp add: delivered_ok_def)
  then show ?thesis by (simp add: answered_def answers_def)
qed

interpretation stream_life: staged_machine stream_step "\<lambda>s. lifecycle_stage (in_lifecycle (ss_inner s))"
proof
  fix s s' :: "('a, 'b) stream_system"
  assume "stream_step s s'"
  then show "lifecycle_stage (in_lifecycle (ss_inner s)) \<le> lifecycle_stage (in_lifecycle (ss_inner s'))"
    by induction (auto simp: frame_look_cases stream_drain_finish_Some dest!: count_drop_inner)
qed

lemma terminal_step:
  assumes "stream_step s s'" "stream_ok stream cov s" "in_terminal (ss_inner s) = Some fault"
  shows "in_terminal (ss_inner s') = Some fault"
  using assms
  by (induction rule: stream_step.induct) (auto simp: frame_look_cases stream_drain_finish_Some dest!: count_drop_inner)

lemma history_step:
  assumes "stream_step s s'" "stream_ok stream cov s" "in_lifecycle (ss_inner s) \<noteq> LcOpen"
  shows "ss_history s' = ss_history s"
  using assms
proof (induction rule: stream_step.induct)
  case (p_install s t p captured d storage f)
  note okd = stream_okD [OF p_install(3)]
  obtain plc declared len v where "prepare (ss_inner s) cov d plc declared len v = Inr p"
    by (rule prepared_held [OF okd(2) p_install(1) okd(3)])
  then have "in_lifecycle (ss_inner s) = LcOpen" by (auto elim: prepare_parts)
  with p_install(4) show ?case by simp
qed simp_all

lemma cause_step:
  assumes "stream_step s s'" "in_lifecycle (ss_inner s) = LcClosed"
  shows "in_terminal (ss_inner s') = in_terminal (ss_inner s)"
  using assms
  by (induction rule: stream_step.induct) (auto simp: frame_look_cases stream_drain_finish_Some dest!: count_drop_inner)

text \<open>
  C34: the end of a stream is final: once close or a fault has begun, no frame is ever published again and
  the first fault stays the answer; once closed, the stream stays closed with nobody waiting and its cause
  no longer changes. The assertions of the drain's last section never fail.
\<close>

theorem stream_end_is_final:
  assumes "stream_reachable stream cov s" and "in_lifecycle (ss_inner s) \<noteq> LcOpen" and "stream_step\<^sup>*\<^sup>* s s'"
  shows "in_lifecycle (ss_inner s') \<noteq> LcOpen \<and> ss_history s' = ss_history s
    \<and> (\<forall>fault. in_terminal (ss_inner s) = Some fault \<longrightarrow> in_terminal (ss_inner s') = Some fault)
    \<and> (in_lifecycle (ss_inner s) = LcClosed \<longrightarrow> in_lifecycle (ss_inner s') = LcClosed
         \<and> in_terminal (ss_inner s') = in_terminal (ss_inner s) \<and> in_waiters (ss_inner s') = 0)
    \<and> (\<forall>t. ss_pc s' t = DrFinal \<longrightarrow> stream_drain_finish (ss_inner s') \<noteq> None)"
  using assms(3)
proof (induction rule: rtranclp_induct)
  case base
  note c = stream_okD(6) [OF stream_invariant [OF assms(1)]]
  have "stream_drain_finish (ss_inner s) \<noteq> None" if "ss_pc s t = DrFinal" for t
    using closing_here [OF c, of t] quiet_here [OF c, of t] that
    by (cases "in_lifecycle (ss_inner s)") (simp_all add: stream_drain_finish_def)
  with assms(2) closing_ok_state(1) [OF c] show ?case by simp
next
  case (step u v)
  have ru: "stream_reachable stream cov u" by (rule stream_reachable_step [OF assms(1) step.hyps(1)])
  have rv: "stream_reachable stream cov v"
    by (rule stream_reachable_step [OF assms(1)]) (rule rtranclp.rtrancl_into_rtrancl [OF step.hyps])
  note oku = stream_invariant [OF ru] and c = stream_okD(6) [OF stream_invariant [OF rv]]
  have stage: "lifecycle_stage (in_lifecycle (ss_inner u)) \<le> lifecycle_stage (in_lifecycle (ss_inner v))"
    by (rule stream_life.stage_mono [OF step.hyps(2)])
  have open': "in_lifecycle (ss_inner v) \<noteq> LcOpen"
    using stage step.IH by (cases "in_lifecycle (ss_inner u)") auto
  have closed: "in_lifecycle (ss_inner v) = LcClosed" if "in_lifecycle (ss_inner u) = LcClosed"
    using stage that by (cases "in_lifecycle (ss_inner v)") auto
  have "stream_drain_finish (ss_inner v) \<noteq> None" if "ss_pc v t = DrFinal" for t
    using closing_here [OF c, of t] quiet_here [OF c, of t] that
    by (cases "in_lifecycle (ss_inner v)") (simp_all add: stream_drain_finish_def)
  moreover have "ss_history v = ss_history u" using history_step [OF step.hyps(2) oku] step.IH by simp
  ultimately show ?case
    using step.IH open' closed terminal_step [OF step.hyps(2) oku] cause_step [OF step.hyps(2)]
      closing_ok_state(1) [OF c] by auto
qed

section \<open>Nobody is stuck\<close>

lemma step_of_holder:
  assumes "stream_ok stream cov s" "holds_mutex (ss_pc s u)"
  shows "\<exists>s'. stream_step s s' \<and> ss_pc s' u \<noteq> ss_pc s u"
proof (cases "ss_pc s u")
  case (PHolding p captured d storage)
  with stream_step.p_install [OF PHolding refl] show ?thesis by fastforce
next
  case PInstalled
  with stream_step.p_release [OF PInstalled] show ?thesis by fastforce
qed (use assms in simp_all)

lemma step_of_free:
  assumes ok: "stream_ok stream cov s" and free: "ss_mutex s = None" and busy: "ss_pc s t \<noteq> SIdle"
  shows "\<exists>s'. stream_step s s' \<and> ss_pc s' t \<noteq> ss_pc s t"
proof -
  let ?ob = "\<lparr>obs_cancelled = False, obs_now = instant_origin\<rparr>"
  note c = stream_okD(6) [OF ok]
  show ?thesis
  proof (cases "ss_pc s t")
    case SIdle
    with busy show ?thesis by simp
  next
    case (PHolding p captured d storage)
    then show ?thesis using step_of_holder [OF ok, of t] by simp
  next
    case PInstalled
    then show ?thesis using step_of_holder [OF ok, of t] by simp
  next
    case DropAccepted
    with stream_step.d_unpublished [OF DropAccepted] stream_step.d_published [OF DropAccepted] show ?thesis
      by (cases "st_published_any (ss_stream s)") fastforce+
  next
    case DropPublished
    show ?thesis
    proof (cases "checked_add (st_pending_drops (ss_stream s)) 1")
      case None
      with stream_step.d_exhausted [OF DropPublished] DropPublished show ?thesis
        by (fastforce simp: count_drop_def)
    next
      case (Some v)
      with stream_step.d_counted [OF DropPublished] DropPublished show ?thesis
        by (fastforce simp: count_drop_def)
    qed
  next
    case (FLooking r op)
    with stream_step.f_error [OF FLooking free] stream_step.f_candidate [OF FLooking free]
      stream_step.f_wait [OF FLooking free] show ?thesis
      by (cases "frame_look (ss_inner s) r") fastforce+
  next
    case (FWaiting r op)
    with stream_step.f_wake [OF FWaiting free] show ?thesis by fastforce
  next
    case (FWoken r op)
    obtain q op' where "checkpoint op ?ob = (q, op')" by fastforce
    with FWoken stream_step.f_check_ok [OF FWoken] stream_step.f_check_fail [OF FWoken] show ?thesis
      by (cases q) fastforce+
  next
    case (FCandidate r op f)
    with stream_step.f_commit_ok [OF FCandidate, of ?ob] stream_step.f_commit_fail [OF FCandidate, of ?ob]
    show ?thesis by (cases "commit op ?ob f") fastforce+
  next
    case (FCommitted r f)
    with stream_step.f_return [OF FCommitted free] stream_step.f_revoked [OF FCommitted free] show ?thesis
      by (cases "commit_frame_after_operation (ss_inner s) f") fastforce+
  next
    case (TStored fault)
    with stream_step.t_section [OF TStored free] show ?thesis by fastforce
  next
    case CStored
    with stream_step.c_section [OF CStored free] show ?thesis by fastforce
  next
    case (DrStored c)
    with stream_step.dr_section [OF DrStored free] show ?thesis by fastforce
  next
    case (DrAdmitting c)
    with stream_step.dr_admit [OF DrAdmitting, of ?ob] stream_step.dr_refuse [OF DrAdmitting, of ?ob]
    show ?thesis by (cases "admit c ?ob") fastforce+
  next
    case (DrLooking op)
    with stream_step.dr_closed [OF DrLooking free] stream_step.dr_quiet [OF DrLooking free]
      stream_step.dr_busy [OF DrLooking free] show ?thesis
      by (cases "stream_drain_look (ss_inner s)") fastforce+
  next
    case (DrDone op)
    with stream_step.dr_done [OF DrDone] show ?thesis by fastforce
  next
    case (DrWaiting op)
    with stream_step.dr_wake [OF DrWaiting] show ?thesis by fastforce
  next
    case (DrWoken op)
    obtain q op' where "checkpoint op ?ob = (q, op')" by fastforce
    with DrWoken stream_step.dr_check_ok [OF DrWoken] stream_step.dr_check_fail [OF DrWoken] show ?thesis
      by (cases q) fastforce+
  next
    case (DrQuiet op)
    with stream_step.dr_commit_ok [OF DrQuiet, of ?ob] stream_step.dr_commit_fail [OF DrQuiet, of ?ob]
    show ?thesis by (cases "commit op ?ob ()") fastforce+
  next
    case DrFinal
    have "stream_drain_finish (ss_inner s) \<noteq> None"
      using closing_here [OF c, of t] quiet_here [OF c, of t] DrFinal
      by (cases "in_lifecycle (ss_inner s)") (simp_all add: stream_drain_finish_def)
    then obtain i where "stream_drain_finish (ss_inner s) = Some i" by auto
    with stream_step.dr_final [OF DrFinal free] DrFinal show ?thesis by fastforce
  qed
qed

text \<open>
  C35: no thread on a stream is stuck: a thread inside any operation has a step of its own whenever the
  mutex is free, and whenever it is held its holder has one; and a thread that waits for a frame is told why
  capture ended at its next look once a fault is recorded, and that the session is closed after an ordinary
  close.
\<close>

theorem stream_threads_progress:
  assumes "stream_reachable stream cov s"
  shows "(ss_pc s t \<noteq> SIdle \<longrightarrow>
      (case ss_mutex s of
         None \<Rightarrow> \<exists>s'. stream_step s s' \<and> ss_pc s' t \<noteq> ss_pc s t
       | Some u \<Rightarrow> \<exists>s'. stream_step s s' \<and> ss_pc s' u \<noteq> ss_pc s u))
    \<and> (\<forall>fault. in_terminal (ss_inner s) = Some fault \<longrightarrow>
         frame_look (ss_inner s) r = LookError (capture_error fault))
    \<and> (in_terminal (ss_inner s) = None \<and> in_lifecycle (ss_inner s) \<noteq> LcOpen \<longrightarrow>
         frame_look (ss_inner s) r = LookError (capture_error SessionClosed))"
proof (intro conjI impI)
  have ok: "stream_ok stream cov s" by (rule stream_invariant [OF assms])
  assume "ss_pc s t \<noteq> SIdle"
  then show "case ss_mutex s of
         None \<Rightarrow> \<exists>s'. stream_step s s' \<and> ss_pc s' t \<noteq> ss_pc s t
       | Some u \<Rightarrow> \<exists>s'. stream_step s s' \<and> ss_pc s' u \<noteq> ss_pc s u"
    using step_of_free [OF ok] step_of_holder [OF ok] stream_okD(1) [OF ok]
    by (auto simp: mutex_ok_def split: option.splits)
qed (simp_all add: frame_look_def)

section \<open>Whole operations as runs\<close>

text \<open>Run alone, the steps of an operation are the operation.\<close>

lemma goto_goto [simp]: "goto (goto s t p) t q = goto s t q"
  by (simp add: goto_def)

lemma goto_idle: "ss_pc s t = SIdle \<Longrightarrow> goto s t SIdle = s"
  by (simp add: goto_def fun_upd_idem)

lemma publish_run:
  assumes "ss_pc s t = SIdle" "ss_mutex s = None"
    "prepare (ss_inner s) (st_covers_target (ss_stream s)) d plc declared len (st_pending_drops (ss_stream s)) = Inr p"
  shows "stream_step\<^sup>*\<^sup>* s ((with_stream s (commit_with (ss_stream s) p (prepared_frame p captured d storage)))
           \<lparr>ss_history := prepared_frame p captured d storage # ss_history s\<rparr>)"
proof -
  let ?f = "prepared_frame p captured d storage"
  let ?s1 = "(goto s t (PHolding p captured d storage))\<lparr>ss_mutex := Some t\<rparr>"
  let ?s2 = "(with_stream (goto ?s1 t PInstalled) (install_stream (ss_stream ?s1) p ?f))
               \<lparr>ss_history := ?f # ss_history ?s1\<rparr>"
  let ?s3 = "(with_stream (goto ?s2 t SIdle) (mark_published (ss_stream ?s2)))\<lparr>ss_mutex := None\<rparr>"
  have "stream_step s ?s1" by (rule stream_step.p_prepare [OF assms])
  moreover have "stream_step ?s1 ?s2" by (rule stream_step.p_install) simp_all
  moreover have "stream_step ?s2 ?s3" by (rule stream_step.p_release) simp
  moreover have "?s3 = (with_stream s (commit_with (ss_stream s) p ?f))\<lparr>ss_history := ?f # ss_history s\<rparr>"
    using assms(1,2) unfolding commit_with_halves
    by (cases s) (simp add: goto_def with_stream_def fun_upd_idem)
  ultimately show ?thesis by (metis (no_types, lifting) converse_rtranclp_into_rtranclp rtranclp.rtrancl_refl)
qed

lemma drop_run:
  assumes "ss_pc s t = SIdle" "try_record_drop (ss_stream s) = (Inr True, st)"
  shows "stream_step\<^sup>*\<^sup>* s ((with_stream s st)\<lparr>ss_recorded := ss_recorded s + 1\<rparr>)"
proof -
  from assms(2) have c: "st_accepting_drops (ss_stream s)" "st_published_any (ss_stream s)"
    "count_drop (ss_stream s) = (Inr True, st)"
    by (auto simp: try_record_drop_def split: if_splits)
  let ?s1 = "goto s t DropAccepted" and ?s2 = "goto s t DropPublished"
  have "stream_step s ?s1" by (rule stream_step.d_accepted [OF assms(1) c(1)])
  moreover have "stream_step ?s1 ?s2" using stream_step.d_published [of ?s1 t] c(2) by simp
  moreover have "stream_step ?s2 ((with_stream (goto ?s2 t SIdle) st)\<lparr>ss_recorded := ss_recorded ?s2 + 1\<rparr>)"
    by (rule stream_step.d_counted) (simp_all add: c(3))
  moreover have "(with_stream (goto ?s2 t SIdle) st)\<lparr>ss_recorded := ss_recorded ?s2 + 1\<rparr>
      = (with_stream s st)\<lparr>ss_recorded := ss_recorded s + 1\<rparr>"
    using assms(1) by (cases s) (simp add: goto_def with_stream_def fun_upd_idem)
  ultimately show ?thesis by (metis (no_types, lifting) converse_rtranclp_into_rtranclp rtranclp.rtrancl_refl)
qed

lemma terminate_run:
  assumes "ss_pc s t = SIdle" "ss_mutex s = None"
  shows "stream_step\<^sup>*\<^sup>* s (with_stream s (terminate fault (ss_stream s)))"
proof -
  let ?s1 = "with_stream (goto s t (TStored fault)) (stop_drops (ss_stream s))"
  have "stream_step s ?s1" by (rule stream_step.t_store [OF assms(1)])
  moreover have "stream_step ?s1 (with_inner (goto ?s1 t SIdle) (terminate_section fault (ss_inner ?s1)))"
    by (rule stream_step.t_section) (simp_all add: assms(2))
  moreover have "with_inner (goto ?s1 t SIdle) (terminate_section fault (ss_inner ?s1))
      = with_stream s (terminate fault (ss_stream s))"
    using assms(1) by (cases s) (simp add: goto_def with_stream_def with_inner_def terminate_def Let_def fun_upd_idem)
  ultimately show ?thesis by (metis (no_types, lifting) converse_rtranclp_into_rtranclp rtranclp.rtrancl_refl)
qed

lemma frame_run:
  assumes "ss_pc s t = SIdle" "ss_mutex s = None" "frame_look (ss_inner s) r = LookCandidate f"
    and "commit_frame_after_operation (ss_inner s) f = Inr ()"
  shows "stream_step\<^sup>*\<^sup>* s (s\<lparr>ss_delivered := (r, f) # ss_delivered s\<rparr>)"
proof -
  let ?ob = "\<lparr>obs_cancelled = False, obs_now = instant_origin\<rparr>"
  let ?op = "\<lparr>op_context = context_new, op_terminal = None\<rparr>"
  have a: "admit context_new ?ob = Inr ?op" and k: "commit ?op ?ob f = Inr f"
    by (simp_all add: admit_def commit_def context_interruption_def context_new_def)
  let ?s1 = "goto s t (FLooking r ?op)" and ?s2 = "goto s t (FCandidate r ?op f)" and ?s3 = "goto s t (FCommitted r f)"
  have "stream_step s ?s1" by (rule stream_step.f_admit [OF assms(1) a])
  moreover have "stream_step ?s1 ?s2"
    using stream_step.f_candidate [of ?s1 t r ?op f] assms(2,3) by simp
  moreover have "stream_step ?s2 ?s3" using stream_step.f_commit_ok [of ?s2 t r ?op f, OF _ k] by simp
  moreover have "stream_step ?s3 ((goto ?s3 t SIdle)\<lparr>ss_delivered := (r, f) # ss_delivered ?s3\<rparr>)"
    by (rule stream_step.f_return) (simp_all add: assms(2,4))
  moreover have "(goto ?s3 t SIdle)\<lparr>ss_delivered := (r, f) # ss_delivered ?s3\<rparr>
      = s\<lparr>ss_delivered := (r, f) # ss_delivered s\<rparr>"
    using assms(1) by (cases s) (simp add: goto_def fun_upd_idem)
  ultimately show ?thesis by (metis (no_types, lifting) converse_rtranclp_into_rtranclp rtranclp.rtrancl_refl)
qed

section \<open>A concrete run\<close>

text \<open>Two frames with a drop between them, a request for something newer than the first, the target lost.\<close>

definition small_stream :: stream_id where
  "small_stream = \<lparr>str_engine = EngineId 1, str_ordinal = 1\<rparr>"

definition small_descriptor :: frame_descriptor where
  "small_descriptor = \<lparr>fd_extent = \<lparr>px_width = 2, px_height = 2\<rparr>, fd_format = Rgba8, fd_stride = 8\<rparr>"

definition small_prepared :: "u64 \<Rightarrow> u64 \<Rightarrow> prepared" where
  "small_prepared n dropped =
     \<lparr>pp_cursor = \<lparr>cur_stream = small_stream, cur_epoch = epoch_first, cur_next_sequence = Some (n + 1)\<rparr>,
      pp_geometry = revision_first,
      pp_stamp = stamp_new small_stream epoch_first (FrameSequence n) revision_first,
      pp_transform = frame_only revision_first (fd_extent small_descriptor), pp_consumed = dropped\<rparr>"

definition stream_frame :: "u64 \<Rightarrow> u64 \<Rightarrow> unit frame" where
  "stream_frame n dropped = prepared_frame (small_prepared n dropped) instant_origin small_descriptor ()"

definition run_first :: "(nat, unit) stream_system" where
  "run_first = (let s = stream_system_new small_stream False in
     (with_stream s (commit_with (ss_stream s) (small_prepared 0 0) (stream_frame 0 0)))
       \<lparr>ss_history := [stream_frame 0 0]\<rparr>)"

definition run_dropped :: "(nat, unit) stream_system" where
  "run_dropped = (with_stream run_first ((ss_stream run_first)\<lparr>st_pending_drops := 1\<rparr>))\<lparr>ss_recorded := 1\<rparr>"

definition run_second :: "(nat, unit) stream_system" where
  "run_second = (with_stream run_dropped
       (commit_with (ss_stream run_dropped) (small_prepared 2 1) (stream_frame 2 1)))
     \<lparr>ss_history := [stream_frame 2 1, stream_frame 0 0]\<rparr>"

definition run_answered :: "(nat, unit) stream_system" where
  "run_answered = run_second\<lparr>ss_delivered :=
     [(request_newer_than (fr_stamp (stream_frame 0 0)), stream_frame 2 1)]\<rparr>"

definition run_ended :: "(nat, unit) stream_system" where
  "run_ended = with_stream run_answered (terminate CaptureTargetLost (ss_stream run_answered))"

lemmas run_defs = run_first_def run_dropped_def run_second_def run_answered_def run_ended_def Let_def
  stream_system_new_def stream_build_def commit_with_def install_def with_stream_def

lemmas small_defs = small_prepared_def small_stream_def small_descriptor_def stream_frame_def
  prepared_frame_def frame_from_validated_def stamp_new_def

lemma run_first_reachable: "stream_reachable small_stream False run_first"
proof -
  let ?s = "stream_system_new small_stream False :: (nat, unit) stream_system"
  have "prepare (ss_inner ?s) (st_covers_target (ss_stream ?s)) small_descriptor None Continuous None
      (st_pending_drops (ss_stream ?s)) = Inr (small_prepared 0 0)"
    by (simp add: prepare_def resolved_continuity_def next_geometry_def advance_cursor_def cursor_publish_def
        snapshot_for_def frame_validate_def frame_only_def stream_system_new_def stream_build_def cursor_new_def
        small_prepared_def stamp_new_def checked_add_def)
  from publish_run [of ?s 0, OF _ _ this, of instant_origin "()"] show ?thesis
    by (simp add: stream_reachable_def run_first_def Let_def stream_system_new_def stream_frame_def)
qed

lemma run_first_inner:
  "ss_inner run_first = \<lparr>in_cursor = pp_cursor (small_prepared 0 0), in_geometry = revision_first,
      in_latest = Some (stream_frame 0 0), in_lifecycle = LcOpen, in_waiters = 0, in_terminal = None\<rparr>"
  "st_covers_target (ss_stream run_first) = False" "st_published_any (ss_stream run_first)"
  "st_accepting_drops (ss_stream run_first)" "st_pending_drops (ss_stream run_first) = 0"
  "ss_pc run_first = (\<lambda>_. SIdle)" "ss_mutex run_first = None" "ss_recorded run_first = 0"
  "ss_history run_first = [stream_frame 0 0]" "ss_delivered run_first = []"
  by (simp_all add: run_defs small_prepared_def)

lemma run_dropped_reachable: "stream_reachable small_stream False run_dropped"
proof -
  have "try_record_drop (ss_stream run_first) = (Inr True, (ss_stream run_first)\<lparr>st_pending_drops := 1\<rparr>)"
    by (simp add: try_record_drop_def count_drop_def run_first_inner checked_add_def)
  from drop_run [of run_first 0, OF _ this] stream_reachable_step [OF run_first_reachable] show ?thesis
    by (simp add: run_first_inner run_dropped_def)
qed

lemma run_second_reachable: "stream_reachable small_stream False run_second"
proof -
  have "prepare (ss_inner run_dropped) (st_covers_target (ss_stream run_dropped)) small_descriptor None
      Continuous None (st_pending_drops (ss_stream run_dropped)) = Inr (small_prepared 2 1)"
    by (simp add: run_dropped_def run_first_inner prepare_def resolved_continuity_def next_geometry_def
        advance_cursor_def cursor_skip_def cursor_publish_def snapshot_for_def frame_validate_def frame_only_def
        small_defs checked_add_def)
  from publish_run [of run_dropped 0, OF _ _ this, of instant_origin "()"]
    stream_reachable_step [OF run_dropped_reachable]
  show ?thesis
    by (simp add: run_second_def run_dropped_def run_first_inner stream_frame_def)
qed

lemma run_second_inner:
  "ss_inner run_second = \<lparr>in_cursor = pp_cursor (small_prepared 2 1), in_geometry = revision_first,
      in_latest = Some (stream_frame 2 1), in_lifecycle = LcOpen, in_waiters = 0, in_terminal = None\<rparr>"
  "ss_pc run_second = (\<lambda>_. SIdle)" "ss_mutex run_second = None" "ss_delivered run_second = []"
  "ss_recorded run_second = 1" "ss_history run_second = [stream_frame 2 1, stream_frame 0 0]"
  "st_pending_drops (ss_stream run_second) = 0"
  by (simp_all add: run_second_def run_dropped_def run_first_inner commit_with_def install_def small_prepared_def)

lemma run_answered_reachable: "stream_reachable small_stream False run_answered"
proof -
  let ?r = "request_newer_than (fr_stamp (stream_frame 0 0))"
  have "frame_look (ss_inner run_second) ?r = LookCandidate (stream_frame 2 1)"
    "commit_frame_after_operation (ss_inner run_second) (stream_frame 2 1) = Inr ()"
    by (simp_all add: run_second_inner frame_look_def qualifying_def request_newer_than_def stamp_order_def
        is_same_stream_def stamp_order_defs small_defs commit_frame_after_operation_def)
  from frame_run [of run_second 0, OF _ _ this] stream_reachable_step [OF run_second_reachable] show ?thesis
    by (simp add: run_second_inner run_answered_def)
qed

lemma run_ended_reachable: "stream_reachable small_stream False run_ended"
  using terminate_run [of run_answered 0 CaptureTargetLost] stream_reachable_step [OF run_answered_reachable]
  by (simp add: run_answered_def run_ended_def run_second_inner)

theorem stream_frames_ordered_witness:
  "stamp_order (fr_stamp (stream_frame 0 0)) (fr_stamp (stream_frame 2 1)) = Inr Before
   \<and> fr_transform (stream_frame 0 0) = fr_transform (stream_frame 2 1)"
proof -
  let ?f = "stream_frame 0 0" and ?g = "stream_frame 2 1"
  have h: "ss_history run_second = [?g, ?f]" by (simp add: run_second_inner)
  note ordered = stream_frames_ordered [OF run_second_reachable, unfolded h]
  have "stamp_order (fr_stamp ?f) (fr_stamp ?g) = Inr Before"
    using conjunct1 [OF ordered] by simp
  moreover have "fs_geometry (fr_stamp ?f) = fs_geometry (fr_stamp ?g)" by (simp add: small_defs)
  then have "fr_transform ?f = fr_transform ?g"
    using conjunct2 [OF ordered] by (meson list.set_intros)
  ultimately show ?thesis by blast
qed

theorem drops_conserved_witness:
  "visible_drops [stream_frame 2 1, stream_frame 0 0] = 1"
  using drops_conserved [OF run_second_reachable] by (simp add: run_second_inner)

theorem delivered_frames_answer_witness:
  "stamp_order (fr_stamp (stream_frame 2 1)) (fr_stamp (stream_frame 0 0)) = Inr After"
proof -
  have "(request_newer_than (fr_stamp (stream_frame 0 0)), stream_frame 2 1) \<in> set (ss_delivered run_answered)"
    by (simp add: run_answered_def)
  from delivered_frames_answer [OF run_answered_reachable this] show ?thesis
    by (simp add: request_newer_than_def)
qed

theorem stream_end_is_final_witness:
  "ss_history run_ended = [stream_frame 2 1, stream_frame 0 0] \<and> in_lifecycle (ss_inner run_ended) \<noteq> LcOpen
   \<and> in_terminal (ss_inner run_ended) = Some CaptureTargetLost"
proof -
  have e: "in_lifecycle (ss_inner run_ended) \<noteq> LcOpen" "in_terminal (ss_inner run_ended) = Some CaptureTargetLost"
    "ss_history run_ended = [stream_frame 2 1, stream_frame 0 0]"
    by (simp_all add: run_ended_def run_answered_def terminate_def Let_def run_second_inner)
  with stream_end_is_final [OF run_ended_reachable e(1) rtranclp.rtrancl_refl] show ?thesis by simp
qed

theorem stream_threads_progress_witness:
  "frame_look (ss_inner run_ended) request_latest = LookError (capture_error CaptureTargetLost)"
proof -
  have "in_terminal (ss_inner run_ended) = Some CaptureTargetLost"
    by (simp add: run_ended_def run_answered_def terminate_def Let_def run_second_inner)
  with conjunct1 [OF conjunct2 [OF stream_threads_progress [OF run_ended_reachable, of 0 request_latest]]]
  show ?thesis by blast
qed

definition run_closing :: "(nat, unit) stream_system" where
  "run_closing = with_stream (goto run_first 0 CStored) (stop_drops (ss_stream run_first))"

theorem stream_refines_witness:
  "abstract_step (stream_abs run_closing)
     (stream_abs (with_inner (goto run_closing 0 SIdle) (stream_close_section (ss_inner run_closing))))"
proof -
  have "stream_step run_first run_closing"
    unfolding run_closing_def by (rule stream_step.c_store) (simp add: run_first_inner)
  with stream_reachable_step [OF run_first_reachable] have r: "stream_reachable small_stream False run_closing"
    by blast
  have st: "stream_step run_closing
      (with_inner (goto run_closing 0 SIdle) (stream_close_section (ss_inner run_closing)))"
    by (rule stream_step.c_section) (simp_all add: run_closing_def run_first_inner)
  have "stream_abs (with_inner (goto run_closing 0 SIdle) (stream_close_section (ss_inner run_closing)))
      \<noteq> stream_abs run_closing"
    by (simp add: stream_abs_def run_closing_def run_first_inner)
  with stream_refines [OF r st] show ?thesis by blast
qed

end
