(* ===== verification/PixelMapping.thy ===== *)
theory PixelMapping
  imports Frame
begin

text \<open>
  CPU mappings of a frame's pixels: \<open>crates/automation/capture/src/mapping.rs\<close> and the reuse of live
  copies in \<open>mapping_cache.rs\<close>. A handle to CPU pixels is the allocation's identity with its immutable
  bytes. What the storage answers, the look at the operation's clock and token, the liveness of a weak
  handle, the outcome of a \<open>try_lock\<close> and what other mappers did to the cache in between are fields of
  an environment.
\<close>

section \<open>Copying a region\<close>

text \<open>\<open>slice.get(start..end)\<close>, and writing through \<open>get_mut(start..end)\<close>.\<close>

definition get_range :: "nat \<Rightarrow> nat \<Rightarrow> 'a list \<Rightarrow> 'a list option" where
  "get_range start stop xs =
     (if start \<le> stop \<and> stop \<le> length xs then Some (take (stop - start) (drop start xs)) else None)"

definition put_range :: "nat \<Rightarrow> nat \<Rightarrow> 'a list \<Rightarrow> 'a list \<Rightarrow> 'a list option" where
  "put_range start stop row xs =
     (if start \<le> stop \<and> stop \<le> length xs then Some (take start xs @ row @ drop stop xs) else None)"

fun swap_red_and_blue :: "bytes \<Rightarrow> bytes" where
  "swap_red_and_blue (r # g # b # a # rest) = b # g # r # a # swap_red_and_blue rest"
| "swap_red_and_blue rest = rest"

definition source_offset :: "frame_descriptor \<Rightarrow> nat \<Rightarrow> nat \<Rightarrow> nat \<Rightarrow> nat option" where
  "source_offset source tp column_bytes row =
     Option.bind (usize_add tp row) (\<lambda>line.
     Option.bind (usize_mul line (fd_stride source)) (\<lambda>offset.
       usize_add offset column_bytes))"

text \<open>The rows from \<open>row\<close> on, \<open>n\<close> of them.\<close>

fun copy_rows ::
    "frame_descriptor \<Rightarrow> bytes \<Rightarrow> nat \<Rightarrow> nat \<Rightarrow> nat \<Rightarrow> nat \<Rightarrow> nat \<Rightarrow> bytes \<Rightarrow> capture_fault + bytes" where
  "copy_rows source px tp column_bytes rb 0 row out = Inr out"
| "copy_rows source px tp column_bytes rb (Suc n) row out =
     and_then (ok_or InconsistentDescriptor (source_offset source tp column_bytes row)) (\<lambda>source_start.
     and_then (ok_or InconsistentDescriptor (usize_add source_start rb)) (\<lambda>source_end.
     and_then (ok_or ByteLengthMismatch (get_range source_start source_end px)) (\<lambda>source_row.
     and_then (ok_or InconsistentDescriptor (usize_mul row rb)) (\<lambda>target_start.
     and_then (ok_or InconsistentDescriptor (usize_add target_start rb)) (\<lambda>target_end.
     and_then (ok_or ByteLengthMismatch (put_range target_start target_end source_row out)) (\<lambda>out.
       copy_rows source px tp column_bytes rb n (Suc row) out))))))"

definition copy_region ::
    "frame_descriptor \<Rightarrow> bytes \<Rightarrow> pixel_rect \<Rightarrow> frame_descriptor \<Rightarrow> capture_fault + bytes" where
  "copy_region source px region d =
     and_then (ok_or RegionOutsideFrame (usize_of_i32 (pr_left region))) (\<lambda>left.
     and_then (ok_or RegionOutsideFrame (usize_of_i32 (pr_top region))) (\<lambda>tp.
     and_then (ok_or InconsistentDescriptor (usize_mul left (bytes_per_pixel (fd_format d)))) (\<lambda>column_bytes.
     and_then (copy_rows source px tp column_bytes (row_bytes d) (unat (px_height (fd_extent d))) 0
                 (replicate (byte_len d) 0)) (\<lambda>out.
       Inr (if needs_swap (fd_format source) (fd_format d) then swap_red_and_blue out else out)))))"

section \<open>The cache of live copies\<close>

record cpu_pixels =
  px_id :: nat
  px_bytes :: bytes

record cache_entry =
  ce_region :: pixel_rect
  ce_descriptor :: frame_descriptor
  ce_pixels :: cpu_pixels

type_synonym mapping_cache = "cache_entry option list"

definition cache_new :: mapping_cache where
  "cache_new = replicate 4 None"

fun find_index :: "('a \<Rightarrow> bool) \<Rightarrow> 'a list \<Rightarrow> nat option" where
  "find_index P [] = None"
| "find_index P (x # xs) = (if P x then Some 0 else map_option Suc (find_index P xs))"

text \<open>\<open>entries[..=index].rotate_right(1)\<close>.\<close>

definition rotate_front :: "nat \<Rightarrow> 'a list \<Rightarrow> 'a list" where
  "rotate_front i xs = xs ! i # take i xs @ drop (Suc i) xs"

fun entry_matches :: "pixel_rect \<Rightarrow> frame_descriptor \<Rightarrow> cache_entry option \<Rightarrow> bool" where
  "entry_matches region d None = False"
| "entry_matches region d (Some e) = (ce_region e = region \<and> ce_descriptor e = d)"

fun upgrade :: "(nat \<Rightarrow> bool) \<Rightarrow> cache_entry option \<Rightarrow> cpu_pixels option" where
  "upgrade live None = None"
| "upgrade live (Some e) = (if live (px_id (ce_pixels e)) then Some (ce_pixels e) else None)"

fun entry_free :: "(nat \<Rightarrow> bool) \<Rightarrow> cache_entry option \<Rightarrow> bool" where
  "entry_free live None = True"
| "entry_free live (Some e) = (\<not> live (px_id (ce_pixels e)))"

text \<open>\<open>locked\<close> says that the \<open>try_lock\<close> fails.\<close>

definition cache_find ::
    "bool \<Rightarrow> (nat \<Rightarrow> bool) \<Rightarrow> pixel_rect \<Rightarrow> frame_descriptor \<Rightarrow> mapping_cache
     \<Rightarrow> cpu_pixels option \<times> mapping_cache" where
  "cache_find locked live region d c =
     (if locked then (None, c)
      else (case find_index (entry_matches region d) c of
              None \<Rightarrow> (None, c)
            | Some i \<Rightarrow>
                (case upgrade live (c ! i) of
                   None \<Rightarrow> (None, c)
                 | Some p \<Rightarrow> (Some p, rotate_front i c))))"

definition cache_publish ::
    "bool \<Rightarrow> (nat \<Rightarrow> bool) \<Rightarrow> pixel_rect \<Rightarrow> frame_descriptor \<Rightarrow> cpu_pixels \<Rightarrow> mapping_cache
     \<Rightarrow> cpu_pixels \<times> mapping_cache" where
  "cache_publish locked live region d p c =
     (if locked then (p, c)
      else let matching = find_index (entry_matches region d) c;
               winner = Option.bind matching (\<lambda>i. upgrade live (c ! i))
           in (case (matching, winner) of
                 (Some i, Some w) \<Rightarrow> (w, rotate_front i c)
               | _ \<Rightarrow>
                   (let i = (case matching of
                               Some i \<Rightarrow> i
                             | None \<Rightarrow> (case find_index (entry_free live) c of
                                         Some j \<Rightarrow> j
                                       | None \<Rightarrow> length c - 1))
                    in (p, rotate_front i
                          (c[i := Some \<lparr>ce_region = region, ce_descriptor = d, ce_pixels = p\<rparr>])))))"

section \<open>Mapping a region\<close>

text \<open>One operation of another mapper on the same frame's cache.\<close>

datatype cache_op =
    OtherFind bool "nat \<Rightarrow> bool" pixel_rect frame_descriptor
  | OtherPublish bool "nat \<Rightarrow> bool" pixel_rect frame_descriptor cpu_pixels

fun cache_step :: "cache_op \<Rightarrow> mapping_cache \<Rightarrow> mapping_cache" where
  "cache_step (OtherFind locked live region d) c = snd (cache_find locked live region d c)"
| "cache_step (OtherPublish locked live region d p) c = snd (cache_publish locked live region d p c)"

record 'w mapping_env =
  me_look :: "'w \<Rightarrow> observation \<times> 'w"
  me_cpu_pixels :: "cpu_pixels option"
  me_read_cpu :: "operation_context \<Rightarrow> 'w \<Rightarrow> (error + cpu_pixels) \<times> 'w"
  me_reserve :: "nat \<Rightarrow> 'w \<Rightarrow> (error + unit) \<times> 'w"
  me_alloc :: "'w \<Rightarrow> nat \<times> 'w"
  me_live :: "'w \<Rightarrow> nat \<Rightarrow> bool"
  me_locked :: "'w \<Rightarrow> bool"
  me_others :: "'w \<Rightarrow> cache_op list"

datatype mapping_storage = Shared cpu_pixels | Owned cpu_pixels

record cpu_mapping =
  mp_stamp :: frame_stamp
  mp_transform :: transform_snapshot
  mp_region :: pixel_rect
  mp_descriptor :: frame_descriptor
  mp_storage :: mapping_storage

fun storage_pixels :: "mapping_storage \<Rightarrow> cpu_pixels" where
  "storage_pixels (Shared p) = p"
| "storage_pixels (Owned p) = p"

definition mapping_bytes :: "cpu_mapping \<Rightarrow> bytes" where
  "mapping_bytes m = px_bytes (storage_pixels (mp_storage m))"

fun storage_is_shared :: "mapping_storage \<Rightarrow> bool" where
  "storage_is_shared (Shared p) = True"
| "storage_is_shared (Owned p) = False"

text \<open>
  What is to be produced: whether it is the frame's own layout, and the descriptor of the mapped image.
  \<open>None\<close> is the panic of a region whose dimensions do not fit.
\<close>

definition mapping_target ::
    "'p frame \<Rightarrow> pixel_rect \<Rightarrow> pixel_format \<Rightarrow> (capture_fault + bool \<times> frame_descriptor) option" where
  "mapping_target f region format =
     (let source = fr_descriptor f
      in case bounds f of
           Inl e \<Rightarrow> Some (Inl e)
         | Inr b \<Rightarrow>
             (if pixel_rect_is_empty region \<or> \<not> contains_rect b region then Some (Inl RegionOutsideFrame)
              else if region = b \<and> fd_format source = format then Some (Inr (True, source))
              else if bytes_per_pixel (fd_format source) \<noteq> bytes_per_pixel format
              then Some (Inl UnsupportedFormat)
              else map_option (\<lambda>e. map_sum id (Pair False) (descriptor_packed e format))
                     (pixel_rect_extent region)))"

definition look_checkpoint ::
    "'w mapping_env \<Rightarrow> operation \<Rightarrow> 'w \<Rightarrow> (error + unit) \<times> operation \<times> 'w" where
  "look_checkpoint env att w =
     (let (ob, w) = me_look env w; (r, att) = checkpoint att ob
      in (map_err interruption_error r, att, w))"

definition source_pixels ::
    "'w mapping_env \<Rightarrow> operation_context \<Rightarrow> operation \<Rightarrow> 'w
     \<Rightarrow> (error + cpu_pixels \<times> bool) \<times> operation \<times> 'w" where
  "source_pixels env c att w =
     (case me_cpu_pixels env of
        Some p \<Rightarrow> (Inr (p, True), att, w)
      | None \<Rightarrow>
          (case me_read_cpu env c w of
             (Inl e, w) \<Rightarrow> (Inl e, att, w)
           | (Inr p, w) \<Rightarrow>
               (let (r, att, w) = look_checkpoint env att w
                in (and_then r (\<lambda>_. Inr (p, False)), att, w))))"

definition build_copy ::
    "'w mapping_env \<Rightarrow> frame_descriptor \<Rightarrow> pixel_rect \<Rightarrow> frame_descriptor \<Rightarrow> cpu_pixels \<Rightarrow> operation
     \<Rightarrow> mapping_cache \<Rightarrow> 'w \<Rightarrow> (error + cpu_pixels) \<times> operation \<times> mapping_cache \<times> 'w" where
  "build_copy env source region d p att cache w =
     (case me_reserve env (byte_len d) w of
        (Inl e, w) \<Rightarrow> (Inl e, att, cache, w)
      | (Inr _, w) \<Rightarrow>
          (case copy_region source (px_bytes p) region d of
             Inl e \<Rightarrow> (Inl (capture_error e), att, cache, w)
           | Inr copied \<Rightarrow>
               (let (i, w) = me_alloc env w;
                    (r, att, w) = look_checkpoint env att w
                in case r of
                     Inl e \<Rightarrow> (Inl e, att, cache, w)
                   | Inr _ \<Rightarrow>
                       (let cache = fold cache_step (me_others env w) cache;
                            (winner, cache) = cache_publish (me_locked env w) (me_live env w) region d
                                                \<lparr>px_id = i, px_bytes = copied\<rparr> cache
                        in (Inr winner, att, cache, w)))))"

definition mapping_storage_for ::
    "'w mapping_env \<Rightarrow> frame_descriptor \<Rightarrow> pixel_rect \<Rightarrow> bool \<Rightarrow> frame_descriptor \<Rightarrow> operation_context
     \<Rightarrow> operation \<Rightarrow> mapping_cache \<Rightarrow> 'w
     \<Rightarrow> (error + mapping_storage) \<times> operation \<times> mapping_cache \<times> 'w" where
  "mapping_storage_for env source region unconverted d c att cache w =
     (let (cached, cache) =
            (if unconverted then (None, cache)
             else cache_find (me_locked env w) (me_live env w) region d cache)
      in case cached of
           Some p \<Rightarrow> (Inr (Owned p), att, cache, w)
         | None \<Rightarrow>
             (case source_pixels env c att w of
                (Inl e, att, w) \<Rightarrow> (Inl e, att, cache, w)
              | (Inr (p, shared), att, w) \<Rightarrow>
                  (if unconverted then (Inr (if shared then Shared p else Owned p), att, cache, w)
                   else (case build_copy env source region d p att cache w of
                           (r, att, cache, w) \<Rightarrow> (and_then r (\<lambda>p. Inr (Owned p)), att, cache, w)))))"

definition map_region ::
    "'w mapping_env \<Rightarrow> 'p frame \<Rightarrow> pixel_rect \<Rightarrow> pixel_format \<Rightarrow> operation_context \<Rightarrow> mapping_cache \<Rightarrow> 'w
     \<Rightarrow> ((error + cpu_mapping) \<times> mapping_cache \<times> 'w) option" where
  "map_region env f region format c cache w =
     (let (ob, w) = me_look env w
      in case admit c ob of
           Inl i \<Rightarrow> Some (Inl (interruption_error i), cache, w)
         | Inr att \<Rightarrow>
             (case mapping_target f region format of
                None \<Rightarrow> None
              | Some (Inl e) \<Rightarrow> Some (Inl (capture_error e), cache, w)
              | Some (Inr (unconverted, d)) \<Rightarrow>
                  (case mapping_storage_for env (fr_descriptor f) region unconverted d c att cache w of
                     (Inl e, att, cache, w) \<Rightarrow> Some (Inl e, cache, w)
                   | (Inr storage, att, cache, w) \<Rightarrow>
                       (let (ob, w) = me_look env w
                        in Some (map_err interruption_error
                                   (commit att ob
                                      \<lparr>mp_stamp = fr_stamp f, mp_transform = fr_transform f,
                                       mp_region = region, mp_descriptor = d, mp_storage = storage\<rparr>),
                                 cache, w)))))"

definition frame_map ::
    "'w mapping_env \<Rightarrow> 'p frame \<Rightarrow> pixel_format \<Rightarrow> operation_context \<Rightarrow> mapping_cache \<Rightarrow> 'w
     \<Rightarrow> ((error + cpu_mapping) \<times> mapping_cache \<times> 'w) option" where
  "frame_map env f format c cache w =
     (case bounds f of
        Inl e \<Rightarrow> Some (Inl (capture_error e), cache, w)
      | Inr b \<Rightarrow> map_region env f b format c cache w)"

definition view_map ::
    "'w mapping_env \<Rightarrow> 'p frame_view \<Rightarrow> pixel_format \<Rightarrow> operation_context \<Rightarrow> mapping_cache \<Rightarrow> 'w
     \<Rightarrow> ((error + cpu_mapping) \<times> mapping_cache \<times> 'w) option" where
  "view_map env v format c cache w = map_region env (fv_frame v) (fv_region v) format c cache w"

section \<open>The copy is the region\<close>

text \<open>One byte of a pixel in a buffer of rows, and where a channel goes when red and blue change places.\<close>

definition pixel_byte :: "nat \<Rightarrow> bytes \<Rightarrow> nat \<Rightarrow> nat \<Rightarrow> nat \<Rightarrow> u8" where
  "pixel_byte stride px x y ch = px ! (y * stride + (x * 4 + ch))"

definition swapped_channel :: "nat \<Rightarrow> nat" where
  "swapped_channel ch = (if ch = 0 then 2 else if ch = 2 then 0 else ch)"

lemma length_swap_red_and_blue [simp]: "length (swap_red_and_blue xs) = length xs"
  by (induction xs rule: swap_red_and_blue.induct) simp_all

lemma nth_swap_red_and_blue:
  "length xs = 4 * n \<Longrightarrow> i < n \<Longrightarrow> ch < 4 \<Longrightarrow>
     swap_red_and_blue xs ! (4 * i + ch) = xs ! (4 * i + swapped_channel ch)"
proof (induction n arbitrary: xs i)
  case 0
  then show ?case by simp
next
  case (Suc n)
  then obtain r g b a rest where xs: "xs = r # g # b # a # rest" "length rest = 4 * n"
    by (auto simp: length_Suc_conv numeral_eq_Suc)
  show ?case
  proof (cases i)
    case 0
    with Suc.prems(3) xs show ?thesis
      by (auto simp: swapped_channel_def numeral_eq_Suc less_Suc_eq)
  next
    case (Suc j)
    with Suc.prems have "j < n" by simp
    from Suc.IH [OF xs(2) this \<open>ch < 4\<close>] xs Suc show ?thesis
      by (simp add: numeral_eq_Suc)
  qed
qed

lemma length_concat_rows:
  "(\<And>r. r < h \<Longrightarrow> length (f r) = n) \<Longrightarrow> length (concat (map f [0..<h])) = h * n"
  by (induction h) simp_all

lemma nth_concat_rows:
  "(\<And>r. r < h \<Longrightarrow> length (f r) = n) \<Longrightarrow> y < h \<Longrightarrow> i < n \<Longrightarrow>
     concat (map f [0..<h]) ! (y * n + i) = f y ! i"
proof (induction h)
  case 0
  then show ?case by simp
next
  case (Suc h)
  have len: "length (concat (map f [0..<h])) = h * n"
    by (rule length_concat_rows) (simp add: Suc.prems(1))
  show ?case
  proof (cases "y = h")
    case True
    with len show ?thesis by (simp add: nth_append)
  next
    case False
    with Suc.prems have y: "y < h" by simp
    then have "Suc y * n \<le> h * n" by (intro mult_le_mono1) simp
    with Suc.prems(3) have "y * n + i < h * n" by simp
    with len y Suc show ?thesis by (simp add: nth_append)
  qed
qed

definition region_row :: "frame_descriptor \<Rightarrow> bytes \<Rightarrow> nat \<Rightarrow> nat \<Rightarrow> nat \<Rightarrow> nat \<Rightarrow> bytes" where
  "region_row source px tp column_bytes rb row =
     take rb (drop ((tp + row) * fd_stride source + column_bytes) px)"


lemma source_offset_Some:
  "(tp + row) * fd_stride source + column_bytes < usize_limit \<Longrightarrow> 0 < fd_stride source \<Longrightarrow>
     source_offset source tp column_bytes row = Some ((tp + row) * fd_stride source + column_bytes)"
proof -
  assume lt: "(tp + row) * fd_stride source + column_bytes < usize_limit" and pos: "0 < fd_stride source"
  have "(tp + row) * 1 \<le> (tp + row) * fd_stride source" using pos by (intro mult_le_mono2) simp
  moreover have "(tp + row) * fd_stride source < usize_limit" using lt by (rule le_less_trans [OF le_add1])
  ultimately have "tp + row < usize_limit" "(tp + row) * fd_stride source < usize_limit"
    by (metis le_less_trans nat_mult_1_right)+
  with lt show ?thesis by (simp add: source_offset_def usize_add_def usize_mul_def)
qed

lemma copy_rows_correct:
  assumes "0 < fd_stride source" "length px < usize_limit"
  shows "(\<And>r. r < n \<Longrightarrow> (tp + (row + r)) * fd_stride source + column_bytes + rb \<le> length px) \<Longrightarrow>
    length out = (row + n) * rb \<Longrightarrow> length out < usize_limit \<Longrightarrow>
    copy_rows source px tp column_bytes rb n row out =
      Inr (take (row * rb) out @ concat (map (\<lambda>r. region_row source px tp column_bytes rb (row + r)) [0..<n]))"
proof (induction n arbitrary: row out)
  case 0
  then show ?case by simp
next
  case (Suc n)
  let ?start = "(tp + row) * fd_stride source + column_bytes"
  have first: "?start + rb \<le> length px" using Suc.prems(1) [of 0] by simp
  then have so: "source_offset source tp column_bytes row = Some ?start"
    using assms by (intro source_offset_Some) linarith+
  have se: "usize_add ?start rb = Some (?start + rb)"
    using first assms by (simp add: usize_add_def)
  have gr: "get_range ?start (?start + rb) px = Some (region_row source px tp column_bytes rb row)"
    using first by (simp add: get_range_def region_row_def)
  have fits: "row * rb + rb \<le> length out" using Suc.prems(2) by simp
  then have ts: "usize_mul row rb = Some (row * rb)" "usize_add (row * rb) rb = Some (row * rb + rb)"
    using Suc.prems(3) by (simp_all add: usize_mul_def usize_add_def)
  let ?out = "take (row * rb) out @ region_row source px tp column_bytes rb row @ drop (row * rb + rb) out"
  have pr: "put_range (row * rb) (row * rb + rb) (region_row source px tp column_bytes rb row) out = Some ?out"
    using fits by (simp add: put_range_def)
  have lr: "length (region_row source px tp column_bytes rb row) = rb"
    using first by (simp add: region_row_def)
  have len: "length ?out = length out" using fits lr by simp
  have "copy_rows source px tp column_bytes rb n (Suc row) ?out
      = Inr (take (Suc row * rb) ?out
             @ concat (map (\<lambda>r. region_row source px tp column_bytes rb (Suc row + r)) [0..<n]))"
    using Suc.prems by (intro Suc.IH) (use Suc.prems(1) [of "Suc _"] len in simp_all)
  moreover have "take (Suc row * rb) ?out = take (row * rb) out @ region_row source px tp column_bytes rb row"
    using fits lr by simp
  moreover have "map (\<lambda>r. region_row source px tp column_bytes rb (row + r)) [0..<Suc n]
     = region_row source px tp column_bytes rb row
       # map (\<lambda>r. region_row source px tp column_bytes rb (Suc row + r)) [0..<n]"
    by (simp add: upt_conv_Cons map_Suc_upt [symmetric] del: upt_Suc)
  ultimately show ?case
    by (simp add: so se gr ts pr del: upt_Suc)
qed


text \<open>A region that may be mapped: a rectangle inside the frame with at least one pixel.\<close>

definition mappable :: "frame_descriptor \<Rightarrow> pixel_rect \<Rightarrow> bool" where
  "mappable source region \<longleftrightarrow> fits_i32 (fd_extent source) \<and> valid_pixel_rect region
     \<and> contains_rect (frame_rect (fd_extent source)) region \<and> \<not> pixel_rect_is_empty region"

text \<open>Where the region lies, as natural numbers: its corner, its size, and that it is inside.\<close>

lemma mappable_region:
  assumes "mappable source region" and "pixel_rect_extent region = Some e"
  obtains l tp where "pr_left region = int l" "pr_top region = int tp"
    "l + unat (px_width e) \<le> unat (px_width (fd_extent source))"
    "tp + unat (px_height e) \<le> unat (px_height (fd_extent source))"
    "0 < unat (px_width e)" "0 < unat (px_height e)"
proof -
  have v: "valid_pixel_rect region" and c: "contains_rect (frame_rect (fd_extent source)) region"
    and ne: "\<not> pixel_rect_is_empty region"
    using assms(1) by (simp_all add: mappable_def)
  obtain w h where wh: "pixel_rect_width region = Some w" "pixel_rect_height region = Some h"
    and u: "uint w = pr_right region - pr_left region" "uint h = pr_bottom region - pr_top region"
    using pixel_rect_spans [OF v] .
  from wh assms(2) have e: "px_width e = w" "px_height e = h"
    by (auto simp: pixel_rect_extent_def pixel_extent_new_def)
  have pos: "w \<noteq> 0" "h \<noteq> 0" using ne wh by (simp_all add: pixel_rect_is_empty_def)
  have b: "0 \<le> pr_left region" "0 \<le> pr_top region"
    "pr_right region \<le> uint (px_width (fd_extent source))"
    "pr_bottom region \<le> uint (px_height (fd_extent source))"
    using c by (simp_all add: contains_rect_def frame_rect_def)
  show ?thesis
  proof (rule that [of "nat (pr_left region)" "nat (pr_top region)"])
    show "pr_left region = int (nat (pr_left region))" "pr_top region = int (nat (pr_top region))"
      using b by simp_all
    show "nat (pr_left region) + unat (px_width e) \<le> unat (px_width (fd_extent source))"
    proof -
      have "pr_left region + uint (px_width e) \<le> uint (px_width (fd_extent source))" using u(1) b e by simp
      then show ?thesis
        unfolding unat_eq_nat_uint using b(1) by (metis nat_add_distrib nat_mono uint_ge_0)
    qed
    show "nat (pr_top region) + unat (px_height e) \<le> unat (px_height (fd_extent source))"
    proof -
      have "pr_top region + uint (px_height e) \<le> uint (px_height (fd_extent source))" using u(2) b e by simp
      then show ?thesis
        unfolding unat_eq_nat_uint using b(2) by (metis nat_add_distrib nat_mono uint_ge_0)
    qed
    show "0 < unat (px_width e)" "0 < unat (px_height e)"
      using pos e by (simp_all add: unat_gt_0)
  qed
qed

lemma row_inside:
  fixes stride :: nat
  assumes "y < h" "c \<le> stride"
  shows "y * stride + c \<le> stride * h"
proof -
  have "Suc y * stride \<le> h * stride" using assms(1) by (intro mult_le_mono1) simp
  with assms(2) show ?thesis by (simp add: mult.commute)
qed


lemma descriptor_packed_Inr:
  assumes "descriptor_packed e f = Inr d"
  shows "d = \<lparr>fd_extent = e, fd_format = f, fd_stride = unat (px_width e) * 4\<rparr>" "valid_descriptor d"
    "byte_len d = unat (px_height e) * (unat (px_width e) * 4)"
proof -
  show d: "d = \<lparr>fd_extent = e, fd_format = f, fd_stride = unat (px_width e) * 4\<rparr>"
    and v: "valid_descriptor d"
    using assms by (auto simp: descriptor_packed_def descriptor_new_Inr)
  show "byte_len d = unat (px_height e) * (unat (px_width e) * 4)"
    using byte_len_valid [OF v] d by (simp add: mult.commute)
qed

text \<open>The copy before the channels are exchanged.\<close>

lemma copy_region_rows:
  assumes "valid_descriptor source" "length px = byte_len source"
    and "pr_left region = int l" "pr_top region = int tp"
    and "l + unat (px_width e) \<le> unat (px_width (fd_extent source))"
    and "tp + unat (px_height e) \<le> unat (px_height (fd_extent source))"
    and "descriptor_packed e f = Inr d"
  shows "copy_region source px region d =
     Inr ((if needs_swap (fd_format source) f then swap_red_and_blue else id)
            (concat (map (region_row source px tp (l * 4) (unat (px_width e) * 4)) [0..<unat (px_height e)])))"
    "r < unat (px_height e) \<Longrightarrow> (tp + r) * fd_stride source + l * 4 + unat (px_width e) * 4 \<le> length px"
proof -
  note d = descriptor_packed_Inr [OF assms(7)]
  let ?s = "fd_stride source" and ?h = "unat (px_height e)" and ?rb = "unat (px_width e) * 4"
  have len: "length px = ?s * unat (px_height (fd_extent source))" "length px < usize_limit"
    using assms(1,2) by (simp_all add: valid_descriptor_def)
  have w: "l * 4 + ?rb \<le> ?s" using assms(1,5) by (simp add: valid_descriptor_def)
  have inside: "(tp + r) * ?s + l * 4 + ?rb \<le> length px" if "r < ?h" for r
  proof -
    have "tp + r < unat (px_height (fd_extent source))" using that assms(6) by simp
    from row_inside [OF this w] show ?thesis by (simp add: len(1) add.assoc)
  qed
  then show "r < ?h \<Longrightarrow> (tp + r) * ?s + l * 4 + ?rb \<le> length px" .
  have pos: "0 < ?s"
  proof -
    have "0 < unat (px_width (fd_extent source))"
      using assms(1) by (simp add: valid_descriptor_def extent_is_empty_def unat_gt_0)
    with assms(1) show ?thesis by (simp add: valid_descriptor_def)
  qed
  have bl: "byte_len d < usize_limit" using d(2) by (simp add: valid_descriptor_def)
  have "unat (px_width (fd_extent source)) < 2 ^ 32"
    using unsigned_less [of "px_width (fd_extent source)"] by simp
  with assms(5) have "l < 2 ^ 32" by simp
  then have col: "usize_mul l 4 = Some (l * 4)" by (simp add: usize_mul_def usize_limit_def)
  have "copy_rows source px tp (l * 4) ?rb ?h 0 (replicate (byte_len d) 0)
      = Inr (take (0 * ?rb) (replicate (byte_len d) 0)
             @ concat (map (\<lambda>r. region_row source px tp (l * 4) ?rb (0 + r)) [0..<?h]))"
    using inside d bl by (intro copy_rows_correct [OF pos len(2)]) simp_all
  then show "copy_region source px region d =
     Inr ((if needs_swap (fd_format source) f then swap_red_and_blue else id)
            (concat (map (region_row source px tp (l * 4) ?rb) [0..<?h])))"
    using assms(3,4) d(1) by (simp add: copy_region_def usize_of_i32_def col)
qed


lemma nth_region_row:
  "(tp + r) * fd_stride source + column_bytes + rb \<le> length px \<Longrightarrow> i < rb \<Longrightarrow>
     region_row source px tp column_bytes rb r ! i = px ! ((tp + r) * fd_stride source + (column_bytes + i))"
  by (simp add: region_row_def add.assoc)

lemma length_region_row:
  "(tp + r) * fd_stride source + column_bytes + rb \<le> length px \<Longrightarrow>
     length (region_row source px tp column_bytes rb r) = rb"
  by (simp add: region_row_def)

lemma region_copied:
  assumes "valid_descriptor source" and "length px = byte_len source" and "mappable source region"
    and "pixel_rect_extent region = Some e" and "descriptor_packed e f = Inr d"
  shows "\<exists>out. copy_region source px region d = Inr out \<and> length out = byte_len d
    \<and> (\<forall>x y ch. x < unat (px_width e) \<and> y < unat (px_height e) \<and> ch < 4 \<longrightarrow>
         pixel_byte (fd_stride d) out x y ch =
         pixel_byte (fd_stride source) px (nat (pr_left region) + x) (nat (pr_top region) + y)
           (if needs_swap (fd_format source) f then swapped_channel ch else ch))"
proof (rule mappable_region [OF assms(3,4)])
  fix l tp
  assume at: "pr_left region = int l" "pr_top region = int tp"
    and inx: "l + unat (px_width e) \<le> unat (px_width (fd_extent source))"
    and iny: "tp + unat (px_height e) \<le> unat (px_height (fd_extent source))"
  let ?w = "unat (px_width e)" and ?h = "unat (px_height e)" and ?sw = "needs_swap (fd_format source) f"
  let ?rb = "?w * 4"
  let ?row = "region_row source px tp (l * 4) ?rb"
  let ?rows = "concat (map ?row [0..<?h])"
  note d = descriptor_packed_Inr [OF assms(5)]
  note copied = copy_region_rows [OF assms(1,2) at inx iny assms(5)]
  have rowlen: "length (?row r) = ?rb" if "r < ?h" for r
    using copied(2) [OF that] by (rule length_region_row)
  have len: "length ?rows = ?h * ?rb" by (rule length_concat_rows) (rule rowlen)
  have at_row: "?rows ! (y * ?rb + (x * 4 + ch)) = pixel_byte (fd_stride source) px (l + x) (tp + y) ch"
    if "x < ?w" "y < ?h" "ch < 4" for x y ch
  proof -
    have i: "x * 4 + ch < ?rb" using that by simp
    have "?rows ! (y * ?rb + (x * 4 + ch)) = ?row y ! (x * 4 + ch)"
      by (rule nth_concat_rows [OF rowlen that(2) i])
    also have "\<dots> = px ! ((tp + y) * fd_stride source + (l * 4 + (x * 4 + ch)))"
      by (rule nth_region_row [OF copied(2) [OF that(2)] i])
    finally show ?thesis by (simp add: pixel_byte_def algebra_simps)
  qed
  have swapped: "swap_red_and_blue ?rows ! (y * ?rb + (x * 4 + ch))
      = ?rows ! (y * ?rb + (x * 4 + swapped_channel ch))"
    if "x < ?w" "y < ?h" "ch < 4" for x y ch
  proof -
    have "y * ?w + x < ?h * ?w"
      using that row_inside [of y ?h "x + 1" ?w] by (simp add: mult.commute)
    then show ?thesis
      using nth_swap_red_and_blue [of ?rows "?h * ?w" "y * ?w + x" ch] len that(3)
      by (simp add: algebra_simps)
  qed
  have ch': "swapped_channel ch < 4" if "ch < 4" for ch using that by (simp add: swapped_channel_def)
  let ?out = "(if ?sw then swap_red_and_blue else id) ?rows"
  have "length ?out = byte_len d" using len d(3) by simp
  moreover have "pixel_byte (fd_stride d) ?out x y ch = pixel_byte (fd_stride source) px (l + x) (tp + y)
      (if ?sw then swapped_channel ch else ch)" if "x < ?w" "y < ?h" "ch < 4" for x y ch
    using that swapped [OF that] at_row [OF that] at_row [OF that(1,2) ch' [OF that(3)]] d(1)
    by (simp add: pixel_byte_def)
  ultimately show ?thesis using copied(1) at by simp
qed

text \<open>
  Copying a region that lies in its frame never fails and never reads outside the frame's buffer,
  whatever the row padding: the packed result holds, for every pixel of the region and every channel, the
  byte of the frame at that place, red and blue exchanged when the formats differ.
\<close>

theorem copy_region_exact:
  assumes "valid_descriptor source" and "length px = byte_len source" and "mappable source region"
    and "pixel_rect_extent region = Some e" and "descriptor_packed e f = Inr d"
  shows "\<exists>out. copy_region source px region d = Inr out \<and> length out = byte_len d
    \<and> (\<forall>x y ch. x < unat (px_width e) \<and> y < unat (px_height e) \<and> ch < 4 \<longrightarrow>
         pixel_byte (fd_stride d) out x y ch =
         pixel_byte (fd_stride source) px (nat (pr_left region) + x) (nat (pr_top region) + y)
           (if needs_swap (fd_format source) f then swapped_channel ch else ch))"
  by (rule region_copied [OF assms])

text \<open>A padded two-by-two frame, and its right column as blue-green-red.\<close>

definition padded_source :: frame_descriptor where
  "padded_source = \<lparr>fd_extent = \<lparr>px_width = 2, px_height = 2\<rparr>, fd_format = Rgba8, fd_stride = 9\<rparr>"

theorem copy_region_exact_witness:
  "\<exists>out. copy_region padded_source [1,2,3,4, 5,6,7,8, 0, 11,12,13,14, 15,16,17,18, 0]
           \<lparr>pr_left = 1, pr_top = 0, pr_right = 2, pr_bottom = 2\<rparr>
           \<lparr>fd_extent = \<lparr>px_width = 1, px_height = 2\<rparr>, fd_format = Bgra8, fd_stride = 4\<rparr> = Inr out
     \<and> length out = 8 \<and> pixel_byte 4 out 0 1 0 = 17"
proof -
  let ?px = "[1,2,3,4, 5,6,7,8, 0, 11,12,13,14, 15,16,17,18, 0] :: bytes"
  let ?r = "\<lparr>pr_left = 1, pr_top = 0, pr_right = 2, pr_bottom = 2\<rparr>"
  let ?e = "\<lparr>px_width = 1, px_height = 2\<rparr>"
  let ?d = "\<lparr>fd_extent = ?e, fd_format = Bgra8, fd_stride = 4\<rparr>"
  have v: "valid_descriptor padded_source" "valid_descriptor ?d"
    by (simp_all add: valid_descriptor_def padded_source_def extent_is_empty_def usize_limit_def)
  have l: "length ?px = byte_len padded_source"
    using v(1) by (simp add: byte_len_valid padded_source_def)
  have sp: "pixel_rect_width ?r = Some 1" "pixel_rect_height ?r = Some 2"
    by (simp_all add: pixel_rect_width_def pixel_rect_height_def u32_of_i64_def)
  then have e: "pixel_rect_extent ?r = Some ?e"
    by (simp add: pixel_rect_extent_def pixel_extent_new_def)
  have m: "mappable padded_source ?r"
    using sp by (simp add: mappable_def padded_source_def fits_i32_def valid_pixel_rect_def in_i32_def
      i32_min_def i32_max_def contains_rect_def frame_rect_def pixel_rect_is_empty_def)
  have d: "descriptor_packed ?e Bgra8 = Inr ?d"
    using v(2) by (simp add: descriptor_packed_def descriptor_new_Inr)
  have ch: "pixel_byte 9 ?px 1 1 2 = 17" by (simp add: pixel_byte_def)
  obtain out where o: "copy_region padded_source ?px ?r ?d = Inr out" "length out = byte_len ?d"
    and px: "\<forall>x y ch. x < unat (px_width ?e) \<and> y < unat (px_height ?e) \<and> ch < 4 \<longrightarrow>
         pixel_byte (fd_stride ?d) out x y ch =
         pixel_byte (fd_stride padded_source) ?px (nat (pr_left ?r) + x) (nat (pr_top ?r) + y)
           (if needs_swap (fd_format padded_source) Bgra8 then swapped_channel ch else ch)"
    using copy_region_exact [OF v(1) l m e d] by blast
  have "pixel_byte 4 out 0 1 0 = 17"
    using px [rule_format, of 0 1 0] ch by (simp add: padded_source_def swapped_channel_def)
  with o byte_len_valid [OF v(2)] show ?thesis by simp
qed

section \<open>Reusing copies\<close>

lemma find_index_Some: "find_index P xs = Some i \<Longrightarrow> i < length xs \<and> P (xs ! i)"
  by (induction xs arbitrary: i) (auto split: if_splits)

lemma find_index_None: "find_index P xs = None \<longleftrightarrow> (\<forall>x\<in>set xs. \<not> P x)"
  by (induction xs) auto

lemma length_rotate_front [simp]: "i < length xs \<Longrightarrow> length (rotate_front i xs) = length xs"
  by (simp add: rotate_front_def)

lemma set_rotate_front [simp]: "i < length xs \<Longrightarrow> set (rotate_front i xs) = set xs"
  by (subst (2) id_take_nth_drop [of i xs]) (auto simp: rotate_front_def)

lemma entry_matches_iff:
  "entry_matches region d x \<longleftrightarrow> (\<exists>e. x = Some e \<and> ce_region e = region \<and> ce_descriptor e = d)"
  by (cases x) auto

lemma upgrade_Some: "upgrade live x = Some p \<longleftrightarrow> (\<exists>e. x = Some e \<and> ce_pixels e = p \<and> live (px_id p))"
  by (cases x) auto

text \<open>What the entries of a cache of one frame hold: exactly what the copy would produce.\<close>

definition cache_sound :: "frame_descriptor \<Rightarrow> bytes \<Rightarrow> mapping_cache \<Rightarrow> bool" where
  "cache_sound source content c \<longleftrightarrow> length c = 4
     \<and> (\<forall>e. Some e \<in> set c \<longrightarrow>
          copy_region source content (ce_region e) (ce_descriptor e) = Inr (px_bytes (ce_pixels e)))"

lemma cache_find_cases:
  assumes "cache_find locked live region d c = (r, c')"
  obtains (missed) "r = None" "c' = c"
  | (hit) i e where "i < length c" "c ! i = Some e" "ce_region e = region" "ce_descriptor e = d"
      "r = Some (ce_pixels e)" "live (px_id (ce_pixels e))" "c' = rotate_front i c"
proof (cases "locked \<or> find_index (entry_matches region d) c = None")
  case True
  with assms that(1) show ?thesis by (auto simp: cache_find_def split: if_splits)
next
  case False
  then obtain i where found: "find_index (entry_matches region d) c = Some i" and ok: "\<not> locked" by auto
  note i = find_index_Some [OF found]
  show ?thesis
  proof (cases "upgrade live (c ! i)")
    case None
    with assms found ok that(1) show ?thesis by (simp add: cache_find_def)
  next
    case (Some p)
    with i obtain e where "c ! i = Some e" "ce_region e = region" "ce_descriptor e = d" "ce_pixels e = p"
      "live (px_id p)"
      by (auto simp: entry_matches_iff upgrade_Some split: if_splits)
    with assms found ok Some i show ?thesis by (intro that(2) [of i e]) (simp_all add: cache_find_def)
  qed
qed

lemma cache_find_sound:
  assumes "cache_sound source content c" "cache_find locked live region d c = (r, c')"
  shows "cache_sound source content c' \<and> set c' = set c
    \<and> (\<forall>p. r = Some p \<longrightarrow> copy_region source content region d = Inr (px_bytes p) \<and> live (px_id p))"
  using assms(2)
proof (cases rule: cache_find_cases)
  case missed
  with assms(1) show ?thesis by simp
next
  case (hit i e)
  then have "Some e \<in> set c" by (metis nth_mem)
  with hit assms(1) show ?thesis by (auto simp: cache_sound_def)
qed

lemma cache_publish_cases:
  assumes "cache_publish locked live region d p c = (r, c')"
  obtains (busy) "locked" "r = p" "c' = c"
  | (won) i e where "i < length c" "c ! i = Some e" "ce_region e = region" "ce_descriptor e = d"
      "ce_pixels e = r" "live (px_id r)" "c' = rotate_front i c"
  | (stored) i where "r = p" "i = length c - 1 \<or> i < length c"
      "c' = rotate_front i (c[i := Some \<lparr>ce_region = region, ce_descriptor = d, ce_pixels = p\<rparr>])"
      "(\<exists>j<length c. entry_matches region d (c ! j)) \<longrightarrow> entry_matches region d (c ! i)"
proof (cases locked)
  case True
  with assms that(1) show ?thesis by (simp add: cache_publish_def)
next
  case False
  show ?thesis
  proof (cases "find_index (entry_matches region d) c")
    case None
    let ?i = "case find_index (entry_free live) c of Some j \<Rightarrow> j | None \<Rightarrow> length c - 1"
    have "?i = length c - 1 \<or> ?i < length c" by (auto split: option.splits dest: find_index_Some)
    moreover have "\<not> (\<exists>j<length c. entry_matches region d (c ! j))"
      using None by (auto simp: find_index_None all_set_conv_all_nth)
    moreover have "r = p" "c' = rotate_front ?i
        (c[?i := Some \<lparr>ce_region = region, ce_descriptor = d, ce_pixels = p\<rparr>])"
      using assms False None by (auto simp: cache_publish_def Let_def)
    ultimately show ?thesis by (intro that(3) [of ?i]) blast+
  next
    case (Some i)
    note i = find_index_Some [OF Some]
    show ?thesis
    proof (cases "upgrade live (c ! i)")
      case None
      then have "r = p" "c' = rotate_front i
          (c[i := Some \<lparr>ce_region = region, ce_descriptor = d, ce_pixels = p\<rparr>])"
        using assms False Some by (auto simp: cache_publish_def Let_def)
      with i show ?thesis by (intro that(3) [of i]) blast+
    next
      case w: (Some w)
      then obtain e where "c ! i = Some e" "ce_pixels e = w" "live (px_id w)"
        by (auto simp: upgrade_Some)
      then show ?thesis using assms False Some w i that(2) [of i e] by (simp add: cache_publish_def Let_def)
    qed
  qed
qed

lemma cache_publish_sound:
  assumes "cache_sound source content c" "copy_region source content region d = Inr (px_bytes p)"
    and "cache_publish locked live region d p c = (r, c')"
  shows "cache_sound source content c' \<and> copy_region source content region d = Inr (px_bytes r)"
  using assms(3)
proof (cases rule: cache_publish_cases)
  case busy
  with assms show ?thesis by simp
next
  case (won i e)
  then have "Some e \<in> set c" by (metis nth_mem)
  with won assms show ?thesis by (auto simp: cache_sound_def)
next
  case (stored i)
  let ?new = "Some \<lparr>ce_region = region, ce_descriptor = d, ce_pixels = p\<rparr>"
  have i: "i < length c" using stored(2) assms(1) by (auto simp: cache_sound_def)
  have "set c' \<subseteq> insert ?new (set c)" using i stored(3) set_update_subset_insert [of c i ?new] by simp
  with stored i assms show ?thesis by (auto simp: cache_sound_def)
qed

fun op_sound :: "frame_descriptor \<Rightarrow> bytes \<Rightarrow> cache_op \<Rightarrow> bool" where
  "op_sound source content (OtherFind locked live region d) = True"
| "op_sound source content (OtherPublish locked live region d p) =
     (copy_region source content region d = Inr (px_bytes p))"

lemma cache_run_sound:
  "cache_sound source content c \<Longrightarrow> list_all (op_sound source content) ops \<Longrightarrow>
     cache_sound source content (fold cache_step ops c)"
proof (induction ops arbitrary: c)
  case Nil
  then show ?case by simp
next
  case (Cons x xs)
  have "cache_sound source content (cache_step x c)"
  proof (cases x)
    case (OtherFind locked live region d)
    obtain r c' where "cache_find locked live region d c = (r, c')" by fastforce
    with cache_find_sound [OF Cons.prems(1) this] OtherFind show ?thesis by simp
  next
    case (OtherPublish locked live region d p)
    obtain r c' where c': "cache_publish locked live region d p c = (r, c')" by fastforce
    with cache_publish_sound [OF Cons.prems(1) _ c'] Cons.prems(2) OtherPublish show ?thesis by simp
  qed
  with Cons show ?case by simp
qed

section \<open>A mapping is the region, cached or not\<close>

text \<open>A target that may be produced: the whole frame in its own layout, or a packed copy of the region.\<close>

definition target_ok ::
    "frame_descriptor \<Rightarrow> pixel_rect \<Rightarrow> pixel_format \<Rightarrow> bool \<Rightarrow> frame_descriptor \<Rightarrow> bool" where
  "target_ok source region format unconverted d \<longleftrightarrow> mappable source region
     \<and> (if unconverted
        then region = frame_rect (fd_extent source) \<and> format = fd_format source \<and> d = source
        else \<exists>e. pixel_rect_extent region = Some e \<and> descriptor_packed e format = Inr d)"

lemma packed_of_mappable:
  assumes "valid_descriptor source" "mappable source region" "pixel_rect_extent region = Some e"
  shows "\<exists>d. descriptor_packed e format = Inr d"
proof (rule mappable_region [OF assms(2,3)])
  fix l tp
  assume w: "l + unat (px_width e) \<le> unat (px_width (fd_extent source))"
    and h: "tp + unat (px_height e) \<le> unat (px_height (fd_extent source))"
    and pos: "0 < unat (px_width e)" "0 < unat (px_height e)"
  have "unat (px_width e) * 4 \<le> fd_stride source"
    using w assms(1) by (simp add: valid_descriptor_def)
  moreover have "unat (px_height e) \<le> unat (px_height (fd_extent source))" using h by simp
  ultimately have "unat (px_width e) * 4 * unat (px_height e)
      \<le> fd_stride source * unat (px_height (fd_extent source))"
    by (rule mult_le_mono)
  with assms(1) have "unat (px_width e) * 4 * unat (px_height e) < usize_limit"
    by (simp add: valid_descriptor_def)
  with pos have "valid_descriptor \<lparr>fd_extent = e, fd_format = format, fd_stride = unat (px_width e) * 4\<rparr>"
    by (auto simp: valid_descriptor_def extent_is_empty_def)
  then show ?thesis by (simp add: descriptor_packed_def descriptor_new_Inr)
qed

lemma mapping_target_cases:
  assumes "valid_descriptor (fr_descriptor f)" "valid_pixel_rect region"
  obtains (refused) e where "mapping_target f region format = Some (Inl e)"
      "e = InconsistentDescriptor \<and> \<not> fits_i32 (fd_extent (fr_descriptor f))
       \<or> e = RegionOutsideFrame \<and> \<not> mappable (fr_descriptor f) region"
  | (accepted) unconverted d where "mapping_target f region format = Some (Inr (unconverted, d))"
      "target_ok (fr_descriptor f) region format unconverted d"
proof (cases "bounds f")
  case (Inl e)
  then have "e = InconsistentDescriptor \<and> \<not> fits_i32 (fd_extent (fr_descriptor f))"
    by (auto simp: bounds_def to_rect_eq result_simps split: if_splits)
  with Inl that(1) show ?thesis by (simp add: mapping_target_def)
next
  case (Inr b)
  then have b: "fits_i32 (fd_extent (fr_descriptor f))" "b = frame_rect (fd_extent (fr_descriptor f))"
    by (simp_all add: bounds_Inr)
  let ?source = "fr_descriptor f"
  show ?thesis
  proof (cases "mappable ?source region")
    case False
    with b assms(2) have "pixel_rect_is_empty region \<or> \<not> contains_rect b region" by (auto simp: mappable_def)
    with Inr False that(1) show ?thesis by (simp add: mapping_target_def)
  next
    case True
    then have ok: "\<not> (pixel_rect_is_empty region \<or> \<not> contains_rect b region)"
      using b by (simp add: mappable_def)
    show ?thesis
    proof (cases "region = b \<and> fd_format ?source = format")
      case same: True
      with Inr ok have "mapping_target f region format = Some (Inr (True, ?source))"
        by (simp add: mapping_target_def)
      moreover have "target_ok ?source region format True ?source"
        using True same b by (simp add: target_ok_def)
      ultimately show ?thesis by (rule that(2))
    next
      case other: False
      have "\<exists>e. pixel_rect_extent region = Some e"
        by (rule pixel_rect_spans [OF assms(2)]) (simp add: pixel_rect_extent_def)
      then obtain e where e: "pixel_rect_extent region = Some e" ..
      obtain d where d: "descriptor_packed e format = Inr d"
        using packed_of_mappable [OF assms(1) True e] by blast
      have "mapping_target f region format = Some (Inr (False, d))"
        using Inr ok other e d by (auto simp: mapping_target_def Let_def)
      moreover have "target_ok ?source region format False d" using True e d by (simp add: target_ok_def)
      ultimately show ?thesis by (rule that(2))
    qed
  qed
qed

text \<open>What the storage promises of its pixels, and what other mappers of the frame do.\<close>

definition storage_holds :: "'w mapping_env \<Rightarrow> bytes \<Rightarrow> bool" where
  "storage_holds env content \<longleftrightarrow>
     (case me_cpu_pixels env of
        Some p \<Rightarrow> px_bytes p = content
      | None \<Rightarrow> (\<forall>c w p w'. me_read_cpu env c w = (Inr p, w') \<longrightarrow> px_bytes p = content))"

definition others_sound :: "'w mapping_env \<Rightarrow> frame_descriptor \<Rightarrow> bytes \<Rightarrow> bool" where
  "others_sound env source content \<longleftrightarrow> (\<forall>w. list_all (op_sound source content) (me_others env w))"

text \<open>The errors a mapping may end with other than its own validation: an interruption, or the storage's.\<close>

definition outside_error :: "'w mapping_env \<Rightarrow> error \<Rightarrow> bool" where
  "outside_error env e \<longleftrightarrow> (\<exists>i. e = interruption_error i)
     \<or> (\<exists>c w. fst (me_read_cpu env c w) = Inl e) \<or> (\<exists>n w. fst (me_reserve env n w) = Inl e)"

lemma look_checkpoint_Inl:
  "look_checkpoint env att w = (Inl e, att', w') \<Longrightarrow> outside_error env e"
  by (auto simp: look_checkpoint_def outside_error_def result_simps split: prod.splits)

lemma source_pixels_cases:
  assumes "source_pixels env c att w = (r, att', w')" "storage_holds env content"
  shows "case r of Inl e \<Rightarrow> outside_error env e
     | Inr (p, shared) \<Rightarrow> px_bytes p = content \<and> (shared = (me_cpu_pixels env = Some p))"
proof (cases "me_cpu_pixels env")
  case (Some p)
  with assms show ?thesis by (auto simp: source_pixels_def storage_holds_def)
next
  case None
  obtain r1 w1 where rd: "me_read_cpu env c w = (r1, w1)" by fastforce
  show ?thesis
  proof (cases r1)
    case (Inl e)
    with assms None rd have "r = Inl e" by (simp add: source_pixels_def)
    with rd Inl show ?thesis by (auto simp: outside_error_def intro!: exI [of _ c] exI [of _ w])
  next
    case (Inr p)
    obtain r2 a2 w2 where lc: "look_checkpoint env att w1 = (r2, a2, w2)" by (metis prod_cases3)
    have "px_bytes p = content" using assms(2) None rd Inr by (auto simp: storage_holds_def)
    with assms None rd Inr lc look_checkpoint_Inl [of env att w1 _ a2 w2] show ?thesis
      by (cases r2) (auto simp: source_pixels_def)
  qed
qed

lemma build_copy_cases:
  assumes "build_copy env source region d p att cache w = (r, att', cache', w')"
    and "px_bytes p = content" "copy_region source content region d = Inr out"
    and "cache_sound source content cache" "others_sound env source content"
  shows "cache_sound source content cache'
     \<and> (case r of Inl e \<Rightarrow> outside_error env e | Inr q \<Rightarrow> px_bytes q = out)"
proof -
  obtain r1 w1 where rs: "me_reserve env (byte_len d) w = (r1, w1)" by fastforce
  show ?thesis
  proof (cases r1)
    case (Inl e)
    with assms rs show ?thesis
      by (auto simp: build_copy_def outside_error_def intro!: exI [of _ "byte_len d"] exI [of _ w])
  next
    case (Inr u)
    obtain i w2 where al: "me_alloc env w1 = (i, w2)" by fastforce
    obtain r3 a3 w3 where lc: "look_checkpoint env att w2 = (r3, a3, w3)" by (metis prod_cases3)
    show ?thesis
    proof (cases r3)
      case e: (Inl e)
      with assms rs Inr al lc look_checkpoint_Inl [of env att w2 e a3 w3] show ?thesis
        by (auto simp: build_copy_def)
    next
      case v: (Inr v)
      let ?c = "fold cache_step (me_others env w3) cache"
      let ?new = "\<lparr>px_id = i, px_bytes = out\<rparr>"
      obtain q c' where pub: "cache_publish (me_locked env w3) (me_live env w3) region d ?new ?c = (q, c')"
        by fastforce
      have "cache_sound source content ?c"
        using assms(4,5) by (intro cache_run_sound) (simp_all add: others_sound_def)
      from cache_publish_sound [OF this _ pub] assms(3)
      have "cache_sound source content c' \<and> px_bytes q = out" by simp
      moreover have "r = Inr q \<and> cache' = c'"
        using assms(1,2,3) rs Inr al lc v pub by (simp add: build_copy_def)
      ultimately show ?thesis by simp
    qed
  qed
qed


lemma mapping_storage_cases:
  assumes "mapping_storage_for env source region unconverted d c att cache w = (r, att', cache', w')"
    and "valid_descriptor source" "length content = byte_len source"
    and "target_ok source region format unconverted d"
    and "storage_holds env content" "others_sound env source content" "cache_sound source content cache"
  shows "cache_sound source content cache'
     \<and> (case r of
          Inl e \<Rightarrow> outside_error env e
        | Inr s \<Rightarrow> (if unconverted then px_bytes (storage_pixels s) = content
                    else copy_region source content region d = Inr (px_bytes (storage_pixels s)))
            \<and> storage_is_shared s = (unconverted \<and> me_cpu_pixels env = Some (storage_pixels s)))"
proof -
  obtain cached cache1 where cf: "(if unconverted then (None, cache)
      else cache_find (me_locked env w) (me_live env w) region d cache) = (cached, cache1)" by fastforce
  have sound: "cache_sound source content cache1"
    and hit: "\<And>p. cached = Some p \<Longrightarrow> \<not> unconverted \<and> copy_region source content region d = Inr (px_bytes p)"
    using cf cache_find_sound [OF assms(7)] assms(7) by (auto split: if_splits)
  show ?thesis
  proof (cases cached)
    case (Some p)
    with assms(1) cf sound hit [OF Some] show ?thesis by (auto simp: mapping_storage_for_def)
  next
    case None
    obtain r1 a1 w1 where sp: "source_pixels env c att w = (r1, a1, w1)" by (metis prod_cases3)
    note from_storage = source_pixels_cases [OF sp assms(5)]
    show ?thesis
    proof (cases r1)
      case (Inl e)
      with assms(1) cf None sp sound from_storage show ?thesis
        by (auto simp: mapping_storage_for_def)
    next
      case (Inr ps)
      obtain p shared where ps: "ps = (p, shared)" by fastforce
      show ?thesis
      proof (cases unconverted)
        case True
        with assms(1) cf None sp sound from_storage Inr ps show ?thesis
          by (auto simp: mapping_storage_for_def)
      next
        case False
        obtain e where "mappable source region" "pixel_rect_extent region = Some e"
          "descriptor_packed e format = Inr d"
          using assms(4) False by (auto simp: target_ok_def)
        with region_copied [OF assms(2,3)]
        obtain out where out: "copy_region source content region d = Inr out" by blast
        obtain r2 a2 c2 w2 where bc: "build_copy env source region d p a1 cache1 w1 = (r2, a2, c2, w2)"
          by (metis prod_cases4)
        have "px_bytes p = content" using from_storage Inr ps by simp
        from build_copy_cases [OF bc this out sound assms(6)] assms(1) cf None sp Inr ps False bc out
        show ?thesis by (cases r2) (auto simp: mapping_storage_for_def)
      qed
    qed
  qed
qed

text \<open>What a mapping must show: every byte of every pixel of the region.\<close>

definition shows_region :: "cpu_mapping \<Rightarrow> frame_descriptor \<Rightarrow> bytes \<Rightarrow> bool" where
  "shows_region m source content \<longleftrightarrow>
     int (unat (px_width (fd_extent (mp_descriptor m)))) = pr_right (mp_region m) - pr_left (mp_region m)
     \<and> int (unat (px_height (fd_extent (mp_descriptor m)))) = pr_bottom (mp_region m) - pr_top (mp_region m)
     \<and> (\<forall>x y ch. x < unat (px_width (fd_extent (mp_descriptor m)))
          \<and> y < unat (px_height (fd_extent (mp_descriptor m))) \<and> ch < 4 \<longrightarrow>
          pixel_byte (fd_stride (mp_descriptor m)) (mapping_bytes m) x y ch =
          pixel_byte (fd_stride source) content
            (nat (pr_left (mp_region m)) + x) (nat (pr_top (mp_region m)) + y)
            (if needs_swap (fd_format source) (fd_format (mp_descriptor m)) then swapped_channel ch else ch))"

lemma needs_swap_refl [simp]: "\<not> needs_swap f f"
  by (cases f) simp_all

lemma extent_of_region:
  assumes "valid_pixel_rect region" "pixel_rect_extent region = Some e"
  shows "int (unat (px_width e)) = pr_right region - pr_left region"
    "int (unat (px_height e)) = pr_bottom region - pr_top region"
proof -
  obtain w h where wh: "pixel_rect_width region = Some w" "pixel_rect_height region = Some h"
    and u: "uint w = pr_right region - pr_left region" "uint h = pr_bottom region - pr_top region"
    using pixel_rect_spans [OF assms(1)] .
  with assms(2) have "e = pixel_extent_new w h" by (simp add: pixel_rect_extent_def)
  then show "int (unat (px_width e)) = pr_right region - pr_left region"
    "int (unat (px_height e)) = pr_bottom region - pr_top region"
    using u by (simp_all add: pixel_extent_new_def)
qed

lemma target_shows_region:
  assumes "valid_descriptor source" "length content = byte_len source"
    and "target_ok source (mp_region m) format unconverted (mp_descriptor m)"
    and "if unconverted then mapping_bytes m = content
         else copy_region source content (mp_region m) (mp_descriptor m) = Inr (mapping_bytes m)"
  shows "shows_region m source content \<and> fd_format (mp_descriptor m) = format"
proof (cases unconverted)
  case True
  with assms(3,4) show ?thesis by (simp add: target_ok_def shows_region_def frame_rect_def)
next
  case False
  then obtain e where ok: "mappable source (mp_region m)" "pixel_rect_extent (mp_region m) = Some e"
    and d: "descriptor_packed e format = Inr (mp_descriptor m)"
    using assms(3) by (auto simp: target_ok_def)
  note de = descriptor_packed_Inr [OF d]
  have e: "fd_extent (mp_descriptor m) = e" "fd_format (mp_descriptor m) = format"
    by (simp_all add: de(1))
  have v: "valid_pixel_rect (mp_region m)" using ok(1) by (simp add: mappable_def)
  from region_copied [OF assms(1,2) ok d] False assms(4) extent_of_region [OF v ok(2)]
  show ?thesis unfolding shows_region_def e by simp
qed

lemma region_mapped:
  assumes "valid_descriptor (fr_descriptor f)" and "length content = byte_len (fr_descriptor f)"
    and "valid_pixel_rect region" and "storage_holds env content"
    and "others_sound env (fr_descriptor f) content" and "cache_sound (fr_descriptor f) content cache"
  shows "\<exists>r cache' w'. map_region env f region format c cache w = Some (r, cache', w')
    \<and> cache_sound (fr_descriptor f) content cache'
    \<and> (case r of
         Inl e \<Rightarrow> outside_error env e
           \<or> e = capture_error InconsistentDescriptor \<and> \<not> fits_i32 (fd_extent (fr_descriptor f))
           \<or> e = capture_error RegionOutsideFrame \<and> \<not> mappable (fr_descriptor f) region
       | Inr m \<Rightarrow> mp_stamp m = fr_stamp f \<and> mp_transform m = fr_transform f \<and> mp_region m = region
           \<and> fd_format (mp_descriptor m) = format \<and> shows_region m (fr_descriptor f) content
           \<and> (storage_is_shared (mp_storage m) \<longrightarrow> mapping_bytes m = content))"
proof -
  obtain ob w1 where lk: "me_look env w = (ob, w1)" by fastforce
  show ?thesis
  proof (cases "admit c ob")
    case (Inl i)
    with lk assms(6) show ?thesis by (auto simp: map_region_def outside_error_def)
  next
    case (Inr att)
    from assms(1,3) show ?thesis
    proof (cases rule: mapping_target_cases [where format = format])
      case (refused e)
      with lk Inr assms(6) show ?thesis by (auto simp: map_region_def)
    next
      case (accepted unconverted d)
      obtain r2 a2 cache2 w2 where ms: "mapping_storage_for env (fr_descriptor f) region unconverted d c att
          cache w1 = (r2, a2, cache2, w2)" by (metis prod_cases4)
      note st = mapping_storage_cases [OF ms assms(1,2) accepted(2) assms(4,5,6)]
      show ?thesis
      proof (cases r2)
        case e: (Inl e)
        with lk Inr accepted(1) ms st show ?thesis by (simp add: map_region_def)
      next
        case s: (Inr s)
        obtain ob3 w3 where lk3: "me_look env w2 = (ob3, w3)" by fastforce
        let ?m = "\<lparr>mp_stamp = fr_stamp f, mp_transform = fr_transform f, mp_region = region,
                   mp_descriptor = d, mp_storage = s\<rparr>"
        have run: "map_region env f region format c cache w
            = Some (map_err interruption_error (commit a2 ob3 ?m), cache2, w3)"
          using lk Inr accepted(1) ms s lk3 by (simp add: map_region_def)
        have b: "if unconverted then mapping_bytes ?m = content
                 else copy_region (fr_descriptor f) content region d = Inr (mapping_bytes ?m)"
          and sh: "storage_is_shared s \<Longrightarrow> mapping_bytes ?m = content"
          using st s by (auto simp: mapping_bytes_def split: if_splits)
        have "shows_region ?m (fr_descriptor f) content \<and> fd_format (mp_descriptor ?m) = format"
          by (rule target_shows_region [OF assms(1,2), where unconverted = unconverted])
             (use accepted(2) b in \<open>cases unconverted; simp\<close>)+
        with run st sh show ?thesis
          by (cases "commit a2 ob3 ?m") (auto simp: outside_error_def commit_Inr_iff)
      qed
    qed
  qed
qed

text \<open>
  C28: mapping a region of a frame never panics, and whatever the cache holds, whoever else maps the same
  frame meanwhile, whether the lock is free or a weak handle still upgrades, a successful mapping shows
  exactly the frame's pixels of that region in the requested format, is addressed to that frame, and shares
  the frame's bytes only when it is the whole frame in its own layout. It fails only for a region that
  cannot be mapped, an interruption, or an error of the storage; and the cache keeps holding only exact
  copies.
\<close>

theorem map_region_exact:
  assumes "valid_descriptor (fr_descriptor f)" and "length content = byte_len (fr_descriptor f)"
    and "valid_pixel_rect region" and "storage_holds env content"
    and "others_sound env (fr_descriptor f) content" and "cache_sound (fr_descriptor f) content cache"
  shows "\<exists>r cache' w'. map_region env f region format c cache w = Some (r, cache', w')
    \<and> cache_sound (fr_descriptor f) content cache'
    \<and> (case r of
         Inl e \<Rightarrow> outside_error env e
           \<or> e = capture_error InconsistentDescriptor \<and> \<not> fits_i32 (fd_extent (fr_descriptor f))
           \<or> e = capture_error RegionOutsideFrame \<and> \<not> mappable (fr_descriptor f) region
       | Inr m \<Rightarrow> mp_stamp m = fr_stamp f \<and> mp_transform m = fr_transform f \<and> mp_region m = region
           \<and> fd_format (mp_descriptor m) = format \<and> shows_region m (fr_descriptor f) content
           \<and> (storage_is_shared (mp_storage m) \<longrightarrow> mapping_bytes m = content))"
  by (rule region_mapped [OF assms])


text \<open>A storage of CPU bytes, a clock that stands still, and a cache somebody else may use.\<close>

definition padded_bytes :: bytes where
  "padded_bytes = [1,2,3,4, 5,6,7,8, 0, 11,12,13,14, 15,16,17,18, 0]"

definition padded_frame :: "unit frame" where
  "padded_frame = \<lparr>fr_stamp = stamp_new \<lparr>str_engine = EngineId 1, str_ordinal = 1\<rparr> epoch_first sequence_first
                                revision_first,
                    fr_captured_at = instant_origin, fr_descriptor = padded_source,
                    fr_transform = frame_only revision_first \<lparr>px_width = 2, px_height = 2\<rparr>,
                    fr_storage = ()\<rparr>"

definition still_env :: "nat mapping_env" where
  "still_env = \<lparr>me_look = \<lambda>w. (\<lparr>obs_cancelled = False, obs_now = instant_origin\<rparr>, w),
     me_cpu_pixels = Some \<lparr>px_id = 0, px_bytes = padded_bytes\<rparr>,
     me_read_cpu = \<lambda>c w. (Inr \<lparr>px_id = 0, px_bytes = padded_bytes\<rparr>, w),
     me_reserve = \<lambda>n w. (Inr (), w), me_alloc = \<lambda>w. (w, Suc w), me_live = \<lambda>w i. True,
     me_locked = \<lambda>w. False, me_others = \<lambda>w. [OtherFind False (\<lambda>_. True)
        \<lparr>pr_left = 0, pr_top = 0, pr_right = 1, pr_bottom = 1\<rparr> padded_source]\<rparr>"

theorem map_region_exact_witness:
  "\<exists>r cache' w'. map_region still_env padded_frame \<lparr>pr_left = 1, pr_top = 0, pr_right = 2, pr_bottom = 2\<rparr>
       Bgra8 context_new cache_new 1 = Some (r, cache', w')
     \<and> cache_sound padded_source padded_bytes cache'"
proof -
  have v: "valid_descriptor (fr_descriptor padded_frame)"
    by (simp add: padded_frame_def valid_descriptor_def padded_source_def extent_is_empty_def usize_limit_def)
  have l: "length padded_bytes = byte_len (fr_descriptor padded_frame)"
    using byte_len_valid [OF v] by (simp add: padded_frame_def padded_source_def padded_bytes_def)
  have r: "valid_pixel_rect \<lparr>pr_left = 1, pr_top = 0, pr_right = 2, pr_bottom = 2\<rparr>"
    by (simp add: valid_pixel_rect_def in_i32_def i32_min_def i32_max_def)
  have h: "storage_holds still_env padded_bytes" by (simp add: storage_holds_def still_env_def)
  have o: "others_sound still_env (fr_descriptor padded_frame) padded_bytes"
    by (simp add: others_sound_def still_env_def)
  have c: "cache_sound (fr_descriptor padded_frame) padded_bytes cache_new"
    by (simp add: cache_sound_def cache_new_def)
  have d: "fr_descriptor padded_frame = padded_source" by (simp add: padded_frame_def)
  show ?thesis using map_region_exact [OF v l r h o c, of Bgra8 context_new 1] unfolding d by blast
qed


lemma cache_publish_winner:
  "fst (cache_publish False live region d p c) = (case fst (cache_find False live region d c) of Some q \<Rightarrow> q | None \<Rightarrow> p)"
  by (auto simp: cache_publish_def cache_find_def Let_def split: option.split)

text \<open>
  An earlier copy wins and what a publication answers is found again: a publication that gets the lock answers
  with the copy a lookup of the same region and layout would have found just before, and with the new one only when
  there is none; right after it, the same lookup gives that answer, for as long as somebody owns it.
\<close>

theorem cache_publish_find:
  assumes "c \<noteq> []" and "cache_publish False live region d p c = (r, c')"
  shows "r = (case fst (cache_find False live region d c) of Some q \<Rightarrow> q | None \<Rightarrow> p)
    \<and> (live' (px_id r) \<longrightarrow> fst (cache_find False live' region d c') = Some r) \<and> length c' = length c"
proof -
  have "fst (cache_find False live' region d c') = Some r" if alive: "live' (px_id r)"
    using assms(2)
  proof (cases rule: cache_publish_cases)
    case busy
    then show ?thesis by simp
  next
    case (won i e)
    have "c' = Some e # take i c @ drop (Suc i) c" using won(2,7) by (simp add: rotate_front_def)
    then show ?thesis using won(3,4,5) alive by (simp add: cache_find_def)
  next
    case (stored i)
    have "i < length c" using stored(2) assms(1) by auto
    then have "c' = Some \<lparr>ce_region = region, ce_descriptor = d, ce_pixels = p\<rparr> # take i c @ drop (Suc i) c"
      using stored(3) by (simp add: rotate_front_def)
    then show ?thesis using stored(1) alive by (simp add: cache_find_def)
  qed
  moreover have "length c' = length c"
    using assms(2)
  proof (cases rule: cache_publish_cases)
    case (stored i)
    then show ?thesis using assms(1) by auto
  qed simp_all
  ultimately show ?thesis using cache_publish_winner [of live region d p c] assms(2) by simp
qed

theorem cache_publish_find_witness:
  "fst (cache_find False (\<lambda>_. True) \<lparr>pr_left = 0, pr_top = 0, pr_right = 1, pr_bottom = 1\<rparr> padded_source
          (snd (cache_publish False (\<lambda>_. True) \<lparr>pr_left = 0, pr_top = 0, pr_right = 1, pr_bottom = 1\<rparr>
                  padded_source \<lparr>px_id = 7, px_bytes = [1,2,3,4]\<rparr> cache_new)))
   = Some \<lparr>px_id = 7, px_bytes = [1,2,3,4]\<rparr>"
proof -
  let ?r = "\<lparr>pr_left = 0, pr_top = 0, pr_right = 1, pr_bottom = 1\<rparr>"
  let ?p = "\<lparr>px_id = 7, px_bytes = [1,2,3,4]\<rparr>"
  obtain r c' where c: "cache_publish False (\<lambda>_. True) ?r padded_source ?p cache_new = (r, c')" by fastforce
  have "cache_new \<noteq> []" "fst (cache_find False (\<lambda>_. True) ?r padded_source cache_new) = None"
    by (simp_all add: cache_new_def cache_find_def eval_nat_numeral)
  with cache_publish_find [OF this(1) c, of "\<lambda>_. True"] c show ?thesis by simp
qed

end
