(* ===== verification/Ordering.thy ===== *)
theory Ordering
  imports Prelude "HOL-Library.Multiset"
begin

text \<open>
  \<open>std::cmp::Ordering\<close> and the stable \<open>sort_by\<close> of the Rust standard library, which the matcher and the
  watch scheduler both use, with the interface (locale) of a comparison and what a sort by one guarantees.
\<close>

datatype ordering = OrdLess | OrdEqual | OrdGreater

fun then_with :: "ordering \<Rightarrow> ordering \<Rightarrow> ordering" where
  "then_with OrdEqual b = b"
| "then_with a b = a"

fun reversed :: "ordering \<Rightarrow> ordering" where
  "reversed OrdLess = OrdGreater"
| "reversed OrdEqual = OrdEqual"
| "reversed OrdGreater = OrdLess"

definition compare :: "'a::linorder \<Rightarrow> 'a \<Rightarrow> ordering" where
  "compare x y = (if x < y then OrdLess else if x = y then OrdEqual else OrdGreater)"

text \<open>Slices compare lexicographically, element by element.\<close>

fun compare_list :: "('a \<Rightarrow> 'a \<Rightarrow> ordering) \<Rightarrow> 'a list \<Rightarrow> 'a list \<Rightarrow> ordering" where
  "compare_list c [] [] = OrdEqual"
| "compare_list c [] (y # ys) = OrdLess"
| "compare_list c (x # xs) [] = OrdGreater"
| "compare_list c (x # xs) (y # ys) = then_with (c x y) (compare_list c xs ys)"

text \<open>Strings compare by their bytes.\<close>

definition compare_string :: "string \<Rightarrow> string \<Rightarrow> ordering" where
  "compare_string = compare_list (\<lambda>x y. compare (of_char x :: nat) (of_char y))"

text \<open>A stable sort: elements that compare equal keep their order.\<close>

fun insert_by :: "('a \<Rightarrow> 'a \<Rightarrow> ordering) \<Rightarrow> 'a \<Rightarrow> 'a list \<Rightarrow> 'a list" where
  "insert_by c x [] = [x]"
| "insert_by c x (y # ys) = (if c x y = OrdGreater then y # insert_by c x ys else x # y # ys)"

fun sort_by :: "('a \<Rightarrow> 'a \<Rightarrow> ordering) \<Rightarrow> 'a list \<Rightarrow> 'a list" where
  "sort_by c [] = []"
| "sort_by c (x # xs) = insert_by c x (sort_by c xs)"

lemma mset_insert_by [simp]: "mset (insert_by c x xs) = add_mset x (mset xs)"
  by (induction xs) simp_all

lemma mset_sort_by [simp]: "mset (sort_by c xs) = mset xs"
  by (induction xs) simp_all

lemma set_sort_by [simp]: "set (sort_by c xs) = set xs"
  by (metis mset_sort_by set_mset_mset)

lemma length_sort_by [simp]: "length (sort_by c xs) = length xs"
  by (metis mset_sort_by size_mset)

lemma reversed_reversed [simp]: "reversed (reversed a) = a"
  by (cases a) simp_all

lemma reversed_eq [simp]:
  "reversed a = OrdEqual \<longleftrightarrow> a = OrdEqual" "reversed a = OrdLess \<longleftrightarrow> a = OrdGreater"
  "reversed a = OrdGreater \<longleftrightarrow> a = OrdLess"
  by (cases a, simp_all)+

lemma then_with_eq:
  "then_with a b = OrdEqual \<longleftrightarrow> a = OrdEqual \<and> b = OrdEqual"
  "then_with a b = OrdLess \<longleftrightarrow> a = OrdLess \<or> a = OrdEqual \<and> b = OrdLess"
  "then_with a b = OrdGreater \<longleftrightarrow> a = OrdGreater \<or> a = OrdEqual \<and> b = OrdGreater"
  by (cases a, simp_all)+

lemma reversed_then_with: "reversed (then_with a b) = then_with (reversed a) (reversed b)"
  by (cases a) simp_all

section \<open>Comparisons\<close>

text \<open>What \<open>sort_by\<close> requires of its comparison: a total preorder.\<close>

locale comparison =
  fixes cmp :: "'a \<Rightarrow> 'a \<Rightarrow> ordering"
  assumes cmp_refl: "cmp x x = OrdEqual"
    and cmp_swap: "cmp y x = reversed (cmp x y)"
    and cmp_trans: "cmp x y = OrdLess \<Longrightarrow> cmp y z \<noteq> OrdGreater \<Longrightarrow> cmp x z = OrdLess"
    and cmp_equal: "cmp x y = OrdEqual \<Longrightarrow> cmp x z = cmp y z"
begin

lemma cmp_le_trans: "cmp x y \<noteq> OrdGreater \<Longrightarrow> cmp y z \<noteq> OrdGreater \<Longrightarrow> cmp x z \<noteq> OrdGreater"
  using cmp_trans [of x y z] cmp_equal [of x y z] by (cases "cmp x y") auto

lemma insert_by_sorted:
  "sorted_wrt (\<lambda>x y. cmp x y \<noteq> OrdGreater) ys \<Longrightarrow> sorted_wrt (\<lambda>x y. cmp x y \<noteq> OrdGreater) (insert_by cmp x ys)"
proof (induction ys)
  case (Cons y ys)
  have set: "set (insert_by cmp x ys) = insert x (set ys)"
    by (metis mset_insert_by set_mset_add_mset_insert set_mset_mset)
  show ?case
  proof (cases "cmp x y = OrdGreater")
    case True
    then have "cmp y x \<noteq> OrdGreater" by (simp add: cmp_swap [of y x])
    with Cons True set show ?thesis by auto
  next
    case False
    with Cons.prems cmp_le_trans [OF False] show ?thesis by auto
  qed
qed simp

theorem sort_by_sorted: "sorted_wrt (\<lambda>x y. cmp x y \<noteq> OrdGreater) (sort_by cmp xs)"
  by (induction xs) (simp_all add: insert_by_sorted)

end

text \<open>A comparison whose equal elements are the same: the sorted list depends on the elements only.\<close>

locale total_comparison = comparison +
  assumes equal_same: "cmp x y = OrdEqual \<Longrightarrow> x = y"
begin

lemma sorted_unique:
  assumes "sorted_wrt (\<lambda>x y. cmp x y \<noteq> OrdGreater) xs" "sorted_wrt (\<lambda>x y. cmp x y \<noteq> OrdGreater) ys"
    and "mset xs = mset ys"
  shows "xs = ys"
  using assms
proof (induction xs arbitrary: ys)
  case (Cons x xs)
  then obtain y zs where ys: "ys = y # zs" by (cases ys) auto
  have "x \<in> set ys" "y \<in> set (x # xs)"
    using Cons.prems(3) ys by (metis list.set_intros(1) set_mset_mset)+
  then have "x = y \<or> cmp y x \<noteq> OrdGreater \<and> cmp x y \<noteq> OrdGreater"
    using Cons.prems(1,2) ys by auto
  then have "x = y" using equal_same [of x y] cmp_swap [of y x] by (cases "cmp x y") auto
  with Cons.prems ys Cons.IH [of zs] show ?case by simp
qed simp

theorem sort_by_mset: "mset xs = mset ys \<Longrightarrow> sort_by cmp xs = sort_by cmp ys"
  by (rule sorted_unique [OF sort_by_sorted sort_by_sorted]) simp

end

text \<open>Comparisons are built from smaller ones.\<close>

lemma comparison_compare: "comparison (compare :: 'a::linorder \<Rightarrow> 'a \<Rightarrow> ordering)"
  by unfold_locales (auto simp: compare_def split: if_splits)

lemma comparison_key: "comparison c \<Longrightarrow> comparison (\<lambda>x y. c (f x) (f y))"
  unfolding comparison_def by blast

lemma comparison_reverse:
  assumes "comparison c"
  shows "comparison (\<lambda>x y. c y x)"
proof
  note c = comparison.cmp_refl [OF assms] comparison.cmp_swap [OF assms] comparison.cmp_trans [OF assms]
    comparison.cmp_equal [OF assms]
  fix x y z
  show "c x x = OrdEqual" "c x y = reversed (c y x)" by (simp_all add: c(1) c(2) [of x y])
  show "c z x = OrdLess" if "c y x = OrdLess" "c z y \<noteq> OrdGreater"
    using that c(2,3,4) by (metis ordering.exhaust)
  show "c z x = c z y" if "c y x = OrdEqual"
    using that c(2) [of z x] c(2) [of z y] c(4) [of y x z] by simp
qed

lemma comparison_then:
  assumes c: "comparison c" and d: "comparison d"
  shows "comparison (\<lambda>x y. then_with (c x y) (d x y))"
proof
  fix x y z
  show "then_with (c x x) (d x x) = OrdEqual"
    by (simp add: comparison.cmp_refl [OF c] comparison.cmp_refl [OF d])
  show "then_with (c y x) (d y x) = reversed (then_with (c x y) (d x y))"
    by (simp add: reversed_then_with comparison.cmp_swap [OF c, of y x] comparison.cmp_swap [OF d, of y x])
  show "then_with (c x z) (d x z) = OrdLess"
    if "then_with (c x y) (d x y) = OrdLess" "then_with (c y z) (d y z) \<noteq> OrdGreater"
    using that comparison.cmp_trans [OF c, of x y z] comparison.cmp_equal [OF c, of x y z]
      comparison.cmp_trans [OF d, of x y z]
    by (cases "c y z") (auto simp: then_with_eq)
  show "then_with (c x z) (d x z) = then_with (c y z) (d y z)" if "then_with (c x y) (d x y) = OrdEqual"
    using that comparison.cmp_equal [OF c, of x y z] comparison.cmp_equal [OF d, of x y z]
    by (simp add: then_with_eq)
qed

lemma comparison_list:
  assumes "comparison c"
  shows "comparison (compare_list c)"
proof
  note c = comparison.cmp_refl [OF assms] comparison.cmp_swap [OF assms] comparison.cmp_trans [OF assms]
    comparison.cmp_equal [OF assms]
  show "compare_list c xs xs = OrdEqual" for xs
    by (induction xs) (simp_all add: c(1))
  show swap: "compare_list c ys xs = reversed (compare_list c xs ys)" for xs ys
  proof (induction xs arbitrary: ys)
    case Nil
    then show ?case by (cases ys) simp_all
  next
    case (Cons x xs)
    show ?case
    proof (cases ys)
      case (Cons y zs)
      then show ?thesis using Cons.IH [of zs] c(2) [of y x] by (simp add: reversed_then_with)
    qed simp
  qed
  show eq: "compare_list c xs zs = compare_list c ys zs" if "compare_list c xs ys = OrdEqual" for xs ys zs
    using that
  proof (induction xs arbitrary: ys zs)
    case Nil
    then show ?case by (cases ys) simp_all
  next
    case (Cons x xs)
    then obtain y ys' where ys: "ys = y # ys'" by (cases ys) simp_all
    with Cons.prems have "c x y = OrdEqual" "compare_list c xs ys' = OrdEqual" by (simp_all add: then_with_eq)
    with Cons.IH [of ys'] ys show ?case by (cases zs) (simp_all add: c(4) [of x y])
  qed
  show "compare_list c xs zs = OrdLess"
    if "compare_list c xs ys = OrdLess" "compare_list c ys zs \<noteq> OrdGreater" for xs ys zs
    using that
  proof (induction xs arbitrary: ys zs)
    case Nil
    then show ?case by (cases ys; cases zs) simp_all
  next
    case (Cons x xs)
    then obtain y ys' where ys: "ys = y # ys'" by (cases ys) simp_all
    with Cons.prems obtain z zs' where zs: "zs = z # zs'" by (cases zs) simp_all
    from Cons.prems ys zs show ?case
      using c(3) [of x y z] c(4) [of x y z] Cons.IH [of ys' zs']
      by (cases "c y z") (auto simp: then_with_eq)
  qed
qed

lemma comparison_string: "comparison compare_string"
  unfolding compare_string_def
  by (rule comparison_list, rule comparison_key [of compare of_char], rule comparison_compare)

lemma compare_equal [simp]: "compare x y = OrdEqual \<longleftrightarrow> x = y"
  by (auto simp: compare_def)

lemma compare_list_same:
  assumes "\<And>x y. c x y = OrdEqual \<Longrightarrow> x = y" "compare_list c xs ys = OrdEqual"
  shows "xs = ys"
  using assms(2)
proof (induction xs arbitrary: ys)
  case Nil
  then show ?case by (cases ys) simp_all
next
  case (Cons x xs)
  then show ?case by (cases ys) (auto simp: then_with_eq dest: assms(1))
qed

lemma compare_string_equal:
  assumes "compare_string x y = OrdEqual"
  shows "x = y"
  using assms unfolding compare_string_def
  by (rule compare_list_same [rotated]) (metis compare_equal of_char_eq_iff)

end
