(* ===== verification/VisionModel.thy ===== *)
theory VisionModel
  imports PixelMapping Ordering
begin

text \<open>
  The vocabulary of template matching, \<open>crates/automation/vision/src/fault.rs\<close>, \<open>template.rs\<close>,
  \<open>request.rs\<close>, \<open>prepared.rs\<close>, \<open>backend.rs\<close> and \<open>result.rs\<close>.

  A backend is a trait object: its prepared payload is a type variable and its calls are parameters of the
  definitions of theory \<open>Matching\<close>. An \<open>Arc\<close> whose address is its identity (a frame, the instance token of
  a prepared template) carries that address as a number.
\<close>

section \<open>fault.rs\<close>

datatype vision_fault =
    EmptyTemplateId
  | EmptyTemplateContent
  | EmptyTemplateExtent
  | TemplateExtentAboveCeiling
  | UnsupportedTemplateSpace
  | InvalidMatchScore
  | InvalidMatchResultLimit
  | UnsupportedTemplateEncoding
  | TemplatePreparationFailed
  | BackendMismatch
  | BackendUnavailable
  | BackendFailed
  | BackendScoreOutOfRange
  | BackendCandidateOutsideRegion

fun vision_fault_status :: "vision_fault \<Rightarrow> status" where
  "vision_fault_status EmptyTemplateId = InvalidArgument"
| "vision_fault_status EmptyTemplateContent = InvalidArgument"
| "vision_fault_status EmptyTemplateExtent = InvalidArgument"
| "vision_fault_status TemplateExtentAboveCeiling = InvalidArgument"
| "vision_fault_status InvalidMatchScore = InvalidArgument"
| "vision_fault_status InvalidMatchResultLimit = InvalidArgument"
| "vision_fault_status BackendMismatch = InvalidArgument"
| "vision_fault_status UnsupportedTemplateSpace = Unsupported"
| "vision_fault_status UnsupportedTemplateEncoding = Unsupported"
| "vision_fault_status TemplatePreparationFailed = VisionFailed"
| "vision_fault_status BackendUnavailable = VisionFailed"
| "vision_fault_status BackendFailed = VisionFailed"
| "vision_fault_status BackendScoreOutOfRange = VisionFailed"
| "vision_fault_status BackendCandidateOutsideRegion = VisionFailed"

fun vision_fault_detail :: "vision_fault \<Rightarrow> string" where
  "vision_fault_detail EmptyTemplateId = ''template identity is empty''"
| "vision_fault_detail EmptyTemplateContent = ''template carries no content bytes''"
| "vision_fault_detail EmptyTemplateExtent = ''template extent has a zero dimension''"
| "vision_fault_detail TemplateExtentAboveCeiling =
     ''template extent is above the implementation pixel ceiling''"
| "vision_fault_detail UnsupportedTemplateSpace = ''template geometry must be expressed in capture pixels''"
| "vision_fault_detail InvalidMatchScore = ''minimum match score is outside 0.0..=1.0''"
| "vision_fault_detail InvalidMatchResultLimit = ''match result limit is zero''"
| "vision_fault_detail UnsupportedTemplateEncoding =
     ''template content encoding is not supported by this backend''"
| "vision_fault_detail TemplatePreparationFailed = ''backend could not prepare the template''"
| "vision_fault_detail BackendMismatch = ''prepared template belongs to another backend''"
| "vision_fault_detail BackendUnavailable = ''matching backend is not available''"
| "vision_fault_detail BackendFailed = ''matching backend failed''"
| "vision_fault_detail BackendScoreOutOfRange = ''backend reported a score outside 0.0..=1.0''"
| "vision_fault_detail BackendCandidateOutsideRegion =
     ''backend reported a candidate outside the searched region''"

definition vision_error :: "vision_fault \<Rightarrow> error" where
  "vision_error f = mk_error (vision_fault_status f) (vision_fault_detail f)"

section \<open>template.rs\<close>

datatype template_id = TemplateId (template_name: string)

definition template_id_new :: "string \<Rightarrow> vision_fault + template_id" where
  "template_id_new s = (if s = [] then Inl EmptyTemplateId else Inr (TemplateId s))"

datatype template_encoding = Png

fun encoding_as_str :: "template_encoding \<Rightarrow> string" where
  "encoding_as_str Png = ''png''"

definition png_signature :: bytes where
  "png_signature = [0x89, 0x50, 0x4e, 0x47, 0x0d, 0x0a, 0x1a, 0x0a]"

definition identify :: "bytes \<Rightarrow> template_encoding option" where
  "identify content = (if take (length png_signature) content = png_signature then Some Png else None)"

definition score_in_range :: "f64 \<Rightarrow> bool" where
  "score_in_range s \<longleftrightarrow> is_finite s \<and> fle (Fin 0) s \<and> fle s (Fin 1)"

record match_defaults =
  md_min_score :: f64
  md_max_results :: u32

definition match_defaults_new :: "f64 \<Rightarrow> u32 \<Rightarrow> vision_fault + match_defaults" where
  "match_defaults_new min_score max_results =
     (if \<not> score_in_range min_score then Inl InvalidMatchScore
      else if max_results = 0 then Inl InvalidMatchResultLimit
      else Inr \<lparr>md_min_score = min_score, md_max_results = max_results\<rparr>)"

record template_source =
  src_id :: template_id
  src_encoding :: template_encoding
  src_extent :: pixel_extent
  src_space :: coordinate_space
  src_defaults :: match_defaults
  src_content :: bytes

definition max_template_pixels :: nat where
  "max_template_pixels = 8192 * 8192"

definition extent_within_ceiling :: "pixel_extent \<Rightarrow> bool" where
  "extent_within_ceiling e \<longleftrightarrow> unat (px_width e) * unat (px_height e) \<le> max_template_pixels"

text \<open>The request has the same fields as the source it is checked into.\<close>

type_synonym template_source_request = template_source

definition template_source_new :: "template_source_request \<Rightarrow> vision_fault + template_source" where
  "template_source_new r =
     (if extent_is_empty (src_extent r) then Inl EmptyTemplateExtent
      else if \<not> extent_within_ceiling (src_extent r) then Inl TemplateExtentAboveCeiling
      else if src_content r = [] then Inl EmptyTemplateContent
      else if src_space r \<noteq> CapturePixels then Inl UnsupportedTemplateSpace
      else Inr r)"

section \<open>prepared.rs\<close>

record 'q prepared_template =
  pt_id :: template_id
  pt_backend :: string
  pt_extent :: pixel_extent
  pt_defaults :: match_defaults
  pt_instance :: nat
  pt_payload :: 'q

text \<open>\<open>fresh\<close> is the address of the new instance token.\<close>

definition prepared_template_new :: "string \<Rightarrow> template_source \<Rightarrow> nat \<Rightarrow> 'q \<Rightarrow> 'q prepared_template" where
  "prepared_template_new backend source fresh payload =
     \<lparr>pt_id = src_id source, pt_backend = backend, pt_extent = src_extent source,
      pt_defaults = src_defaults source, pt_instance = fresh, pt_payload = payload\<rparr>"

section \<open>request.rs\<close>

datatype region_selection = FullFrame | Region rect clip_policy

definition selection_pixels :: "pixel_rect \<Rightarrow> clip_policy \<Rightarrow> error + region_selection" where
  "selection_pixels r policy =
     and_then (map_err geometry_error
       (rect_new CapturePixels (f64_of_int (pr_left r)) (f64_of_int (pr_top r))
         (f64_of_int (pr_right r)) (f64_of_int (pr_bottom r))))
       (\<lambda>rect. Inr (Region rect policy))"

datatype suppression = DropOverlapping | KeepAll

record match_options =
  mo_min_score :: f64
  mo_max_results :: u32
  mo_suppression :: suppression

definition options_from_defaults :: "match_defaults \<Rightarrow> match_options" where
  "options_from_defaults d =
     \<lparr>mo_min_score = md_min_score d, mo_max_results = md_max_results d, mo_suppression = DropOverlapping\<rparr>"

definition with_min_score :: "match_options \<Rightarrow> f64 \<Rightarrow> vision_fault + match_options" where
  "with_min_score o1 s =
     (if \<not> score_in_range s then Inl InvalidMatchScore else Inr (o1\<lparr>mo_min_score := s\<rparr>))"

definition with_max_results :: "match_options \<Rightarrow> u32 \<Rightarrow> vision_fault + match_options" where
  "with_max_results o1 n =
     (if n = 0 then Inl InvalidMatchResultLimit else Inr (o1\<lparr>mo_max_results := n\<rparr>))"

definition with_suppression :: "match_options \<Rightarrow> suppression \<Rightarrow> match_options" where
  "with_suppression o1 s = o1\<lparr>mo_suppression := s\<rparr>"

text \<open>The derived \<open>PartialEq\<close> compares the score as a floating-point number.\<close>

definition options_eq :: "match_options \<Rightarrow> match_options \<Rightarrow> bool" where
  "options_eq a b \<longleftrightarrow> feq (mo_min_score a) (mo_min_score b) \<and> mo_max_results a = mo_max_results b
     \<and> mo_suppression a = mo_suppression b"

definition valid_options :: "match_options \<Rightarrow> bool" where
  "valid_options o1 \<longleftrightarrow> score_in_range (mo_min_score o1) \<and> mo_max_results o1 \<noteq> 0"

text \<open>A frame behind its \<open>Arc\<close>: handles are the same when the addresses are.\<close>

record 'p frame_handle =
  fh_instance :: nat
  fh_frame :: "'p frame"

definition is_same_instance :: "'p frame_handle \<Rightarrow> 'p frame_handle \<Rightarrow> bool" where
  "is_same_instance a b \<longleftrightarrow> fh_instance a = fh_instance b"

record ('p, 'q) match_request =
  mr_frame :: "'p frame_handle"
  mr_selection :: region_selection
  mr_template :: "'q prepared_template"
  mr_options :: match_options

definition match_request_new ::
    "'p frame_handle \<Rightarrow> region_selection \<Rightarrow> 'q prepared_template \<Rightarrow> match_options \<Rightarrow> ('p, 'q) match_request" where
  "match_request_new f selection t o1 =
     \<lparr>mr_frame = f, mr_selection = selection, mr_template = t, mr_options = o1\<rparr>"

definition match_request_from_view ::
    "'p frame_handle \<Rightarrow> pixel_rect \<Rightarrow> 'q prepared_template \<Rightarrow> match_options \<Rightarrow> error + ('p, 'q) match_request" where
  "match_request_from_view f region t o1 =
     and_then (selection_pixels region Reject) (\<lambda>selection. Inr (match_request_new f selection t o1))"

section \<open>backend.rs\<close>

record candidate =
  cd_left :: int
  cd_top :: int
  cd_score :: f64

record backend_descriptor =
  bd_id :: string
  bd_version :: string
  bd_format :: pixel_format
  bd_alternate :: "pixel_format option"

definition backend_descriptor_new :: "string \<Rightarrow> string \<Rightarrow> pixel_format \<Rightarrow> backend_descriptor" where
  "backend_descriptor_new i v f = \<lparr>bd_id = i, bd_version = v, bd_format = f, bd_alternate = None\<rparr>"

definition with_alternate_format :: "backend_descriptor \<Rightarrow> pixel_format \<Rightarrow> backend_descriptor" where
  "with_alternate_format d f = d\<lparr>bd_alternate := (if f \<noteq> bd_format d then Some f else None)\<rparr>"

definition accepts_format :: "backend_descriptor \<Rightarrow> pixel_format \<Rightarrow> bool" where
  "accepts_format d f \<longleftrightarrow> bd_format d = f \<or> bd_alternate d = Some f"

definition i32_checked_add :: "int \<Rightarrow> int \<Rightarrow> int option" where
  "i32_checked_add a b = (if in_i32 (a + b) then Some (a + b) else None)"

definition candidate_bounds :: "pixel_rect \<Rightarrow> candidate \<Rightarrow> pixel_extent \<Rightarrow> pixel_rect option" where
  "candidate_bounds region c e =
     Option.bind (i32_checked_add (pr_left region) (cd_left c)) (\<lambda>left.
     Option.bind (i32_checked_add (pr_top region) (cd_top c)) (\<lambda>tp.
     Option.bind (Option.bind (i32_of_u32 (px_width e)) (i32_checked_add left)) (\<lambda>right.
     Option.bind (Option.bind (i32_of_u32 (px_height e)) (i32_checked_add tp)) (\<lambda>bottom.
       (case pixel_rect_new left tp right bottom of
          Inl _ \<Rightarrow> None
        | Inr b \<Rightarrow> if contains_rect region b then Some b else None)))))"

section \<open>result.rs\<close>

record match_found =
  mf_template :: template_id
  mf_bounds :: pixel_rect
  mf_score :: f64

text \<open>\<open>f64::total_cmp\<close> on values; the one NaN stands for a positive one and zeros carry no sign.\<close>

fun total_rank :: "f64 \<Rightarrow> nat" where
  "total_rank NInf = 0"
| "total_rank (Fin _) = 1"
| "total_rank PInf = 2"
| "total_rank NaN = 3"

fun total_value :: "f64 \<Rightarrow> rat" where
  "total_value (Fin r) = r"
| "total_value _ = 0"

definition total_cmp :: "f64 \<Rightarrow> f64 \<Rightarrow> ordering" where
  "total_cmp a b = then_with (compare (total_rank a) (total_rank b)) (compare (total_value a) (total_value b))"

definition canonical_order :: "match_found \<Rightarrow> match_found \<Rightarrow> ordering" where
  "canonical_order a b =
     then_with (total_cmp (mf_score b) (mf_score a))
    (then_with (compare (pr_top (mf_bounds a)) (pr_top (mf_bounds b)))
    (then_with (compare (pr_left (mf_bounds a)) (pr_left (mf_bounds b)))
    (then_with (compare (pr_bottom (mf_bounds a)) (pr_bottom (mf_bounds b)))
    (then_with (compare (pr_right (mf_bounds a)) (pr_right (mf_bounds b)))
      (compare_string (template_name (mf_template a)) (template_name (mf_template b)))))))"

record match_result =
  rs_stamp :: frame_stamp
  rs_transform :: transform_snapshot
  rs_searched :: pixel_rect
  rs_backend :: backend_descriptor
  rs_options :: match_options
  rs_matches :: "match_found list"

definition result_best :: "match_result \<Rightarrow> match_found option" where
  "result_best r = (case rs_matches r of [] \<Rightarrow> None | m # _ \<Rightarrow> Some m)"

definition result_is_empty :: "match_result \<Rightarrow> bool" where
  "result_is_empty r \<longleftrightarrow> rs_matches r = []"

section \<open>The canonical order is a total order\<close>

lemma total_cmp_equal: "total_cmp a b = OrdEqual \<Longrightarrow> a = b"
  by (cases a; cases b) (simp_all add: total_cmp_def then_with_eq)

lemma comparison_total_cmp: "comparison total_cmp"
  unfolding total_cmp_def
  by (rule comparison_then; rule comparison_key [OF comparison_compare])

lemma pixel_rect_eqI:
  "pr_left a = pr_left b \<Longrightarrow> pr_top a = pr_top b \<Longrightarrow> pr_right a = pr_right b \<Longrightarrow> pr_bottom a = pr_bottom b
     \<Longrightarrow> a = (b :: pixel_rect)"
  by (cases a; cases b) simp

lemma canonical_order_equal: "canonical_order a b = OrdEqual \<Longrightarrow> a = b"
  by (cases a; cases b; cases "mf_template a"; cases "mf_template b")
     (auto simp: canonical_order_def then_with_eq dest: total_cmp_equal compare_string_equal
           intro: pixel_rect_eqI)

lemma comparison_canonical: "comparison canonical_order"
proof -
  have "comparison (\<lambda>a b :: match_found. total_cmp (mf_score b) (mf_score a))"
    by (rule comparison_reverse [OF comparison_key [OF comparison_total_cmp]])
  moreover have "comparison (\<lambda>a b :: match_found. compare (f (mf_bounds a)) (f (mf_bounds b)))"
    for f :: "pixel_rect \<Rightarrow> int"
    by (rule comparison_key [OF comparison_compare])
  moreover have "comparison (\<lambda>a b. compare_string (template_name (mf_template a)) (template_name (mf_template b)))"
    by (rule comparison_key [OF comparison_string])
  ultimately show ?thesis
    unfolding canonical_order_def [abs_def] by (intro comparison_then)
qed

interpretation canonical: total_comparison canonical_order
  by (intro total_comparison.intro comparison_canonical total_comparison_axioms.intro canonical_order_equal)

end
