(* ===== verification/Matching.thy ===== *)
theory Matching
  imports VisionModel
begin

text \<open>
  Template matching, \<open>crates/automation/vision/src/matcher.rs\<close>: the region a request resolves to, mapping
  its pixels, the backend call, the normalisation of what the backend reports, and when two requests share
  one analysis. The backend is a record of functions over the world of the mapping environment.
\<close>

record ('q, 'w) vision_env =
  ve_mapping :: "'w mapping_env"
  ve_descriptor :: backend_descriptor
  ve_prepare :: "template_source \<Rightarrow> operation_context \<Rightarrow> 'w \<Rightarrow> (error + 'q prepared_template) \<times> 'w"
  ve_find :: "'q prepared_template \<Rightarrow> cpu_mapping \<Rightarrow> pixel_rect \<Rightarrow> match_options \<Rightarrow> operation_context \<Rightarrow> 'w
                \<Rightarrow> (error + candidate list) \<times> 'w"

record 'p mapped_match =
  mm_frame :: "'p frame_handle"
  mm_transform :: transform_snapshot
  mm_searched :: pixel_rect
  mm_descriptor :: backend_descriptor
  mm_template :: nat
  mm_options :: match_options
  mm_pixels :: "cpu_mapping option"

section \<open>Regions\<close>

definition selected_format :: "backend_descriptor \<Rightarrow> 'p frame_handle \<Rightarrow> pixel_format" where
  "selected_format d f =
     (let source = fd_format (fr_descriptor (fh_frame f))
      in if accepts_format d source then source else bd_format d)"

definition resolve_region :: "transform_snapshot \<Rightarrow> region_selection \<Rightarrow> error + pixel_rect option" where
  "resolve_region t selection =
     (case selection of
        FullFrame \<Rightarrow> and_then (map_err geometry_error (frame_bounds t)) (\<lambda>b. Inr (Some b))
      | Region rect policy \<Rightarrow>
          and_then (map_err geometry_error (require_non_empty rect)) (\<lambda>_.
            case resolve_capture_pixels t rect policy of
              Inr region \<Rightarrow> Inr (Some region)
            | Inl fault \<Rightarrow>
                if fault = OutsideExtent \<and> policy = Clip then Inr None else Inl (geometry_error fault)))"

definition empty_region :: "error + pixel_rect" where
  "empty_region = map_err geometry_error (pixel_rect_new 0 0 0 0)"

text \<open>The region a request searches: the empty one when clipping leaves nothing.\<close>

definition searched_region :: "transform_snapshot \<Rightarrow> region_selection \<Rightarrow> error + pixel_rect" where
  "searched_region t selection =
     and_then (resolve_region t selection) (\<lambda>region.
       case region of Some r \<Rightarrow> Inr r | None \<Rightarrow> empty_region)"

text \<open>\<open>None\<close> is the panic of a region whose dimensions do not fit.\<close>

definition fits :: "pixel_extent \<Rightarrow> pixel_rect \<Rightarrow> bool option" where
  "fits e r =
     (case pixel_rect_width r of
        None \<Rightarrow> None
      | Some w \<Rightarrow> if px_width e \<le> w then map_option (\<lambda>h. px_height e \<le> h) (pixel_rect_height r) else Some False)"

definition has_pixels :: "pixel_extent \<Rightarrow> pixel_rect \<Rightarrow> bool option" where
  "has_pixels e searched = (if pixel_rect_is_empty searched then Some False else fits e searched)"

section \<open>Shared analyses\<close>

definition is_equivalent_request :: "'p mapped_match \<Rightarrow> ('p, 'q) match_request \<Rightarrow> bool option" where
  "is_equivalent_request m r =
     (if \<not> is_same_instance (mr_frame r) (mm_frame m) \<or> pt_backend (mr_template r) \<noteq> bd_id (mm_descriptor m)
         \<or> mm_template m \<noteq> pt_instance (mr_template r) \<or> \<not> options_eq (mr_options r) (mm_options m)
      then Some False
      else (case searched_region (fr_transform (fh_frame (mr_frame r))) (mr_selection r) of
              Inl _ \<Rightarrow> Some False
            | Inr searched \<Rightarrow>
                map_option (\<lambda>has. searched = mm_searched m \<and> has = (mm_pixels m \<noteq> None)
                    \<and> (case mm_pixels m of
                         None \<Rightarrow> True
                       | Some p \<Rightarrow> fd_format (mp_descriptor p) = selected_format (mm_descriptor m) (mm_frame m)))
                  (has_pixels (pt_extent (mr_template r)) searched)))"

definition resolved_request :: "('p, 'q) match_request \<Rightarrow> (pixel_rect \<times> bool) option option" where
  "resolved_request r =
     (case searched_region (fr_transform (fh_frame (mr_frame r))) (mr_selection r) of
        Inl _ \<Rightarrow> Some None
      | Inr searched \<Rightarrow> map_option (\<lambda>has. Some (searched, has)) (has_pixels (pt_extent (mr_template r)) searched))"

definition requests_are_equivalent ::
    "backend_descriptor \<Rightarrow> ('p, 'q) match_request \<Rightarrow> ('p, 'q) match_request \<Rightarrow> bool option" where
  "requests_are_equivalent d l r =
     (if \<not> is_same_instance (mr_frame l) (mr_frame r) \<or> pt_backend (mr_template l) \<noteq> bd_id d
         \<or> pt_backend (mr_template r) \<noteq> bd_id d \<or> pt_instance (mr_template l) \<noteq> pt_instance (mr_template r)
         \<or> \<not> options_eq (mr_options l) (mr_options r)
      then Some False
      else Option.bind (resolved_request l) (\<lambda>rl.
           Option.bind (resolved_request r) (\<lambda>rr.
             Some (case (rl, rr) of (Some x, Some y) \<Rightarrow> x = y | _ \<Rightarrow> False))))"

section \<open>What the backend reports\<close>

fun accepted_matches ::
    "'q prepared_template \<Rightarrow> pixel_rect \<Rightarrow> match_options \<Rightarrow> candidate list \<Rightarrow> error + match_found list" where
  "accepted_matches t region o1 [] = Inr []"
| "accepted_matches t region o1 (c # cs) =
     (if \<not> score_in_range (cd_score c) then Inl (vision_error BackendScoreOutOfRange)
      else (case candidate_bounds region c (pt_extent t) of
              None \<Rightarrow> Inl (vision_error BackendCandidateOutsideRegion)
            | Some b \<Rightarrow>
                and_then (accepted_matches t region o1 cs) (\<lambda>kept.
                  if flt (cd_score c) (mo_min_score o1) then Inr kept
                  else Inr (\<lparr>mf_template = pt_id t, mf_bounds = b, mf_score = cd_score c\<rparr> # kept))))"

definition overlaps :: "match_found \<Rightarrow> match_found \<Rightarrow> bool" where
  "overlaps survivor found \<longleftrightarrow>
     (case intersect (mf_bounds survivor) (mf_bounds found) of
        None \<Rightarrow> False
      | Some shared \<Rightarrow> \<not> pixel_rect_is_empty shared)"

fun suppress :: "match_found list \<Rightarrow> match_found list \<Rightarrow> match_found list" where
  "suppress survivors [] = survivors"
| "suppress survivors (m # ms) =
     (if \<exists>s \<in> set survivors. overlaps s m then suppress survivors ms else suppress (survivors @ [m]) ms)"

definition normalize ::
    "'q prepared_template \<Rightarrow> pixel_rect \<Rightarrow> match_options \<Rightarrow> candidate list \<Rightarrow> error + match_found list" where
  "normalize t region o1 cs =
     and_then (accepted_matches t region o1 cs) (\<lambda>kept.
       (let kept = sort_by canonical_order kept;
            kept = (if mo_suppression o1 = DropOverlapping then suppress [] kept else kept)
        in Inr (take (unat (mo_max_results o1)) kept)))"

section \<open>The matcher\<close>

definition commit_result ::
    "('q, 'w) vision_env \<Rightarrow> operation \<Rightarrow> 'p mapped_match \<Rightarrow> match_found list \<Rightarrow> 'w \<Rightarrow> (error + match_result) \<times> 'w" where
  "commit_result env att m matches w =
     (let (ob, w) = me_look (ve_mapping env) w
      in (map_err interruption_error (commit att ob
            \<lparr>rs_stamp = fr_stamp (fh_frame (mm_frame m)), rs_transform = mm_transform m,
             rs_searched = mm_searched m, rs_backend = mm_descriptor m, rs_options = mm_options m,
             rs_matches = matches\<rparr>), w))"

definition matcher_prepare ::
    "('q, 'w) vision_env \<Rightarrow> template_source \<Rightarrow> operation_context \<Rightarrow> 'w \<Rightarrow> (error + 'q prepared_template) \<times> 'w" where
  "matcher_prepare env source c w =
     (let (ob, w) = me_look (ve_mapping env) w
      in case admit c ob of
           Inl i \<Rightarrow> (Inl (interruption_error i), w)
         | Inr _ \<Rightarrow> ve_prepare env source c w)"

text \<open>The pixels of the searched region, when there are any and the template fits.\<close>

definition mapped_pixels ::
    "('q, 'w) vision_env \<Rightarrow> 'p frame_handle \<Rightarrow> pixel_rect \<Rightarrow> bool \<Rightarrow> operation \<Rightarrow> operation_context
     \<Rightarrow> mapping_cache \<Rightarrow> 'w \<Rightarrow> ((error + cpu_mapping option) \<times> operation \<times> mapping_cache \<times> 'w) option" where
  "mapped_pixels env f searched has att c cache w =
     (if \<not> has then Some (Inr None, att, cache, w)
      else (case view_new (fh_frame f) searched of
              Inl e \<Rightarrow> Some (Inl (capture_error e), att, cache, w)
            | Inr v \<Rightarrow>
                (case view_map (ve_mapping env) v (selected_format (ve_descriptor env) f) c cache w of
                   None \<Rightarrow> None
                 | Some (Inl e, cache, w) \<Rightarrow> Some (Inl e, att, cache, w)
                 | Some (Inr p, cache, w) \<Rightarrow>
                     (let (r, att, w) = look_checkpoint (ve_mapping env) att w
                      in Some (and_then r (\<lambda>_. Inr (Some p)), att, cache, w)))))"

definition map_match ::
    "('q, 'w) vision_env \<Rightarrow> ('p, 'q) match_request \<Rightarrow> operation_context \<Rightarrow> mapping_cache \<Rightarrow> 'w
     \<Rightarrow> ((error + 'p mapped_match) \<times> mapping_cache \<times> 'w) option" where
  "map_match env r c cache w =
     (let (ob, w) = me_look (ve_mapping env) w
      in case admit c ob of
           Inl i \<Rightarrow> Some (Inl (interruption_error i), cache, w)
         | Inr att \<Rightarrow>
             if pt_backend (mr_template r) \<noteq> bd_id (ve_descriptor env)
             then Some (Inl (vision_error BackendMismatch), cache, w)
             else (let t = fr_transform (fh_frame (mr_frame r)) in
               case searched_region t (mr_selection r) of
                 Inl e \<Rightarrow> Some (Inl e, cache, w)
               | Inr searched \<Rightarrow>
                   Option.bind (has_pixels (pt_extent (mr_template r)) searched) (\<lambda>has.
                   Option.bind (mapped_pixels env (mr_frame r) searched has att c cache w)
                     (\<lambda>(px, att, cache, w).
                       case px of
                         Inl e \<Rightarrow> Some (Inl e, cache, w)
                       | Inr px \<Rightarrow>
                           (let (ob, w) = me_look (ve_mapping env) w
                            in Some (map_err interruption_error (commit att ob
                                 \<lparr>mm_frame = mr_frame r, mm_transform = t, mm_searched = searched,
                                  mm_descriptor = ve_descriptor env, mm_template = pt_instance (mr_template r),
                                  mm_options = mr_options r, mm_pixels = px\<rparr>), cache, w))))))"

definition find_mapped ::
    "('q, 'w) vision_env \<Rightarrow> 'p mapped_match \<Rightarrow> 'q prepared_template \<Rightarrow> operation_context \<Rightarrow> 'w
     \<Rightarrow> (error + match_result) \<times> 'w" where
  "find_mapped env m t c w =
     (let (ob, w) = me_look (ve_mapping env) w
      in case admit c ob of
           Inl i \<Rightarrow> (Inl (interruption_error i), w)
         | Inr att \<Rightarrow>
             if pt_backend t \<noteq> bd_id (ve_descriptor env) \<or> ve_descriptor env \<noteq> mm_descriptor m
                \<or> mm_template m \<noteq> pt_instance t
             then (Inl (vision_error BackendMismatch), w)
             else (case mm_pixels m of
                 None \<Rightarrow> commit_result env att m [] w
               | Some p \<Rightarrow>
                   if fd_format (mp_descriptor p) \<noteq> selected_format (ve_descriptor env) (mm_frame m)
                   then (Inl (vision_error BackendMismatch), w)
                   else (case ve_find env t p (mm_searched m) (mm_options m) c w of
                           (Inl e, w) \<Rightarrow> (Inl e, w)
                         | (Inr candidates, w) \<Rightarrow>
                             (let (r, att, w) = look_checkpoint (ve_mapping env) att w
                              in case r of
                                   Inl e \<Rightarrow> (Inl e, w)
                                 | Inr _ \<Rightarrow>
                                     (case normalize t (mm_searched m) (mm_options m) candidates of
                                        Inl e \<Rightarrow> (Inl e, w)
                                      | Inr matches \<Rightarrow> commit_result env att m matches w)))))"

definition matcher_find ::
    "('q, 'w) vision_env \<Rightarrow> ('p, 'q) match_request \<Rightarrow> operation_context \<Rightarrow> mapping_cache \<Rightarrow> 'w
     \<Rightarrow> ((error + match_result) \<times> mapping_cache \<times> 'w) option" where
  "matcher_find env r c cache w =
     (case map_match env r c cache w of
        None \<Rightarrow> None
      | Some (Inl e, cache, w) \<Rightarrow> Some (Inl e, cache, w)
      | Some (Inr m, cache, w) \<Rightarrow>
          (case find_mapped env m (mr_template r) c w of (res, w) \<Rightarrow> Some (res, cache, w)))"


section \<open>Regions are inside the frame\<close>

lemma searched_region_ok:
  assumes "searched_region t selection = Inr r"
  shows "valid_pixel_rect r" "\<not> pixel_rect_is_empty r \<Longrightarrow> contains_rect (frame_rect (ts_extent t)) r"
proof -
  have empty: "valid_pixel_rect e \<and> pixel_rect_is_empty e" if "empty_region = Inr e" for e
    using that by (auto simp: empty_region_def result_simps pixel_rect_new_def valid_pixel_rect_def
        pixel_rect_is_empty_def pixel_rect_width_def u32_of_i64_def in_i32_def i32_min_def i32_max_def)
  obtain q where q: "resolve_region t selection = Inr q"
    and r: "case q of Some q \<Rightarrow> r = q | None \<Rightarrow> empty_region = Inr r"
    using assms by (auto simp: searched_region_def result_simps split: option.splits)
  have "valid_pixel_rect x \<and> contains_rect (frame_rect (ts_extent t)) x" if x: "q = Some x" for x
  proof (cases selection)
    case FullFrame
    with q x show ?thesis
      by (auto simp: resolve_region_def frame_bounds_def to_rect_eq result_simps frame_rect_valid contains_rect_def
          split: if_splits)
  next
    case (Region rect policy)
    with q x have "resolve_capture_pixels t rect policy = Inr x"
      by (auto simp: resolve_region_def result_simps split: sum.splits if_splits)
    from resolve_capture_pixels_in_bounds [OF this] show ?thesis by blast
  qed
  with r empty show "valid_pixel_rect r"
    "\<not> pixel_rect_is_empty r \<Longrightarrow> contains_rect (frame_rect (ts_extent t)) r"
    by (auto split: option.splits)
qed

lemma fits_total:
  assumes "valid_pixel_rect r"
  obtains b where "fits e r = Some b"
    "b \<longleftrightarrow> uint (px_width e) \<le> pr_right r - pr_left r \<and> uint (px_height e) \<le> pr_bottom r - pr_top r"
proof -
  obtain w h where "pixel_rect_width r = Some w" "pixel_rect_height r = Some h"
    and u: "uint w = pr_right r - pr_left r" "uint h = pr_bottom r - pr_top r"
    using pixel_rect_spans [OF assms] .
  then show ?thesis by (intro that [of "px_width e \<le> w \<and> px_height e \<le> h"])
    (simp_all add: fits_def word_le_def flip: u)
qed

lemma has_pixels_total:
  assumes "valid_pixel_rect r"
  obtains b where "has_pixels e r = Some b" "b \<Longrightarrow> \<not> pixel_rect_is_empty r"
proof (cases "pixel_rect_is_empty r")
  case True
  then show ?thesis by (intro that [of False]) (simp_all add: has_pixels_def)
next
  case False
  obtain b where "fits e r = Some b" using fits_total [OF assms] by metis
  with False show ?thesis by (intro that [of b]) (simp_all add: has_pixels_def)
qed

section \<open>Normalisation\<close>

definition match_of :: "'q prepared_template \<Rightarrow> pixel_rect \<Rightarrow> candidate \<Rightarrow> match_found" where
  "match_of t region c =
     \<lparr>mf_template = pt_id t, mf_bounds = the (candidate_bounds region c (pt_extent t)), mf_score = cd_score c\<rparr>"

definition reportable :: "'q prepared_template \<Rightarrow> pixel_rect \<Rightarrow> candidate \<Rightarrow> bool" where
  "reportable t region c \<longleftrightarrow> score_in_range (cd_score c) \<and> candidate_bounds region c (pt_extent t) \<noteq> None"

lemma accepted_matches_Inr:
  "accepted_matches t region o1 cs = Inr ms \<longleftrightarrow>
     (\<forall>c\<in>set cs. reportable t region c)
     \<and> ms = map (match_of t region) (filter (\<lambda>c. \<not> flt (cd_score c) (mo_min_score o1)) cs)"
proof (induction cs arbitrary: ms)
  case (Cons c cs)
  then show ?case
    by (auto simp: reportable_def match_of_def result_simps split: option.splits if_splits)
qed auto

lemma candidate_bounds_Some:
  assumes "candidate_bounds region c e = Some b"
  shows "valid_pixel_rect b" "contains_rect region b" "pr_left b = pr_left region + cd_left c"
    "pr_top b = pr_top region + cd_top c" "pr_right b = pr_left b + uint (px_width e)"
    "pr_bottom b = pr_top b + uint (px_height e)"
proof -
  obtain left tp w right h bottom where
    l: "i32_checked_add (pr_left region) (cd_left c) = Some left"
    and t: "i32_checked_add (pr_top region) (cd_top c) = Some tp"
    and w: "i32_of_u32 (px_width e) = Some w" and rt: "i32_checked_add left w = Some right"
    and h: "i32_of_u32 (px_height e) = Some h" and bm: "i32_checked_add tp h = Some bottom"
    and res: "(case pixel_rect_new left tp right bottom of
          Inl _ \<Rightarrow> None
        | Inr b \<Rightarrow> if contains_rect region b then Some b else None) = Some b"
    using assms unfolding candidate_bounds_def bind_eq_Some_conv by blast
  have e: "left = pr_left region + cd_left c" "tp = pr_top region + cd_top c"
      "right = left + uint (px_width e)" "bottom = tp + uint (px_height e)"
    and r: "in_i32 left" "in_i32 tp" "in_i32 right" "in_i32 bottom"
    using l t w rt h bm by (simp_all add: i32_checked_add_def i32_of_u32_def split: if_splits)
  have new: "pixel_rect_new left tp right bottom = Inr b" and cont: "contains_rect region b"
    using res by (cases "pixel_rect_new left tp right bottom"; simp split: if_splits)+
  from new have "b = \<lparr>pr_left = left, pr_top = tp, pr_right = right, pr_bottom = bottom\<rparr>" "left \<le> right" "tp \<le> bottom"
    by (simp_all add: pixel_rect_new_Inr)
  with e r cont show "valid_pixel_rect b" "contains_rect region b" "pr_left b = pr_left region + cd_left c"
    "pr_top b = pr_top region + cd_top c" "pr_right b = pr_left b + uint (px_width e)"
    "pr_bottom b = pr_top b + uint (px_height e)"
    by (simp_all add: valid_pixel_rect_def)
qed

lemma overlaps_pixels:
  assumes "valid_pixel_rect (mf_bounds a)" "valid_pixel_rect (mf_bounds b)"
  shows "overlaps a b \<longleftrightarrow> pixels (mf_bounds a) \<inter> pixels (mf_bounds b) \<noteq> {}"
proof (cases "intersect (mf_bounds a) (mf_bounds b)")
  case None
  with iffD1 [OF intersect_None None] show ?thesis by (simp add: overlaps_def del: not_None_eq)
next
  case (Some r)
  with intersect_Some [OF Some] pixel_rect_is_empty_iff [OF intersect_valid [OF Some assms]]
  show ?thesis by (simp add: overlaps_def)
qed

lemma suppress_subset: "set (suppress S ms) \<subseteq> set S \<union> set ms"
  by (induction S ms rule: suppress.induct) auto

lemma suppress_keeps: "set S \<subseteq> set (suppress S ms)"
  by (induction S ms rule: suppress.induct) auto

lemma suppress_sorted: "sorted_wrt R (S @ ms) \<Longrightarrow> sorted_wrt R (suppress S ms)"
  by (induction S ms rule: suppress.induct) (auto simp: sorted_wrt_append)

lemma suppress_disjoint:
  "sorted_wrt (\<lambda>a b. \<not> overlaps a b) S \<Longrightarrow> sorted_wrt (\<lambda>a b. \<not> overlaps a b) (suppress S ms)"
  by (induction S ms rule: suppress.induct) (auto simp: sorted_wrt_append)

lemma suppress_complete:
  assumes "sorted_wrt R (S @ ms)" "m \<in> set ms"
  shows "m \<in> set (suppress S ms) \<or> (\<exists>s\<in>set (suppress S ms). R s m \<and> overlaps s m)"
  using assms
proof (induction S ms rule: suppress.induct)
  case (2 S a ms)
  consider (covered) s where "s \<in> set S" "overlaps s a" | (kept) "\<not> (\<exists>s\<in>set S. overlaps s a)" by blast
  then show ?case
  proof cases
    case covered
    then have "set S \<subseteq> set (suppress S ms)" "R s a" using 2(3) suppress_keeps by (auto simp: sorted_wrt_append)
    moreover have "sorted_wrt R (S @ ms)" using 2(3) by (auto simp: sorted_wrt_append)
    ultimately show ?thesis using covered 2(1,4) by auto
  next
    case kept
    then have "a \<in> set (suppress (S @ [a]) ms)" using suppress_keeps [of "S @ [a]"] by auto
    with kept 2(2-4) show ?thesis by auto
  qed
qed simp


lemma take_behind:
  assumes "sorted_wrt R xs" "k \<in> set xs"
  shows "k \<in> set (take n xs) \<or> length (take n xs) = n \<and> (\<forall>x\<in>set (take n xs). R x k)"
proof (cases "k \<in> set (take n xs)")
  case False
  have split: "xs = take n xs @ drop n xs" by simp
  with False assms(2) have k: "k \<in> set (drop n xs)" by (metis Un_iff set_append)
  then have "n < length xs" by (cases "n < length xs") simp_all
  moreover have "\<forall>x\<in>set (take n xs). R x k" using assms(1) k split by (metis sorted_wrt_append)
  ultimately show ?thesis by simp
qed simp

text \<open>What a match made of a candidate looks like.\<close>

definition shaped :: "'q prepared_template \<Rightarrow> pixel_rect \<Rightarrow> match_options \<Rightarrow> match_found \<Rightarrow> bool" where
  "shaped t region o1 m \<longleftrightarrow> mf_template m = pt_id t \<and> contains_rect region (mf_bounds m)
     \<and> pr_right (mf_bounds m) - pr_left (mf_bounds m) = uint (px_width (pt_extent t))
     \<and> pr_bottom (mf_bounds m) - pr_top (mf_bounds m) = uint (px_height (pt_extent t))
     \<and> score_in_range (mf_score m) \<and> \<not> flt (mf_score m) (mo_min_score o1)"

lemma match_of_shaped:
  assumes "reportable t region c" "\<not> flt (cd_score c) (mo_min_score o1)"
  shows "shaped t region o1 (match_of t region c)" "valid_pixel_rect (mf_bounds (match_of t region c))"
proof -
  obtain b where b: "candidate_bounds region c (pt_extent t) = Some b" using assms(1) by (auto simp: reportable_def)
  from candidate_bounds_Some [OF b] assms b
  show "shaped t region o1 (match_of t region c)" "valid_pixel_rect (mf_bounds (match_of t region c))"
    by (simp_all add: match_of_def shaped_def reportable_def)
qed

lemma normalize_ok:
  assumes "normalize t region o1 cs = Inr ms"
  shows "(\<forall>m\<in>set ms. shaped t region o1 m)
       \<and> sorted_wrt (\<lambda>a b. canonical_order a b \<noteq> OrdGreater) ms
       \<and> (mo_suppression o1 = DropOverlapping \<longrightarrow>
            sorted_wrt (\<lambda>a b. pixels (mf_bounds a) \<inter> pixels (mf_bounds b) = {}) ms)
       \<and> length ms \<le> unat (mo_max_results o1)
       \<and> (\<forall>c\<in>set cs. \<not> flt (cd_score c) (mo_min_score o1) \<longrightarrow>
            match_of t region c \<in> set ms
            \<or> mo_suppression o1 = DropOverlapping
              \<and> (\<exists>k\<in>set ms. canonical_order k (match_of t region c) \<noteq> OrdGreater \<and> overlaps k (match_of t region c))
            \<or> length ms = unat (mo_max_results o1)
              \<and> (\<forall>k\<in>set ms. canonical_order k (match_of t region c) \<noteq> OrdGreater))"
proof -
  let ?good = "\<lambda>c. \<not> flt (cd_score c) (mo_min_score o1)" and ?R = "\<lambda>a b. canonical_order a b \<noteq> OrdGreater"
  define kept where "kept = map (match_of t region) (filter ?good cs)"
  define all where "all = (if mo_suppression o1 = DropOverlapping then suppress [] (sort_by canonical_order kept)
                           else sort_by canonical_order kept)"
  have rep: "\<forall>c\<in>set cs. reportable t region c" and ms: "ms = take (unat (mo_max_results o1)) all"
    using assms by (auto simp: normalize_def result_simps accepted_matches_Inr kept_def all_def Let_def)
  have sorted: "sorted_wrt ?R all"
    using suppress_sorted [of ?R "[]"] canonical.sort_by_sorted by (simp add: all_def)
  have sub: "set all \<subseteq> set kept" using suppress_subset [of "[]" "sort_by canonical_order kept"] by (auto simp: all_def)
  have shape: "m \<in> set kept \<Longrightarrow> shaped t region o1 m \<and> valid_pixel_rect (mf_bounds m)" for m
    using rep by (auto simp: kept_def intro!: match_of_shaped)
  have msall: "set ms \<subseteq> set all" by (simp add: ms set_take_subset)
  have disj: "sorted_wrt (\<lambda>a b. pixels (mf_bounds a) \<inter> pixels (mf_bounds b) = {}) ms"
    if "mo_suppression o1 = DropOverlapping"
  proof -
    have "sorted_wrt (\<lambda>a b. \<not> overlaps a b) ms"
      using suppress_disjoint [of "[]"] that by (simp add: ms all_def sorted_wrt_take)
    then show ?thesis using msall sub shape overlaps_pixels
      by (elim sorted_wrt_mono_rel [rotated]) blast
  qed
  have complete: "m \<in> set all \<or> mo_suppression o1 = DropOverlapping \<and> (\<exists>k\<in>set all. ?R k m \<and> overlaps k m)"
    if "m \<in> set kept" for m
    using that suppress_complete [of ?R "[]" "sort_by canonical_order kept" m] canonical.sort_by_sorted
    by (auto simp: all_def)
  have behind: "k \<in> set ms \<or> length ms = unat (mo_max_results o1) \<and> (\<forall>x\<in>set ms. ?R x k)" if k: "k \<in> set all" for k
    using take_behind [OF sorted k] by (simp only: ms)
  have "match_of t region c \<in> set ms
      \<or> mo_suppression o1 = DropOverlapping
        \<and> (\<exists>k\<in>set ms. ?R k (match_of t region c) \<and> overlaps k (match_of t region c))
      \<or> length ms = unat (mo_max_results o1) \<and> (\<forall>k\<in>set ms. ?R k (match_of t region c))"
    if "c \<in> set cs" "?good c" for c
    using complete [of "match_of t region c"] behind canonical.cmp_le_trans that by (auto simp: kept_def) blast+
  then show ?thesis
    using msall sub shape sorted disj by (auto simp: ms sorted_wrt_take)
qed

text \<open>
  C38: what a search reports is exact. Every reported match carries the template's identity, has the
  template's extent, lies inside the searched region and scores at least the requested minimum; matches come
  in canonical order, best score first, no two of them share a pixel when overlapping ones are to be
  dropped, and there are at most as many as asked for. Nothing is lost silently: whatever the backend found
  with a sufficient score is reported, or overlaps a reported match that is not behind it, or the list is
  full of matches that are not behind it.
\<close>

theorem normalize_exact:
  assumes "normalize t region o1 cs = Inr ms"
  shows "(\<forall>m\<in>set ms. shaped t region o1 m)
       \<and> sorted_wrt (\<lambda>a b. canonical_order a b \<noteq> OrdGreater) ms
       \<and> (mo_suppression o1 = DropOverlapping \<longrightarrow>
            sorted_wrt (\<lambda>a b. pixels (mf_bounds a) \<inter> pixels (mf_bounds b) = {}) ms)
       \<and> length ms \<le> unat (mo_max_results o1)
       \<and> (\<forall>c\<in>set cs. \<not> flt (cd_score c) (mo_min_score o1) \<longrightarrow>
            match_of t region c \<in> set ms
            \<or> mo_suppression o1 = DropOverlapping
              \<and> (\<exists>k\<in>set ms. canonical_order k (match_of t region c) \<noteq> OrdGreater \<and> overlaps k (match_of t region c))
            \<or> length ms = unat (mo_max_results o1)
              \<and> (\<forall>k\<in>set ms. canonical_order k (match_of t region c) \<noteq> OrdGreater))"
  by (rule normalize_ok [OF assms])

text \<open>
  The order in which the backend lists its candidates does not matter: if one order is accepted, every
  other order of the same candidates gives the same matches in the same order.
\<close>

theorem normalize_order_irrelevant:
  assumes "mset cs = mset cs'" and "normalize t region o1 cs = Inr ms"
  shows "normalize t region o1 cs' = Inr ms"
proof -
  let ?kept = "\<lambda>cs. map (match_of t region) (filter (\<lambda>c. \<not> flt (cd_score c) (mo_min_score o1)) cs)"
  have "\<forall>c\<in>set cs. reportable t region c"
    using assms(2) by (auto simp: normalize_def result_simps accepted_matches_Inr)
  moreover have "set cs = set cs'" using assms(1) by (metis set_mset_mset)
  ultimately have acc: "accepted_matches t region o1 cs = Inr (?kept cs)"
      "accepted_matches t region o1 cs' = Inr (?kept cs')"
    by (simp_all add: accepted_matches_Inr)
  have "mset (?kept cs) = mset (?kept cs')" using assms(1) by (simp add: mset_filter)
  then have "sort_by canonical_order (?kept cs) = sort_by canonical_order (?kept cs')"
    by (rule canonical.sort_by_mset)
  with assms(2) show ?thesis by (simp add: normalize_def acc and_then_def)
qed


section \<open>What is mapped and searched\<close>

text \<open>The mapping of a request over a frame with the given content.\<close>

definition mapping_fits :: "('q, 'w) vision_env \<Rightarrow> bytes \<Rightarrow> ('p, 'q) match_request \<Rightarrow> 'p mapped_match \<Rightarrow> bool" where
  "mapping_fits env content r m \<longleftrightarrow>
     mm_frame m = mr_frame r \<and> mm_transform m = fr_transform (fh_frame (mr_frame r))
     \<and> searched_region (fr_transform (fh_frame (mr_frame r))) (mr_selection r) = Inr (mm_searched m)
     \<and> mm_descriptor m = ve_descriptor env \<and> bd_id (ve_descriptor env) = pt_backend (mr_template r)
     \<and> mm_template m = pt_instance (mr_template r) \<and> mm_options m = mr_options r
     \<and> has_pixels (pt_extent (mr_template r)) (mm_searched m) = Some (mm_pixels m \<noteq> None)
     \<and> (\<forall>p. mm_pixels m = Some p \<longrightarrow> mp_stamp p = fr_stamp (fh_frame (mr_frame r)) \<and> mp_region p = mm_searched m
          \<and> fd_format (mp_descriptor p) = selected_format (ve_descriptor env) (mr_frame r)
          \<and> shows_region p (fr_descriptor (fh_frame (mr_frame r))) content)"

text \<open>A frame whose bytes are known, and an environment that tells the truth about them.\<close>

definition frame_content :: "'w mapping_env \<Rightarrow> 'p frame \<Rightarrow> bytes \<Rightarrow> mapping_cache \<Rightarrow> bool" where
  "frame_content env f content cache \<longleftrightarrow>
     valid_descriptor (fr_descriptor f) \<and> length content = byte_len (fr_descriptor f)
     \<and> ts_extent (fr_transform f) = fd_extent (fr_descriptor f)
     \<and> storage_holds env content \<and> others_sound env (fr_descriptor f) content
     \<and> cache_sound (fr_descriptor f) content cache"

lemma mapped_pixels_ok:
  assumes content: "frame_content (ve_mapping env) (fh_frame f) content cache" and "valid_pixel_rect searched"
  obtains px att' cache' w' where "mapped_pixels env f searched has att c cache w = Some (px, att', cache', w')"
    "cache_sound (fr_descriptor (fh_frame f)) content cache'"
    "\<And>q. px = Inr q \<Longrightarrow> (q \<noteq> None) = has"
    "\<And>p. px = Inr (Some p) \<Longrightarrow> mp_stamp p = fr_stamp (fh_frame f) \<and> mp_region p = searched
       \<and> fd_format (mp_descriptor p) = selected_format (ve_descriptor env) f
       \<and> shows_region p (fr_descriptor (fh_frame f)) content"
proof (cases "has \<and> (\<exists>v. view_new (fh_frame f) searched = Inr v)")
  case False
  with content that show ?thesis
    by (cases has; cases "view_new (fh_frame f) searched") (auto simp: mapped_pixels_def frame_content_def)
next
  case True
  then obtain v where v: "view_new (fh_frame f) searched = Inr v" and has by blast
  then have fv: "fv_frame v = fh_frame f" "fv_region v = searched"
    by (auto simp: view_new_def result_simps split: if_splits)
  note ok = content [unfolded frame_content_def]
  let ?format = "selected_format (ve_descriptor env) f"
  obtain r cache' w' where run: "map_region (ve_mapping env) (fh_frame f) searched ?format c cache w = Some (r, cache', w')"
    and sound: "cache_sound (fr_descriptor (fh_frame f)) content cache'"
    and right: "\<And>m. r = Inr m \<Longrightarrow> mp_stamp m = fr_stamp (fh_frame f) \<and> mp_region m = searched
       \<and> fd_format (mp_descriptor m) = ?format \<and> shows_region m (fr_descriptor (fh_frame f)) content"
    using region_mapped [of "fh_frame f" content searched "ve_mapping env" cache ?format c w] ok assms(2)
    by (fastforce split: sum.splits)
  show ?thesis
  proof (cases r)
    case (Inl e)
    with run v fv \<open>has\<close> sound that show ?thesis by (simp add: mapped_pixels_def view_map_def)
  next
    case (Inr p)
    obtain rr att2 w2 where "look_checkpoint (ve_mapping env) att w' = (rr, att2, w2)" by (metis prod_cases3)
    then have run2: "mapped_pixels env f searched has att c cache w
        = Some (and_then rr (\<lambda>_. Inr (Some p)), att2, cache', w2)"
      using run v fv \<open>has\<close> Inr by (simp add: mapped_pixels_def view_map_def)
    show ?thesis
      by (rule that [OF run2 sound]) (use right [OF Inr] \<open>has\<close> in \<open>auto simp: result_simps\<close>)
  qed
qed

lemma map_match_cases:
  obtains (refused) e w' where "map_match env r c cache w = Some (Inl e, cache, w')"
  | (accepted) att w1 searched has where
      "pt_backend (mr_template r) = bd_id (ve_descriptor env)"
      "searched_region (fr_transform (fh_frame (mr_frame r))) (mr_selection r) = Inr searched"
      "has_pixels (pt_extent (mr_template r)) searched = Some has"
      "map_match env r c cache w =
         Option.bind (mapped_pixels env (mr_frame r) searched has att c cache w1)
           (\<lambda>(px, att, cache, w).
              case px of
                Inl e \<Rightarrow> Some (Inl e, cache, w)
              | Inr px \<Rightarrow>
                  (let (ob, w) = me_look (ve_mapping env) w
                   in Some (map_err interruption_error (commit att ob
                        \<lparr>mm_frame = mr_frame r, mm_transform = fr_transform (fh_frame (mr_frame r)),
                         mm_searched = searched, mm_descriptor = ve_descriptor env,
                         mm_template = pt_instance (mr_template r),
                         mm_options = mr_options r, mm_pixels = px\<rparr>), cache, w)))"
proof -
  obtain ob w1 where look: "me_look (ve_mapping env) w = (ob, w1)" by fastforce
  consider i where "admit c ob = Inl i"
    | "pt_backend (mr_template r) \<noteq> bd_id (ve_descriptor env)"
    | e where "searched_region (fr_transform (fh_frame (mr_frame r))) (mr_selection r) = Inl e"
    | att searched where "admit c ob = Inr att" "pt_backend (mr_template r) = bd_id (ve_descriptor env)"
        "searched_region (fr_transform (fh_frame (mr_frame r))) (mr_selection r) = Inr searched"
    by (metis sum.exhaust_sel)
  then show ?thesis
  proof cases
    case (4 att searched)
    obtain has where has: "has_pixels (pt_extent (mr_template r)) searched = Some has"
      using has_pixels_total [OF searched_region_ok(1) [OF 4(3)]] by metis
    show ?thesis
      by (rule accepted [of searched has att w1]) (simp_all add: 4 has look map_match_def Let_def)
  next
    case (3 e)
    then show ?thesis
      by (cases "admit c ob"; cases "pt_backend (mr_template r) = bd_id (ve_descriptor env)")
         (auto simp: look map_match_def Let_def intro: refused)
  qed (cases "admit c ob"; simp add: look map_match_def Let_def refused)+
qed

lemma commit_Inr: "commit op ob v = Inr u \<Longrightarrow> u = v"
  by (auto simp: commit_def split: option.splits)

lemma map_match_ok:
  assumes content: "frame_content (ve_mapping env) (fh_frame (mr_frame r)) content cache"
  obtains res cache' w' where "map_match env r c cache w = Some (res, cache', w')"
    "cache_sound (fr_descriptor (fh_frame (mr_frame r))) content cache'"
    "\<And>m. res = Inr m \<Longrightarrow> mapping_fits env content r m"
proof (cases rule: map_match_cases [of env r c cache w])
  case (refused e w')
  with content that show ?thesis by (simp add: frame_content_def)
next
  case (accepted att w1 searched has)
  obtain px att' cache' w' where px: "mapped_pixels env (mr_frame r) searched has att c cache w1
        = Some (px, att', cache', w')"
    and sound': "cache_sound (fr_descriptor (fh_frame (mr_frame r))) content cache'"
    and pxs: "\<And>q. px = Inr q \<Longrightarrow> (q \<noteq> None) = has"
      "\<And>p. px = Inr (Some p) \<Longrightarrow> mp_stamp p = fr_stamp (fh_frame (mr_frame r)) \<and> mp_region p = searched
         \<and> fd_format (mp_descriptor p) = selected_format (ve_descriptor env) (mr_frame r)
         \<and> shows_region p (fr_descriptor (fh_frame (mr_frame r))) content"
    using mapped_pixels_ok [OF content searched_region_ok(1) [OF accepted(2)]] by metis
  obtain ob w2 where look: "me_look (ve_mapping env) w' = (ob, w2)" by fastforce
  show ?thesis
  proof (cases px)
    case (Inl e)
    with accepted(4) px sound' that show ?thesis by simp
  next
    case (Inr q)
    let ?m = "\<lparr>mm_frame = mr_frame r, mm_transform = fr_transform (fh_frame (mr_frame r)),
               mm_searched = searched, mm_descriptor = ve_descriptor env,
               mm_template = pt_instance (mr_template r), mm_options = mr_options r, mm_pixels = q\<rparr>"
    have fits: "mapping_fits env content r ?m"
      using accepted(1-3) pxs Inr by (auto simp: mapping_fits_def)
    have run: "map_match env r c cache w = Some (map_err interruption_error (commit att' ob ?m), cache', w2)"
      by (simp add: accepted(4) px look Inr)
    show ?thesis
      by (rule that [OF run sound']) (use fits in \<open>auto simp: map_err_def dest: commit_Inr split: sum.splits\<close>)
  qed
qed


lemma commit_result_Inr:
  assumes "commit_result env att m matches w = (Inr result, w')"
  shows "rs_stamp result = fr_stamp (fh_frame (mm_frame m))" "rs_searched result = mm_searched m"
    "rs_options result = mm_options m" "rs_matches result = matches"
proof -
  obtain ob w1 where "me_look (ve_mapping env) w = (ob, w1)" by fastforce
  with assms have "result = \<lparr>rs_stamp = fr_stamp (fh_frame (mm_frame m)), rs_transform = mm_transform m,
      rs_searched = mm_searched m, rs_backend = mm_descriptor m, rs_options = mm_options m, rs_matches = matches\<rparr>"
    by (auto simp: commit_result_def result_simps dest!: commit_Inr split: sum.splits)
  then show "rs_stamp result = fr_stamp (fh_frame (mm_frame m))" "rs_searched result = mm_searched m"
    "rs_options result = mm_options m" "rs_matches result = matches"
    by simp_all
qed

lemma find_mapped_Inr:
  assumes "find_mapped env m t c w = (Inr result, w')"
  shows "rs_stamp result = fr_stamp (fh_frame (mm_frame m)) \<and> rs_searched result = mm_searched m
     \<and> rs_options result = mm_options m
     \<and> (rs_matches result = []
        \<or> (\<exists>p cands w1 w2. mm_pixels m = Some p
             \<and> ve_find env t p (mm_searched m) (mm_options m) c w1 = (Inr cands, w2)
             \<and> normalize t (mm_searched m) (mm_options m) cands = Inr (rs_matches result)))"
proof -
  obtain ob w1 where look: "me_look (ve_mapping env) w = (ob, w1)" by fastforce
  obtain att where att: "admit c ob = Inr att"
    and matched: "pt_backend t = bd_id (ve_descriptor env)" "ve_descriptor env = mm_descriptor m"
      "mm_template m = pt_instance t"
    using assms by (auto simp: find_mapped_def look split: sum.splits if_splits)
  show ?thesis
  proof (cases "mm_pixels m")
    case None
    with assms look att matched have "commit_result env att m [] w1 = (Inr result, w')"
      by (simp add: find_mapped_def)
    from commit_result_Inr [OF this] show ?thesis by simp
  next
    case (Some p)
    then obtain cands w2 att' w3 matches
      where "ve_find env t p (mm_searched m) (mm_options m) c w1 = (Inr cands, w2)"
        and n: "normalize t (mm_searched m) (mm_options m) cands = Inr matches"
        and cr: "commit_result env att' m matches w3 = (Inr result, w')"
      using assms look att matched
      by (auto simp: find_mapped_def split: sum.splits if_splits prod.splits)
    with Some commit_result_Inr [OF cr] show ?thesis by blast
  qed
qed

lemma contains_rect_trans: "contains_rect a b \<Longrightarrow> contains_rect b c \<Longrightarrow> contains_rect a c"
  by (auto simp: contains_rect_def)

text \<open>A result that answers a request over a frame with the given content.\<close>

definition answer_fits ::
    "('q, 'w) vision_env \<Rightarrow> bytes \<Rightarrow> ('p, 'q) match_request \<Rightarrow> operation_context \<Rightarrow> match_result \<Rightarrow> bool" where
  "answer_fits env content r c result \<longleftrightarrow>
     rs_stamp result = fr_stamp (fh_frame (mr_frame r)) \<and> rs_options result = mr_options r
     \<and> searched_region (fr_transform (fh_frame (mr_frame r))) (mr_selection r) = Inr (rs_searched result)
     \<and> (\<forall>m\<in>set (rs_matches result).
          shaped (mr_template r) (rs_searched result) (mr_options r) m
          \<and> contains_rect (frame_rect (fd_extent (fr_descriptor (fh_frame (mr_frame r))))) (mf_bounds m))
     \<and> (rs_matches result \<noteq> [] \<longrightarrow> (\<exists>p cands w1 w2.
          shows_region p (fr_descriptor (fh_frame (mr_frame r))) content \<and> mp_region p = rs_searched result
          \<and> ve_find env (mr_template r) p (rs_searched result) (mr_options r) c w1 = (Inr cands, w2)
          \<and> normalize (mr_template r) (rs_searched result) (mr_options r) cands = Inr (rs_matches result)))"

lemma find_mapped_answer:
  assumes content: "ts_extent (fr_transform (fh_frame (mr_frame r))) = fd_extent (fr_descriptor (fh_frame (mr_frame r)))"
    and fits: "mapping_fits env content r m" and fm: "find_mapped env m (mr_template r) c w = (Inr result, w')"
  shows "answer_fits env content r c result"
proof (cases "rs_matches result = []")
  case True
  with find_mapped_Inr [OF fm] fits show ?thesis by (simp add: answer_fits_def mapping_fits_def)
next
  case False
  note mf = fits [unfolded mapping_fits_def]
  have same: "rs_stamp result = fr_stamp (fh_frame (mr_frame r))" "rs_searched result = mm_searched m"
      "rs_options result = mr_options r"
    using find_mapped_Inr [OF fm] mf by auto
  from False find_mapped_Inr [OF fm] obtain p cands w3 w4 where p: "mm_pixels m = Some p"
    and found: "ve_find env (mr_template r) p (mm_searched m) (mm_options m) c w3 = (Inr cands, w4)"
      "normalize (mr_template r) (mm_searched m) (mm_options m) cands = Inr (rs_matches result)"
    by blast
  have "has_pixels (pt_extent (mr_template r)) (mm_searched m) = Some True" using mf p by simp
  then have "\<not> pixel_rect_is_empty (mm_searched m)" by (auto simp: has_pixels_def split: if_splits)
  then have inside: "contains_rect (frame_rect (fd_extent (fr_descriptor (fh_frame (mr_frame r))))) (mm_searched m)"
    using searched_region_ok(2) [of "fr_transform (fh_frame (mr_frame r))"] mf content by metis
  have sh: "shaped (mr_template r) (mm_searched m) (mm_options m) x" if "x \<in> set (rs_matches result)" for x
    using normalize_ok [OF found(2)] that by blast
  have "mm_options m = mr_options r" using mf by simp
  with sh same have "\<forall>x\<in>set (rs_matches result). shaped (mr_template r) (rs_searched result) (mr_options r) x
       \<and> contains_rect (frame_rect (fd_extent (fr_descriptor (fh_frame (mr_frame r))))) (mf_bounds x)"
    by (auto intro: contains_rect_trans [OF inside] simp: shaped_def)
  moreover have "shows_region p (fr_descriptor (fh_frame (mr_frame r))) content" "mp_region p = rs_searched result"
    using mf p same by auto
  ultimately show ?thesis using same mf found unfolding answer_fits_def by metis
qed

text \<open>
  C37: a search over a frame never panics, and its answer is about exactly that frame: the result carries
  the frame's stamp, the region the request resolves to and the request's options; every match lies inside
  the searched region and inside the frame; and whatever is reported is the normalisation of what the
  backend found on a mapping that shows exactly the frame's pixels of the searched region.
\<close>

theorem search_exact:
  assumes "frame_content (ve_mapping env) (fh_frame (mr_frame r)) content cache"
  shows "\<exists>res cache' w'. matcher_find env r c cache w = Some (res, cache', w')
    \<and> (\<forall>result. res = Inr result \<longrightarrow> answer_fits env content r c result)"
proof -
  obtain res cache' w' where mm: "map_match env r c cache w = Some (res, cache', w')"
    and fits: "\<And>m. res = Inr m \<Longrightarrow> mapping_fits env content r m"
    using map_match_ok [OF assms] by metis
  show ?thesis
  proof (cases res)
    case (Inl e)
    with mm show ?thesis by (simp add: matcher_find_def)
  next
    case (Inr m)
    obtain res2 w2 where fm: "find_mapped env m (mr_template r) c w' = (res2, w2)" by fastforce
    have "answer_fits env content r c result" if "res2 = Inr result" for result
      using assms fits [OF Inr] fm that by (intro find_mapped_answer) (simp_all add: frame_content_def)
    with mm Inr fm show ?thesis by (simp add: matcher_find_def)
  qed
qed

text \<open>
  C39: the two checks that let queries share an analysis agree: a request that was found equivalent to the
  one whose pixels were mapped passes the second check, on the mapping itself, and would have searched the
  same region of the same frame for the same template.
\<close>

theorem coalesced_requests_agree:
  assumes "frame_content (ve_mapping env) (fh_frame (mr_frame l)) content cache"
    and "requests_are_equivalent (ve_descriptor env) l r = Some True"
    and "map_match env l c cache w = Some (Inr m, cache', w')"
  shows "is_equivalent_request m r = Some True
    \<and> searched_region (fr_transform (fh_frame (mr_frame r))) (mr_selection r) = Inr (mm_searched m)
    \<and> pt_instance (mr_template r) = mm_template m \<and> options_eq (mr_options l) (mr_options r)"
proof -
  have fits: "mapping_fits env content l m" using map_match_ok [OF assms(1)] assms(3) by (metis option.inject prod.inject)
  have eq: "is_same_instance (mr_frame l) (mr_frame r)" "pt_backend (mr_template r) = bd_id (ve_descriptor env)"
      "pt_instance (mr_template l) = pt_instance (mr_template r)" "options_eq (mr_options l) (mr_options r)"
      "\<exists>x. resolved_request l = Some (Some x) \<and> resolved_request r = Some (Some x)"
    using assms(2) by (auto simp: requests_are_equivalent_def bind_eq_Some_conv split: if_splits option.splits)
  then obtain has where res: "resolved_request r = Some (Some (mm_searched m, has))"
      "resolved_request l = Some (Some (mm_searched m, has))"
    using fits by (auto simp: resolved_request_def mapping_fits_def)
  then have s: "searched_region (fr_transform (fh_frame (mr_frame r))) (mr_selection r) = Inr (mm_searched m)"
      "has_pixels (pt_extent (mr_template r)) (mm_searched m) = Some has"
      "has_pixels (pt_extent (mr_template l)) (mm_searched m) = Some has"
    by (auto simp: resolved_request_def split: sum.splits)
  have "options_eq (mr_options r) (mr_options l)" using eq(4) by (simp add: options_eq_def feq_sym)
  with eq s fits show ?thesis
    by (auto simp: is_equivalent_request_def mapping_fits_def is_same_instance_def split: option.splits)
qed


section \<open>Witnesses\<close>

definition small_template :: "u32 \<Rightarrow> unit prepared_template" where
  "small_template n = \<lparr>pt_id = TemplateId ''a'', pt_backend = ''b'', pt_extent = \<lparr>px_width = n, px_height = n\<rparr>,
     pt_defaults = \<lparr>md_min_score = Fin (1/2), md_max_results = 4\<rparr>, pt_instance = 7, pt_payload = ()\<rparr>"

definition small_options :: match_options where
  "small_options = \<lparr>mo_min_score = Fin (1/2), mo_max_results = 4, mo_suppression = DropOverlapping\<rparr>"

definition small_region :: pixel_rect where
  "small_region = \<lparr>pr_left = 0, pr_top = 0, pr_right = 2, pr_bottom = 2\<rparr>"

definition small_candidates :: "candidate list" where
  "small_candidates = [\<lparr>cd_left = 0, cd_top = 0, cd_score = Fin (3/4)\<rparr>, \<lparr>cd_left = 1, cd_top = 1, cd_score = Fin (1/4)\<rparr>,
     \<lparr>cd_left = 0, cd_top = 0, cd_score = Fin 1\<rparr>]"

definition best_match :: match_found where
  "best_match = \<lparr>mf_template = TemplateId ''a'', mf_bounds = \<lparr>pr_left = 0, pr_top = 0, pr_right = 1, pr_bottom = 1\<rparr>,
     mf_score = Fin 1\<rparr>"

lemmas small_match_defs = small_template_def small_options_def small_region_def best_match_def

lemma small_bounds:
  "candidate_bounds small_region \<lparr>cd_left = i, cd_top = i, cd_score = s\<rparr> \<lparr>px_width = 1, px_height = 1\<rparr>
     = (if 0 \<le> i \<and> i \<le> 1 then Some \<lparr>pr_left = i, pr_top = i, pr_right = i + 1, pr_bottom = i + 1\<rparr> else None)"
  if "in_i32 i" "in_i32 (i + 1)"
  using that by (auto simp: candidate_bounds_def small_region_def i32_checked_add_def i32_of_u32_def pixel_rect_new_def
      contains_rect_def i32_max_def)

lemma small_normalized: "normalize (small_template 1) small_region small_options small_candidates = Inr [best_match]"
  by (simp add: normalize_def small_candidates_def small_bounds score_in_range_def small_template_def small_options_def
      canonical_order_def total_cmp_def compare_def overlaps_def intersect_def pixel_rect_is_empty_def
      pixel_rect_width_def pixel_rect_height_def u32_of_i64_def in_i32_def i32_min_def i32_max_def and_then_def
      best_match_def Let_def)

theorem normalize_exact_witness: "shaped (small_template 1) small_region small_options best_match"
  using normalize_exact [OF small_normalized] by simp

theorem normalize_order_irrelevant_witness:
  "normalize (small_template 1) small_region small_options (rev small_candidates) = Inr [best_match]"
  by (rule normalize_order_irrelevant [OF _ small_normalized]) simp

definition small_vision :: "(unit, nat) vision_env" where
  "small_vision = \<lparr>ve_mapping = still_env, ve_descriptor = backend_descriptor_new ''b'' ''1'' Bgra8,
     ve_prepare = \<lambda>source c w. (Inr (small_template 1), w), ve_find = \<lambda>t p region o1 c w. (Inr small_candidates, w)\<rparr>"

definition small_request :: "u32 \<Rightarrow> (unit, unit) match_request" where
  "small_request n = \<lparr>mr_frame = \<lparr>fh_instance = 3, fh_frame = padded_frame\<rparr>, mr_selection = FullFrame,
     mr_template = small_template n, mr_options = small_options\<rparr>"

lemma small_content: "frame_content (ve_mapping small_vision) (fh_frame (mr_frame (small_request n))) padded_bytes cache_new"
proof -
  have v: "valid_descriptor (fr_descriptor padded_frame)"
    by (simp add: padded_frame_def valid_descriptor_def padded_source_def extent_is_empty_def usize_limit_def)
  have "length padded_bytes = byte_len (fr_descriptor padded_frame)"
    using byte_len_valid [OF v] by (simp add: padded_frame_def padded_source_def padded_bytes_def)
  with v show ?thesis
    by (simp add: frame_content_def small_vision_def small_request_def storage_holds_def still_env_def others_sound_def
        cache_sound_def cache_new_def)
       (simp add: padded_frame_def padded_source_def frame_only_def)
qed

theorem search_exact_witness:
  "\<exists>res cache' w'. matcher_find small_vision (small_request 1) context_new cache_new 1 = Some (res, cache', w')
    \<and> (\<forall>result. res = Inr result \<longrightarrow> answer_fits small_vision padded_bytes (small_request 1) context_new result)"
  by (rule search_exact [OF small_content])

text \<open>A template larger than the frame: the mapping has no pixels and the search is empty.\<close>

definition small_mapped :: "unit mapped_match" where
  "small_mapped = \<lparr>mm_frame = \<lparr>fh_instance = 3, fh_frame = padded_frame\<rparr>, mm_transform = fr_transform padded_frame,
     mm_searched = small_region, mm_descriptor = backend_descriptor_new ''b'' ''1'' Bgra8, mm_template = 7,
     mm_options = small_options, mm_pixels = None\<rparr>"

lemma small_searched:
  "searched_region (fr_transform padded_frame) FullFrame = Inr small_region"
  by (simp add: searched_region_def resolve_region_def frame_bounds_def to_rect_eq padded_frame_def frame_only_def
      fits_i32_def i32_max_def frame_rect_def small_region_def and_then_def map_err_def)

lemma small_has_pixels: "has_pixels \<lparr>px_width = 3, px_height = 3\<rparr> small_region = Some False"
  by (simp add: has_pixels_def fits_def small_region_def pixel_rect_is_empty_def pixel_rect_width_def
      pixel_rect_height_def u32_of_i64_def)

theorem coalesced_requests_agree_witness: "is_equivalent_request small_mapped (small_request 3) = Some True"
proof -
  have "requests_are_equivalent (ve_descriptor small_vision) (small_request 3) (small_request 3) = Some True"
    by (simp add: requests_are_equivalent_def is_same_instance_def resolved_request_def small_request_def small_searched
        small_template_def small_has_pixels small_vision_def backend_descriptor_new_def options_eq_def small_options_def)
  moreover have "map_match small_vision (small_request 3) context_new cache_new 1 = Some (Inr small_mapped, cache_new, 1)"
    by (simp add: map_match_def small_vision_def still_env_def small_request_def small_searched small_template_def
        small_has_pixels mapped_pixels_def admit_def commit_def context_interruption_def context_new_def
        backend_descriptor_new_def small_mapped_def)
  ultimately show ?thesis using coalesced_requests_agree [OF small_content] by blast
qed

end
