(* ===== verification/ChangeDetection.thy ===== *)
theory ChangeDetection
  imports PixelMapping
begin

text \<open>
  The change detector, \<open>crates/automation/vision/src/change.rs\<close>: when two mappings of one stream show the
  same pixels, so that routine analysis of the newer one may be skipped.
\<close>

datatype change_policy = AnalysisAlways | ExactRgba

fun policy_code :: "change_policy \<Rightarrow> u32" where
  "policy_code AnalysisAlways = 0"
| "policy_code ExactRgba = 1"

text \<open>The refusal carries the code.\<close>

definition policy_of_code :: "u32 \<Rightarrow> u32 + change_policy" where
  "policy_of_code code =
     (if code = 0 then Inr AnalysisAlways else if code = 1 then Inr ExactRgba else Inl code)"

record change_descriptor =
  chd_policy :: change_policy
  chd_policy_id :: string
  chd_may_skip :: bool
  chd_confirms_presence :: bool
  chd_advances_consecutive :: bool
  chd_creates_duration :: bool
  chd_crosses_identity :: bool

fun policy_descriptor :: "change_policy \<Rightarrow> change_descriptor" where
  "policy_descriptor AnalysisAlways =
     \<lparr>chd_policy = AnalysisAlways, chd_policy_id = ''analysis-always-v1'', chd_may_skip = False,
      chd_confirms_presence = False, chd_advances_consecutive = False, chd_creates_duration = False,
      chd_crosses_identity = False\<rparr>"
| "policy_descriptor ExactRgba =
     \<lparr>chd_policy = ExactRgba, chd_policy_id = ''exact-rgba-v1'', chd_may_skip = True,
      chd_confirms_presence = False, chd_advances_consecutive = False, chd_creates_duration = False,
      chd_crosses_identity = False\<rparr>"

datatype change_decision = AnalysisRequired | Unchanged

definition mappings_are_compatible :: "cpu_mapping \<Rightarrow> cpu_mapping \<Rightarrow> bool" where
  "mappings_are_compatible previous current \<longleftrightarrow>
     fs_stream (mp_stamp previous) = fs_stream (mp_stamp current)
     \<and> fs_epoch (mp_stamp previous) = fs_epoch (mp_stamp current)
     \<and> fs_sequence (mp_stamp previous) < fs_sequence (mp_stamp current)
     \<and> fs_geometry (mp_stamp previous) = fs_geometry (mp_stamp current)
     \<and> mp_region previous = mp_region current \<and> mp_descriptor previous = mp_descriptor current
     \<and> fd_format (mp_descriptor previous) = Rgba8 \<and> snapshot_eq (mp_transform previous) (mp_transform current)"

text \<open>The rows from \<open>row\<close> on, \<open>n\<close> of them: every checked step that fails asks for analysis.\<close>

fun compare_rows :: "nat \<Rightarrow> nat \<Rightarrow> bytes \<Rightarrow> bytes \<Rightarrow> nat \<Rightarrow> nat \<Rightarrow> change_decision" where
  "compare_rows stride rb previous current 0 row = Unchanged"
| "compare_rows stride rb previous current (Suc n) row =
     (case usize_mul row stride of
        None \<Rightarrow> AnalysisRequired
      | Some start \<Rightarrow>
          (case usize_add start rb of
             None \<Rightarrow> AnalysisRequired
           | Some stop \<Rightarrow>
               (case (get_range start stop previous, get_range start stop current) of
                  (Some p, Some c) \<Rightarrow>
                    if p \<noteq> c then AnalysisRequired else compare_rows stride rb previous current n (Suc row)
                | _ \<Rightarrow> AnalysisRequired)))"

text \<open>\<open>usize\<close> holds every \<open>u32\<close>, so the height always converts.\<close>

definition compare_mappings :: "change_policy \<Rightarrow> cpu_mapping \<Rightarrow> cpu_mapping \<Rightarrow> change_decision" where
  "compare_mappings policy previous current =
     (if policy = AnalysisAlways \<or> \<not> mappings_are_compatible previous current then AnalysisRequired
      else (let d = mp_descriptor previous; rb = row_bytes d; height = unat (px_height (fd_extent d))
            in if rb = 0 \<or> length (mapping_bytes previous) \<noteq> byte_len d \<or> length (mapping_bytes current) \<noteq> byte_len d
               then AnalysisRequired
               else compare_rows (fd_stride d) rb (mapping_bytes previous) (mapping_bytes current) height 0))"

section \<open>Unchanged means the same pixels\<close>

text \<open>Two buffers of the same layout hold the same visible pixels; row padding does not count.\<close>

definition same_pixels :: "frame_descriptor \<Rightarrow> bytes \<Rightarrow> bytes \<Rightarrow> bool" where
  "same_pixels d a b \<longleftrightarrow>
     (\<forall>x y ch. x < unat (px_width (fd_extent d)) \<and> y < unat (px_height (fd_extent d)) \<and> ch < 4 \<longrightarrow>
        pixel_byte (fd_stride d) a x y ch = pixel_byte (fd_stride d) b x y ch)"

lemma row_equal_iff:
  assumes "start + w * 4 \<le> length a" "start + w * 4 \<le> length b"
  shows "take (w * 4) (drop start a) = take (w * 4) (drop start b) \<longleftrightarrow>
     (\<forall>x ch. x < w \<and> ch < 4 \<longrightarrow> a ! (start + (x * 4 + ch)) = b ! (start + (x * 4 + ch)))" (is "?L \<longleftrightarrow> ?R")
proof
  assume ?L
  show ?R
  proof (intro allI impI)
    fix x ch :: nat
    assume "x < w \<and> ch < 4"
    then have i: "x * 4 + ch < w * 4" by linarith
    have "take (w * 4) (drop start a) ! (x * 4 + ch) = take (w * 4) (drop start b) ! (x * 4 + ch)" using \<open>?L\<close> by simp
    then show "a ! (start + (x * 4 + ch)) = b ! (start + (x * 4 + ch))" using i assms by simp
  qed
next
  assume r: ?R
  show ?L
  proof (rule nth_equalityI)
    fix i
    assume "i < length (take (w * 4) (drop start a))"
    then have i: "i < w * 4" using assms by simp
    have "i = i div 4 * 4 + i mod 4" by simp
    moreover have "i div 4 < w" "i mod 4 < 4" using i by auto
    ultimately have "a ! (start + i) = b ! (start + i)" using r by metis
    then show "take (w * 4) (drop start a) ! i = take (w * 4) (drop start b) ! i" using i assms by simp
  qed (use assms in simp)
qed

lemma rows_Suc:
  fixes row n :: nat
  shows "(\<forall>y x ch. row \<le> y \<and> y < row + Suc n \<and> x < w \<and> ch < m \<longrightarrow> Q y x ch) \<longleftrightarrow>
     (\<forall>x ch. x < w \<and> ch < m \<longrightarrow> Q row x ch)
     \<and> (\<forall>y x ch. Suc row \<le> y \<and> y < Suc row + n \<and> x < w \<and> ch < m \<longrightarrow> Q y x ch)"
(is "?L \<longleftrightarrow> ?R")
proof
  assume l: ?L
  show ?R using l by simp
next
  assume r: ?R
  show ?L
  proof (intro allI impI)
    fix y x ch
    assume "row \<le> y \<and> y < row + Suc n \<and> x < w \<and> ch < m"
    with r show "Q y x ch" by (cases "y = row") auto
  qed
qed

lemma compare_rows_Unchanged:
  assumes "(row + n) * stride < usize_limit" "w * 4 \<le> stride"
    and "(row + n) * stride \<le> length a" "(row + n) * stride \<le> length b"
  shows "compare_rows stride (w * 4) a b n row = Unchanged \<longleftrightarrow>
     (\<forall>y x ch. row \<le> y \<and> y < row + n \<and> x < w \<and> ch < 4 \<longrightarrow>
        pixel_byte stride a x y ch = pixel_byte stride b x y ch)"
  using assms
proof (induction n arbitrary: row)
  case (Suc n)
  have le: "row * stride + w * 4 \<le> (row + Suc n) * stride" using Suc.prems(2) by (simp add: algebra_simps)
  have steps: "usize_mul row stride = Some (row * stride)" "usize_add (row * stride) (w * 4) = Some (row * stride + w * 4)"
    using le Suc.prems(1) by (simp_all add: usize_simps)
  have ranges: "get_range (row * stride) (row * stride + w * 4) a = Some (take (w * 4) (drop (row * stride) a))"
      "get_range (row * stride) (row * stride + w * 4) b = Some (take (w * 4) (drop (row * stride) b))"
    using le Suc.prems(3,4) by (simp_all add: get_range_def)
  have this_row: "take (w * 4) (drop (row * stride) a) = take (w * 4) (drop (row * stride) b) \<longleftrightarrow>
      (\<forall>x ch. x < w \<and> ch < 4 \<longrightarrow> pixel_byte stride a x row ch = pixel_byte stride b x row ch)"
    using row_equal_iff [of "row * stride" w a b] le Suc.prems(3,4) by (simp add: pixel_byte_def)
  have ih: "compare_rows stride (w * 4) a b n (Suc row) = Unchanged \<longleftrightarrow>
     (\<forall>y x ch. Suc row \<le> y \<and> y < Suc row + n \<and> x < w \<and> ch < 4 \<longrightarrow>
        pixel_byte stride a x y ch = pixel_byte stride b x y ch)"
    using Suc.prems by (intro Suc.IH) simp_all
  have "compare_rows stride (w * 4) a b (Suc n) row = Unchanged \<longleftrightarrow>
      take (w * 4) (drop (row * stride) a) = take (w * 4) (drop (row * stride) b)
      \<and> compare_rows stride (w * 4) a b n (Suc row) = Unchanged"
    by (simp add: steps ranges)
  then show ?case unfolding this_row ih rows_Suc .
next
  case 0
  show ?case by auto
qed

lemma compare_mappings_Unchanged:
  assumes "valid_descriptor (mp_descriptor previous)"
  shows "compare_mappings policy previous current = Unchanged \<longleftrightarrow>
     policy = ExactRgba \<and> mappings_are_compatible previous current
     \<and> length (mapping_bytes previous) = byte_len (mp_descriptor previous)
     \<and> length (mapping_bytes current) = byte_len (mp_descriptor previous)
     \<and> same_pixels (mp_descriptor previous) (mapping_bytes previous) (mapping_bytes current)"
proof -
  let ?d = "mp_descriptor previous"
  let ?w = "unat (px_width (fd_extent ?d))" and ?h = "unat (px_height (fd_extent ?d))"
  note v = assms [unfolded valid_descriptor_def]
  have "row_bytes ?d \<noteq> 0" using v by (auto simp: extent_is_empty_def unat_eq_0)
  moreover have "compare_rows (fd_stride ?d) (?w * 4) (mapping_bytes previous) (mapping_bytes current) ?h 0 = Unchanged
      \<longleftrightarrow> same_pixels ?d (mapping_bytes previous) (mapping_bytes current)"
    if "length (mapping_bytes previous) = byte_len ?d" "length (mapping_bytes current) = byte_len ?d"
    using compare_rows_Unchanged [of 0 ?h "fd_stride ?d" ?w "mapping_bytes previous" "mapping_bytes current"] that v assms
    by (auto simp: same_pixels_def mult.commute)
  ultimately show ?thesis
    by (cases policy) (auto simp: compare_mappings_def Let_def)
qed


lemma swapped_channel_lt [simp]: "ch < 4 \<Longrightarrow> swapped_channel ch < 4"
  by (simp add: swapped_channel_def)

lemma swapped_channel_twice [simp]: "swapped_channel (swapped_channel ch) = ch"
  by (simp add: swapped_channel_def)

lemma channel_reindex:
  fixes perm :: "nat \<Rightarrow> nat"
  assumes "\<And>ch. ch < 4 \<Longrightarrow> perm ch < 4 \<and> perm (perm ch) = ch"
  shows "(\<forall>x y ch. I x y \<and> ch < 4 \<longrightarrow> P x y (perm ch)) \<longleftrightarrow> (\<forall>x y ch. I x y \<and> ch < 4 \<longrightarrow> P x y ch)"
proof (intro iffI allI impI)
  fix x y and ch :: nat
  assume all: "\<forall>x y ch. I x y \<and> ch < 4 \<longrightarrow> P x y (perm ch)" and i: "I x y \<and> ch < 4"
  then have "P x y (perm (perm ch))" using assms [of ch] by blast
  then show "P x y ch" using assms [of ch] i by simp
qed (use assms in blast)

text \<open>The same bytes of a region of two buffers.\<close>

definition same_region :: "pixel_rect \<Rightarrow> nat \<Rightarrow> bytes \<Rightarrow> nat \<Rightarrow> bytes \<Rightarrow> bool" where
  "same_region r s a s' b \<longleftrightarrow>
     (\<forall>x y ch. (int x < pr_right r - pr_left r \<and> int y < pr_bottom r - pr_top r) \<and> ch < 4 \<longrightarrow>
        pixel_byte s a (nat (pr_left r) + x) (nat (pr_top r) + y) ch =
        pixel_byte s' b (nat (pr_left r) + x) (nat (pr_top r) + y) ch)"

lemma shows_regionD:
  assumes "shows_region m source content"
  shows "x < unat (px_width (fd_extent (mp_descriptor m))) \<longleftrightarrow> int x < pr_right (mp_region m) - pr_left (mp_region m)"
    "y < unat (px_height (fd_extent (mp_descriptor m))) \<longleftrightarrow> int y < pr_bottom (mp_region m) - pr_top (mp_region m)"
    "int x < pr_right (mp_region m) - pr_left (mp_region m) \<and> int y < pr_bottom (mp_region m) - pr_top (mp_region m) \<Longrightarrow>
     ch < 4 \<Longrightarrow> pixel_byte (fd_stride (mp_descriptor m)) (mapping_bytes m) x y ch =
       pixel_byte (fd_stride source) content (nat (pr_left (mp_region m)) + x) (nat (pr_top (mp_region m)) + y)
         (if needs_swap (fd_format source) (fd_format (mp_descriptor m)) then swapped_channel ch else ch)"
proof -
  have sides: "int (unat (px_width (fd_extent (mp_descriptor m)))) = pr_right (mp_region m) - pr_left (mp_region m)"
      "int (unat (px_height (fd_extent (mp_descriptor m)))) = pr_bottom (mp_region m) - pr_top (mp_region m)"
    using assms unfolding shows_region_def by blast+
  show w: "x < unat (px_width (fd_extent (mp_descriptor m))) \<longleftrightarrow> int x < pr_right (mp_region m) - pr_left (mp_region m)"
    and h: "y < unat (px_height (fd_extent (mp_descriptor m))) \<longleftrightarrow> int y < pr_bottom (mp_region m) - pr_top (mp_region m)"
    for x y
    unfolding sides [symmetric] of_nat_less_iff by (rule refl)+
  assume i: "int x < pr_right (mp_region m) - pr_left (mp_region m) \<and> int y < pr_bottom (mp_region m) - pr_top (mp_region m)"
    and "ch < 4"
  then have "x < unat (px_width (fd_extent (mp_descriptor m))) \<and> y < unat (px_height (fd_extent (mp_descriptor m))) \<and> ch < 4"
    using w h by blast
  with assms show "pixel_byte (fd_stride (mp_descriptor m)) (mapping_bytes m) x y ch =
       pixel_byte (fd_stride source) content (nat (pr_left (mp_region m)) + x) (nat (pr_top (mp_region m)) + y)
         (if needs_swap (fd_format source) (fd_format (mp_descriptor m)) then swapped_channel ch else ch)"
    unfolding shows_region_def by blast
qed

lemma same_pixels_regions:
  assumes a: "shows_region a source content" and b: "shows_region b source' content'"
    and "fd_format source = fd_format source'" and same: "mp_descriptor b = mp_descriptor a" "mp_region b = mp_region a"
  shows "same_pixels (mp_descriptor a) (mapping_bytes a) (mapping_bytes b) \<longleftrightarrow>
     same_region (mp_region a) (fd_stride source) content (fd_stride source') content'"
proof -
  let ?r = "mp_region a" and ?d = "mp_descriptor a"
  let ?in = "\<lambda>x y. int x < pr_right ?r - pr_left ?r \<and> int y < pr_bottom ?r - pr_top ?r"
  let ?at = "\<lambda>s c x y ch. pixel_byte (fd_stride s) c (nat (pr_left ?r) + x) (nat (pr_top ?r) + y) ch"
  let ?ch = "\<lambda>ch. if needs_swap (fd_format source) (fd_format ?d) then swapped_channel ch else ch"
  have pa: "pixel_byte (fd_stride ?d) (mapping_bytes a) x y ch = ?at source content x y (?ch ch)"
    and pb: "pixel_byte (fd_stride ?d) (mapping_bytes b) x y ch = ?at source' content' x y (?ch ch)"
    if "?in x y \<and> ch < 4" for x y ch
    using shows_regionD(3) [OF a] shows_regionD(3) [OF b] that unfolding same assms(3) by blast+
  have "same_pixels ?d (mapping_bytes a) (mapping_bytes b) \<longleftrightarrow>
      (\<forall>x y ch. ?in x y \<and> ch < 4 \<longrightarrow> pixel_byte (fd_stride ?d) (mapping_bytes a) x y ch
        = pixel_byte (fd_stride ?d) (mapping_bytes b) x y ch)"
    unfolding same_pixels_def shows_regionD(1,2) [OF a] by (simp only: conj_assoc)
  also have "\<dots> \<longleftrightarrow> (\<forall>x y ch. ?in x y \<and> ch < 4 \<longrightarrow> ?at source content x y (?ch ch) = ?at source' content' x y (?ch ch))"
    using pa pb by (intro iff_allI imp_cong refl) simp
  also have "\<dots> \<longleftrightarrow> same_region ?r (fd_stride source) content (fd_stride source') content'"
    unfolding same_region_def by (rule channel_reindex) simp
  finally show ?thesis .
qed

text \<open>
  C40: the detector says unchanged exactly when skipping is right: the policy allows it, the newer mapping
  follows the older one in the same stream, epoch and geometry, both show the same region in the same
  layout under the same transform, and every pixel of that region has the same bytes in the two frames. Row
  padding never counts, and no arithmetic step can fail on a valid layout.
\<close>

theorem unchanged_means_same_pixels:
  assumes "valid_descriptor (mp_descriptor previous)"
    and "shows_region previous source content" and "shows_region current source' content'"
    and "fd_format source = fd_format source'"
  shows "compare_mappings policy previous current = Unchanged \<longleftrightarrow>
     policy = ExactRgba \<and> mappings_are_compatible previous current
     \<and> length (mapping_bytes previous) = byte_len (mp_descriptor previous)
     \<and> length (mapping_bytes current) = byte_len (mp_descriptor previous)
     \<and> same_region (mp_region previous) (fd_stride source) content (fd_stride source') content'"
  using compare_mappings_Unchanged [OF assms(1), of policy current] same_pixels_regions [OF assms(2-4)]
  by (auto simp: mappings_are_compatible_def)


definition dot_descriptor :: frame_descriptor where
  "dot_descriptor = \<lparr>fd_extent = \<lparr>px_width = 1, px_height = 1\<rparr>, fd_format = Rgba8, fd_stride = 4\<rparr>"

definition dot_mapping :: "u64 \<Rightarrow> cpu_mapping" where
  "dot_mapping n =
     \<lparr>mp_stamp = stamp_new \<lparr>str_engine = EngineId 1, str_ordinal = 1\<rparr> epoch_first (FrameSequence n) revision_first,
      mp_transform = frame_only revision_first \<lparr>px_width = 1, px_height = 1\<rparr>,
      mp_region = \<lparr>pr_left = 0, pr_top = 0, pr_right = 1, pr_bottom = 1\<rparr>, mp_descriptor = dot_descriptor,
      mp_storage = Owned \<lparr>px_id = 0, px_bytes = [1, 2, 3, 4]\<rparr>\<rparr>"

theorem unchanged_means_same_pixels_witness:
  "same_region (mp_region (dot_mapping 0)) 4 [1, 2, 3, 4] 4 [1, 2, 3, 4]"
proof -
  have v: "valid_descriptor (mp_descriptor (dot_mapping 0))"
    by (simp add: dot_mapping_def dot_descriptor_def valid_descriptor_def extent_is_empty_def usize_limit_def)
  have sh: "shows_region (dot_mapping n) dot_descriptor [1, 2, 3, 4]" for n
    by (simp add: shows_region_def dot_mapping_def dot_descriptor_def mapping_bytes_def)
  have "compare_mappings ExactRgba (dot_mapping 0) (dot_mapping 1) = Unchanged"
    by (simp add: compare_mappings_def mappings_are_compatible_def dot_mapping_def dot_descriptor_def stamp_new_def
        snapshot_eq_def frame_only_def mapping_bytes_def byte_len_def usize_saturating_mul_def usize_limit_def
        usize_mul_def usize_add_def get_range_def less_frame_sequence_def)
  then show ?thesis using unchanged_means_same_pixels [OF v sh sh refl] by (simp add: dot_descriptor_def)
qed

end
