(* ===== verification/WatchQuery.thy ===== *)
theory WatchQuery
  imports Matching ChangeDetection
begin

text \<open>
  One template watch query, \<open>crates/automation/runtime/src/watch.rs\<close>: its request policies, its state and
  every operation of \<open>QueryShared\<close> as a function of the state one lock section sees. Where the code drops its
  locks and takes them again, the parts are separate functions; theory \<open>WatchSystem\<close> puts them together as
  steps of any number of threads.

  A \<open>Weak\<close> mapping is the mapping it points to, with an observation whether it still upgrades. What the code
  reads of the session and the scheduler under their locks is one \<open>authority_view\<close>. Diagnostics are left
  out: they read the state and change nothing of it.
\<close>

section \<open>Policies of a request\<close>

definition rate_unrestricted :: duration where
  "rate_unrestricted = 0"

definition rate_at_most_every :: "duration \<Rightarrow> error + duration" where
  "rate_at_most_every interval =
     (if interval = 0
      then Inl (mk_error InvalidArgument ''a bounded template analysis interval must be nonzero'')
      else Inr interval)"

datatype stability_kind = StableImmediate | StableConsecutive | StableDuration

record template_stability =
  sb_kind :: stability_kind
  sb_observations :: u32
  sb_duration :: duration

definition stability_immediate :: template_stability where
  "stability_immediate = \<lparr>sb_kind = StableImmediate, sb_observations = 1, sb_duration = 0\<rparr>"

definition stability_consecutive :: "u32 \<Rightarrow> error + template_stability" where
  "stability_consecutive n =
     (if n = 0 then Inl (mk_error InvalidArgument ''template stability observations must be nonzero'')
      else Inr \<lparr>sb_kind = StableConsecutive, sb_observations = n, sb_duration = 0\<rparr>)"

definition stability_duration :: "duration \<Rightarrow> error + template_stability" where
  "stability_duration d =
     (if d = 0 then Inl (mk_error InvalidArgument ''template stability duration must be nonzero'')
      else Inr \<lparr>sb_kind = StableDuration, sb_observations = 0, sb_duration = d\<rparr>)"

definition required_observations :: "template_stability \<Rightarrow> u32 option" where
  "required_observations s =
     (if sb_kind s = StableConsecutive then (if sb_observations s = 0 then None else Some (sb_observations s)) else None)"

definition required_duration :: "template_stability \<Rightarrow> duration option" where
  "required_duration s = (if sb_kind s = StableDuration then Some (sb_duration s) else None)"

datatype disposition =
    WorkAdmitted | SkippedChange | DeferredRate | Coalesced | Superseded | Rejected | QueueExpired
  | WorkCompleted | WorkFailed

type_synonym work_counts = "disposition \<Rightarrow> u64"

definition work_new :: work_counts where
  "work_new = (\<lambda>_. 0)"

definition increment :: "disposition \<Rightarrow> work_counts \<Rightarrow> work_counts" where
  "increment d w = w(d := saturating_add (w d) 1)"

section \<open>Outcomes\<close>

datatype template_overload = OverloadQueueExpired

record 'p watch_result =
  wr_template :: template_id
  wr_target :: target_id
  wr_frame :: "'p frame_handle"
  wr_result :: match_result
  wr_observations :: u32
  wr_duration :: duration

datatype 'p terminal_outcome =
    OutMatched "'p watch_result"
  | OutCancelled
  | OutDeadlineExceeded
  | OutSessionClosed
  | OutSchedulerClosed
  | OutTargetLost
  | OutOverloaded template_overload
  | OutFailed error

fun outcome_status :: "'p terminal_outcome \<Rightarrow> status option" where
  "outcome_status (OutMatched _) = None"
| "outcome_status OutCancelled = Some Cancelled"
| "outcome_status OutDeadlineExceeded = Some DeadlineExceeded"
| "outcome_status OutSessionClosed = Some Closed"
| "outcome_status OutSchedulerClosed = Some Closed"
| "outcome_status OutTargetLost = Some TargetLost"
| "outcome_status (OutOverloaded _) = Some LimitExceeded"
| "outcome_status (OutFailed e) = Some (err_status e)"

fun is_match :: "'p terminal_outcome \<Rightarrow> bool" where
  "is_match (OutMatched _) = True"
| "is_match _ = False"

fun interruption_outcome :: "interruption \<Rightarrow> 'p terminal_outcome" where
  "interruption_outcome Interrupted_Cancelled = OutCancelled"
| "interruption_outcome Interrupted_DeadlineExceeded = OutDeadlineExceeded"

definition capture_outcome :: "error \<Rightarrow> 'p terminal_outcome" where
  "capture_outcome e =
     (if err_status e = TargetLost then OutTargetLost
      else if err_status e = Closed then OutSessionClosed
      else if err_status e = Cancelled then OutCancelled
      else if err_status e = DeadlineExceeded then OutDeadlineExceeded
      else OutFailed e)"

text \<open>The interruption an observation of the token and a time sample show.\<close>

definition interruption_at :: "operation_context \<Rightarrow> observation \<Rightarrow> interruption option" where
  "interruption_at c ob =
     (if ctx_cancellation c \<and> obs_cancelled ob then Some Interrupted_Cancelled
      else (case ctx_deadline c of
              None \<Rightarrow> None
            | Some deadline \<Rightarrow> if obs_now ob \<ge> deadline then Some Interrupted_DeadlineExceeded else None))"

section \<open>The query\<close>

record 'q query_config =
  qc_target :: target_id
  qc_stream :: stream_id
  qc_template :: "'q prepared_template"
  qc_region :: region_selection
  qc_options :: match_options
  qc_rate :: duration
  qc_stability :: template_stability
  qc_policy :: change_policy
  qc_context :: operation_context

record 'p pending_frame =
  pf_frame :: "'p frame_handle"
  pf_since :: instant

record stability_state =
  sy_observations :: u32
  sy_started :: "instant option"
  sy_duration :: duration

definition stability_none :: stability_state where
  "stability_none = \<lparr>sy_observations = 0, sy_started = None, sy_duration = 0\<rparr>"

record 'p query_data =
  qd_terminal :: "'p terminal_outcome option"
  qd_needs_current :: bool
  qd_pending :: "'p pending_frame option"
  qd_processing :: "frame_stamp option"
  qd_in_flight :: "(u64 \<times> frame_stamp) option list"
  qd_source_frame :: "frame_stamp option"
  qd_last_frame :: "frame_stamp option"
  qd_terminal_frame :: "frame_stamp option"
  qd_region :: "pixel_rect option"
  qd_previous :: "cpu_mapping option"
  qd_generation :: u64
  qd_last_admitted :: "instant option"
  qd_rate_eligible_at :: "instant option"
  qd_barrier_deferred :: bool
  qd_stability :: stability_state
  qd_work :: work_counts

definition max_in_flight :: nat where
  "max_in_flight = 2"

definition query_new :: "'p query_data" where
  "query_new =
     \<lparr>qd_terminal = None, qd_needs_current = True, qd_pending = None, qd_processing = None,
      qd_in_flight = replicate max_in_flight None, qd_source_frame = None, qd_last_frame = None,
      qd_terminal_frame = None, qd_region = None, qd_previous = None, qd_generation = 0,
      qd_last_admitted = None, qd_rate_eligible_at = None, qd_barrier_deferred = False,
      qd_stability = stability_none, qd_work = work_new\<rparr>"

abbreviation pf_stamp :: "'p pending_frame \<Rightarrow> frame_stamp" where
  "pf_stamp p \<equiv> fr_stamp (fh_frame (pf_frame p))"

definition pending_stamp :: "'p query_data \<Rightarrow> frame_stamp option" where
  "pending_stamp st = map_option pf_stamp (qd_pending st)"

definition count_work :: "disposition \<Rightarrow> 'p query_data \<Rightarrow> 'p query_data" where
  "count_work d st = st\<lparr>qd_work := increment d (qd_work st)\<rparr>"

definition count_times :: "nat \<Rightarrow> disposition \<Rightarrow> 'p query_data \<Rightarrow> 'p query_data" where
  "count_times n d st = (count_work d ^^ n) st"

definition in_flight_count :: "'p query_data \<Rightarrow> nat" where
  "in_flight_count st = length (filter (\<lambda>s. s \<noteq> None) (qd_in_flight st))"

definition clear_in_flight :: "'p query_data \<Rightarrow> 'p query_data" where
  "clear_in_flight st = st\<lparr>qd_in_flight := map (\<lambda>_. None) (qd_in_flight st)\<rparr>"

text \<open>\<open>pending.take().is_some() || processing.take().is_some()\<close>: the second is only taken without the first.\<close>

definition supersede_outstanding :: "'p query_data \<Rightarrow> 'p query_data" where
  "supersede_outstanding st =
     (let (waiting, st) = (if qd_pending st \<noteq> None then (1, st\<lparr>qd_pending := None\<rparr>)
                           else if qd_processing st \<noteq> None then (1, st\<lparr>qd_processing := None\<rparr>)
                           else (0, st));
          superseded = waiting + in_flight_count st
      in count_times superseded Superseded (clear_in_flight st))"

text \<open>\<open>max_by_key\<close> keeps the last of equal generations.\<close>

fun latest_in_flight :: "(u64 \<times> frame_stamp) option list \<Rightarrow> (u64 \<times> frame_stamp) option \<Rightarrow> (u64 \<times> frame_stamp) option" where
  "latest_in_flight [] best = best"
| "latest_in_flight (None # rest) best = latest_in_flight rest best"
| "latest_in_flight (Some (g, f) # rest) best =
     latest_in_flight rest
       (case best of None \<Rightarrow> Some (g, f) | Some (g0, f0) \<Rightarrow> if g0 \<le> g then Some (g, f) else Some (g0, f0))"

definition or_else :: "'a option \<Rightarrow> 'a option \<Rightarrow> 'a option" where
  "or_else a b = (case a of Some x \<Rightarrow> Some x | None \<Rightarrow> b)"

definition query_frame :: "'p query_data \<Rightarrow> frame_stamp option" where
  "query_frame st =
     or_else (qd_terminal_frame st)
    (or_else (pending_stamp st)
    (or_else (qd_processing st)
    (or_else (map_option snd (latest_in_flight (qd_in_flight st) None))
      (qd_last_frame st))))"

section \<open>Polling\<close>

record query_progress =
  qp_last_frame :: "frame_stamp option"
  qp_generation :: u64
  qp_observations :: u32
  qp_duration :: duration
  qp_work :: work_counts
  qp_pending :: nat
  qp_in_flight :: nat

datatype 'p query_outcome = QueryPending query_progress | QueryTerminal "'p terminal_outcome"

definition query_snapshot :: "'p query_data \<Rightarrow> 'p query_outcome" where
  "query_snapshot st =
     (case qd_terminal st of
        Some outcome \<Rightarrow> QueryTerminal outcome
      | None \<Rightarrow> QueryPending
          \<lparr>qp_last_frame = qd_last_frame st, qp_generation = qd_generation st,
           qp_observations = sy_observations (qd_stability st), qp_duration = sy_duration (qd_stability st),
           qp_work = qd_work st, qp_pending = (if qd_pending st \<noteq> None then 1 else 0),
           qp_in_flight = in_flight_count st\<rparr>)"

definition needs_current :: "'p query_data \<Rightarrow> bool" where
  "needs_current st \<longleftrightarrow> qd_terminal st = None \<and> qd_needs_current st"

definition record_disposition :: "disposition \<Rightarrow> 'p query_data \<Rightarrow> bool \<times> 'p query_data" where
  "record_disposition d st = (if qd_terminal st \<noteq> None then (False, st) else (True, count_work d st))"

section \<open>Authority\<close>

record 'p authority_view =
  av_session :: bool
  av_terminal :: "'p terminal_outcome option"
  av_session_closed :: bool
  av_scheduler :: bool
  av_scheduler_closed :: bool

definition terminal_authority :: "'p authority_view \<Rightarrow> 'p terminal_outcome option" where
  "terminal_authority v = (if av_session v then av_terminal v else None)"

definition scheduler_authority :: "'p authority_view \<Rightarrow> 'p terminal_outcome option" where
  "scheduler_authority v = (if av_scheduler v \<and> \<not> av_scheduler_closed v then None else Some OutSchedulerClosed)"

definition session_authority :: "'p authority_view \<Rightarrow> 'p terminal_outcome option" where
  "session_authority v = (if av_session v \<and> \<not> av_session_closed v then None else Some OutSessionClosed)"

text \<open>The outcome that stands, whether this call committed it, and the state.\<close>

definition terminate_query ::
    "'p authority_view \<Rightarrow> 'p terminal_outcome \<Rightarrow> 'p query_data \<Rightarrow> ('p terminal_outcome \<times> bool) \<times> 'p query_data" where
  "terminate_query v outcome st =
     (let outcome = (case or_else (terminal_authority v) (scheduler_authority v) of
                       Some o1 \<Rightarrow> o1 | None \<Rightarrow> outcome)
      in case qd_terminal st of
           Some existing \<Rightarrow> ((existing, False), st)
         | None \<Rightarrow>
             (let st = st\<lparr>qd_terminal_frame := query_frame st\<rparr>;
                  st = supersede_outstanding st
              in ((outcome, True), st\<lparr>qd_terminal := Some outcome\<rparr>)))"

section \<open>Publication\<close>

definition apply_mapping_barrier :: "duration \<Rightarrow> 'p query_data \<Rightarrow> bool \<times> 'p query_data" where
  "apply_mapping_barrier rate st =
     (case (qd_terminal st, qd_pending st) of
        (None, Some pending) \<Rightarrow>
          (let st = st\<lparr>qd_barrier_deferred := True\<rparr>
           in if rate = 0 then (False, st)
              else (case Option.bind (qd_last_admitted st) (\<lambda>prev. instant_checked_add prev rate) of
                      None \<Rightarrow> (False, st)
                    | Some eligible \<Rightarrow>
                        if eligible \<le> pf_since pending then (False, st)
                        else (True, count_work DeferredRate
                                (st\<lparr>qd_pending := Some (pending\<lparr>pf_since := eligible\<rparr>),
                                    qd_rate_eligible_at := Some eligible\<rparr>))))
      | _ \<Rightarrow> (False, st))"

definition incompatible_with :: "frame_stamp option \<Rightarrow> frame_stamp \<Rightarrow> bool" where
  "incompatible_with source stamp =
     (case source of
        None \<Rightarrow> False
      | Some prev \<Rightarrow> fs_epoch prev \<noteq> fs_epoch stamp \<or> fs_geometry prev \<noteq> fs_geometry stamp)"

definition not_newer :: "frame_stamp option \<Rightarrow> frame_stamp \<Rightarrow> bool" where
  "not_newer seen stamp =
     (case seen of None \<Rightarrow> False | Some prev \<Rightarrow> stamp_order prev stamp \<noteq> Inr Before)"

text \<open>\<open>barrier\<close> is what the caller read of the scheduler's mapping barrier.\<close>

definition enqueue ::
    "stream_id \<Rightarrow> duration \<Rightarrow> bool \<Rightarrow> 'p frame_handle \<Rightarrow> instant \<Rightarrow> 'p query_data \<Rightarrow> 'p query_data" where
  "enqueue stream rate barrier frame now st =
     (let stamp = fr_stamp (fh_frame frame)
      in if qd_terminal st \<noteq> None \<or> fs_stream stamp \<noteq> stream then st
         else if not_newer (qd_source_frame st) stamp then st
         else
           (let st = st\<lparr>qd_needs_current := False\<rparr>;
                incompatible = incompatible_with (qd_source_frame st) stamp;
                st = st\<lparr>qd_source_frame := Some stamp\<rparr>;
                cleared = (if incompatible then in_flight_count st else 0);
                st = (if incompatible
                      then clear_in_flight (st\<lparr>qd_previous := None, qd_stability := stability_none\<rparr>) else st);
                preserve_age = (qd_barrier_deferred st \<or> barrier);
                since = (if preserve_age
                         then (case qd_pending st of None \<Rightarrow> now | Some p \<Rightarrow> pf_since p) else now);
                replaced = (if qd_pending st \<noteq> None then 1 else 0);
                st = st\<lparr>qd_pending := Some \<lparr>pf_frame = frame, pf_since = since\<rparr>\<rparr>;
                st = count_times (cleared + replaced) Superseded st;
                st = (if preserve_age then st else st\<lparr>qd_rate_eligible_at := None\<rparr>)
            in if preserve_age then snd (apply_mapping_barrier rate st) else st))"

definition capacity_reached :: "'p query_data \<Rightarrow> bool" where
  "capacity_reached st \<longleftrightarrow> (\<exists>s \<in> set (qd_in_flight st). s \<noteq> None)"

text \<open>\<open>has_admitted_or_considered\<close> under the state lock; the barrier is applied in a section before.\<close>

definition considered :: "bool \<Rightarrow> frame_stamp \<Rightarrow> 'p query_data \<Rightarrow> bool" where
  "considered barrier stamp st \<longleftrightarrow>
     (let here = (pending_stamp st = Some stamp)
      in qd_terminal st \<noteq> None \<or> (barrier \<and> here)
         \<or> (\<exists>s \<in> set (qd_in_flight st). map_option snd s = Some stamp)
         \<or> (qd_rate_eligible_at st \<noteq> None \<and> here) \<or> (capacity_reached st \<and> here)
         \<or> not_newer (qd_last_frame st) stamp)"

definition has_admitted_or_considered ::
    "duration \<Rightarrow> bool \<Rightarrow> frame_stamp \<Rightarrow> 'p query_data \<Rightarrow> bool \<times> 'p query_data" where
  "has_admitted_or_considered rate barrier stamp st =
     (let st = (if barrier then snd (apply_mapping_barrier rate st) else st)
      in (considered barrier stamp st, st))"

section \<open>Candidates and claims\<close>

record candidate_snapshot =
  cs_stamp :: frame_stamp
  cs_since :: instant
  cs_rate_eligible_at :: "instant option"

definition snapshot_of :: "'p query_data \<Rightarrow> 'p pending_frame \<Rightarrow> candidate_snapshot" where
  "snapshot_of st p =
     \<lparr>cs_stamp = pf_stamp p, cs_since = pf_since p, cs_rate_eligible_at = qd_rate_eligible_at st\<rparr>"

definition query_candidate :: "'p query_data \<Rightarrow> candidate_snapshot option" where
  "query_candidate st =
     (if qd_terminal st \<noteq> None \<or> qd_processing st \<noteq> None \<or> capacity_reached st then None
      else map_option (snapshot_of st) (qd_pending st))"

definition potential_coalescing_candidate :: "'p query_data \<Rightarrow> (u64 \<times> candidate_snapshot) option" where
  "potential_coalescing_candidate st =
     (if qd_terminal st \<noteq> None \<or> capacity_reached st then None
      else Option.bind (checked_add (qd_generation st) 1) (\<lambda>generation.
             map_option (\<lambda>p. (generation, snapshot_of st p)) (qd_pending st)))"

definition expiry_candidate :: "'p query_data \<Rightarrow> candidate_snapshot option" where
  "expiry_candidate st =
     (if qd_terminal st \<noteq> None then None
      else Option.bind (qd_pending st) (\<lambda>p.
             if qd_processing st = Some (pf_stamp p) then None else Some (snapshot_of st p)))"

definition is_idle :: "'p query_data \<Rightarrow> bool" where
  "is_idle st \<longleftrightarrow> qd_terminal st = None \<and> qd_pending st = None \<and> qd_processing st = None
     \<and> (\<forall>s \<in> set (qd_in_flight st). s = None)"

text \<open>The later of the residence and the rate floor.\<close>

definition eligible_from :: "candidate_snapshot \<Rightarrow> instant" where
  "eligible_from c =
     max (case cs_rate_eligible_at c of Some eligible \<Rightarrow> eligible | None \<Rightarrow> cs_since c) (cs_since c)"

text \<open>The state section of \<open>expire_if_current\<close>, after its interruption and authority checks.\<close>

definition expire_section ::
    "candidate_snapshot \<Rightarrow> instant \<Rightarrow> duration \<Rightarrow> 'p query_data \<Rightarrow> bool \<times> 'p query_data" where
  "expire_section c now expiry st =
     (let current = (case qd_pending st of
                       None \<Rightarrow> False
                     | Some p \<Rightarrow> pf_stamp p = cs_stamp c \<and> pf_since p = cs_since c)
      in if qd_terminal st \<noteq> None \<or> \<not> current \<or> qd_processing st = Some (cs_stamp c)
            \<or> qd_rate_eligible_at st \<noteq> cs_rate_eligible_at c
            \<or> (case cs_rate_eligible_at c of None \<Rightarrow> False | Some eligible \<Rightarrow> now < eligible)
            \<or> saturating_duration_since now (eligible_from c) \<le> expiry
         then (False, st)
         else (let st = count_work QueueExpired st;
                   st = st\<lparr>qd_pending := None, qd_processing := None, qd_terminal_frame := Some (cs_stamp c)\<rparr>;
                   in_flight = in_flight_count st;
                   st = count_times in_flight Superseded (clear_in_flight st)
               in (True, st\<lparr>qd_terminal := Some (OutOverloaded OverloadQueueExpired)\<rparr>)))"

text \<open>
  The decision before it, and before the state section of \<open>fail_mapping\<close>: the query's own interruption comes
  first, then the authority; \<open>None\<close> lets the state section run.
\<close>

definition work_refusal ::
    "operation_context \<Rightarrow> observation \<Rightarrow> 'p authority_view \<Rightarrow> 'p terminal_outcome option" where
  "work_refusal c ob v =
     (case interruption_at c ob of
        Some i \<Rightarrow> Some (interruption_outcome i)
      | None \<Rightarrow> or_else (terminal_authority v) (scheduler_authority v))"

definition claim :: "frame_stamp \<Rightarrow> 'p query_data \<Rightarrow> 'p frame_handle option \<times> 'p query_data" where
  "claim stamp st =
     (if qd_terminal st \<noteq> None \<or> qd_processing st \<noteq> None \<or> capacity_reached st then (None, st)
      else (case qd_pending st of
              None \<Rightarrow> (None, st)
            | Some p \<Rightarrow>
                if pf_stamp p \<noteq> stamp then (None, st)
                else (Some (pf_frame p), st\<lparr>qd_processing := Some stamp\<rparr>)))"

definition release_claim :: "frame_stamp \<Rightarrow> 'p query_data \<Rightarrow> 'p query_data" where
  "release_claim stamp st = (if qd_processing st = Some stamp then st\<lparr>qd_processing := None\<rparr> else st)"

definition next_generation :: "'p query_data \<Rightarrow> u64 option" where
  "next_generation st =
     (if qd_terminal st \<noteq> None \<or> qd_processing st \<noteq> None \<or> capacity_reached st then None
      else checked_add (qd_generation st) 1)"

section \<open>Analysis\<close>

text \<open>\<open>live\<close> says that the weak handle of the previous mapping still upgrades.\<close>

definition mapping_decision ::
    "change_policy \<Rightarrow> bool \<Rightarrow> cpu_mapping option \<Rightarrow> 'p query_data \<Rightarrow> change_decision" where
  "mapping_decision policy live current st =
     (if sy_observations (qd_stability st) \<noteq> 0 then AnalysisRequired
      else (case (if live then qd_previous st else None) of
              None \<Rightarrow> AnalysisRequired
            | Some previous \<Rightarrow>
                (case current of
                   None \<Rightarrow> AnalysisRequired
                 | Some current \<Rightarrow> compare_mappings policy previous current)))"

datatype 'p mapping_end =
    MapAdmitted u64 | MapSkipped | MapDeferred | MapObsolete | MapTerminate "'p terminal_outcome"

definition unrepresentable_interval :: error where
  "unrepresentable_interval =
     mk_error InvalidArgument ''template analysis interval is not representable in the query clock domain''"

definition generation_exhausted :: error where
  "generation_exhausted = mk_error LimitExceeded ''template query analysis generation was exhausted''"

text \<open>What the scheduler and the session say at the start of \<open>finish_mapping\<close>.\<close>

definition finish_refusal :: "'p authority_view \<Rightarrow> 'p mapping_end option" where
  "finish_refusal v =
     (if \<not> av_scheduler v \<or> \<not> av_session v then Some MapObsolete
      else map_option MapTerminate
             (or_else (av_terminal v)
             (or_else (if av_session_closed v then Some OutSessionClosed else None)
               (if av_scheduler_closed v then Some OutSchedulerClosed else None))))"

text \<open>
  The rate limit: \<open>None\<close> when the admission is allowed. A query whose next eligible instant does not exist
  is to be terminated, after this section, by the caller.
\<close>

definition rate_limit ::
    "duration \<Rightarrow> instant \<Rightarrow> 'p query_data \<Rightarrow> ('p mapping_end \<times> 'p query_data) option" where
  "rate_limit rate now st =
     (case qd_last_admitted st of
        None \<Rightarrow> None
      | Some prev \<Rightarrow>
          if rate \<noteq> 0 \<and> saturating_duration_since now prev < rate
          then Some (case instant_checked_add prev rate of
                       None \<Rightarrow> (MapTerminate (OutFailed unrepresentable_interval),
                                count_work WorkFailed (st\<lparr>qd_processing := None\<rparr>))
                     | Some eligible \<Rightarrow>
                         (let st = (if qd_rate_eligible_at st \<noteq> Some eligible
                                    then count_work DeferredRate st else st)
                          in (MapDeferred,
                              st\<lparr>qd_rate_eligible_at := Some eligible,
                                 qd_pending := map_option (\<lambda>p. p\<lparr>pf_since := eligible\<rparr>) (qd_pending st),
                                 qd_processing := None\<rparr>)))
          else None)"

text \<open>\<open>find(|slot| slot.is_none())\<close> and the assignment to it.\<close>

fun fill_slot :: "'a \<Rightarrow> 'a option list \<Rightarrow> 'a option list option" where
  "fill_slot x [] = None"
| "fill_slot x (None # rest) = Some (Some x # rest)"
| "fill_slot x (Some y # rest) = map_option (Cons (Some y)) (fill_slot x rest)"

definition admit_analysis ::
    "frame_stamp \<Rightarrow> instant \<Rightarrow> 'p query_data \<Rightarrow> 'p mapping_end \<times> 'p query_data" where
  "admit_analysis stamp now st =
     (case checked_add (qd_generation st) 1 of
        None \<Rightarrow> (MapTerminate (OutFailed generation_exhausted), st)
      | Some generation \<Rightarrow>
          (let st = st\<lparr>qd_generation := generation, qd_last_admitted := Some now, qd_rate_eligible_at := None,
                       qd_barrier_deferred := False, qd_pending := None, qd_processing := None\<rparr>
           in case fill_slot (generation, stamp) (qd_in_flight st) of
                None \<Rightarrow> (MapObsolete, st\<lparr>qd_processing := None\<rparr>)
              | Some slots \<Rightarrow> (MapAdmitted generation, st\<lparr>qd_in_flight := slots\<rparr>)))"

definition skip_analysis ::
    "frame_stamp \<Rightarrow> cpu_mapping option \<Rightarrow> 'p query_data \<Rightarrow> 'p query_data" where
  "skip_analysis stamp mapping st =
     count_work SkippedChange
       (st\<lparr>qd_pending := None, qd_processing := None, qd_last_frame := Some stamp, qd_previous := mapping,
           qd_rate_eligible_at := None, qd_barrier_deferred := False\<rparr>)"

definition finish_mapping ::
    "duration \<Rightarrow> 'p authority_view \<Rightarrow> 'p mapped_match \<Rightarrow> cpu_mapping option \<Rightarrow> change_decision \<Rightarrow> instant
     \<Rightarrow> 'p query_data \<Rightarrow> 'p mapping_end \<times> 'p query_data" where
  "finish_mapping rate v mapped mapping decision now st =
     (let stamp = fr_stamp (fh_frame (mm_frame mapped))
      in case finish_refusal v of
           Some e \<Rightarrow> (e, st)
         | None \<Rightarrow>
             if qd_terminal st \<noteq> None \<or> qd_processing st \<noteq> Some stamp then (MapObsolete, st)
             else if pending_stamp st \<noteq> Some stamp then (MapObsolete, st\<lparr>qd_processing := None\<rparr>)
             else
               (let st = st\<lparr>qd_region := Some (mm_searched mapped)\<rparr>
                in if decision = Unchanged \<and> sy_observations (qd_stability st) = 0
                   then (MapSkipped, skip_analysis stamp mapping st)
                   else (case rate_limit rate now st of
                           Some r \<Rightarrow> r
                         | None \<Rightarrow> admit_analysis stamp now st)))"

definition fail_section :: "frame_stamp \<Rightarrow> error \<Rightarrow> 'p query_data \<Rightarrow> bool \<times> 'p query_data" where
  "fail_section stamp e st =
     (if qd_terminal st \<noteq> None \<or> qd_processing st \<noteq> Some stamp \<or> pending_stamp st \<noteq> Some stamp
      then (False, release_claim stamp st)
      else (let st = st\<lparr>qd_processing := None, qd_pending := None\<rparr>;
                superseded = in_flight_count st;
                st = count_work WorkFailed (count_times superseded Superseded (clear_in_flight st))
            in (True, st\<lparr>qd_terminal := Some (OutFailed e), qd_terminal_frame := Some stamp\<rparr>)))"

section \<open>Completion\<close>

definition is_stable :: "template_stability \<Rightarrow> stability_state \<Rightarrow> bool" where
  "is_stable s sy =
     (case sb_kind s of
        StableImmediate \<Rightarrow> True
      | StableConsecutive \<Rightarrow>
          (case required_observations s of None \<Rightarrow> False | Some n \<Rightarrow> sy_observations sy \<ge> n)
      | StableDuration \<Rightarrow> (case required_duration s of None \<Rightarrow> False | Some d \<Rightarrow> sy_duration sy \<ge> d))"

definition observe_match :: "instant \<Rightarrow> stability_state \<Rightarrow> stability_state" where
  "observe_match now sy =
     (let started = (case sy_started sy of None \<Rightarrow> now | Some s \<Rightarrow> s)
      in \<lparr>sy_observations = saturating_add (sy_observations sy) 1, sy_started = Some started,
          sy_duration = saturating_duration_since now started\<rparr>)"

text \<open>What stands against a completion, in the order the code asks.\<close>

definition complete_refusal ::
    "operation_context \<Rightarrow> observation \<Rightarrow> 'p authority_view \<Rightarrow> error option \<Rightarrow> 'p terminal_outcome option" where
  "complete_refusal c ob v capture_refusal =
     or_else (terminal_authority v)
    (or_else (session_authority v)
    (or_else (scheduler_authority v)
    (or_else (map_option capture_outcome capture_refusal)
      (map_option interruption_outcome (interruption_at c ob)))))"

datatype 'p completion_end =
    CompleteReturned | CompleteStale | CompleteLive | CompleteTerminal | CompleteTerminate "'p terminal_outcome"

abbreviation mm_stamp :: "'p mapped_match \<Rightarrow> frame_stamp" where
  "mm_stamp m \<equiv> fr_stamp (fh_frame (mm_frame m))"

text \<open>The \<open>TemplateWatchResult\<close> a stable match is reported with.\<close>

definition watch_result_of ::
    "'q query_config \<Rightarrow> 'p mapped_match \<Rightarrow> match_result \<Rightarrow> stability_state \<Rightarrow> 'p watch_result" where
  "watch_result_of qc mapped r sy =
     \<lparr>wr_template = pt_id (qc_template qc), wr_target = qc_target qc, wr_frame = mm_frame mapped, wr_result = r,
      wr_observations = sy_observations sy, wr_duration = sy_duration sy\<rparr>"

text \<open>
  The state section of \<open>complete\<close>; \<open>late\<close> is an interruption that the second look at the token finds. An
  analysis result without matches is the empty one.
\<close>

definition complete_section ::
    "'q query_config \<Rightarrow> u64 \<Rightarrow> 'p mapped_match \<Rightarrow> cpu_mapping option \<Rightarrow> (error + match_result) \<Rightarrow> instant
     \<Rightarrow> interruption option \<Rightarrow> 'p query_data \<Rightarrow> 'p completion_end \<times> 'p query_data" where
  "complete_section qc generation mapped mapping result now late st =
     (let stamp = fr_stamp (fh_frame (mm_frame mapped))
      in case find_index (\<lambda>s. s = Some (generation, stamp)) (qd_in_flight st) of
           None \<Rightarrow> (CompleteReturned, st)
         | Some slot \<Rightarrow>
             if qd_terminal st \<noteq> None then (CompleteReturned, st)
             else if late \<noteq> None then (CompleteTerminate (interruption_outcome (the late)), st)
             else
               (let st = st\<lparr>qd_in_flight := (qd_in_flight st)[slot := None]\<rparr>
                in if generation \<noteq> qd_generation st then (CompleteStale, count_work Superseded st)
                   else
                     (let st = st\<lparr>qd_last_frame := Some stamp, qd_region := Some (mm_searched mapped)\<rparr>
                      in case result of
                           Inl e \<Rightarrow>
                             (CompleteTerminal,
                              (supersede_outstanding (count_work WorkFailed st))
                                \<lparr>qd_terminal_frame := Some stamp, qd_terminal := Some (OutFailed e)\<rparr>)
                         | Inr r \<Rightarrow>
                             (let st = (count_work WorkCompleted st)\<lparr>qd_previous := mapping\<rparr>
                              in if result_is_empty r
                                 then (CompleteLive, st\<lparr>qd_stability := stability_none\<rparr>)
                                 else
                                   (let sy = observe_match now (qd_stability st);
                                        st = st\<lparr>qd_stability := sy\<rparr>
                                    in if is_stable (qc_stability qc) sy
                                       then (CompleteTerminal,
                                             (supersede_outstanding st)
                                               \<lparr>qd_terminal := Some (OutMatched (watch_result_of qc mapped r sy)),
                                                qd_terminal_frame := Some stamp\<rparr>)
                                       else (CompleteLive, st))))))"

text \<open>The check before it, which lets a completion nobody waits for return without asking anybody.\<close>

definition completion_wanted :: "u64 \<Rightarrow> frame_stamp \<Rightarrow> 'p query_data \<Rightarrow> bool" where
  "completion_wanted generation stamp st \<longleftrightarrow>
     qd_terminal st = None \<and> Some (generation, stamp) \<in> set (qd_in_flight st)"


section \<open>Counting\<close>

text \<open>The dispositions that end a frame; the others only remark on it.\<close>

fun final_disposition :: "disposition \<Rightarrow> bool" where
  "final_disposition Superseded = True"
| "final_disposition SkippedChange = True"
| "final_disposition QueueExpired = True"
| "final_disposition WorkCompleted = True"
| "final_disposition WorkFailed = True"
| "final_disposition _ = False"

definition settled_frames :: "work_counts \<Rightarrow> nat" where
  "settled_frames w = unat (w Superseded) + unat (w SkippedChange) + unat (w QueueExpired)
     + unat (w WorkCompleted) + unat (w WorkFailed)"

definition outstanding :: "'p query_data \<Rightarrow> nat" where
  "outstanding st = (if qd_pending st \<noteq> None then 1 else 0) + in_flight_count st"

text \<open>The counters saturate, so the books balance only below \<open>2 ^ 64\<close> frames.\<close>

definition balanced :: "nat \<Rightarrow> work_counts \<Rightarrow> nat \<Rightarrow> bool" where
  "balanced n w k \<longleftrightarrow> (n < 2 ^ 64 \<longrightarrow> settled_frames w + k = n)"

lemma settled_increment:
  "final_disposition d \<Longrightarrow> settled_frames w + 1 < 2 ^ 64 \<Longrightarrow> settled_frames (increment d w) = settled_frames w + 1"
  by (cases d) (auto simp: settled_frames_def increment_def unat_saturating_add)

lemma settled_remark [simp]: "\<not> final_disposition d \<Longrightarrow> settled_frames (increment d w) = settled_frames w"
  by (cases d) (auto simp: settled_frames_def increment_def)

lemma balanced_count1: "final_disposition d \<Longrightarrow> balanced n w (Suc k) \<Longrightarrow> balanced n (increment d w) k"
  using settled_increment [of d w] by (auto simp: balanced_def)

lemma balanced_count: "final_disposition d \<Longrightarrow> balanced n w (m + k) \<Longrightarrow> balanced n ((increment d ^^ m) w) k"
proof (induction m arbitrary: k)
  case (Suc m)
  then have "balanced n ((increment d ^^ m) w) (Suc k)" by simp
  then show ?case using balanced_count1 Suc.prems(1) by simp
qed simp

lemma balanced_remark [simp]: "\<not> final_disposition d \<Longrightarrow> balanced n (increment d w) k = balanced n w k"
  by (simp add: balanced_def)

lemma balanced_Suc: "balanced n w k \<Longrightarrow> balanced (Suc n) w (Suc k)"
  by (auto simp: balanced_def)

lemma count_times_eq: "count_times n d st = st\<lparr>qd_work := (increment d ^^ n) (qd_work st)\<rparr>"
  unfolding count_times_def by (induction n) (simp_all add: count_work_def)

lemma count_work_sel [simp]:
  "qd_terminal (count_work d st) = qd_terminal st" "qd_needs_current (count_work d st) = qd_needs_current st"
  "qd_pending (count_work d st) = qd_pending st" "qd_processing (count_work d st) = qd_processing st"
  "qd_in_flight (count_work d st) = qd_in_flight st" "qd_source_frame (count_work d st) = qd_source_frame st"
  "qd_last_frame (count_work d st) = qd_last_frame st" "qd_terminal_frame (count_work d st) = qd_terminal_frame st"
  "qd_region (count_work d st) = qd_region st" "qd_previous (count_work d st) = qd_previous st"
  "qd_generation (count_work d st) = qd_generation st" "qd_last_admitted (count_work d st) = qd_last_admitted st"
  "qd_stability (count_work d st) = qd_stability st" "qd_work (count_work d st) = increment d (qd_work st)"
  "qd_rate_eligible_at (count_work d st) = qd_rate_eligible_at st"
  "qd_barrier_deferred (count_work d st) = qd_barrier_deferred st"
  by (simp_all add: count_work_def)

lemma count_times_sel [simp]:
  "qd_terminal (count_times n d st) = qd_terminal st" "qd_needs_current (count_times n d st) = qd_needs_current st"
  "qd_pending (count_times n d st) = qd_pending st" "qd_processing (count_times n d st) = qd_processing st"
  "qd_in_flight (count_times n d st) = qd_in_flight st" "qd_source_frame (count_times n d st) = qd_source_frame st"
  "qd_last_frame (count_times n d st) = qd_last_frame st" "qd_terminal_frame (count_times n d st) = qd_terminal_frame st"
  "qd_region (count_times n d st) = qd_region st" "qd_previous (count_times n d st) = qd_previous st"
  "qd_generation (count_times n d st) = qd_generation st" "qd_last_admitted (count_times n d st) = qd_last_admitted st"
  "qd_stability (count_times n d st) = qd_stability st"
  "qd_work (count_times n d st) = (increment d ^^ n) (qd_work st)"
  "qd_rate_eligible_at (count_times n d st) = qd_rate_eligible_at st"
  "qd_barrier_deferred (count_times n d st) = qd_barrier_deferred st"
  by (simp_all add: count_times_eq)

lemma clear_in_flight_sel [simp]:
  "qd_terminal (clear_in_flight st) = qd_terminal st" "qd_needs_current (clear_in_flight st) = qd_needs_current st"
  "qd_pending (clear_in_flight st) = qd_pending st" "qd_processing (clear_in_flight st) = qd_processing st"
  "qd_in_flight (clear_in_flight st) = map (\<lambda>_. None) (qd_in_flight st)"
  "qd_source_frame (clear_in_flight st) = qd_source_frame st"
  "qd_last_frame (clear_in_flight st) = qd_last_frame st" "qd_terminal_frame (clear_in_flight st) = qd_terminal_frame st"
  "qd_region (clear_in_flight st) = qd_region st" "qd_previous (clear_in_flight st) = qd_previous st"
  "qd_generation (clear_in_flight st) = qd_generation st" "qd_last_admitted (clear_in_flight st) = qd_last_admitted st"
  "qd_stability (clear_in_flight st) = qd_stability st" "qd_work (clear_in_flight st) = qd_work st"
  "qd_rate_eligible_at (clear_in_flight st) = qd_rate_eligible_at st"
  "qd_barrier_deferred (clear_in_flight st) = qd_barrier_deferred st"
  by (simp_all add: clear_in_flight_def)

lemma in_flight_count_updates [simp]:
  "in_flight_count (st\<lparr>qd_terminal := v0\<rparr>) = in_flight_count st"
  "in_flight_count (st\<lparr>qd_needs_current := v1\<rparr>) = in_flight_count st"
  "in_flight_count (st\<lparr>qd_pending := v2\<rparr>) = in_flight_count st"
  "in_flight_count (st\<lparr>qd_processing := v3\<rparr>) = in_flight_count st"
  "in_flight_count (st\<lparr>qd_source_frame := v4\<rparr>) = in_flight_count st"
  "in_flight_count (st\<lparr>qd_last_frame := v5\<rparr>) = in_flight_count st"
  "in_flight_count (st\<lparr>qd_terminal_frame := v6\<rparr>) = in_flight_count st"
  "in_flight_count (st\<lparr>qd_region := v7\<rparr>) = in_flight_count st"
  "in_flight_count (st\<lparr>qd_previous := v8\<rparr>) = in_flight_count st"
  "in_flight_count (st\<lparr>qd_generation := v9\<rparr>) = in_flight_count st"
  "in_flight_count (st\<lparr>qd_last_admitted := v10\<rparr>) = in_flight_count st"
  "in_flight_count (st\<lparr>qd_rate_eligible_at := v11\<rparr>) = in_flight_count st"
  "in_flight_count (st\<lparr>qd_barrier_deferred := v12\<rparr>) = in_flight_count st"
  "in_flight_count (st\<lparr>qd_stability := v13\<rparr>) = in_flight_count st"
  "in_flight_count (st\<lparr>qd_work := v14\<rparr>) = in_flight_count st"
  "in_flight_count (count_work d st) = in_flight_count st" "in_flight_count (count_times n d st) = in_flight_count st"
  "in_flight_count (clear_in_flight st) = 0"
  by (simp_all add: in_flight_count_def comp_def)

lemma outstanding_updates [simp]:
  "outstanding (st\<lparr>qd_terminal := v0\<rparr>) = outstanding st"
  "outstanding (st\<lparr>qd_needs_current := v1\<rparr>) = outstanding st"
  "outstanding (st\<lparr>qd_processing := v3\<rparr>) = outstanding st"
  "outstanding (st\<lparr>qd_source_frame := v4\<rparr>) = outstanding st"
  "outstanding (st\<lparr>qd_last_frame := v5\<rparr>) = outstanding st"
  "outstanding (st\<lparr>qd_terminal_frame := v6\<rparr>) = outstanding st"
  "outstanding (st\<lparr>qd_region := v7\<rparr>) = outstanding st"
  "outstanding (st\<lparr>qd_previous := v8\<rparr>) = outstanding st"
  "outstanding (st\<lparr>qd_generation := v9\<rparr>) = outstanding st"
  "outstanding (st\<lparr>qd_last_admitted := v10\<rparr>) = outstanding st"
  "outstanding (st\<lparr>qd_rate_eligible_at := v11\<rparr>) = outstanding st"
  "outstanding (st\<lparr>qd_barrier_deferred := v12\<rparr>) = outstanding st"
  "outstanding (st\<lparr>qd_stability := v13\<rparr>) = outstanding st"
  "outstanding (st\<lparr>qd_work := v14\<rparr>) = outstanding st"
  "outstanding (count_work d st) = outstanding st" "outstanding (count_times n d st) = outstanding st"
  "outstanding (st\<lparr>qd_pending := map_option u (qd_pending st)\<rparr>) = outstanding st"
  by (simp_all add: outstanding_def)

lemma in_flight_count_slots: "qd_in_flight st = [f, None] \<Longrightarrow> in_flight_count st = (if f = None then 0 else 1)"
  by (simp add: in_flight_count_def)

lemma capacity_reached_slots: "qd_in_flight st = [f, None] \<Longrightarrow> capacity_reached st \<longleftrightarrow> f \<noteq> None"
  by (simp add: capacity_reached_def)

section \<open>The query's invariant\<close>

text \<open>
  The state of one query between two lock sections: one slot of the two is ever used; a finished query owes
  nothing; a claim holds the pending frame while nothing is in flight; the analysis in flight is the last one
  admitted, of a frame of the same epoch and geometry as the newest source frame and not newer than it.
\<close>

definition flight_fits :: "'p query_data \<Rightarrow> u64 \<times> frame_stamp \<Rightarrow> bool" where
  "flight_fits st f \<longleftrightarrow> fst f = qd_generation st
     \<and> (\<exists>src. qd_source_frame st = Some src \<and> fs_epoch (snd f) = fs_epoch src \<and> fs_geometry (snd f) = fs_geometry src
          \<and> fs_stream (snd f) = fs_stream src \<and> stamp_position (snd f) \<le> stamp_position src
          \<and> (qd_pending st \<noteq> None \<longrightarrow> stamp_position (snd f) < stamp_position src))"

definition query_ok :: "'p query_data \<Rightarrow> bool" where
  "query_ok st \<longleftrightarrow>
     (\<exists>f. qd_in_flight st = [f, None]
        \<and> (qd_terminal st \<noteq> None \<longrightarrow> qd_pending st = None \<and> f = None)
        \<and> (qd_terminal st = None \<and> qd_processing st \<noteq> None \<longrightarrow> f = None \<and> qd_pending st \<noteq> None)
        \<and> (\<forall>a. f = Some a \<longrightarrow> flight_fits st a))
     \<and> (qd_pending st \<noteq> None \<longrightarrow> pending_stamp st = qd_source_frame st)"

lemma query_okE:
  assumes "query_ok st"
  obtains f where "qd_in_flight st = [f, None]" "qd_terminal st \<noteq> None \<Longrightarrow> qd_pending st = None \<and> f = None"
    "qd_terminal st = None \<Longrightarrow> qd_processing st \<noteq> None \<Longrightarrow> f = None \<and> qd_pending st \<noteq> None"
    "\<And>a. f = Some a \<Longrightarrow> flight_fits st a" "qd_pending st \<noteq> None \<Longrightarrow> pending_stamp st = qd_source_frame st"
  using assms unfolding query_ok_def by blast

text \<open>Steps that keep what the invariant reads.\<close>

definition same_work_items :: "'p query_data \<Rightarrow> 'p query_data \<Rightarrow> bool" where
  "same_work_items st st' \<longleftrightarrow> qd_terminal st' = qd_terminal st \<and> pending_stamp st' = pending_stamp st
     \<and> (qd_processing st' = None \<or> qd_processing st' = qd_processing st) \<and> qd_in_flight st' = qd_in_flight st
     \<and> qd_source_frame st' = qd_source_frame st \<and> qd_generation st' = qd_generation st"

lemma pending_stamp_None [simp]: "(pending_stamp st = None) = (qd_pending st = None)"
  by (simp add: pending_stamp_def)

lemma same_items_pending: "same_work_items st st' \<Longrightarrow> (qd_pending st' = None) = (qd_pending st = None)"
  unfolding same_work_items_def by (metis pending_stamp_None)

lemma query_ok_same: "same_work_items st st' \<Longrightarrow> query_ok st \<Longrightarrow> query_ok st'"
  using same_items_pending [of st st']
  unfolding query_ok_def same_work_items_def flight_fits_def by auto

lemma outstanding_same: "same_work_items st st' \<Longrightarrow> outstanding st' = outstanding st"
  using same_items_pending [of st st'] by (auto simp: outstanding_def in_flight_count_def same_work_items_def)

lemma outstanding_slots:
  "qd_in_flight st = [f, None] \<Longrightarrow>
   outstanding st = (if qd_pending st \<noteq> None then 1 else 0) + (if f \<noteq> None then 1 else 0)"
  by (simp add: outstanding_def in_flight_count_slots)

abbreviation books :: "nat \<Rightarrow> 'p query_data \<Rightarrow> bool" where
  "books n st \<equiv> balanced n (qd_work st) (outstanding st)"


section \<open>What each operation does to it\<close>

lemma query_ok_new: "query_ok query_new"
  by (simp add: query_ok_def query_new_def max_in_flight_def numeral_2_eq_2)

lemma books_new: "books 0 query_new"
  by (simp add: balanced_def outstanding_def in_flight_count_def query_new_def work_new_def settled_frames_def
      max_in_flight_def)

lemma query_ok_ended:
  "qd_in_flight st = [None, None] \<Longrightarrow> qd_pending st = None \<Longrightarrow> qd_terminal st \<noteq> None \<Longrightarrow> query_ok st"
  by (simp add: query_ok_def)

lemma supersede_sel [simp]:
  "qd_pending (supersede_outstanding st) = None"
  "qd_in_flight (supersede_outstanding st) = map (\<lambda>_. None) (qd_in_flight st)"
  "qd_terminal (supersede_outstanding st) = qd_terminal st"
  "qd_source_frame (supersede_outstanding st) = qd_source_frame st"
  "qd_generation (supersede_outstanding st) = qd_generation st"
  "qd_last_frame (supersede_outstanding st) = qd_last_frame st"
  "qd_previous (supersede_outstanding st) = qd_previous st"
  "qd_stability (supersede_outstanding st) = qd_stability st"
  "qd_last_admitted (supersede_outstanding st) = qd_last_admitted st"
  by (auto simp: supersede_outstanding_def Let_def)

lemma supersede_work:
  assumes "query_ok st" "qd_terminal st = None"
  shows "qd_work (supersede_outstanding st) = (increment Superseded ^^ outstanding st) (qd_work st)"
proof -
  obtain f where "qd_in_flight st = [f, None]"
    "qd_processing st \<noteq> None \<Longrightarrow> qd_pending st \<noteq> None"
    using assms by (meson query_okE)
  then show ?thesis
    by (auto simp: supersede_outstanding_def Let_def outstanding_def in_flight_count_def)
qed

lemma books_supersede:
  assumes "query_ok st" "qd_terminal st = None" "books n st"
  shows "balanced n (qd_work (supersede_outstanding st)) 0"
  using balanced_count [of Superseded n "qd_work st" "outstanding st" 0] assms supersede_work [OF assms(1,2)] by simp

lemma outstanding_ended [simp]:
  "qd_in_flight st = [None, None] \<Longrightarrow> qd_pending st = None \<Longrightarrow> outstanding st = 0"
  by (simp add: outstanding_def in_flight_count_def)

text \<open>A step that neither takes a frame in nor moves one on: everything but the claim and the outcome stays.\<close>

definition kept :: "'p query_data \<Rightarrow> 'p query_data \<Rightarrow> bool" where
  "kept q q' \<longleftrightarrow> qd_previous q' = qd_previous q \<and> qd_stability q' = qd_stability q \<and> qd_last_frame q' = qd_last_frame q
     \<and> qd_generation q' = qd_generation q \<and> qd_source_frame q' = qd_source_frame q \<and> qd_last_admitted q' = qd_last_admitted q
     \<and> (qd_terminal q \<noteq> None \<longrightarrow> qd_terminal q' = qd_terminal q)
     \<and> (\<forall>o1. qd_terminal q' = Some o1 \<and> qd_terminal q = None \<longrightarrow> \<not> is_match o1)
     \<and> (qd_terminal q' = None \<longrightarrow> pending_stamp q' = pending_stamp q \<and> qd_in_flight q' = qd_in_flight q)"

lemma kept_refl [simp]: "kept q q"
  by (auto simp: kept_def)

lemma kept_same:
  "same_work_items q q' \<Longrightarrow> qd_previous q' = qd_previous q \<Longrightarrow> qd_stability q' = qd_stability q \<Longrightarrow>
   qd_last_frame q' = qd_last_frame q \<Longrightarrow> qd_last_admitted q' = qd_last_admitted q \<Longrightarrow> kept q q'"
  by (auto simp: kept_def same_work_items_def)

definition no_match :: "'p authority_view \<Rightarrow> bool" where
  "no_match v \<longleftrightarrow> (\<forall>o1. av_terminal v = Some o1 \<longrightarrow> \<not> is_match o1)"

lemma authority_no_match:
  "no_match v \<Longrightarrow> terminal_authority v = Some o1 \<Longrightarrow> \<not> is_match o1"
  "scheduler_authority v = Some o1 \<Longrightarrow> \<not> is_match o1" "session_authority v = Some o1 \<Longrightarrow> \<not> is_match o1"
  by (auto simp: no_match_def terminal_authority_def scheduler_authority_def session_authority_def split: if_splits)

lemma terminate_query_ok:
  assumes ok: "query_ok st" and b: "books n st" and t: "terminate_query v outcome st = (standing, st')"
  shows "query_ok st' \<and> books n st' \<and> qd_terminal st' \<noteq> None
    \<and> (no_match v \<and> \<not> is_match outcome \<longrightarrow> kept st st')"
proof (cases "qd_terminal st")
  case None
  obtain f where f: "qd_in_flight st = [f, None]" using ok by (meson query_okE)
  let ?st = "st\<lparr>qd_terminal_frame := query_frame st\<rparr>"
  have st': "st' = supersede_outstanding ?st\<lparr>qd_terminal := qd_terminal st'\<rparr>" "qd_terminal st' \<noteq> None"
    using t None by (auto simp: terminate_query_def Let_def)
  have same: "same_work_items st ?st" by (simp add: same_work_items_def pending_stamp_def)
  have "balanced n (qd_work (supersede_outstanding ?st)) 0"
    using books_supersede [of ?st n] query_ok_same [OF same ok] outstanding_same [OF same] b None by simp
  then have "balanced n (qd_work st') 0" by (subst st'(1)) simp
  moreover have "qd_in_flight st' = [None, None]" "qd_pending st' = None"
    by (subst st'(1), simp add: f)+
  moreover have "kept st st'" if "no_match v" "\<not> is_match outcome"
  proof -
    have "\<not> is_match o1" if "qd_terminal st' = Some o1" for o1
      using t None that \<open>no_match v\<close> \<open>\<not> is_match outcome\<close>
      by (auto simp: terminate_query_def Let_def or_else_def dest: authority_no_match split: option.splits)
    moreover have "qd_last_frame st' = qd_last_frame st" "qd_previous st' = qd_previous st"
      "qd_stability st' = qd_stability st" "qd_generation st' = qd_generation st"
      "qd_source_frame st' = qd_source_frame st" "qd_last_admitted st' = qd_last_admitted st" by (subst st'(1), simp)+
    ultimately show ?thesis using st'(2) None by (auto simp: kept_def)
  qed
  ultimately show ?thesis using st'(2) None query_ok_ended [of st'] by simp
next
  case (Some o1)
  then have "st' = st" using t by (simp add: terminate_query_def Let_def)
  then show ?thesis using ok b Some by simp
qed

lemma record_disposition_ok:
  assumes "record_disposition d st = (recorded, st')" "\<not> final_disposition d"
  shows "same_work_items st st' \<and> (books n st \<longrightarrow> books n st')"
proof -
  have "st' = st \<or> st' = count_work d st" using assms by (auto simp: record_disposition_def split: if_splits)
  then show ?thesis
    using assms(2) by (auto simp: same_work_items_def pending_stamp_def outstanding_def in_flight_count_def)
qed

lemma barrier_ok:
  assumes "apply_mapping_barrier rate st = (deferred, st')"
  shows "same_work_items st st' \<and> (books n st \<longrightarrow> books n st') \<and> qd_processing st' = qd_processing st
    \<and> qd_last_frame st' = qd_last_frame st \<and> qd_previous st' = qd_previous st
    \<and> qd_stability st' = qd_stability st \<and> qd_last_admitted st' = qd_last_admitted st"
  using assms
  by (auto simp: apply_mapping_barrier_def same_work_items_def pending_stamp_def outstanding_def in_flight_count_def Let_def
      split: option.splits if_splits)

definition accepts :: "stream_id \<Rightarrow> frame_stamp \<Rightarrow> 'p query_data \<Rightarrow> bool" where
  "accepts stream stamp st \<longleftrightarrow>
     qd_terminal st = None \<and> fs_stream stamp = stream \<and> \<not> not_newer (qd_source_frame st) stamp"

lemma enqueue_ignored: "\<not> accepts stream (fr_stamp (fh_frame frame)) st \<Longrightarrow> enqueue stream rate barrier frame now st = st"
  by (auto simp: accepts_def enqueue_def Let_def)

text \<open>An accepted frame, before the barrier is looked at again.\<close>

definition replaced_pending :: "duration \<Rightarrow> bool \<Rightarrow> 'p frame_handle \<Rightarrow> instant \<Rightarrow> 'p query_data \<Rightarrow> 'p query_data" where
  "replaced_pending rate barrier frame now st =
     (let stamp = fr_stamp (fh_frame frame);
          incompatible = incompatible_with (qd_source_frame st) stamp;
          preserve_age = (qd_barrier_deferred st \<or> barrier)
      in st\<lparr>qd_needs_current := False, qd_source_frame := Some stamp,
            qd_previous := (if incompatible then None else qd_previous st),
            qd_stability := (if incompatible then stability_none else qd_stability st),
            qd_in_flight := (if incompatible then map (\<lambda>_. None) (qd_in_flight st) else qd_in_flight st),
            qd_pending := Some \<lparr>pf_frame = frame, pf_since =
              (if preserve_age then (case qd_pending st of None \<Rightarrow> now | Some p \<Rightarrow> pf_since p) else now)\<rparr>,
            qd_work := (increment Superseded ^^ ((if incompatible then in_flight_count st else 0)
                          + (if qd_pending st \<noteq> None then 1 else 0))) (qd_work st),
            qd_rate_eligible_at := (if preserve_age then qd_rate_eligible_at st else None)\<rparr>)"

lemma enqueue_accepted:
  assumes "accepts stream (fr_stamp (fh_frame frame)) st"
  shows "enqueue stream rate barrier frame now st =
    (let r = replaced_pending rate barrier frame now st
     in if qd_barrier_deferred st \<or> barrier then snd (apply_mapping_barrier rate r) else r)"
  using assms
  by (cases "incompatible_with (qd_source_frame st) (fr_stamp (fh_frame frame))"; cases "qd_barrier_deferred st \<or> barrier")
     (simp_all add: accepts_def enqueue_def Let_def replaced_pending_def count_times_eq clear_in_flight_def)

lemma replaced_ok:
  assumes ok: "query_ok st" and acc: "accepts stream (fr_stamp (fh_frame frame)) st"
  shows "query_ok (replaced_pending rate barrier frame now st)"
proof -
  let ?stamp = "fr_stamp (fh_frame frame)" and ?st' = "replaced_pending rate barrier frame now st"
  have none: "qd_terminal st = None" using acc by (simp add: accepts_def)
  obtain f where f: "qd_in_flight st = [f, None]"
    and free: "qd_processing st \<noteq> None \<Longrightarrow> f = None \<and> qd_pending st \<noteq> None"
    and fits: "\<And>a. f = Some a \<Longrightarrow> flight_fits st a"
    using query_okE [OF ok] none by metis
  have "flight_fits ?st' a" if c: "\<not> incompatible_with (qd_source_frame st) ?stamp" and fa: "f = Some a" for a
  proof -
    obtain src where "qd_source_frame st = Some src" "stamp_position (snd a) \<le> stamp_position src"
      "fs_epoch (snd a) = fs_epoch src" "fs_geometry (snd a) = fs_geometry src" "fs_stream (snd a) = fs_stream src"
      "fst a = qd_generation st"
      using fits [OF fa] by (auto simp: flight_fits_def)
    then show ?thesis using c acc
      by (auto simp: flight_fits_def replaced_pending_def Let_def incompatible_with_def accepts_def not_newer_def
          stamp_order_Before_iff)
  qed
  then show ?thesis
    using f none free by (auto simp: query_ok_def replaced_pending_def Let_def pending_stamp_def)
qed

lemma replaced_books:
  assumes "query_ok st" and "books n st"
  shows "books (Suc n) (replaced_pending rate barrier frame now st)"
proof -
  let ?st' = "replaced_pending rate barrier frame now st"
  let ?m = "(if incompatible_with (qd_source_frame st) (fr_stamp (fh_frame frame)) then in_flight_count st else 0)
    + (if qd_pending st \<noteq> None then 1 else 0)"
  obtain f where "qd_in_flight st = [f, None]" using assms(1) by (meson query_okE)
  then have "Suc (outstanding st) = ?m + outstanding ?st'"
    by (auto simp: outstanding_def in_flight_count_def replaced_pending_def Let_def)
  then have "balanced (Suc n) ((increment Superseded ^^ ?m) (qd_work st)) (outstanding ?st')"
    using balanced_Suc [OF assms(2)] balanced_count [of Superseded "Suc n" "qd_work st" ?m "outstanding ?st'"] by simp
  then show ?thesis by (simp add: replaced_pending_def Let_def)
qed

lemma enqueue_ok:
  assumes ok: "query_ok st" and acc: "accepts stream (fr_stamp (fh_frame frame)) st"
    and st': "st' = enqueue stream rate barrier frame now st"
  defines "stamp \<equiv> fr_stamp (fh_frame frame)"
  shows "query_ok st'" and "books n st \<Longrightarrow> books (Suc n) st'"
    and "qd_terminal st' = None" and "pending_stamp st' = Some stamp" and "qd_source_frame st' = Some stamp"
    and "qd_processing st' = qd_processing st" and "qd_generation st' = qd_generation st"
    and "qd_last_admitted st' = qd_last_admitted st" and "qd_last_frame st' = qd_last_frame st"
    and "qd_in_flight st' = (if incompatible_with (qd_source_frame st) stamp then [None, None] else qd_in_flight st)"
    and "qd_previous st' = (if incompatible_with (qd_source_frame st) stamp then None else qd_previous st)"
    and "qd_stability st' = (if incompatible_with (qd_source_frame st) stamp then stability_none else qd_stability st)"
proof -
  let ?r = "replaced_pending rate barrier frame now st"
  obtain f where f: "qd_in_flight st = [f, None]" using ok by (meson query_okE)
  obtain d r where d: "apply_mapping_barrier rate ?r = (d, r)" by fastforce
  note b = barrier_ok [OF d]
  note r = replaced_ok [OF ok acc, of rate barrier now]
  have st'': "st' = (if qd_barrier_deferred st \<or> barrier then r else ?r)"
    using st' d by (simp add: enqueue_accepted [OF acc] Let_def)
  have same: "same_work_items ?r st'"
    using b st'' by (auto simp: same_work_items_def)
  have keeps: "qd_processing st' = qd_processing ?r" "qd_last_frame st' = qd_last_frame ?r"
    "qd_previous st' = qd_previous ?r" "qd_stability st' = qd_stability ?r"
    "qd_last_admitted st' = qd_last_admitted ?r"
    using b st'' by auto
  show "query_ok st'" by (rule query_ok_same [OF same r])
  show "books (Suc n) st'" if "books n st"
    using replaced_books [OF ok that, of rate barrier frame now] b [of "Suc n"] st'' by auto
  have fields: "qd_terminal st' = qd_terminal ?r" "pending_stamp st' = pending_stamp ?r"
    "qd_source_frame st' = qd_source_frame ?r" "qd_generation st' = qd_generation ?r"
    "qd_in_flight st' = qd_in_flight ?r"
    using same by (auto simp: same_work_items_def)
  show "qd_terminal st' = None" using fields acc by (simp add: replaced_pending_def Let_def accepts_def)
  show "pending_stamp st' = Some stamp"
    unfolding fields by (simp add: replaced_pending_def Let_def pending_stamp_def stamp_def)
  show "qd_source_frame st' = Some stamp" "qd_generation st' = qd_generation st"
    "qd_processing st' = qd_processing st" "qd_last_admitted st' = qd_last_admitted st"
    "qd_last_frame st' = qd_last_frame st"
    "qd_previous st' = (if incompatible_with (qd_source_frame st) stamp then None else qd_previous st)"
    "qd_stability st' = (if incompatible_with (qd_source_frame st) stamp then stability_none else qd_stability st)"
    "qd_in_flight st' = (if incompatible_with (qd_source_frame st) stamp then [None, None] else qd_in_flight st)"
    using f by (simp_all add: fields keeps replaced_pending_def Let_def stamp_def)
qed

lemma claim_Some:
  "claim stamp st = (Some frame, st') \<longleftrightarrow>
     qd_terminal st = None \<and> qd_processing st = None \<and> \<not> capacity_reached st
     \<and> (\<exists>p. qd_pending st = Some p \<and> pf_stamp p = stamp \<and> frame = pf_frame p)
     \<and> st' = st\<lparr>qd_processing := Some stamp\<rparr>"
  by (auto simp: claim_def split: option.splits)

lemma claim_ok:
  assumes "query_ok st" "claim stamp st = (Some frame, st')"
  shows "query_ok st' \<and> (books n st \<longrightarrow> books n st')"
proof -
  obtain f where f: "qd_in_flight st = [f, None]" using assms(1) by (meson query_okE)
  have st': "st' = st\<lparr>qd_processing := Some stamp\<rparr>" and "\<not> capacity_reached st" "qd_pending st \<noteq> None"
    using assms(2) by (auto simp: claim_Some)
  then show ?thesis
    using assms(1) f capacity_reached_slots [OF f]
    by (auto simp: query_ok_def pending_stamp_def flight_fits_def outstanding_def in_flight_count_def)
qed

lemma release_claim_same: "same_work_items st (release_claim stamp st)"
  by (simp add: release_claim_def same_work_items_def pending_stamp_def)

lemma outstanding_release [simp]: "outstanding (release_claim stamp st) = outstanding st"
  by (rule outstanding_same [OF release_claim_same])

lemma release_claim_work [simp]:
  "qd_work (release_claim stamp st) = qd_work st" "qd_last_frame (release_claim stamp st) = qd_last_frame st"
  "qd_previous (release_claim stamp st) = qd_previous st" "qd_stability (release_claim stamp st) = qd_stability st"
  "qd_last_admitted (release_claim stamp st) = qd_last_admitted st"
  "qd_terminal (release_claim stamp st) = qd_terminal st"
  by (simp_all add: release_claim_def)

lemma kept_release: "kept q (release_claim stamp q)"
  by (rule kept_same) (simp_all add: release_claim_same)

lemma release_claim_processing:
  "qd_processing (release_claim stamp st) = (if qd_processing st = Some stamp then None else qd_processing st)"
  by (simp add: release_claim_def)

text \<open>What \<open>finish_mapping\<close> does, by its answer.\<close>

lemma finish_mapping_cases:
  assumes "finish_mapping rate v mapped mapping decision now st = (e, st')"
  defines "stamp \<equiv> fr_stamp (fh_frame (mm_frame mapped))"
  obtains
    (refused) "finish_refusal v = Some e" "st' = st"
  | (gone) "finish_refusal v = None" "e = MapObsolete" "st' = st" "qd_terminal st \<noteq> None \<or> qd_processing st \<noteq> Some stamp"
  | (replaced) "finish_refusal v = None" "e = MapObsolete" "st' = st\<lparr>qd_processing := None\<rparr>"
      "qd_terminal st = None" "qd_processing st = Some stamp" "pending_stamp st \<noteq> Some stamp"
  | (skipped) "e = MapSkipped" "st' = skip_analysis stamp mapping (st\<lparr>qd_region := Some (mm_searched mapped)\<rparr>)"
      "qd_terminal st = None" "qd_processing st = Some stamp" "pending_stamp st = Some stamp"
      "decision = Unchanged" "sy_observations (qd_stability st) = 0"
  | (limited) "finish_refusal v = None" "rate_limit rate now (st\<lparr>qd_region := Some (mm_searched mapped)\<rparr>) = Some (e, st')"
      "qd_terminal st = None" "qd_processing st = Some stamp" "pending_stamp st = Some stamp"
  | (allowed) "rate_limit rate now (st\<lparr>qd_region := Some (mm_searched mapped)\<rparr>) = None"
      "admit_analysis stamp now (st\<lparr>qd_region := Some (mm_searched mapped)\<rparr>) = (e, st')" "finish_refusal v = None"
      "qd_terminal st = None" "qd_processing st = Some stamp" "pending_stamp st = Some stamp"
      "\<not> (decision = Unchanged \<and> sy_observations (qd_stability st) = 0)"
proof (cases "finish_refusal v")
  case (Some r)
  then have "e = r" "st' = st" using assms(1) by (simp_all add: finish_mapping_def Let_def)
  then show thesis using refused Some by blast
next
  case None
  let ?st = "st\<lparr>qd_region := Some (mm_searched mapped)\<rparr>"
  note d = assms(1) [unfolded finish_mapping_def Let_def None option.case, folded stamp_def]
  consider "qd_terminal st \<noteq> None \<or> qd_processing st \<noteq> Some stamp"
    | "\<not> (qd_terminal st \<noteq> None \<or> qd_processing st \<noteq> Some stamp)" "pending_stamp st \<noteq> Some stamp"
    | "\<not> (qd_terminal st \<noteq> None \<or> qd_processing st \<noteq> Some stamp)" "pending_stamp st = Some stamp" by blast
  then show thesis
  proof cases
    case 1
    then have "e = MapObsolete" "st' = st" using d by simp_all
    then show thesis using gone None 1 by blast
  next
    case 2
    then have "e = MapObsolete" "st' = st\<lparr>qd_processing := None\<rparr>"
      using d unfolding if_not_P [OF 2(1)] by (simp_all only: if_P simp_thms prod.inject)
    then show thesis using replaced None 2 by blast
  next
    case 3
    let ?skip = "decision = Unchanged \<and> sy_observations (qd_stability ?st) = 0"
    note d = d [unfolded if_not_P [OF 3(1)], simplified 3(2) simp_thms if_False]
    show thesis
    proof (cases ?skip)
      case True
      then have "e = MapSkipped" "st' = skip_analysis stamp mapping ?st" using d by simp_all
      then show thesis using skipped True 3 by simp
    next
      case False
      then have "(case rate_limit rate now ?st of Some r \<Rightarrow> r | None \<Rightarrow> admit_analysis stamp now ?st) = (e, st')"
        using d by (simp only: if_False)
      then show thesis using limited allowed None False 3 by (cases "rate_limit rate now ?st") simp_all
    qed
  qed
qed

lemma finish_refusal_cases:
  "finish_refusal v = Some e \<Longrightarrow>
   e = MapObsolete \<or> (\<exists>o1. e = MapTerminate o1 \<and> (av_terminal v = Some o1 \<or> o1 = OutSessionClosed \<or> o1 = OutSchedulerClosed))"
  by (auto simp: finish_refusal_def or_else_def split: if_splits option.splits)

lemma rate_limit_cases:
  assumes "rate_limit rate now st = Some (e, st')"
  shows "(e = MapDeferred \<and> same_work_items st st' \<and> (books n st \<longrightarrow> books n st')
       \<or> e = MapTerminate (OutFailed unrepresentable_interval) \<and> same_work_items st st' \<and> (books n st \<longrightarrow> books (Suc n) st'))
     \<and> qd_processing st' = None \<and> qd_last_frame st' = qd_last_frame st \<and> qd_previous st' = qd_previous st
     \<and> qd_stability st' = qd_stability st \<and> qd_last_admitted st' = qd_last_admitted st"
proof -
  have fail: "balanced (Suc n) (increment WorkFailed (qd_work st)) (outstanding st)" if "books n st"
    using balanced_count1 [of WorkFailed "Suc n" "qd_work st" "outstanding st"] balanced_Suc [OF that] by simp
  obtain prev where "qd_last_admitted st = Some prev" "rate \<noteq> 0 \<and> saturating_duration_since now prev < rate"
    using assms by (auto simp: rate_limit_def split: option.splits if_splits)
  note d = assms [unfolded rate_limit_def this option.case, simplified this if_True option.inject]
  show ?thesis
  proof (cases "instant_checked_add prev rate")
    case None
    then show ?thesis using d fail by (auto simp: same_work_items_def pending_stamp_def)
  next
    case (Some eligible)
    then show ?thesis using d
      by (auto simp: same_work_items_def pending_stamp_def Let_def option.map_comp comp_def outstanding_def
          split: if_splits)
  qed
qed

lemma rate_limit_None:
  assumes "rate_limit rate now st = None"
  shows "rate = 0 \<or> (\<forall>prev. qd_last_admitted st = Some prev \<longrightarrow> rate \<le> saturating_duration_since now prev)"
  using assms by (auto simp: rate_limit_def split: option.splits if_splits)

lemma admit_analysis_cases:
  assumes ok: "query_ok st" and live: "qd_terminal st = None" "qd_processing st = Some stamp" "pending_stamp st = Some stamp"
    and a: "admit_analysis stamp now st = (e, st')"
  shows "e = MapTerminate (OutFailed generation_exhausted) \<and> st' = st
     \<or> (\<exists>g. e = MapAdmitted g \<and> unat g = Suc (unat (qd_generation st)) \<and> query_ok st'
          \<and> (\<forall>n. books n st \<longrightarrow> books n st') \<and> qd_terminal st' = None \<and> qd_processing st' = None \<and> qd_pending st' = None
          \<and> qd_in_flight st' = [Some (g, stamp), None] \<and> qd_generation st' = g \<and> qd_source_frame st' = qd_source_frame st
          \<and> qd_last_admitted st' = Some now \<and> qd_last_frame st' = qd_last_frame st
          \<and> qd_previous st' = qd_previous st \<and> qd_stability st' = qd_stability st)"
proof -
  have slots: "qd_in_flight st = [None, None]" using ok live by (auto elim!: query_okE)
  have p: "qd_pending st \<noteq> None" using live(3) by (auto simp: pending_stamp_def)
  then have src: "qd_source_frame st = Some stamp" using ok live(3) by (auto simp: query_ok_def)
  show ?thesis
  proof (cases "checked_add (qd_generation st) 1")
    case None
    then show ?thesis using None a by (auto simp: admit_analysis_def)
  next
    case (Some g)
    then have "unat g = Suc (unat (qd_generation st))" using checked_add_Some_unat by fastforce
    then show ?thesis
      using Some a slots p src live(1)
      by (auto simp: admit_analysis_def Let_def query_ok_def pending_stamp_def flight_fits_def outstanding_def
          in_flight_count_def)
  qed
qed

lemma skip_analysis_ok:
  fixes mapping :: "cpu_mapping option"
  assumes ok: "query_ok st" and live: "qd_terminal st = None" "qd_processing st = Some stamp" "pending_stamp st = Some stamp"
  defines "st' \<equiv> skip_analysis stamp mapping st"
  shows "query_ok st' \<and> (books n st \<longrightarrow> books n st') \<and> qd_terminal st' = None \<and> qd_processing st' = None
    \<and> qd_pending st' = None \<and> qd_source_frame st' = qd_source_frame st \<and> qd_previous st' = mapping
    \<and> qd_last_frame st' = Some stamp \<and> qd_stability st' = qd_stability st \<and> qd_last_admitted st' = qd_last_admitted st
    \<and> qd_generation st' = qd_generation st \<and> qd_in_flight st' = [None, None]"
proof -
  have slots: "qd_in_flight st = [None, None]" using ok live by (auto elim!: query_okE)
  have p: "qd_pending st \<noteq> None" using live(3) by (auto simp: pending_stamp_def)
  then have "books n st \<Longrightarrow> balanced n (increment SkippedChange (qd_work st)) 0"
    using slots balanced_count1 [of SkippedChange n "qd_work st" 0] by (auto simp: outstanding_slots)
  then show ?thesis
    using slots live(1) by (simp add: st'_def skip_analysis_def query_ok_def outstanding_slots)
qed

lemma fail_section_ok:
  assumes ok: "query_ok st" and b: "books n st" and f: "fail_section stamp e st = (committed, st')"
  shows "query_ok st' \<and> books n st' \<and> (st' = release_claim stamp st \<or> qd_terminal st' \<noteq> None) \<and> kept st st'"
proof (cases "qd_terminal st \<noteq> None \<or> qd_processing st \<noteq> Some stamp \<or> pending_stamp st \<noteq> Some stamp")
  case True
  then have "st' = release_claim stamp st" using f by (simp add: fail_section_def)
  then show ?thesis
    using query_ok_same [OF release_claim_same ok] b kept_release by simp
next
  case False
  then have slots: "qd_in_flight st = [None, None]" and p: "qd_pending st \<noteq> None"
    using ok by (auto elim!: query_okE simp: pending_stamp_def)
  have "st' = (count_work WorkFailed (clear_in_flight (st\<lparr>qd_processing := None, qd_pending := None\<rparr>)))
      \<lparr>qd_terminal := Some (OutFailed e), qd_terminal_frame := Some stamp\<rparr>"
    using f False slots by (simp add: fail_section_def Let_def in_flight_count_slots count_times_def)
  moreover have "balanced n (increment WorkFailed (qd_work st)) 0"
    using slots p b balanced_count1 [of WorkFailed n "qd_work st" 0] by (auto simp: outstanding_slots)
  ultimately show ?thesis using slots False by (auto simp: query_ok_def outstanding_slots kept_def)
qed

lemma expire_section_ok:
  assumes ok: "query_ok st" and b: "books n st" and x: "expire_section c now expiry st = (committed, st')"
  shows "query_ok st' \<and> books n st' \<and> (st' = st \<or> qd_terminal st' \<noteq> None) \<and> kept st st'"
proof (cases "st' = st")
  case False
  obtain f where slots: "qd_in_flight st = [f, None]" using ok by (meson query_okE)
  let ?st = "(count_work QueueExpired st)\<lparr>qd_pending := None, qd_processing := None, qd_terminal_frame := Some (cs_stamp c)\<rparr>"
  have live: "qd_terminal st = None" and p: "qd_pending st \<noteq> None"
    and st': "st' = count_times (in_flight_count ?st) Superseded (clear_in_flight ?st)
      \<lparr>qd_terminal := Some (OutOverloaded OverloadQueueExpired)\<rparr>"
    using x False by (auto simp: expire_section_def Let_def split: if_splits option.splits)
  have "balanced n (increment QueueExpired (qd_work st)) (in_flight_count st)"
    using b p balanced_count1 [of QueueExpired n "qd_work st" "in_flight_count st"] by (auto simp: outstanding_def)
  then have "balanced n ((increment Superseded ^^ in_flight_count st) (increment QueueExpired (qd_work st))) 0"
    using balanced_count [of Superseded n "increment QueueExpired (qd_work st)" "in_flight_count st" 0] by simp
  then show ?thesis using slots live by (simp add: st' query_ok_def outstanding_slots kept_def)
qed (use ok b in simp)

text \<open>The state after a completion whose slot was found, before its result is looked at.\<close>

definition completed_base :: "frame_stamp \<Rightarrow> pixel_rect \<Rightarrow> 'p query_data \<Rightarrow> 'p query_data" where
  "completed_base stamp region st =
     st\<lparr>qd_in_flight := [None, None], qd_last_frame := Some stamp, qd_region := Some region\<rparr>"

lemma find_slot:
  "qd_in_flight st = [f, None] \<Longrightarrow>
   find_index (\<lambda>s. s = Some a) (qd_in_flight st) = (if f = Some a then Some 0 else None)"
  by simp

lemma complete_section_found:
  assumes ok: "query_ok st" and none: "qd_terminal st = None" and f: "qd_in_flight st = [Some (generation, mm_stamp mapped), None]"
  defines "base \<equiv> completed_base (mm_stamp mapped) (mm_searched mapped) st"
  shows "complete_section qc generation mapped mapping result now None st =
    (case result of
       Inl e \<Rightarrow> (CompleteTerminal, (supersede_outstanding (count_work WorkFailed base))
                  \<lparr>qd_terminal_frame := Some (mm_stamp mapped), qd_terminal := Some (OutFailed e)\<rparr>)
     | Inr r \<Rightarrow>
         (let st1 = (count_work WorkCompleted base)\<lparr>qd_previous := mapping\<rparr>
          in if result_is_empty r then (CompleteLive, st1\<lparr>qd_stability := stability_none\<rparr>)
             else (let sy = observe_match now (qd_stability st); st2 = st1\<lparr>qd_stability := sy\<rparr>
                   in if is_stable (qc_stability qc) sy
                      then (CompleteTerminal, (supersede_outstanding st2)
                             \<lparr>qd_terminal := Some (OutMatched (watch_result_of qc mapped r sy)),
                              qd_terminal_frame := Some (mm_stamp mapped)\<rparr>)
                      else (CompleteLive, st2))))"
proof -
  have "generation = qd_generation st" using ok f by (auto elim!: query_okE simp: flight_fits_def)
  then show ?thesis
    using f none find_slot [OF f, of "(generation, mm_stamp mapped)"]
    by (simp add: complete_section_def Let_def base_def completed_base_def watch_result_of_def split: sum.split)
qed

lemma complete_section_cases:
  assumes ok: "query_ok st" and c: "complete_section qc generation mapped mapping result now late st = (e, st')"
  obtains (returned) "e = CompleteReturned" "st' = st"
  | (interrupted) i where "late = Some i" "e = CompleteTerminate (interruption_outcome i)" "st' = st"
  | (found) "e = CompleteLive \<or> e = CompleteTerminal" "qd_terminal st = None" "late = None"
      "qd_in_flight st = [Some (generation, mm_stamp mapped), None]"
proof -
  obtain f where f: "qd_in_flight st = [f, None]" using ok by (meson query_okE)
  show thesis
  proof (cases "f = Some (generation, mm_stamp mapped) \<and> qd_terminal st = None")
    case False
    then have "e = CompleteReturned" "st' = st"
      using c find_slot [OF f, of "(generation, mm_stamp mapped)"]
      by (auto simp: complete_section_def Let_def split: if_splits)
    then show thesis by (rule returned)
  next
    case True
    then have f': "qd_in_flight st = [Some (generation, mm_stamp mapped), None]" and none: "qd_terminal st = None"
      using f by simp_all
    show thesis
    proof (cases late)
      case (Some i)
      then have "e = CompleteTerminate (interruption_outcome i)" "st' = st"
        using c none find_slot [OF f', of "(generation, mm_stamp mapped)"] by (auto simp: complete_section_def Let_def)
      then show thesis using interrupted Some by blast
    next
      case None
      have "e = CompleteLive \<or> e = CompleteTerminal"
        using c complete_section_found [OF ok none f', of qc mapping result now] None
        by (auto simp: Let_def split: sum.splits if_splits)
      then show thesis using found none f' None by blast
    qed
  qed
qed

lemma completed_base_ok:
  fixes stamp :: frame_stamp and region :: pixel_rect
  assumes ok: "query_ok st" and none: "qd_terminal st = None" and f: "qd_in_flight st = [Some a, None]" and b: "books n st"
    and d: "final_disposition d"
  defines "st' \<equiv> count_work d (completed_base stamp region st)"
  shows "query_ok st' \<and> books n st'"
proof -
  have "qd_processing st = None" using ok none f by (auto elim!: query_okE)
  moreover have "Suc (outstanding (completed_base stamp region st)) = outstanding st"
    using f by (simp add: outstanding_def in_flight_count_def completed_base_def)
  then have "balanced n (increment d (qd_work st)) (outstanding (completed_base stamp region st))"
    using b d balanced_count1 [of d n "qd_work st" "outstanding (completed_base stamp region st)"] by simp
  ultimately show ?thesis
    using ok by (auto simp: st'_def completed_base_def query_ok_def pending_stamp_def)
qed

lemma completed_base_sel [simp]:
  "qd_terminal (completed_base stamp region st) = qd_terminal st"
  "qd_pending (completed_base stamp region st) = qd_pending st"
  "qd_processing (completed_base stamp region st) = qd_processing st"
  "qd_in_flight (completed_base stamp region st) = [None, None]"
  "qd_source_frame (completed_base stamp region st) = qd_source_frame st"
  "qd_last_frame (completed_base stamp region st) = Some stamp"
  "qd_previous (completed_base stamp region st) = qd_previous st"
  "qd_generation (completed_base stamp region st) = qd_generation st"
  "qd_last_admitted (completed_base stamp region st) = qd_last_admitted st"
  "qd_stability (completed_base stamp region st) = qd_stability st"
  "qd_work (completed_base stamp region st) = qd_work st"
  "qd_barrier_deferred (completed_base stamp region st) = qd_barrier_deferred st"
  by (simp_all add: completed_base_def)

text \<open>What a completion that was found does: a failure ends the query, an empty result starts the run again, a
  match prolongs it, and ends the query once the run is stable.\<close>

lemma complete_section_effect:
  assumes ok: "query_ok st" and none: "qd_terminal st = None"
    and f: "qd_in_flight st = [Some (generation, mm_stamp mapped), None]" and b: "books n st"
    and c: "complete_section qc generation mapped mapping result now None st = (e, st')"
  shows "query_ok st' \<and> books n st' \<and> qd_last_frame st' = Some (mm_stamp mapped) \<and> qd_source_frame st' = qd_source_frame st
    \<and> qd_generation st' = qd_generation st \<and> qd_last_admitted st' = qd_last_admitted st
    \<and> qd_in_flight st' = [None, None] \<and> (qd_terminal st' = None \<longrightarrow> pending_stamp st' = pending_stamp st)
    \<and> (case result of
         Inl x \<Rightarrow> qd_terminal st' = Some (OutFailed x) \<and> qd_previous st' = qd_previous st \<and> qd_stability st' = qd_stability st
       | Inr r \<Rightarrow> qd_previous st' = mapping
           \<and> qd_stability st' = (if result_is_empty r then stability_none else observe_match now (qd_stability st))
           \<and> (qd_terminal st' = None \<and> qd_processing st' = None
              \<or> \<not> result_is_empty r \<and> is_stable (qc_stability qc) (qd_stability st')
                 \<and> qd_terminal st' = Some (OutMatched (watch_result_of qc mapped r (qd_stability st')))))"
proof -
  define base where "base = completed_base (mm_stamp mapped) (mm_searched mapped) st"
  have p: "qd_processing st = None" using ok none f by (auto elim!: query_okE)
  have counted: "query_ok (count_work d base)" "books n (count_work d base)" if "final_disposition d" for d
    using completed_base_ok [OF ok none f b that] unfolding base_def by blast+
  have tails: "query_ok (x\<lparr>qd_previous := v, qd_stability := sy\<rparr>) = query_ok x"
    "query_ok (x\<lparr>qd_stability := sy\<rparr>) = query_ok x" "query_ok (x\<lparr>qd_previous := v\<rparr>) = query_ok x"
    for x :: "'a query_data" and v sy
    by (auto simp: query_ok_def pending_stamp_def flight_fits_def)
  have sup: "balanced n (qd_work (supersede_outstanding x)) 0" if "query_ok x" "books n x" "qd_terminal x = None" for x
    using books_supersede that by blast
  note c' = c [unfolded complete_section_found [OF ok none f] Let_def, folded base_def]
  have base: "qd_in_flight base = [None, None]" "qd_terminal base = None" "qd_last_frame base = Some (mm_stamp mapped)"
    "qd_source_frame base = qd_source_frame st" "qd_generation base = qd_generation st" "qd_previous base = qd_previous st"
    "qd_stability base = qd_stability st" "qd_processing base = None" "qd_last_admitted base = qd_last_admitted st"
    "qd_pending base = qd_pending st"
    by (simp_all add: base_def none p)
  show ?thesis
  proof (cases result)
    case (Inl x)
    then show ?thesis
      using c' counted [of WorkFailed] sup [of "count_work WorkFailed base"] base
      by (auto simp: query_ok_def outstanding_slots)
  next
    case (Inr r)
    let ?sy = "observe_match now (qd_stability st)"
    let ?st1 = "(count_work WorkCompleted base)\<lparr>qd_previous := mapping\<rparr>"
    have st2: "query_ok (?st1\<lparr>qd_stability := sy\<rparr>)" "books n (?st1\<lparr>qd_stability := sy\<rparr>)" for sy
      using counted [of WorkCompleted] by (simp_all add: tails)
    show ?thesis
    proof (cases "\<not> result_is_empty r \<and> is_stable (qc_stability qc) ?sy")
      case True
      then show ?thesis
        using c' Inr sup [OF st2, of ?sy] base by (auto simp: query_ok_def outstanding_slots)
    next
      case False
      then show ?thesis using c' Inr st2 base by (auto simp: pending_stamp_def split: if_splits)
    qed
  qed
qed

end
