(* ===== verification/WatchSystem.thy ===== *)
theory WatchSystem
  imports WatchQuery
begin

text \<open>
  A watch query under any number of threads. Each step is one section of \<open>watch.rs\<close> under the query's lock:
  the acquisition publishes frames, workers claim the pending frame, map it, decide whether it changed, admit,
  skip or defer its analysis, and complete it; anybody may end the query, and the supervisor expires it. What
  the other locks protect is read as an arbitrary view in each step, and clocks are arbitrary.

  Four components only record history: the frames the query accepted, the analyses admitted, the frames
  handled, and how often an unrepresentable rate interval was met.
\<close>

section \<open>Steps\<close>

datatype 'p worker_pc =
    WIdle
  | WClaimed "'p frame_handle"
  | WMapped "'p mapped_match" "cpu_mapping option" change_decision
  | WAnalysing u64 "'p mapped_match" "cpu_mapping option"
  | WCompleting u64 "'p mapped_match" "cpu_mapping option" "error + match_result"
  | WTerminating "'p terminal_outcome"

text \<open>A frame the query is done with: skipped as unchanged, or analysed, with or without a match.\<close>

datatype verdict = VerdictSkipped | VerdictEmpty | VerdictMatched

record handled =
  hd_stamp :: frame_stamp
  hd_pixels :: "cpu_mapping option"
  hd_verdict :: verdict
  hd_at :: instant

record ('t, 'p) watch_system =
  wq_query :: "'p query_data"
  wq_pc :: "'t \<Rightarrow> 'p worker_pc"
  wq_published :: "frame_stamp list"
  wq_admissions :: "(u64 \<times> instant) list"
  wq_handled :: "handled list"
  wq_run :: nat
  wq_unrepresentable :: nat

definition watch_new :: "('t, 'p) watch_system" where
  "watch_new = \<lparr>wq_query = query_new, wq_pc = \<lambda>_. WIdle, wq_published = [], wq_admissions = [],
     wq_handled = [], wq_run = 0, wq_unrepresentable = 0\<rparr>"

definition move :: "('t, 'p) watch_system \<Rightarrow> 't \<Rightarrow> 'p worker_pc \<Rightarrow> 'p query_data \<Rightarrow> ('t, 'p) watch_system" where
  "move s t pc st = s\<lparr>wq_pc := (wq_pc s)(t := pc), wq_query := st\<rparr>"

text \<open>
  Mappings are built over checked descriptors, and one the cache remembers shows what the worker's own mapping
  shows (theorem \<open>map_region_exact\<close>).
\<close>

definition same_view :: "cpu_mapping \<Rightarrow> cpu_mapping \<Rightarrow> bool" where
  "same_view a b \<longleftrightarrow> mp_stamp a = mp_stamp b \<and> mp_transform a = mp_transform b \<and> mp_region a = mp_region b
     \<and> mp_descriptor a = mp_descriptor b \<and> mapping_bytes a = mapping_bytes b"

definition described :: "'p mapped_match \<Rightarrow> bool" where
  "described mapped \<longleftrightarrow> (\<forall>p. mm_pixels mapped = Some p \<longrightarrow> valid_descriptor (mp_descriptor p))"

definition remembers :: "cpu_mapping option \<Rightarrow> 'p mapped_match \<Rightarrow> bool" where
  "remembers mapping mapped \<longleftrightarrow>
     (\<forall>m. mapping = Some m \<longrightarrow> (\<exists>p. mm_pixels mapped = Some p \<and> same_view m p))"

definition handled_frame :: "'p mapped_match \<Rightarrow> verdict \<Rightarrow> instant \<Rightarrow> handled" where
  "handled_frame m v now = \<lparr>hd_stamp = mm_stamp m, hd_pixels = mm_pixels m, hd_verdict = v, hd_at = now\<rparr>"

inductive watch_step :: "'q query_config \<Rightarrow> ('t, 'p) watch_system \<Rightarrow> ('t, 'p) watch_system \<Rightarrow> bool" for qc where
  w_publish: "st = enqueue (qc_stream qc) (qc_rate qc) barrier frame now (wq_query s) \<Longrightarrow>
      accepts (qc_stream qc) (fr_stamp (fh_frame frame)) (wq_query s) \<Longrightarrow>
      watch_step qc s (s\<lparr>wq_query := st, wq_published := fr_stamp (fh_frame frame) # wq_published s,
        wq_run := (if incompatible_with (qd_source_frame (wq_query s)) (fr_stamp (fh_frame frame)) then 0 else wq_run s)\<rparr>)"
| w_ignore: "st = enqueue (qc_stream qc) (qc_rate qc) barrier frame now (wq_query s) \<Longrightarrow>
      \<not> accepts (qc_stream qc) (fr_stamp (fh_frame frame)) (wq_query s) \<Longrightarrow>
      watch_step qc s (s\<lparr>wq_query := st\<rparr>)"
| w_barrier: "apply_mapping_barrier (qc_rate qc) (wq_query s) = (deferred, st) \<Longrightarrow>
      watch_step qc s (s\<lparr>wq_query := st\<rparr>)"
| w_claim: "wq_pc s t = WIdle \<Longrightarrow> claim stamp (wq_query s) = (Some frame, st) \<Longrightarrow>
      watch_step qc s (move s t (WClaimed frame) st)"
| w_release: "wq_pc s t = WClaimed frame \<Longrightarrow>
      watch_step qc s (move s t WIdle (release_claim (fr_stamp (fh_frame frame)) (wq_query s)))"
| w_abandon: "wq_pc s t = WClaimed frame \<Longrightarrow> qd_terminal (wq_query s) \<noteq> None \<Longrightarrow>
      watch_step qc s (move s t WIdle (wq_query s))"
| w_decide: "wq_pc s t = WClaimed frame \<Longrightarrow> mm_frame mapped = frame \<Longrightarrow> described mapped \<Longrightarrow>
      remembers mapping mapped \<Longrightarrow> decision = mapping_decision (qc_policy qc) live (mm_pixels mapped) (wq_query s) \<Longrightarrow>
      watch_step qc s (move s t (WMapped mapped mapping decision) (wq_query s))"
| w_admitted: "wq_pc s t = WMapped mapped mapping decision \<Longrightarrow>
      finish_mapping (qc_rate qc) v mapped mapping decision now (wq_query s) = (MapAdmitted generation, st) \<Longrightarrow>
      watch_step qc s ((move s t (WAnalysing generation mapped mapping) st)
                         \<lparr>wq_admissions := (generation, now) # wq_admissions s\<rparr>)"
| w_skipped: "wq_pc s t = WMapped mapped mapping decision \<Longrightarrow>
      finish_mapping (qc_rate qc) v mapped mapping decision now (wq_query s) = (MapSkipped, st) \<Longrightarrow>
      watch_step qc s ((move s t WIdle st)\<lparr>wq_handled := handled_frame mapped VerdictSkipped now # wq_handled s\<rparr>)"
| w_obsolete: "wq_pc s t = WMapped mapped mapping decision \<Longrightarrow>
      finish_mapping (qc_rate qc) v mapped mapping decision now (wq_query s) = (e, st) \<Longrightarrow>
      e = MapDeferred \<or> e = MapObsolete \<Longrightarrow> watch_step qc s (move s t WIdle st)"
| w_refused: "wq_pc s t = WMapped mapped mapping decision \<Longrightarrow> no_match v \<Longrightarrow>
      finish_mapping (qc_rate qc) v mapped mapping decision now (wq_query s) = (MapTerminate outcome, st) \<Longrightarrow>
      watch_step qc s ((move s t (WTerminating outcome) st)\<lparr>wq_unrepresentable := wq_unrepresentable s
                         + (if outcome = OutFailed unrepresentable_interval \<and> finish_refusal v = None then 1 else 0)\<rparr>)"
| w_map_failed: "wq_pc s t = WClaimed frame \<Longrightarrow> no_match v \<Longrightarrow> work_refusal (qc_context qc) ob v = Some outcome \<Longrightarrow>
      watch_step qc s (move s t (WTerminating outcome) (wq_query s))"
| w_failed: "wq_pc s t = WClaimed frame \<Longrightarrow> fail_section (fr_stamp (fh_frame frame)) e (wq_query s) = (committed, st) \<Longrightarrow>
      watch_step qc s (move s t WIdle st)"
| w_record: "wq_pc s t = WAnalysing generation mapped mapping \<Longrightarrow> d = WorkAdmitted \<or> d = Coalesced \<Longrightarrow>
      record_disposition d (wq_query s) = (recorded, st) \<Longrightarrow> watch_step qc s (s\<lparr>wq_query := st\<rparr>)"
| w_unwanted: "wq_pc s t = WAnalysing generation mapped mapping \<Longrightarrow>
      \<not> completion_wanted generation (mm_stamp mapped) (wq_query s) \<or> interruption_at (qc_context qc) ob \<noteq> None \<Longrightarrow>
      watch_step qc s (move s t WIdle (wq_query s))"
| w_analysed: "wq_pc s t = WAnalysing generation mapped mapping \<Longrightarrow>
      completion_wanted generation (mm_stamp mapped) (wq_query s) \<Longrightarrow>
      (\<forall>r. result = Inr r \<longrightarrow> rs_stamp r = mm_stamp mapped) \<Longrightarrow>
      watch_step qc s (move s t (WCompleting generation mapped mapping result) (wq_query s))"
| w_complete_refused: "wq_pc s t = WCompleting generation mapped mapping result \<Longrightarrow> no_match v \<Longrightarrow>
      complete_refusal (qc_context qc) ob v refusal = Some outcome \<Longrightarrow>
      watch_step qc s (move s t (WTerminating outcome) (wq_query s))"
| w_complete_late: "wq_pc s t = WCompleting generation mapped mapping result \<Longrightarrow>
      complete_section qc generation mapped mapping result now late (wq_query s) = (CompleteTerminate outcome, st) \<Longrightarrow>
      watch_step qc s (move s t (WTerminating outcome) st)"
| w_complete_returned: "wq_pc s t = WCompleting generation mapped mapping result \<Longrightarrow>
      complete_section qc generation mapped mapping result now late (wq_query s) = (e, st) \<Longrightarrow>
      e = CompleteReturned \<or> e = CompleteStale \<Longrightarrow> watch_step qc s (move s t WIdle st)"
| w_completed: "wq_pc s t = WCompleting generation mapped mapping result \<Longrightarrow>
      complete_section qc generation mapped mapping result now late (wq_query s) = (e, st) \<Longrightarrow>
      e = CompleteLive \<or> e = CompleteTerminal \<Longrightarrow>
      watch_step qc s ((move s t WIdle st)
        \<lparr>wq_handled := (case result of Inl _ \<Rightarrow> wq_handled s
                        | Inr r \<Rightarrow> handled_frame mapped (if result_is_empty r then VerdictEmpty else VerdictMatched) now
                                     # wq_handled s),
         wq_run := (case result of Inl _ \<Rightarrow> wq_run s
                    | Inr r \<Rightarrow> if result_is_empty r then 0 else Suc (wq_run s))\<rparr>)"
| w_terminating: "wq_pc s t = WTerminating outcome \<Longrightarrow> no_match v \<Longrightarrow>
      terminate_query v outcome (wq_query s) = (standing, st) \<Longrightarrow> watch_step qc s (move s t WIdle st)"
| w_terminate: "no_match v \<Longrightarrow> \<not> is_match outcome \<Longrightarrow>
      terminate_query v outcome (wq_query s) = (standing, st) \<Longrightarrow> watch_step qc s (s\<lparr>wq_query := st\<rparr>)"
| w_expire: "expire_section c now expiry (wq_query s) = (committed, st) \<Longrightarrow> watch_step qc s (s\<lparr>wq_query := st\<rparr>)"

definition watch_reachable :: "'q query_config \<Rightarrow> ('t, 'p) watch_system \<Rightarrow> bool" where
  "watch_reachable qc s \<longleftrightarrow> (watch_step qc)\<^sup>*\<^sup>* watch_new s"

end
