(* ===== verification/WatchSafety.thy ===== *)
theory WatchSafety
  imports WatchSystem
begin

text \<open>
  What holds of a watch query under every interleaving of theory \<open>WatchSystem\<close>: the books balance, one analysis
  is in flight, skips are justified by the last analysed frame, a reported match is as stable as was asked,
  admissions keep the rate, and the first outcome is the only one.
\<close>

section \<open>The state between two steps\<close>

fun holder :: "'p worker_pc \<Rightarrow> frame_stamp option" where
  "holder (WClaimed frame) = Some (fr_stamp (fh_frame frame))"
| "holder (WMapped mapped mapping decision) = Some (mm_stamp mapped)"
| "holder _ = None"

definition core_ok :: "('t, 'p) watch_system \<Rightarrow> bool" where
  "core_ok s \<longleftrightarrow> query_ok (wq_query s) \<and> books (length (wq_published s) + wq_unrepresentable s) (wq_query s)"

lemma move_sel [simp]:
  "wq_query (move s t pc st) = st" "wq_pc (move s t pc st) = (wq_pc s)(t := pc)"
  "wq_published (move s t pc st) = wq_published s" "wq_admissions (move s t pc st) = wq_admissions s"
  "wq_handled (move s t pc st) = wq_handled s" "wq_run (move s t pc st) = wq_run s"
  "wq_unrepresentable (move s t pc st) = wq_unrepresentable s"
  by (simp_all add: move_def)

definition quiet_step :: "('t, 'p) watch_system \<Rightarrow> ('t, 'p) watch_system \<Rightarrow> bool" where
  "quiet_step s s' \<longleftrightarrow> wq_published s' = wq_published s \<and> wq_admissions s' = wq_admissions s
     \<and> wq_handled s' = wq_handled s \<and> wq_run s' = wq_run s \<and> kept (wq_query s) (wq_query s')
     \<and> (\<exists>t. (\<forall>u. u \<noteq> t \<longrightarrow> wq_pc s' u = wq_pc s u)
          \<and> (holder (wq_pc s' t) = None \<or> wq_pc s' t = wq_pc s t)
          \<and> (qd_terminal (wq_query s') = None \<longrightarrow>
               qd_processing (wq_query s') = qd_processing (wq_query s)
               \<or> holder (wq_pc s t) \<noteq> None \<and> holder (wq_pc s' t) = None \<and> qd_processing (wq_query s') = None))"

section \<open>The workers\<close>

fun pc_ok :: "'p worker_pc \<Rightarrow> bool" where
  "pc_ok (WMapped mapped mapping decision) = (remembers mapping mapped \<and> described mapped)"
| "pc_ok (WAnalysing generation mapped mapping) = (remembers mapping mapped \<and> described mapped)"
| "pc_ok (WCompleting generation mapped mapping result) =
     (remembers mapping mapped \<and> described mapped \<and> (\<forall>r. result = Inr r \<longrightarrow> rs_stamp r = mm_stamp mapped))"
| "pc_ok (WTerminating outcome) = (\<not> is_match outcome)"
| "pc_ok _ = True"

lemma interruption_no_match [simp]: "\<not> is_match (interruption_outcome i)"
  by (cases i) simp_all

lemma capture_no_match [simp]: "\<not> is_match (capture_outcome e)"
  by (simp add: capture_outcome_def)

lemma work_refusal_no_match: "no_match v \<Longrightarrow> work_refusal c ob v = Some o1 \<Longrightarrow> \<not> is_match o1"
  by (auto simp: work_refusal_def or_else_def dest: authority_no_match split: option.splits)

lemma complete_refusal_no_match: "no_match v \<Longrightarrow> complete_refusal c ob v r = Some o1 \<Longrightarrow> \<not> is_match o1"
  by (auto simp: complete_refusal_def or_else_def dest: authority_no_match split: option.splits)

lemma admit_analysis_end: "admit_analysis stamp now st = (e, st') \<Longrightarrow> e = MapTerminate o1 \<Longrightarrow> \<not> is_match o1"
  by (auto simp: admit_analysis_def Let_def split: option.splits)

lemma finish_mapping_no_match:
  assumes "no_match v" "finish_mapping rate v mapped mapping decision now st = (MapTerminate o1, st')"
  shows "\<not> is_match o1"
  using assms(2)
proof (cases rule: finish_mapping_cases)
  case refused
  then show ?thesis using finish_refusal_cases [OF refused(1)] assms(1) by (auto simp: no_match_def)
next
  case limited
  then show ?thesis using rate_limit_cases [OF limited(2)] by auto
next
  case allowed
  then show ?thesis using admit_analysis_end [OF allowed(2)] by simp
qed simp_all

lemma complete_late_no_match:
  assumes "query_ok st" "complete_section qc generation mapped mapping result now late st = (CompleteTerminate o1, st')"
  shows "\<not> is_match o1"
  using assms by (cases rule: complete_section_cases) simp_all

lemma pcs_step:
  assumes "watch_step qc s s'" "query_ok (wq_query s)" "\<forall>t. pc_ok (wq_pc s t)"
  shows "\<forall>t. pc_ok (wq_pc s' t)"
  using assms
proof (cases rule: watch_step.cases)
  case (w_admitted t mapped mapping decision v now generation st)
  then have "remembers mapping mapped \<and> described mapped" using assms(3) by (metis pc_ok.simps(1))
  then show ?thesis using w_admitted assms(3) by simp
next
  case (w_analysed t generation mapped mapping result)
  then have "remembers mapping mapped \<and> described mapped" using assms(3) by (metis pc_ok.simps(2))
  then show ?thesis using w_analysed assms(3) by simp
next
  case (w_complete_late t generation mapped mapping result now late outcome st)
  have "\<not> is_match outcome"
    using w_complete_late(3) by (rule complete_late_no_match [OF assms(2)])
  then show ?thesis using w_complete_late assms(3) by simp
next
  case w_refused
  then show ?thesis using assms(3) finish_mapping_no_match [OF w_refused(3,4)] by simp
next
  case w_map_failed
  then show ?thesis using assms(3) work_refusal_no_match [OF w_map_failed(3,4)] by simp
next
  case w_complete_refused
  then show ?thesis using assms(3) complete_refusal_no_match [OF w_complete_refused(3,4)] by simp
qed (simp_all)

text \<open>What \<open>finish_mapping\<close> leaves behind when it neither admits nor skips.\<close>

lemma finish_mapping_idle:
  assumes ok: "query_ok st" and b: "books n st" and v: "no_match v \<or> e = MapDeferred \<or> e = MapObsolete"
    and f: "finish_mapping rate v mapped mapping decision now st = (e, st')"
    and e: "e \<noteq> MapSkipped" "\<And>g. e \<noteq> MapAdmitted g"
  shows "same_work_items st st' \<and> kept st st'
    \<and> books (n + (if e = MapTerminate (OutFailed unrepresentable_interval) \<and> finish_refusal v = None then 1 else 0)) st'
    \<and> (qd_processing st' = qd_processing st \<or> qd_processing st' = None)"
  using f
proof (cases rule: finish_mapping_cases)
  case limited
  let ?st = "st\<lparr>qd_region := Some (mm_searched mapped)\<rparr>"
  have s: "same_work_items st ?st" by (simp add: same_work_items_def pending_stamp_def)
  note r = rate_limit_cases [OF limited(2), of n]
  have "same_work_items ?st st'" using r by blast
  then have "same_work_items st st'" using s by (auto simp: same_work_items_def)
  moreover have "kept st st'" by (rule kept_same [OF calculation]) (use r in simp_all)
  ultimately show ?thesis using r b limited(1) by auto
next
  case allowed
  let ?st = "st\<lparr>qd_region := Some (mm_searched mapped)\<rparr>"
  have s: "same_work_items st ?st" by (simp add: same_work_items_def pending_stamp_def)
  have "e = MapTerminate (OutFailed generation_exhausted) \<and> st' = ?st"
    using admit_analysis_cases [of ?st "mm_stamp mapped" now e st'] query_ok_same [OF s ok] allowed e
    by (auto simp: pending_stamp_def)
  then show ?thesis using s b kept_same [OF s] by (simp add: generation_exhausted_def unrepresentable_interval_def mk_error_def)
qed (use e b in \<open>auto simp: same_work_items_def pending_stamp_def kept_def\<close>)

lemma quietI:
  assumes "kept (wq_query s) st" and "holder pc = None"
    and "qd_terminal st = None \<longrightarrow> qd_processing st = qd_processing (wq_query s)
       \<or> holder (wq_pc s t) \<noteq> None \<and> holder pc = None \<and> qd_processing st = None"
  shows "quiet_step s (move s t pc st)"
  using assms unfolding quiet_step_def by (auto intro!: exI [of _ t])

lemma quiet_shared:
  assumes "kept (wq_query s) st" "qd_terminal st = None \<longrightarrow> qd_processing st = qd_processing (wq_query s)"
  shows "quiet_step s (s\<lparr>wq_query := st\<rparr>)"
  using assms unfolding quiet_step_def by auto

lemma quiet_unrepresentable: "quiet_step s (s'\<lparr>wq_unrepresentable := n\<rparr>) = quiet_step s s'"
  by (simp add: quiet_step_def)

lemma release_processing_cases:
  "qd_processing (release_claim stamp st) = qd_processing st \<or> qd_processing (release_claim stamp st) = None"
  by (simp add: release_claim_def)

text \<open>The steps that are not quiet.\<close>

inductive loud_step :: "'q query_config \<Rightarrow> ('t, 'p) watch_system \<Rightarrow> ('t, 'p) watch_system \<Rightarrow> bool" for qc where
  l_publish: "accepts (qc_stream qc) (fr_stamp (fh_frame frame)) (wq_query s) \<Longrightarrow>
      st = enqueue (qc_stream qc) (qc_rate qc) barrier frame now (wq_query s) \<Longrightarrow>
      loud_step qc s (s\<lparr>wq_query := st, wq_published := fr_stamp (fh_frame frame) # wq_published s,
        wq_run := (if incompatible_with (qd_source_frame (wq_query s)) (fr_stamp (fh_frame frame)) then 0 else wq_run s)\<rparr>)"
| l_claim: "wq_pc s t = WIdle \<Longrightarrow> claim stamp (wq_query s) = (Some frame, st) \<Longrightarrow>
      loud_step qc s (move s t (WClaimed frame) st)"
| l_decide: "wq_pc s t = WClaimed frame \<Longrightarrow> mm_frame mapped = frame \<Longrightarrow> described mapped \<Longrightarrow>
      remembers mapping mapped \<Longrightarrow> decision = mapping_decision (qc_policy qc) live (mm_pixels mapped) (wq_query s) \<Longrightarrow>
      loud_step qc s (move s t (WMapped mapped mapping decision) (wq_query s))"
| l_admitted: "wq_pc s t = WMapped mapped mapping decision \<Longrightarrow>
      finish_mapping (qc_rate qc) v mapped mapping decision now (wq_query s) = (MapAdmitted generation, st) \<Longrightarrow>
      loud_step qc s ((move s t (WAnalysing generation mapped mapping) st)
                         \<lparr>wq_admissions := (generation, now) # wq_admissions s\<rparr>)"
| l_skipped: "wq_pc s t = WMapped mapped mapping decision \<Longrightarrow>
      finish_mapping (qc_rate qc) v mapped mapping decision now (wq_query s) = (MapSkipped, st) \<Longrightarrow>
      loud_step qc s ((move s t WIdle st)\<lparr>wq_handled := handled_frame mapped VerdictSkipped now # wq_handled s\<rparr>)"
| l_completed: "wq_pc s t = WCompleting generation mapped mapping result \<Longrightarrow>
      complete_section qc generation mapped mapping result now None (wq_query s) = (e, st) \<Longrightarrow>
      qd_terminal (wq_query s) = None \<Longrightarrow> qd_in_flight (wq_query s) = [Some (generation, mm_stamp mapped), None] \<Longrightarrow>
      loud_step qc s ((move s t WIdle st)
        \<lparr>wq_handled := (case result of Inl _ \<Rightarrow> wq_handled s
                        | Inr r \<Rightarrow> handled_frame mapped (if result_is_empty r then VerdictEmpty else VerdictMatched) now
                                     # wq_handled s),
         wq_run := (case result of Inl _ \<Rightarrow> wq_run s
                    | Inr r \<Rightarrow> if result_is_empty r then 0 else Suc (wq_run s))\<rparr>)"

lemma terminate_quiet:
  assumes "core_ok s" "no_match v" "\<not> is_match outcome" "terminate_query v outcome (wq_query s) = (standing, st)"
  shows "kept (wq_query s) st \<and> qd_terminal st \<noteq> None"
  using assms terminate_query_ok [OF _ _ assms(4)] unfolding core_ok_def by blast

lemma loud_or_quiet:
  assumes step: "watch_step qc s s'" and core: "core_ok s" and pcs: "\<forall>t. pc_ok (wq_pc s t)"
  shows "quiet_step s s' \<or> loud_step qc s s'"
  using step
proof (cases rule: watch_step.cases)
  case w_publish
  then show ?thesis by (blast intro: loud_step.l_publish)
next
  case w_claim
  then show ?thesis by (blast intro: loud_step.l_claim)
next
  case w_decide
  then show ?thesis by (blast intro: loud_step.l_decide)
next
  case w_admitted
  then show ?thesis by (blast intro: loud_step.l_admitted)
next
  case w_skipped
  then show ?thesis by (blast intro: loud_step.l_skipped)
next
  case (w_completed t generation mapped mapping result now late e st)
  have "late = None \<and> qd_terminal (wq_query s) = None
      \<and> qd_in_flight (wq_query s) = [Some (generation, mm_stamp mapped), None]"
    using complete_section_cases [OF _ w_completed(3)] core w_completed(4) unfolding core_ok_def by blast
  then show ?thesis using w_completed l_completed [of s t generation mapped mapping result qc now e st] by blast
next
  case (w_obsolete t mapped mapping decision v now e st)
  then have "kept (wq_query s) st \<and> (qd_processing st = qd_processing (wq_query s) \<or> qd_processing st = None)"
    using finish_mapping_idle [OF _ _ _ w_obsolete(3), of "length (wq_published s) + wq_unrepresentable s"] core
    unfolding core_ok_def by auto
  then show ?thesis using w_obsolete quietI [of s st WIdle t] by auto
next
  case (w_refused t mapped mapping decision v now outcome st)
  then have "kept (wq_query s) st \<and> (qd_processing st = qd_processing (wq_query s) \<or> qd_processing st = None)"
    using finish_mapping_idle [OF _ _ _ w_refused(4), of "length (wq_published s) + wq_unrepresentable s"] core
    unfolding core_ok_def by auto
  then show ?thesis using w_refused quietI [of s st "WTerminating outcome" t] by (auto simp: quiet_unrepresentable)
next
  case (w_terminating t outcome v standing st)
  have "\<not> is_match outcome" using pcs w_terminating(2) by (metis pc_ok.simps(4))
  then show ?thesis using terminate_quiet [OF core w_terminating(3) _ w_terminating(4)] w_terminating(1)
      quietI [of s st WIdle t] by auto
next
  case (w_terminate v outcome standing st)
  then show ?thesis using terminate_quiet [OF core w_terminate(2,3,4)] quiet_shared [of s st] by auto
next
  case (w_failed t frame e committed st)
  then have "(st = release_claim (fr_stamp (fh_frame frame)) (wq_query s) \<or> qd_terminal st \<noteq> None) \<and> kept (wq_query s) st"
    using fail_section_ok [OF _ _ w_failed(3)] core unfolding core_ok_def by blast
  then show ?thesis using w_failed quietI [of s st WIdle t] release_processing_cases by fastforce
next
  case (w_expire c now expiry committed st)
  then have "(st = wq_query s \<or> qd_terminal st \<noteq> None) \<and> kept (wq_query s) st"
    using expire_section_ok [OF _ _ w_expire(2)] core unfolding core_ok_def by blast
  then show ?thesis using w_expire quiet_shared [of s st] by auto
next
  case (w_barrier deferred st)
  then show ?thesis using barrier_ok [OF w_barrier(2)] quiet_shared [of s st] kept_same by metis
next
  case (w_record t generation mapped mapping d recorded st)
  have "st = wq_query s \<or> st = count_work d (wq_query s)"
    using w_record(4) by (auto simp: record_disposition_def split: if_splits)
  then show ?thesis using w_record(1) quiet_shared [of s st] kept_same [of "wq_query s" st]
    by (auto simp: same_work_items_def pending_stamp_def)
next
  case (w_release t frame)
  then show ?thesis using quietI [of s _ WIdle t, OF kept_release] release_processing_cases by auto
next
  case (w_complete_late t generation mapped mapping result now late outcome st)
  have "st = wq_query s" using w_complete_late(3) core unfolding core_ok_def
    by (auto elim: complete_section_cases)
  then show ?thesis using w_complete_late quietI [of s st "WTerminating outcome" t] by auto
next
  case (w_complete_returned t generation mapped mapping result now late e st)
  have "st = wq_query s" using w_complete_returned(3,4) core unfolding core_ok_def
    by (auto elim: complete_section_cases)
  then show ?thesis using w_complete_returned quietI [of s st WIdle t] by auto
next
  case (w_ignore st barrier frame now)
  then show ?thesis using enqueue_ignored quiet_shared [of s st] by fastforce
qed (auto intro!: quietI)

section \<open>The books balance\<close>

lemma core_same:
  assumes "core_ok s" "same_work_items (wq_query s) (wq_query s')" "wq_published s' = wq_published s"
    "wq_unrepresentable s' = wq_unrepresentable s" "qd_work (wq_query s') = qd_work (wq_query s)"
  shows "core_ok s'"
  using assms query_ok_same outstanding_same [OF assms(2)] unfolding core_ok_def by metis

lemma core_mono:
  assumes "core_ok s"
    "\<And>n. query_ok (wq_query s) \<Longrightarrow> books n (wq_query s) \<Longrightarrow> query_ok (wq_query s') \<and> books n (wq_query s')"
    "wq_published s' = wq_published s" "wq_unrepresentable s' = wq_unrepresentable s"
  shows "core_ok s'"
  using assms unfolding core_ok_def by auto

lemma admitted_effect:
  assumes ok: "query_ok st" and f: "finish_mapping rate v mapped mapping decision now st = (MapAdmitted g, st')"
  shows "unat g = Suc (unat (qd_generation st)) \<and> query_ok st' \<and> (books n st \<longrightarrow> books n st') \<and> qd_terminal st' = None
    \<and> qd_processing st' = None \<and> qd_pending st' = None \<and> qd_in_flight st' = [Some (g, mm_stamp mapped), None]
    \<and> qd_generation st' = g \<and> qd_source_frame st' = qd_source_frame st \<and> qd_last_admitted st' = Some now
    \<and> qd_last_frame st' = qd_last_frame st \<and> qd_previous st' = qd_previous st \<and> qd_stability st' = qd_stability st
    \<and> qd_terminal st = None \<and> qd_processing st = Some (mm_stamp mapped) \<and> pending_stamp st = Some (mm_stamp mapped)
    \<and> (rate = 0 \<or> (\<forall>prev. qd_last_admitted st = Some prev \<longrightarrow> rate \<le> saturating_duration_since now prev))"
  using f
proof (cases rule: finish_mapping_cases)
  case allowed
  let ?st = "st\<lparr>qd_region := Some (mm_searched mapped)\<rparr>"
  have s: "same_work_items st ?st" by (simp add: same_work_items_def pending_stamp_def)
  have live: "qd_terminal ?st = None" "qd_processing ?st = Some (mm_stamp mapped)" "pending_stamp ?st = Some (mm_stamp mapped)"
    using allowed by (simp_all add: pending_stamp_def)
  show ?thesis
    using admit_analysis_cases [OF query_ok_same [OF s ok] live allowed(2)] rate_limit_None [OF allowed(1)] allowed(4-6)
    by auto
next
  case refused
  then show ?thesis using finish_refusal_cases [OF refused(1)] by simp
next
  case limited
  then show ?thesis using rate_limit_cases [OF limited(2)] by auto
qed simp_all

lemma skipped_effect:
  assumes ok: "query_ok st" and f: "finish_mapping rate v mapped mapping decision now st = (MapSkipped, st')"
  shows "query_ok st' \<and> (books n st \<longrightarrow> books n st') \<and> qd_terminal st' = None \<and> qd_processing st' = None
    \<and> qd_pending st' = None \<and> qd_source_frame st' = qd_source_frame st \<and> qd_previous st' = mapping
    \<and> qd_last_frame st' = Some (mm_stamp mapped) \<and> qd_stability st' = qd_stability st \<and> qd_last_admitted st' = qd_last_admitted st
    \<and> qd_generation st' = qd_generation st \<and> qd_in_flight st' = [None, None]
    \<and> qd_terminal st = None \<and> qd_processing st = Some (mm_stamp mapped) \<and> pending_stamp st = Some (mm_stamp mapped)
    \<and> decision = Unchanged \<and> sy_observations (qd_stability st) = 0"
  using f
proof (cases rule: finish_mapping_cases)
  case skipped
  let ?st = "st\<lparr>qd_region := Some (mm_searched mapped)\<rparr>"
  have s: "same_work_items st ?st" by (simp add: same_work_items_def pending_stamp_def)
  have live: "qd_terminal ?st = None" "qd_processing ?st = Some (mm_stamp mapped)" "pending_stamp ?st = Some (mm_stamp mapped)"
    using skipped by (simp_all add: pending_stamp_def)
  show ?thesis
    using skip_analysis_ok [OF query_ok_same [OF s ok] live, of mapping n] skipped by (simp del: outstanding_ended)
next
  case refused
  then show ?thesis using finish_refusal_cases [OF refused(1)] by simp
next
  case limited
  then show ?thesis using rate_limit_cases [OF limited(2)] by auto
next
  case allowed
  then show ?thesis by (auto simp: admit_analysis_def Let_def split: option.splits)
qed simp_all

lemma core_step:
  assumes step: "watch_step qc s s'" and core: "core_ok s"
  shows "core_ok s'"
  using step
proof (cases rule: watch_step.cases)
  case (w_publish st barrier frame now)
  then show ?thesis using enqueue_ok(1,2) [OF _ w_publish(3,2)] core by (simp add: core_ok_def)
next
  case (w_ignore st barrier frame now)
  then show ?thesis using enqueue_ignored core by (fastforce simp: core_ok_def)
next
  case (w_barrier deferred st)
  then show ?thesis
    using barrier_ok [OF w_barrier(2)] query_ok_same [of "wq_query s" st] by (auto intro!: core_mono [OF core])
next
  case (w_claim t stamp frame st)
  then show ?thesis using claim_ok [OF _ w_claim(3)] by (auto intro!: core_mono [OF core])
next
  case (w_admitted t mapped mapping decision v now generation st)
  then show ?thesis using admitted_effect [OF _ w_admitted(3)] by (auto intro!: core_mono [OF core])
next
  case (w_skipped t mapped mapping decision v now st)
  then show ?thesis using skipped_effect [OF _ w_skipped(3)]
    by (auto intro!: core_mono [OF core] simp del: outstanding_ended)
next
  case (w_obsolete t mapped mapping decision v now e st)
  then show ?thesis
    using finish_mapping_idle [OF _ _ _ w_obsolete(3), of "length (wq_published s) + wq_unrepresentable s"] core
      query_ok_same [of "wq_query s" st] unfolding core_ok_def by auto
next
  case (w_refused t mapped mapping decision v now outcome st)
  then show ?thesis
    using finish_mapping_idle [OF _ _ _ w_refused(4), of "length (wq_published s) + wq_unrepresentable s"] core
      query_ok_same [of "wq_query s" st] unfolding core_ok_def by (auto simp: add.assoc)
next
  case (w_failed t frame e committed st)
  then show ?thesis using fail_section_ok [OF _ _ w_failed(3)] by (auto intro!: core_mono [OF core])
next
  case (w_record t generation mapped mapping d recorded st)
  then have "\<not> final_disposition d" by auto
  then show ?thesis using w_record(1) record_disposition_ok [OF w_record(4)] query_ok_same [of "wq_query s" st]
    by (auto intro!: core_mono [OF core])
next
  case (w_complete_late t generation mapped mapping result now late outcome st)
  then show ?thesis using core unfolding core_ok_def by (auto elim: complete_section_cases)
next
  case (w_complete_returned t generation mapped mapping result now late e st)
  then show ?thesis using core unfolding core_ok_def by (auto elim: complete_section_cases)
next
  case (w_completed t generation mapped mapping result now late e st)
  have ok: "query_ok (wq_query s)" using core by (simp add: core_ok_def)
  have c: "qd_terminal (wq_query s) = None" "late = None" "qd_in_flight (wq_query s) = [Some (generation, mm_stamp mapped), None]"
    using complete_section_cases [OF ok w_completed(3)] w_completed(4) by blast+
  have "books (length (wq_published s) + wq_unrepresentable s) (wq_query s)" using core by (simp add: core_ok_def)
  then show ?thesis
    using complete_section_effect [OF ok c(1,3) _ w_completed(3) [unfolded c(2)]] w_completed(1)
    by (simp add: core_ok_def)
next
  case (w_terminating t outcome v standing st)
  then show ?thesis using terminate_query_ok [OF _ _ w_terminating(4)] by (auto intro!: core_mono [OF core])
next
  case (w_terminate v outcome standing st)
  then show ?thesis using terminate_query_ok [OF _ _ w_terminate(4)] by (auto intro!: core_mono [OF core])
next
  case (w_expire c now expiry committed st)
  then show ?thesis using expire_section_ok [OF _ _ w_expire(2)] by (auto intro!: core_mono [OF core])
next
  case (w_release t frame)
  then show ?thesis by (auto intro!: core_same [OF core] release_claim_same)
qed (use core in \<open>auto simp: core_ok_def\<close>)

section \<open>One claim at a time\<close>

definition claims_ok :: "('t, 'p) watch_system \<Rightarrow> bool" where
  "claims_ok s \<longleftrightarrow> (qd_terminal (wq_query s) = None \<longrightarrow>
     (\<forall>t f. holder (wq_pc s t) = Some f \<longrightarrow> qd_processing (wq_query s) = Some f)
     \<and> (\<forall>t u. holder (wq_pc s t) \<noteq> None \<and> holder (wq_pc s u) \<noteq> None \<longrightarrow> t = u))"

lemma claims_quiet:
  assumes q: "quiet_step s s'" and c: "claims_ok s"
  shows "claims_ok s'"
  unfolding claims_ok_def
proof (intro impI)
  assume live': "qd_terminal (wq_query s') = None"
  obtain t where t: "\<And>u. u \<noteq> t \<Longrightarrow> wq_pc s' u = wq_pc s u"
      "holder (wq_pc s' t) = None \<or> wq_pc s' t = wq_pc s t"
      "qd_processing (wq_query s') = qd_processing (wq_query s)
       \<or> holder (wq_pc s t) \<noteq> None \<and> holder (wq_pc s' t) = None \<and> qd_processing (wq_query s') = None"
    and live: "qd_terminal (wq_query s) = None"
    using q live' unfolding quiet_step_def kept_def by metis
  have held: "holder (wq_pc s' u) = None \<or> holder (wq_pc s' u) = holder (wq_pc s u)" for u
    using t by (cases "u = t") auto
  have one: "u = u'" if "holder (wq_pc s u) \<noteq> None" "holder (wq_pc s u') \<noteq> None" for u u'
    using c live that unfolding claims_ok_def by blast
  have "qd_processing (wq_query s') = Some f" if f: "holder (wq_pc s' u) = Some f" for u f
  proof -
    have "holder (wq_pc s u) = Some f" using held [of u] f by auto
    moreover have "\<not> (holder (wq_pc s t) \<noteq> None \<and> holder (wq_pc s' t) = None)"
    proof
      assume "holder (wq_pc s t) \<noteq> None \<and> holder (wq_pc s' t) = None"
      moreover from this have "u = t" using one [of u t] \<open>holder (wq_pc s u) = Some f\<close> by simp
      ultimately show False using f by simp
    qed
    moreover have "qd_processing (wq_query s) = Some f" using c live calculation(1) unfolding claims_ok_def by blast
    ultimately show ?thesis using t(3) by auto
  qed
  moreover have "u = u'" if "holder (wq_pc s' u) \<noteq> None" "holder (wq_pc s' u') \<noteq> None" for u u'
    using one [of u u'] held [of u] held [of u'] that by auto
  ultimately show "(\<forall>t f. holder (wq_pc s' t) = Some f \<longrightarrow> qd_processing (wq_query s') = Some f)
     \<and> (\<forall>t u. holder (wq_pc s' t) \<noteq> None \<and> holder (wq_pc s' u) \<noteq> None \<longrightarrow> t = u)" by blast
qed

text \<open>A live query whose claim slot is empty has no holder.\<close>

lemma no_holder:
  "claims_ok s \<Longrightarrow> qd_terminal (wq_query s) = None \<Longrightarrow> qd_processing (wq_query s) = None \<Longrightarrow> holder (wq_pc s t) = None"
  unfolding claims_ok_def by (cases "holder (wq_pc s t)") auto

lemma only_holder:
  "claims_ok s \<Longrightarrow> qd_terminal (wq_query s) = None \<Longrightarrow> holder (wq_pc s t) \<noteq> None \<Longrightarrow> u \<noteq> t \<Longrightarrow> holder (wq_pc s u) = None"
  unfolding claims_ok_def by metis

lemma claims_free:
  assumes "\<And>u. u \<noteq> t \<Longrightarrow> holder (wq_pc s' u) = None"
    and "\<And>f. holder (wq_pc s' t) = Some f \<Longrightarrow> qd_terminal (wq_query s') = None \<Longrightarrow> qd_processing (wq_query s') = Some f"
  shows "claims_ok s'"
  using assms unfolding claims_ok_def by (metis option.distinct(1))

lemma claims_loud:
  assumes l: "loud_step qc s s'" and c: "claims_ok s" and core: "core_ok s"
  shows "claims_ok s'"
  using l
proof cases
  case (l_publish frame st barrier now)
  have "query_ok (wq_query s)" using core by (simp add: core_ok_def)
  then show ?thesis
    using c l_publish enqueue_ok(3,6) [OF _ l_publish(2,3)] by (auto simp: claims_ok_def accepts_def)
next
  case (l_claim t stamp frame st)
  then have st: "qd_terminal (wq_query s) = None" "qd_processing (wq_query s) = None"
    "st = (wq_query s)\<lparr>qd_processing := Some stamp\<rparr>" "fr_stamp (fh_frame frame) = stamp"
    by (auto simp: claim_Some)
  show ?thesis
    by (rule claims_free [of t]) (use l_claim no_holder [OF c st(1,2)] st in auto)
next
  case (l_decide t frame mapped mapping decision live)
  have same: "holder (wq_pc s' u) = holder (wq_pc s u)" for u using l_decide by simp
  show ?thesis using c same l_decide(1) unfolding claims_ok_def same by simp
next
  case (l_admitted t mapped mapping decision v now generation st)
  then have "qd_terminal (wq_query s) = None" using admitted_effect [OF _ l_admitted(3)] core by (auto simp: core_ok_def)
  then show ?thesis
    by (intro claims_free [of t]) (use l_admitted only_holder [OF c, of t] in auto)
next
  case (l_skipped t mapped mapping decision v now st)
  then have "qd_terminal (wq_query s) = None" using skipped_effect [OF _ l_skipped(3)] core by (auto simp: core_ok_def)
  then show ?thesis
    by (intro claims_free [of t]) (use l_skipped only_holder [OF c, of t] in auto)
next
  case (l_completed t generation mapped mapping result now e st)
  then have "qd_processing (wq_query s) = None" using core by (auto simp: core_ok_def elim!: query_okE)
  then show ?thesis
    by (intro claims_free [of t]) (use l_completed no_holder [OF c l_completed(4)] in auto)
qed

section \<open>Frames in order\<close>

abbreviation flying :: "'p query_data \<Rightarrow> frame_stamp \<Rightarrow> bool" where
  "flying q f \<equiv> \<exists>g. Some (g, f) \<in> set (qd_in_flight q)"

definition frames_ok :: "'q query_config \<Rightarrow> ('t, 'p) watch_system \<Rightarrow> bool" where
  "frames_ok qc s \<longleftrightarrow>
     sorted_wrt (\<lambda>a b. stamp_order b a = Inr Before) (wq_published s)
     \<and> qd_source_frame (wq_query s) = (case wq_published s of [] \<Rightarrow> None | p # _ \<Rightarrow> Some p)
     \<and> (\<forall>p \<in> set (wq_published s). fs_stream p = qc_stream qc)
     \<and> hd_stamp ` set (wq_handled s) \<subseteq> set (wq_published s)
     \<and> sorted_wrt (\<lambda>a b. stamp_position (hd_stamp b) < stamp_position (hd_stamp a)) (wq_handled s)
     \<and> (qd_terminal (wq_query s) = None \<longrightarrow>
         (\<forall>f. flying (wq_query s) f \<longrightarrow> f \<in> set (wq_published s))
         \<and> (\<forall>h \<in> set (wq_handled s). \<forall>f. pending_stamp (wq_query s) = Some f \<or> flying (wq_query s) f \<longrightarrow>
              stamp_position (hd_stamp h) < stamp_position f))"

lemma history_quiet:
  assumes "quiet_step s s'" "frames_ok qc s"
  shows "frames_ok qc s'"
proof -
  have k: "kept (wq_query s) (wq_query s')" and h: "wq_published s' = wq_published s" "wq_handled s' = wq_handled s"
    using assms(1) by (simp_all add: quiet_step_def)
  have "qd_terminal (wq_query s) = None \<and> pending_stamp (wq_query s') = pending_stamp (wq_query s)
    \<and> qd_in_flight (wq_query s') = qd_in_flight (wq_query s)" if "qd_terminal (wq_query s') = None"
    using k that by (auto simp: kept_def)
  then show ?thesis using assms(2) k h unfolding frames_ok_def by (auto simp: kept_def)
qed

lemma published_bound:
  assumes "frames_ok qc s" "p \<in> set (wq_published s)" "fs_stream stamp = qc_stream qc"
    and "\<not> not_newer (qd_source_frame (wq_query s)) stamp"
  shows "stamp_order p stamp = Inr Before"
proof -
  obtain src rest where pub: "wq_published s = src # rest" using assms(2) by (cases "wq_published s") auto
  then have "stamp_order src stamp = Inr Before" using assms by (simp add: frames_ok_def not_newer_def)
  moreover have "p = src \<or> stamp_order p src = Inr Before"
    using assms(1,2) pub by (auto simp: frames_ok_def)
  ultimately show ?thesis by (auto simp: stamp_order_Before_iff)
qed

lemma history_publish:
  assumes h: "frames_ok qc s" and core: "core_ok s"
    and acc: "accepts (qc_stream qc) (fr_stamp (fh_frame frame)) (wq_query s)"
    and st: "st = enqueue (qc_stream qc) rate barrier frame now (wq_query s)"
  defines "stamp \<equiv> fr_stamp (fh_frame frame)"
  shows "frames_ok qc (s\<lparr>wq_query := st, wq_published := stamp # wq_published s, wq_run := n\<rparr>)"
proof -
  have ok: "query_ok (wq_query s)" using core by (simp add: core_ok_def)
  note e = enqueue_ok [OF ok acc st, folded stamp_def]
  have live: "qd_terminal (wq_query s) = None" "fs_stream stamp = qc_stream qc"
    "\<not> not_newer (qd_source_frame (wq_query s)) stamp"
    using acc by (simp_all add: accepts_def stamp_def)
  have new: "stamp_order p stamp = Inr Before" if "p \<in> set (wq_published s)" for p
    by (rule published_bound [OF h that live(2,3)])
  have fly: "flying st f \<Longrightarrow> flying (wq_query s) f" for f using e(10) by (auto split: if_splits)
  have old: "stamp_position (hd_stamp x) < stamp_position stamp" if "x \<in> set (wq_handled s)" for x
  proof -
    have "hd_stamp x \<in> set (wq_published s)" using h that by (auto simp: frames_ok_def)
    then show ?thesis using new by (simp add: stamp_order_Before_iff)
  qed
  have "\<forall>f. flying st f \<longrightarrow> f \<in> set (wq_published s)"
    "\<forall>x \<in> set (wq_handled s). \<forall>f. flying st f \<longrightarrow> stamp_position (hd_stamp x) < stamp_position f"
    using h live(1) fly unfolding frames_ok_def by blast+
  then show ?thesis
    using h e(3-5) new old live(2) by (auto simp: frames_ok_def)
qed

text \<open>The pending frame is the newest published one.\<close>

lemma pending_published:
  assumes "frames_ok qc s" "query_ok (wq_query s)" "pending_stamp (wq_query s) = Some f"
  shows "f \<in> set (wq_published s)"
proof -
  have "qd_pending (wq_query s) \<noteq> None" using assms(3) by (auto simp: pending_stamp_def)
  then have "qd_source_frame (wq_query s) = Some f" using assms(2,3) by (simp add: query_ok_def)
  then show ?thesis using assms(1) by (cases "wq_published s") (simp_all add: frames_ok_def)
qed

text \<open>A frame that is only moved on stays where it stood in the history.\<close>

lemma history_moved:
  assumes h: "frames_ok qc s" and ok: "query_ok (wq_query s)" and live: "qd_terminal (wq_query s) = None"
    and src: "qd_source_frame (wq_query s') = qd_source_frame (wq_query s)"
    and only: "\<And>f. pending_stamp (wq_query s') = Some f \<or> flying (wq_query s') f \<Longrightarrow>
          pending_stamp (wq_query s) = Some f \<or> flying (wq_query s) f"
    and s': "wq_published s' = wq_published s" "wq_handled s' = wq_handled s"
  shows "frames_ok qc s'"
proof -
  have "f \<in> set (wq_published s)" if "flying (wq_query s') f" for f
    using only [of f] that pending_published [OF h ok, of f] h live unfolding frames_ok_def by blast
  moreover have "\<forall>x \<in> set (wq_handled s). \<forall>f. pending_stamp (wq_query s') = Some f \<or> flying (wq_query s') f \<longrightarrow>
      stamp_position (hd_stamp x) < stamp_position f"
    using only h live unfolding frames_ok_def by blast
  ultimately show ?thesis using h unfolding frames_ok_def s' src by blast
qed

lemma history_handled:
  assumes h: "frames_ok qc s" and live: "qd_terminal (wq_query s) = None"
    and f: "pending_stamp (wq_query s) = Some (hd_stamp x) \<or> flying (wq_query s) (hd_stamp x)"
    and pub: "hd_stamp x \<in> set (wq_published s)"
    and src: "qd_source_frame st = qd_source_frame (wq_query s)"
    and idle: "\<And>f. \<not> flying st f" "\<And>f. qd_terminal st = None \<Longrightarrow> pending_stamp st = Some f \<Longrightarrow>
          pending_stamp (wq_query s) = Some f \<and> stamp_position (hd_stamp x) < stamp_position f"
    and s': "wq_query s' = st" "wq_published s' = wq_published s" "wq_handled s' = x # wq_handled s"
  shows "frames_ok qc s'"
proof -
  have "stamp_position (hd_stamp y) < stamp_position (hd_stamp x)" if "y \<in> set (wq_handled s)" for y
    using h live f that unfolding frames_ok_def by blast
  moreover have "stamp_position (hd_stamp y) < stamp_position f"
    if "y \<in> set (wq_handled s)" "pending_stamp st = Some f" "qd_terminal st = None" for y f
    using h live that idle(2) unfolding frames_ok_def by blast
  ultimately show ?thesis
    using h pub idle src unfolding frames_ok_def s' by auto
qed

lemma history_loud:
  assumes l: "loud_step qc s s'" and h: "frames_ok qc s" and core: "core_ok s"
  shows "frames_ok qc s'"
  using l
proof cases
  case (l_publish frame st barrier now)
  then show ?thesis using history_publish [OF h core l_publish(2,3)] by simp
next
  case (l_claim t stamp frame st)
  then show ?thesis using core
    by (intro history_moved [OF h]) (auto simp: claim_Some pending_stamp_def core_ok_def)
next
  case (l_decide t frame mapped mapping decision live)
  then show ?thesis using h by (simp add: frames_ok_def)
next
  case (l_admitted t mapped mapping decision v now generation st)
  have ok: "query_ok (wq_query s)" using core by (simp add: core_ok_def)
  note a = admitted_effect [OF ok l_admitted(3)]
  have p: "pending_stamp st = None" using a by simp
  show ?thesis
    by (rule history_moved [OF h ok]) (use a p l_admitted(1) in auto)
next
  case (l_skipped t mapped mapping decision v now st)
  have ok: "query_ok (wq_query s)" using core by (simp add: core_ok_def)
  note a = skipped_effect [OF ok l_skipped(3)]
  have "mm_stamp mapped \<in> set (wq_published s)" using pending_published [OF h ok] a by blast
  moreover have p: "pending_stamp st = None" using a by simp
  ultimately show ?thesis using a
    by (intro history_handled [OF h, of "handled_frame mapped VerdictSkipped now" st s'])
      (use l_skipped(1) in \<open>auto simp: handled_frame_def\<close>)
next
  case (l_completed t generation mapped mapping result now e st)
  have ok: "query_ok (wq_query s)" "books (length (wq_published s) + wq_unrepresentable s) (wq_query s)"
    using core by (simp_all add: core_ok_def)
  note a = complete_section_effect [OF ok(1) l_completed(4,5) ok(2) l_completed(3)]
  have fits: "flight_fits (wq_query s) (generation, mm_stamp mapped)"
    using ok(1) l_completed(5) by (auto elim!: query_okE)
  have newer: "stamp_position (mm_stamp mapped) < stamp_position f" if "pending_stamp (wq_query s) = Some f" for f
  proof -
    have "qd_pending (wq_query s) \<noteq> None" using that by (auto simp: pending_stamp_def)
    moreover from this have "qd_source_frame (wq_query s) = Some f" using ok(1) that by (simp add: query_ok_def)
    ultimately show ?thesis using fits by (auto simp: flight_fits_def)
  qed
  have fly: "flying (wq_query s) (mm_stamp mapped)" using l_completed(5) by auto
  then have pub: "mm_stamp mapped \<in> set (wq_published s)" using h l_completed(4) unfolding frames_ok_def by blast
  show ?thesis
  proof (cases result)
    case (Inl x)
    then have "pending_stamp st = None" using a by (auto elim!: query_okE)
    with Inl show ?thesis
      by (intro history_moved [OF h ok(1) l_completed(4)]) (use a l_completed(1) in \<open>auto simp: pending_stamp_def\<close>)
  next
    case (Inr r)
    then show ?thesis
      by (intro history_handled [OF h l_completed(4), of "hd (wq_handled s')" st s'])
        (use a pub fly newer l_completed(1) in \<open>auto simp: handled_frame_def\<close>)
  qed
qed

section \<open>Admissions\<close>

definition rate_ok :: "'q query_config \<Rightarrow> ('t, 'p) watch_system \<Rightarrow> bool" where
  "rate_ok qc s \<longleftrightarrow>
     map (\<lambda>a. unat (fst a)) (wq_admissions s) = rev [1..<Suc (unat (qd_generation (wq_query s)))]
     \<and> qd_last_admitted (wq_query s) = (case wq_admissions s of [] \<Rightarrow> None | a # _ \<Rightarrow> Some (snd a))
     \<and> successively (\<lambda>a b. qc_rate qc = 0 \<or> qc_rate qc \<le> saturating_duration_since (snd a) (snd b)) (wq_admissions s)"

lemma rate_quiet: "quiet_step s s' \<Longrightarrow> rate_ok qc s \<Longrightarrow> rate_ok qc s'"
  by (auto simp: quiet_step_def kept_def rate_ok_def)

lemma rate_loud:
  assumes l: "loud_step qc s s'" and r: "rate_ok qc s" and core: "core_ok s"
  shows "rate_ok qc s'"
proof -
  have ok: "query_ok (wq_query s)" "books (length (wq_published s) + wq_unrepresentable s) (wq_query s)"
    using core by (simp_all add: core_ok_def)
  from l show ?thesis
  proof cases
    case (l_publish frame st barrier now)
    then show ?thesis using r enqueue_ok(7,8) [OF ok(1) l_publish(2,3)] by (simp add: rate_ok_def)
  next
    case l_admitted
    note a = admitted_effect [OF ok(1) l_admitted(3)]
    then show ?thesis using r l_admitted(1)
      by (cases "wq_admissions s") (auto simp: rate_ok_def)
  next
    case l_skipped
    then show ?thesis using r skipped_effect [OF ok(1) l_skipped(3)] by (simp add: rate_ok_def)
  next
    case l_completed
    then show ?thesis using r complete_section_effect [OF ok(1) l_completed(4,5) ok(2) l_completed(3)] by (simp add: rate_ok_def)
  qed (use r in \<open>auto simp: rate_ok_def claim_Some\<close>)
qed

section \<open>Stability\<close>

text \<open>The run of consecutive matches the stability state counts, newest first.\<close>

definition run_of :: "('t, 'p) watch_system \<Rightarrow> handled list" where
  "run_of s = take (wq_run s) (wq_handled s)"

definition confirmed :: "'q query_config \<Rightarrow> ('t, 'p) watch_system \<Rightarrow> 'p watch_result \<Rightarrow> bool" where
  "confirmed qc s w \<longleftrightarrow>
     wq_run s \<noteq> 0 \<and> is_stable (qc_stability qc) (qd_stability (wq_query s))
     \<and> hd_stamp (hd (run_of s)) = fr_stamp (fh_frame (wr_frame w)) \<and> rs_stamp (wr_result w) = fr_stamp (fh_frame (wr_frame w))
     \<and> \<not> result_is_empty (wr_result w)
     \<and> wr_observations w = sy_observations (qd_stability (wq_query s))
     \<and> wr_duration w = sy_duration (qd_stability (wq_query s))
     \<and> wr_template w = pt_id (qc_template qc) \<and> wr_target w = qc_target qc"

definition run_ok :: "('t, 'p) watch_system \<Rightarrow> bool" where
  "run_ok s \<longleftrightarrow>
     wq_run s \<le> length (wq_handled s) \<and> (\<forall>h \<in> set (run_of s). hd_verdict h = VerdictMatched)
     \<and> unat (sy_observations (qd_stability (wq_query s))) = min (wq_run s) (2 ^ 32 - 1)
     \<and> (if wq_run s = 0 then qd_stability (wq_query s) = stability_none
        else sy_started (qd_stability (wq_query s)) = Some (hd_at (last (run_of s)))
          \<and> sy_duration (qd_stability (wq_query s)) =
              saturating_duration_since (hd_at (hd (run_of s))) (hd_at (last (run_of s))))
     \<and> (\<forall>h \<in> set (run_of s). \<exists>src. qd_source_frame (wq_query s) = Some src
          \<and> fs_epoch (hd_stamp h) = fs_epoch src \<and> fs_geometry (hd_stamp h) = fs_geometry src)"

definition stable_ok :: "'q query_config \<Rightarrow> ('t, 'p) watch_system \<Rightarrow> bool" where
  "stable_ok qc s \<longleftrightarrow> run_ok s \<and> (\<forall>w. qd_terminal (wq_query s) = Some (OutMatched w) \<longrightarrow> confirmed qc s w)"

lemma stable_keep:
  assumes "stable_ok qc s" "wq_run s' = wq_run s" "run_of s' = run_of s" "wq_run s \<noteq> 0 \<longrightarrow> wq_handled s' = wq_handled s"
    "qd_stability (wq_query s') = qd_stability (wq_query s)" "qd_source_frame (wq_query s') = qd_source_frame (wq_query s)"
    "\<And>w. qd_terminal (wq_query s') = Some (OutMatched w) \<Longrightarrow> qd_terminal (wq_query s) = Some (OutMatched w)"
  shows "stable_ok qc s'"
proof -
  have "confirmed qc s' w = confirmed qc s w" for w unfolding confirmed_def assms(2,3,5) by (rule refl)
  moreover have "wq_run s \<le> length (wq_handled s) \<Longrightarrow> wq_run s \<le> length (wq_handled s')" using assms(4) by fastforce
  then have "run_ok s'" using assms(1) unfolding stable_ok_def run_ok_def assms(2,3,5,6) by blast
  ultimately show ?thesis using assms(1,7) unfolding stable_ok_def by blast
qed

lemma stable_reset:
  assumes "wq_run s = 0" "qd_stability (wq_query s) = stability_none" "\<not> (\<exists>w. qd_terminal (wq_query s) = Some (OutMatched w))"
  shows "stable_ok qc s"
  using assms by (simp add: stable_ok_def run_ok_def run_of_def stability_none_def)

lemma stable_quiet:
  assumes "quiet_step s s'" "stable_ok qc s"
  shows "stable_ok qc s'"
proof (rule stable_keep [OF assms(2)])
  have "kept (wq_query s) (wq_query s')" using assms(1) by (simp add: quiet_step_def)
  then show "qd_terminal (wq_query s) = Some (OutMatched w)" if "qd_terminal (wq_query s') = Some (OutMatched w)" for w
    using that unfolding kept_def by (metis is_match.simps(1) option.exhaust)
qed (use assms(1) in \<open>auto simp: quiet_step_def kept_def run_of_def\<close>)

lemma observe_match_sel [simp]:
  "sy_observations (observe_match now sy) = saturating_add (sy_observations sy) 1"
  "sy_started (observe_match now sy) = Some (case sy_started sy of None \<Rightarrow> now | Some s \<Rightarrow> s)"
  "sy_duration (observe_match now sy) =
     saturating_duration_since now (case sy_started sy of None \<Rightarrow> now | Some s \<Rightarrow> s)"
  by (simp_all add: observe_match_def Let_def)

text \<open>A match prolongs the run by one.\<close>

lemma stable_matched:
  assumes s: "stable_ok qc s" and live: "qd_terminal (wq_query s) = None"
    and s': "wq_run s' = Suc (wq_run s)" "wq_handled s' = x # wq_handled s" "wq_query s' = st"
    and x: "hd_verdict x = VerdictMatched" "hd_at x = now"
    and st: "qd_stability st = observe_match now (qd_stability (wq_query s))"
      "qd_source_frame st = qd_source_frame (wq_query s)"
    and src: "\<exists>src. qd_source_frame (wq_query s) = Some src \<and> fs_epoch (hd_stamp x) = fs_epoch src
      \<and> fs_geometry (hd_stamp x) = fs_geometry src"
    and t: "qd_terminal st = None \<or> is_stable (qc_stability qc) (qd_stability st)
      \<and> qd_terminal st = Some (OutMatched (watch_result_of qc mapped r (qd_stability st)))"
    and m: "mm_stamp mapped = hd_stamp x" "rs_stamp r = mm_stamp mapped" "\<not> result_is_empty r"
  shows "stable_ok qc s'"
proof -
  let ?sy = "qd_stability (wq_query s)"
  have run: "run_of s' = x # run_of s" by (simp add: run_of_def s')
  have r: "run_ok s" using s by (simp add: stable_ok_def)
  have "unat (sy_observations ?sy) = min (wq_run s) (2 ^ 32 - 1)" using r by (simp add: run_ok_def)
  then have obs: "unat (sy_observations (qd_stability st)) = min (Suc (wq_run s)) (2 ^ 32 - 1)"
    unfolding st by (simp add: unat_saturating_add)
  have started: "sy_started (qd_stability st) = Some (hd_at (last (x # run_of s)))
     \<and> sy_duration (qd_stability st) = saturating_duration_since now (hd_at (last (x # run_of s)))"
  proof (cases "wq_run s = 0")
    case True
    then have "?sy = stability_none" "run_of s = []" using r by (simp_all add: run_ok_def run_of_def)
    then show ?thesis using x by (simp add: st stability_none_def)
  next
    case False
    then have "run_of s \<noteq> []" "sy_started ?sy = Some (hd_at (last (run_of s)))"
      using r by (auto simp: run_of_def run_ok_def)
    then show ?thesis by (simp add: st)
  qed
  have "run_ok s'"
    using r obs started x src st(2) unfolding run_ok_def s' run by simp
  moreover have "confirmed qc s' w" if "qd_terminal st = Some (OutMatched w)" for w
    using t that m unfolding confirmed_def s' run by (auto simp: watch_result_of_def)
  ultimately show ?thesis unfolding stable_ok_def s' by blast
qed

lemma stable_publish:
  assumes s: "stable_ok qc s" and core: "core_ok s"
    and acc: "accepts (qc_stream qc) (fr_stamp (fh_frame frame)) (wq_query s)"
    and st: "st = enqueue (qc_stream qc) rate barrier frame now (wq_query s)"
  defines "stamp \<equiv> fr_stamp (fh_frame frame)"
  defines "s' \<equiv> s\<lparr>wq_query := st, wq_published := stamp # wq_published s,
    wq_run := (if incompatible_with (qd_source_frame (wq_query s)) stamp then 0 else wq_run s)\<rparr>"
  shows "stable_ok qc s'"
proof -
  have ok: "query_ok (wq_query s)" using core by (simp add: core_ok_def)
  note e = enqueue_ok [OF ok acc st, folded stamp_def]
  have live: "qd_terminal st = None" by (rule e(3))
  show ?thesis
  proof (cases "incompatible_with (qd_source_frame (wq_query s)) stamp")
    case True
    then show ?thesis using e(12) live by (intro stable_reset) (simp_all add: s'_def)
  next
    case False
    then have run: "run_of s' = run_of s" by (simp add: run_of_def s'_def)
    have r: "run_ok s" using s by (simp add: stable_ok_def)
    have "fs_epoch (hd_stamp h) = fs_epoch stamp \<and> fs_geometry (hd_stamp h) = fs_geometry stamp"
      if "h \<in> set (run_of s)" for h
      using r that False by (auto simp: run_ok_def incompatible_with_def)
    then have "run_ok s'"
      using r False e(5,12) unfolding run_ok_def run by (simp add: s'_def)
    then show ?thesis using live by (simp add: stable_ok_def s'_def)
  qed
qed

lemma stable_loud:
  assumes l: "loud_step qc s s'" and s: "stable_ok qc s" and core: "core_ok s" and pcs: "\<forall>t. pc_ok (wq_pc s t)"
  shows "stable_ok qc s'"
  using l
proof cases
  case (l_publish frame st barrier now)
  then show ?thesis using stable_publish [OF s core l_publish(2,3)] by simp
next
  case (l_claim t stamp frame st)
  then show ?thesis by (intro stable_keep [OF s]) (auto simp: claim_Some run_of_def)
next
  case (l_decide t frame mapped mapping decision live)
  then show ?thesis by (intro stable_keep [OF s]) (auto simp: run_of_def)
next
  case (l_admitted t mapped mapping decision v now generation st)
  have ok: "query_ok (wq_query s)" using core by (simp add: core_ok_def)
  show ?thesis
    by (intro stable_keep [OF s]) (use admitted_effect [OF ok l_admitted(3)] l_admitted(1) in \<open>auto simp: run_of_def\<close>)
next
  case (l_skipped t mapped mapping decision v now st)
  have ok: "query_ok (wq_query s)" using core by (simp add: core_ok_def)
  note k = skipped_effect [OF ok l_skipped(3)]
  have "unat (sy_observations (qd_stability (wq_query s))) = min (wq_run s) (2 ^ 32 - 1)"
    using s by (simp add: stable_ok_def run_ok_def)
  then have "wq_run s = 0" using k by simp
  moreover from this have "qd_stability (wq_query s) = stability_none" using s by (simp add: stable_ok_def run_ok_def)
  ultimately show ?thesis using k l_skipped(1) by (intro stable_reset) simp_all
next
  case (l_completed t generation mapped mapping result now e st)
  have ok: "query_ok (wq_query s)" "books (length (wq_published s) + wq_unrepresentable s) (wq_query s)"
    using core by (simp_all add: core_ok_def)
  note a = complete_section_effect [OF ok(1) l_completed(4,5) ok(2) l_completed(3)]
  show ?thesis
  proof (cases result)
    case (Inl x)
    then show ?thesis by (intro stable_keep [OF s]) (use a l_completed(1) in \<open>auto simp: run_of_def\<close>)
  next
    case (Inr r)
    show ?thesis
    proof (cases "result_is_empty r")
      case True
      then show ?thesis using a Inr l_completed(1) by (intro stable_reset) auto
    next
      case False
      have "flight_fits (wq_query s) (generation, mm_stamp mapped)" using ok(1) l_completed(5) by (auto elim!: query_okE)
      moreover have "rs_stamp r = mm_stamp mapped" using pcs l_completed(2) Inr by (metis pc_ok.simps(3))
      ultimately show ?thesis
        using a Inr False l_completed(1,4)
        by (intro stable_matched [OF s l_completed(4), of s' "handled_frame mapped VerdictMatched now" st now mapped r])
          (auto simp: handled_frame_def flight_fits_def)
    qed
  qed
qed

section \<open>Skipped frames\<close>

text \<open>A skipped frame was found unchanged against the frame handled before it, which was no match.\<close>

definition unchanged_since :: "change_policy \<Rightarrow> handled \<Rightarrow> handled \<Rightarrow> bool" where
  "unchanged_since policy g h \<longleftrightarrow> hd_verdict g \<noteq> VerdictMatched
     \<and> (\<exists>p q. hd_pixels g = Some p \<and> hd_pixels h = Some q \<and> compare_mappings policy p q = Unchanged)"

fun justified :: "change_policy \<Rightarrow> handled list \<Rightarrow> bool" where
  "justified policy [] = True"
| "justified policy (h # rest) = (justified policy rest \<and> (hd_verdict h = VerdictSkipped \<longrightarrow>
     (case rest of [] \<Rightarrow> False | g # _ \<Rightarrow> unchanged_since policy g h)))"

text \<open>What the last handled frame looked like is what \<open>previous\<close> remembers.\<close>

definition remembered :: "('t, 'p) watch_system \<Rightarrow> bool" where
  "remembered s \<longleftrightarrow> (\<forall>p. qd_previous (wq_query s) = Some p \<longrightarrow>
     (\<exists>h rest q. wq_handled s = h # rest \<and> hd_pixels h = Some q \<and> same_view p q
        \<and> (sy_observations (qd_stability (wq_query s)) = 0 \<longrightarrow> hd_verdict h \<noteq> VerdictMatched)))"

definition skip_ok :: "'q query_config \<Rightarrow> ('t, 'p) watch_system \<Rightarrow> bool" where
  "skip_ok qc s \<longleftrightarrow> justified (qc_policy qc) (wq_handled s)
     \<and> (\<forall>h \<in> set (wq_handled s). \<forall>p. hd_pixels h = Some p \<longrightarrow> valid_descriptor (mp_descriptor p))
     \<and> (\<forall>t f. holder (wq_pc s t) = Some f \<longrightarrow> f \<in> set (wq_published s))
     \<and> (qd_terminal (wq_query s) = None \<longrightarrow> remembered s
         \<and> (\<forall>t mapped mapping. wq_pc s t = WMapped mapped mapping Unchanged
              \<and> pending_stamp (wq_query s) = Some (mm_stamp mapped) \<longrightarrow>
              (\<exists>p q. qd_previous (wq_query s) = Some p \<and> mm_pixels mapped = Some q
                 \<and> compare_mappings (qc_policy qc) p q = Unchanged)))"

lemma skip_okI:
  assumes "justified (qc_policy qc) (wq_handled s)"
    and "\<And>h p. h \<in> set (wq_handled s) \<Longrightarrow> hd_pixels h = Some p \<Longrightarrow> valid_descriptor (mp_descriptor p)"
    and "\<And>t f. holder (wq_pc s t) = Some f \<Longrightarrow> f \<in> set (wq_published s)"
    and "qd_terminal (wq_query s) = None \<Longrightarrow> remembered s"
    and "\<And>t mapped mapping. qd_terminal (wq_query s) = None \<Longrightarrow> wq_pc s t = WMapped mapped mapping Unchanged \<Longrightarrow>
      pending_stamp (wq_query s) = Some (mm_stamp mapped) \<Longrightarrow>
      \<exists>p q. qd_previous (wq_query s) = Some p \<and> mm_pixels mapped = Some q
         \<and> compare_mappings (qc_policy qc) p q = Unchanged"
  shows "skip_ok qc s"
  using assms unfolding skip_ok_def by blast

lemma skip_okD:
  assumes "skip_ok qc s"
  shows "justified (qc_policy qc) (wq_handled s)"
    and "h \<in> set (wq_handled s) \<Longrightarrow> hd_pixels h = Some p \<Longrightarrow> valid_descriptor (mp_descriptor p)"
    and "holder (wq_pc s t) = Some f \<Longrightarrow> f \<in> set (wq_published s)"
    and "qd_terminal (wq_query s) = None \<Longrightarrow> remembered s"
    and "qd_terminal (wq_query s) = None \<Longrightarrow> wq_pc s t = WMapped mapped mapping Unchanged \<Longrightarrow>
      pending_stamp (wq_query s) = Some (mm_stamp mapped) \<Longrightarrow>
      \<exists>p q. qd_previous (wq_query s) = Some p \<and> mm_pixels mapped = Some q
         \<and> compare_mappings (qc_policy qc) p q = Unchanged"
  using assms unfolding skip_ok_def by blast+

lemma compare_same_view:
  assumes "same_view p p'"
  shows "compare_mappings policy p q = compare_mappings policy p' q"
proof -
  have same: "mp_stamp p = mp_stamp p'" "mp_transform p = mp_transform p'" "mp_region p = mp_region p'"
    "mp_descriptor p = mp_descriptor p'" "mapping_bytes p = mapping_bytes p'"
    using assms by (simp_all add: same_view_def)
  show ?thesis unfolding compare_mappings_def mappings_are_compatible_def same by (rule refl)
qed

lemma skip_quiet:
  assumes q: "quiet_step s s'" and k: "skip_ok qc s"
  shows "skip_ok qc s'"
proof -
  have same: "wq_handled s' = wq_handled s" "wq_published s' = wq_published s" and kept: "kept (wq_query s) (wq_query s')"
    using q by (simp_all add: quiet_step_def)
  have pc: "holder (wq_pc s' t) = None \<or> wq_pc s' t = wq_pc s t" for t
    using q unfolding quiet_step_def by metis
  have "f \<in> set (wq_published s)" if "holder (wq_pc s' t) = Some f" for t f
    using k pc [of t] that unfolding skip_ok_def by auto
  moreover have "remembered s' \<and> (\<forall>t mapped mapping. wq_pc s' t = WMapped mapped mapping Unchanged
        \<and> pending_stamp (wq_query s') = Some (mm_stamp mapped) \<longrightarrow>
      (\<exists>p q. qd_previous (wq_query s') = Some p \<and> mm_pixels mapped = Some q
         \<and> compare_mappings (qc_policy qc) p q = Unchanged))" if live': "qd_terminal (wq_query s') = None"
  proof -
    have live: "qd_terminal (wq_query s) = None" and query: "pending_stamp (wq_query s') = pending_stamp (wq_query s)"
      "qd_previous (wq_query s') = qd_previous (wq_query s)" "qd_stability (wq_query s') = qd_stability (wq_query s)"
      using kept live' by (auto simp: kept_def)
    have "remembered s'" using k live unfolding skip_ok_def remembered_def same query by blast
    moreover have "wq_pc s t = WMapped mapped mapping Unchanged" if "wq_pc s' t = WMapped mapped mapping Unchanged"
      for t mapped mapping using pc [of t] that by auto
    ultimately show ?thesis using k live unfolding skip_ok_def query by blast
  qed
  ultimately show ?thesis using k unfolding skip_ok_def same by blast
qed

text \<open>Once nobody holds a claim, nothing is asked about the mapped frames.\<close>

lemma skip_free:
  assumes "justified (qc_policy qc) (wq_handled s)"
    and "\<And>h p. h \<in> set (wq_handled s) \<Longrightarrow> hd_pixels h = Some p \<Longrightarrow> valid_descriptor (mp_descriptor p)"
    and "\<And>t. qd_terminal (wq_query s) = None \<Longrightarrow> holder (wq_pc s t) = None"
    and "\<And>t f. holder (wq_pc s t) = Some f \<Longrightarrow> f \<in> set (wq_published s)"
    and "qd_terminal (wq_query s) = None \<Longrightarrow> remembered s"
  shows "skip_ok qc s"
proof -
  have "wq_pc s t \<noteq> WMapped mapped mapping Unchanged" if "qd_terminal (wq_query s) = None" for t mapped mapping
    using assms(3) [OF that, of t] by auto
  then show ?thesis using assms unfolding skip_ok_def by blast
qed

lemma remembered_handled:
  assumes "wq_handled s = handled_frame mapped v now # rest" "qd_previous (wq_query s) = mapping" "remembers mapping mapped"
    and "sy_observations (qd_stability (wq_query s)) = 0 \<Longrightarrow> v \<noteq> VerdictMatched"
  shows "remembered s"
  using assms by (auto simp: remembered_def remembers_def handled_frame_def)

lemma observed_once: "sy_observations (observe_match now sy) \<noteq> 0"
proof -
  have "unat (sy_observations (observe_match now sy)) \<noteq> 0" by (simp add: unat_saturating_add)
  then show ?thesis by (metis unat_0)
qed

text \<open>Skipping is justified: the previous mapping shows what the last handled frame showed.\<close>

lemma skip_justified:
  assumes "remembered s" "qd_previous (wq_query s) = Some p" "mm_pixels mapped = Some q"
    "compare_mappings policy p q = Unchanged" "sy_observations (qd_stability (wq_query s)) = 0"
  shows "\<exists>g rest. wq_handled s = g # rest \<and> unchanged_since policy g (handled_frame mapped v now)"
proof -
  obtain g rest r where g: "wq_handled s = g # rest" "hd_pixels g = Some r" "same_view p r" "hd_verdict g \<noteq> VerdictMatched"
    using assms(1,2,5) unfolding remembered_def by blast
  then have "compare_mappings policy r q = Unchanged" using assms(4) compare_same_view by metis
  then show ?thesis using g assms(3) by (auto simp: unchanged_since_def handled_frame_def)
qed

lemma skip_publish:
  assumes k: "skip_ok qc s" and h: "frames_ok qc s" and core: "core_ok s"
    and acc: "accepts (qc_stream qc) (fr_stamp (fh_frame frame)) (wq_query s)"
    and st: "st = enqueue (qc_stream qc) rate barrier frame now (wq_query s)"
  defines "stamp \<equiv> fr_stamp (fh_frame frame)"
  shows "skip_ok qc (s\<lparr>wq_query := st, wq_published := stamp # wq_published s, wq_run := n\<rparr>)" (is "skip_ok qc ?s'")
proof -
  have ok: "query_ok (wq_query s)" using core by (simp add: core_ok_def)
  note e = enqueue_ok [OF ok acc st, folded stamp_def]
  have live: "qd_terminal (wq_query s) = None" "fs_stream stamp = qc_stream qc"
    "\<not> not_newer (qd_source_frame (wq_query s)) stamp" using acc by (simp_all add: accepts_def stamp_def)
  have other: "stamp \<noteq> f" if "holder (wq_pc s t) = Some f" for t f
  proof
    assume "stamp = f"
    then have "stamp \<in> set (wq_published s)" using skip_okD(3) [OF k that] by simp
    then have "stamp_order stamp stamp = Inr Before" by (rule published_bound [OF h _ live(2,3)])
    then show False by (simp add: stamp_order_Before_iff)
  qed
  have mapped: "stamp \<noteq> mm_stamp m" if "wq_pc s t = WMapped m mp d" for t m mp d
    using other [of t "mm_stamp m"] that by simp
  have "remembered ?s'"
    using skip_okD(4) [OF k live(1)] e(11,12) by (auto simp: remembered_def split: if_splits)
  then show ?thesis
    by (intro skip_okI) (use skip_okD(1-3) [OF k] e(4) mapped in auto)
qed

lemma skip_handled:
  assumes k: "skip_ok qc s" and d: "described mapped"
    and s': "wq_handled s' = handled_frame mapped v now # wq_handled s" "wq_published s' = wq_published s"
      "wq_pc s' = (wq_pc s)(t := WIdle)"
    and alone: "\<And>u. qd_terminal (wq_query s') = None \<Longrightarrow> u \<noteq> t \<Longrightarrow> holder (wq_pc s u) = None"
    and r: "qd_terminal (wq_query s') = None \<Longrightarrow> remembered s'"
    and v: "v = VerdictSkipped \<Longrightarrow>
      \<exists>g rest. wq_handled s = g # rest \<and> unchanged_since (qc_policy qc) g (handled_frame mapped v now)"
  shows "skip_ok qc s'"
proof (rule skip_free)
  show "justified (qc_policy qc) (wq_handled s')"
    using k v by (auto simp: s' skip_ok_def handled_frame_def)
  show "valid_descriptor (mp_descriptor p)" if "h \<in> set (wq_handled s')" "hd_pixels h = Some p" for h p
    using that k d by (auto simp: s' skip_ok_def described_def handled_frame_def)
  show "holder (wq_pc s' u) = None" if "qd_terminal (wq_query s') = None" for u
    using alone [OF that, of u] by (simp add: s')
  show "f \<in> set (wq_published s')" if "holder (wq_pc s' u) = Some f" for u f
    using that k by (auto simp: s' skip_ok_def split: if_splits)
qed (rule r)

lemma skip_loud:
  assumes l: "loud_step qc s s'" and k: "skip_ok qc s" and core: "core_ok s" and pcs: "\<forall>t. pc_ok (wq_pc s t)"
    and h: "frames_ok qc s" and c: "claims_ok s"
  shows "skip_ok qc s'"
proof -
  have ok: "query_ok (wq_query s)" "books (length (wq_published s) + wq_unrepresentable s) (wq_query s)"
    using core by (simp_all add: core_ok_def)
  from l show ?thesis
  proof cases
    case (l_publish frame st barrier now)
    then show ?thesis using skip_publish [OF k h core l_publish(2,3)] by simp
  next
    case (l_claim t stamp frame st)
    then have st: "qd_terminal (wq_query s) = None" "qd_processing (wq_query s) = None"
      "pending_stamp (wq_query s) = Some (fr_stamp (fh_frame frame))" "st = (wq_query s)\<lparr>qd_processing := Some stamp\<rparr>"
      by (auto simp: claim_Some pending_stamp_def)
    have pub: "fr_stamp (fh_frame frame) \<in> set (wq_published s)" by (rule pending_published [OF h ok(1) st(3)])
    have rem: "remembered s" using k st(1) by (simp add: skip_ok_def)
    have "wq_pc s' u \<noteq> WMapped mapped mapping Unchanged" for u mapped mapping
      using no_holder [OF c st(1,2), of u] l_claim(1) by auto
    moreover have "remembered s'" using rem l_claim(1) st(4) by (simp add: remembered_def)
    ultimately show ?thesis
      by (intro skip_okI) (use skip_okD(1-3) [OF k] pub l_claim(1) in \<open>auto split: if_splits\<close>)
  next
    case (l_decide t frame mapped mapping decision live)
    have "\<exists>p q. qd_previous (wq_query s) = Some p \<and> mm_pixels mapped = Some q
        \<and> compare_mappings (qc_policy qc) p q = Unchanged" if "decision = Unchanged"
      using l_decide(6) that by (auto simp: mapping_decision_def split: if_splits option.splits)
    moreover have "mm_stamp mapped \<in> set (wq_published s)"
      using k l_decide(2,3) unfolding skip_ok_def by (metis holder.simps(1))
    moreover have "remembered s'" if "qd_terminal (wq_query s) = None"
      using skip_okD(4) [OF k that] l_decide(1) by (simp add: remembered_def)
    ultimately show ?thesis
      by (intro skip_okI) (use skip_okD [OF k] l_decide(1) in \<open>auto split: if_splits\<close>)
  next
    case (l_admitted t mapped mapping decision v now generation st)
    note a = admitted_effect [OF ok(1) l_admitted(3)]
    have rem: "remembered s" using k a by (simp add: skip_ok_def)
    show ?thesis
    proof (rule skip_free)
      show "holder (wq_pc s' u) = None" for u
        using only_holder [OF c, of t u] a l_admitted(1,2) by (cases "u = t") auto
      show "remembered s'" using rem a l_admitted(1) by (simp add: remembered_def)
      show "f \<in> set (wq_published s')" if "holder (wq_pc s' u) = Some f" for u f
        using that k l_admitted(1) by (auto simp: skip_ok_def split: if_splits)
    qed (use k l_admitted(1) in \<open>auto simp: skip_ok_def\<close>)
  next
    case (l_skipped t mapped mapping decision v now st)
    note a = skipped_effect [OF ok(1) l_skipped(3)]
    have pc: "remembers mapping mapped \<and> described mapped" using pcs l_skipped(2) by (metis pc_ok.simps(1))
    have was: "qd_terminal (wq_query s) = None" "pending_stamp (wq_query s) = Some (mm_stamp mapped)"
      "decision = Unchanged" "sy_observations (qd_stability (wq_query s)) = 0" using a by simp_all
    have "\<exists>p q. qd_previous (wq_query s) = Some p \<and> mm_pixels mapped = Some q
        \<and> compare_mappings (qc_policy qc) p q = Unchanged"
      using l_skipped(2) by (intro skip_okD(5) [OF k was(1) _ was(2)]) (simp add: was(3))
    then have "\<exists>g rest. wq_handled s = g # rest
        \<and> unchanged_since (qc_policy qc) g (handled_frame mapped VerdictSkipped now)"
      using skip_justified [OF skip_okD(4) [OF k was(1)]] was(4) by blast
    moreover have "remembered s'"
      by (rule remembered_handled [of _ mapped VerdictSkipped now]) (use a pc l_skipped(1) in auto)
    ultimately show ?thesis
      by (intro skip_handled [OF k, of mapped s' VerdictSkipped now t])
        (use pc only_holder [OF c, of t] a l_skipped(1,2) in auto)
  next
    case (l_completed t generation mapped mapping result now e st)
    note a = complete_section_effect [OF ok(1) l_completed(4,5) ok(2) l_completed(3)]
    have pc: "remembers mapping mapped \<and> described mapped" using pcs l_completed(2) by (metis pc_ok.simps(3))
    have "qd_processing (wq_query s) = None" using ok(1) l_completed(4,5) by (auto elim!: query_okE)
    then have free: "holder (wq_pc s u) = None" for u by (rule no_holder [OF c l_completed(4)])
    show ?thesis
    proof (cases result)
      case (Inl x)
      then show ?thesis using k a free l_completed(1) by (intro skip_free) (auto simp: skip_ok_def split: if_splits)
    next
      case (Inr r)
      let ?v = "if result_is_empty r then VerdictEmpty else VerdictMatched"
      have "remembered s'"
        by (rule remembered_handled [of _ mapped ?v now "wq_handled s" mapping])
          (use a pc l_completed(1) Inr observed_once in \<open>auto split: if_splits\<close>)
      then show ?thesis
        by (intro skip_handled [OF k, of mapped s' ?v now t]) (use pc free l_completed(1) Inr in \<open>auto split: if_splits\<close>)
    qed
  qed
qed

section \<open>Every reachable state\<close>

definition watch_ok :: "'q query_config \<Rightarrow> ('t, 'p) watch_system \<Rightarrow> bool" where
  "watch_ok qc s \<longleftrightarrow> core_ok s \<and> (\<forall>t. pc_ok (wq_pc s t)) \<and> claims_ok s \<and> frames_ok qc s \<and> rate_ok qc s
     \<and> stable_ok qc s \<and> skip_ok qc s"

lemma watch_okD:
  assumes "watch_ok qc s"
  shows "core_ok s" "\<forall>t. pc_ok (wq_pc s t)" "claims_ok s" "frames_ok qc s" "rate_ok qc s" "stable_ok qc s" "skip_ok qc s"
  using assms by (simp_all add: watch_ok_def)

lemma watch_ok_new: "watch_ok qc watch_new"
proof -
  have "core_ok (watch_new :: ('t, 'p) watch_system)"
    using query_ok_new books_new by (simp add: core_ok_def watch_new_def)
  then show ?thesis
    by (simp add: watch_ok_def claims_ok_def frames_ok_def rate_ok_def stable_ok_def run_ok_def skip_ok_def remembered_def
        watch_new_def query_new_def run_of_def stability_none_def max_in_flight_def pending_stamp_def numeral_2_eq_2)
qed

lemma watch_ok_step:
  assumes w: "watch_ok qc s" and step: "watch_step qc s s'"
  shows "watch_ok qc s'"
proof -
  note o = watch_okD [OF w]
  have "core_ok s'" by (rule core_step [OF step o(1)])
  moreover have "\<forall>t. pc_ok (wq_pc s' t)" using pcs_step [OF step _ o(2)] o(1) by (simp add: core_ok_def)
  moreover have "claims_ok s' \<and> frames_ok qc s' \<and> rate_ok qc s' \<and> stable_ok qc s' \<and> skip_ok qc s'"
    using loud_or_quiet [OF step o(1,2)]
  proof
    assume q: "quiet_step s s'"
    show ?thesis
      using claims_quiet [OF q o(3)] history_quiet [OF q o(4)] rate_quiet [OF q o(5)] stable_quiet [OF q o(6)]
        skip_quiet [OF q o(7)] by blast
  next
    assume l: "loud_step qc s s'"
    show ?thesis
      using claims_loud [OF l o(3,1)] history_loud [OF l o(4,1)] rate_loud [OF l o(5,1)]
        stable_loud [OF l o(6,1,2)] skip_loud [OF l o(7,1,2,4,3)] by blast
  qed
  ultimately show ?thesis by (simp add: watch_ok_def)
qed

interpretation watch_inv: invariant_machine "watch_step qc" watch_new "watch_ok qc" for qc
  by unfold_locales (auto intro: watch_ok_new watch_ok_step)

lemma watch_invariant: "watch_reachable qc s \<Longrightarrow> watch_ok qc s"
  unfolding watch_reachable_def by (rule watch_inv.inv_reachable)

lemma watch_reachable_step: "watch_reachable qc s \<Longrightarrow> watch_step qc s s' \<Longrightarrow> watch_reachable qc s'"
  unfolding watch_reachable_def by (rule rtranclp.rtrancl_into_rtrancl)

end
