(* ===== verification/WatchProperties.thy ===== *)
theory WatchProperties
  imports WatchSafety
begin

text \<open>
  The properties of a watch query, over every reachable state of theory \<open>WatchSystem\<close>, and a run of one worker
  that skips a frame and reports a match, at which they are shown to apply.
\<close>

section \<open>The run of a query that has ended\<close>

text \<open>What a finished query has to show: everything but the workers' own positions.\<close>

definition final_view :: "('t, 'p) watch_system \<Rightarrow> 'p terminal_outcome option \<times> frame_stamp list \<times> (u64 \<times> instant) list \<times> handled list" where
  "final_view s = (qd_terminal (wq_query s), wq_published s, wq_admissions s, wq_handled s)"

definition ended_view ::
    "('t, 'p) watch_system \<Rightarrow> ('p terminal_outcome option \<times> frame_stamp list \<times> (u64 \<times> instant) list \<times> handled list) option" where
  "ended_view s = (if qd_terminal (wq_query s) = None then None else Some (final_view s))"

lemma ended_step:
  assumes w: "watch_ok qc s" and step: "watch_step qc s s'" and e: "qd_terminal (wq_query s) \<noteq> None"
  shows "final_view s' = final_view s"
  using loud_or_quiet [OF step watch_okD(1,2) [OF w]]
proof
  assume "quiet_step s s'"
  then show ?thesis using e by (simp add: quiet_step_def kept_def final_view_def)
next
  have ok: "query_ok (wq_query s)" using watch_okD(1) [OF w] by (simp add: core_ok_def)
  assume "loud_step qc s s'"
  then show ?thesis
  proof cases
    case l_decide
    then show ?thesis by (simp add: final_view_def)
  qed (use e ok admitted_effect [OF ok] skipped_effect [OF ok] in \<open>auto simp: accepts_def claim_Some\<close>)
qed

text \<open>A run from a reachable state, as events that the latching machine of theory \<open>Prelude\<close> takes.\<close>

definition watch_event :: "'q query_config \<Rightarrow> ('t, 'p) watch_system \<Rightarrow> ('t, 'p) watch_system \<Rightarrow> ('t, 'p) watch_system" where
  "watch_event qc s' s = (if watch_ok qc s \<and> watch_step qc s s' then s' else s)"

interpretation wq: latching_machine "watch_event qc" ended_view
proof
  fix s :: "('t, 'p) watch_system" and t x
  assume "ended_view s = Some t"
  then show "ended_view (watch_event qc x s) = Some t"
    using ended_step [of qc s x] by (auto simp: ended_view_def watch_event_def final_view_def split: if_splits)
qed

lemma watch_event_step: "watch_ok qc s \<Longrightarrow> watch_step qc s s' \<Longrightarrow> watch_event qc s' s = s'"
  by (simp add: watch_event_def)

lemma watch_run_events:
  assumes "(watch_step qc)\<^sup>*\<^sup>* s s'" "watch_ok qc s"
  shows "\<exists>es. fold (watch_event qc) es s = s' \<and> watch_ok qc s'"
  using assms(1)
proof (induction rule: rtranclp_induct)
  case base
  then show ?case using assms(2) by (intro exI [of _ "[]"]) simp
next
  case (step y z)
  then obtain es where "fold (watch_event qc) es s = y" "watch_ok qc y" by blast
  then show ?case using watch_event_step [OF _ step.hyps(2)] watch_ok_step [OF _ step.hyps(2)]
    by (intro exI [of _ "es @ [z]"]) simp
qed

text \<open>
  C13: the first outcome of a watch query is its only one: once it ended, no later step of any thread changes the
  outcome, takes a frame in, admits an analysis or handles a frame, and the query owes nothing.
\<close>
theorem watch_outcome_final:
  assumes "watch_reachable qc s" and "(watch_step qc)\<^sup>*\<^sup>* s s'" and "qd_terminal (wq_query s) = Some outcome"
  shows "qd_terminal (wq_query s') = Some outcome \<and> wq_published s' = wq_published s \<and> wq_admissions s' = wq_admissions s
    \<and> wq_handled s' = wq_handled s \<and> outstanding (wq_query s') = 0"
proof -
  note w = watch_invariant [OF assms(1)]
  obtain es where es: "fold (watch_event qc) es s = s'" and w': "watch_ok qc s'"
    using watch_run_events [OF assms(2) w] by blast
  have "ended_view s = Some (final_view s)" using assms(3) by (simp add: ended_view_def)
  from wq.latched_run [OF this, of qc es] have v: "ended_view s' = Some (final_view s)" unfolding es .
  then have "qd_terminal (wq_query s') \<noteq> None" by (auto simp: ended_view_def split: if_splits)
  moreover from this have "outstanding (wq_query s') = 0"
    using watch_okD(1) [OF w'] by (auto simp: core_ok_def elim!: query_okE)
  ultimately show ?thesis using v assms(3) by (auto simp: ended_view_def final_view_def split: if_splits)
qed

section \<open>Frames\<close>

text \<open>
  C9: under every interleaving a watch query accounts for every frame it accepted: as long as the 64-bit counters
  cannot saturate, the frames superseded, skipped, expired, completed and failed and those still pending or in
  flight are together the accepted ones (a frame whose rate interval was unrepresentable counts twice), frames
  are accepted in strictly increasing order, and the pending one is the newest.
\<close>
theorem watch_frames_accounted:
  assumes "watch_reachable qc s"
  shows "(length (wq_published s) + wq_unrepresentable s < 2 ^ 64 \<longrightarrow>
       settled_frames (qd_work (wq_query s)) + outstanding (wq_query s) = length (wq_published s) + wq_unrepresentable s)
    \<and> sorted_wrt (\<lambda>a b. stamp_order b a = Inr Before) (wq_published s)
    \<and> (qd_pending (wq_query s) \<noteq> None \<longrightarrow> pending_stamp (wq_query s) = Some (hd (wq_published s)))"
proof (intro conjI impI)
  note w = watch_okD [OF watch_invariant [OF assms]]
  show "length (wq_published s) + wq_unrepresentable s < 2 ^ 64 \<Longrightarrow>
      settled_frames (qd_work (wq_query s)) + outstanding (wq_query s) = length (wq_published s) + wq_unrepresentable s"
    using w(1) by (simp add: core_ok_def balanced_def)
  show "sorted_wrt (\<lambda>a b. stamp_order b a = Inr Before) (wq_published s)" using w(4) by (simp add: frames_ok_def)
  assume p: "qd_pending (wq_query s) \<noteq> None"
  then obtain f where f: "pending_stamp (wq_query s) = Some f" by (cases "pending_stamp (wq_query s)") simp_all
  then have "qd_source_frame (wq_query s) = Some f" using w(1) p by (simp add: core_ok_def query_ok_def)
  then show "pending_stamp (wq_query s) = Some (hd (wq_published s))"
    using f w(4) by (cases "wq_published s") (auto simp: frames_ok_def)
qed

text \<open>
  C10: a live watch query has at most one worker between its claim and its decision, none while an analysis is in
  flight, and at most one analysis in flight; that is the one admitted last, so a completion is never found stale,
  and every generation from one on was admitted exactly once.
\<close>
theorem watch_one_analysis:
  assumes "watch_reachable qc s" and "qd_terminal (wq_query s) = None"
  shows "in_flight_count (wq_query s) \<le> 1
    \<and> (holder (wq_pc s t) \<noteq> None \<and> holder (wq_pc s u) \<noteq> None \<longrightarrow> t = u)
    \<and> (holder (wq_pc s t) \<noteq> None \<longrightarrow> in_flight_count (wq_query s) = 0)
    \<and> fst (complete_section qc generation mapped mapping result now late (wq_query s)) \<noteq> CompleteStale
    \<and> map (\<lambda>a. unat (fst a)) (wq_admissions s) = rev [1..<Suc (unat (qd_generation (wq_query s)))]"
proof (intro conjI impI)
  note w = watch_okD [OF watch_invariant [OF assms(1)]]
  have ok: "query_ok (wq_query s)" using w(1) by (simp add: core_ok_def)
  then obtain f where f: "qd_in_flight (wq_query s) = [f, None]"
    and free: "qd_processing (wq_query s) \<noteq> None \<Longrightarrow> f = None" using query_okE assms(2) by metis
  show "in_flight_count (wq_query s) \<le> 1" using in_flight_count_slots [OF f] by simp
  show "holder (wq_pc s t) \<noteq> None \<and> holder (wq_pc s u) \<noteq> None \<Longrightarrow> t = u"
    using w(3) assms(2) unfolding claims_ok_def by blast
  show "holder (wq_pc s t) \<noteq> None \<Longrightarrow> in_flight_count (wq_query s) = 0"
    using no_holder [OF w(3) assms(2)] free in_flight_count_slots [OF f] by (cases "qd_processing (wq_query s)") auto
  obtain e st where c: "complete_section qc generation mapped mapping result now late (wq_query s) = (e, st)" by fastforce
  have "e \<noteq> CompleteStale" using ok c by (cases rule: complete_section_cases) auto
  then show "fst (complete_section qc generation mapped mapping result now late (wq_query s)) \<noteq> CompleteStale"
    by (simp add: c)
  show "map (\<lambda>a. unat (fst a)) (wq_admissions s) = rev [1..<Suc (unat (qd_generation (wq_query s)))]"
    using w(5) by (simp add: rate_ok_def)
qed

text \<open>
  C12: two analyses a watch query admits one after the other are at least its rate apart, by the instants the
  admissions were decided with.
\<close>
theorem watch_admissions_spaced:
  assumes "watch_reachable qc s" and "Suc i < length (wq_admissions s)"
  shows "qc_rate qc = 0 \<or> qc_rate qc \<le> saturating_duration_since (snd (wq_admissions s ! i)) (snd (wq_admissions s ! Suc i))"
  using watch_okD(5) [OF watch_invariant [OF assms(1)]] assms(2)
  by (auto simp: rate_ok_def successively_conv_nth)

section \<open>Matches and skips\<close>

lemma sorted_run:
  "frames_ok qc s \<Longrightarrow> sorted_wrt (\<lambda>a b. stamp_position (hd_stamp b) < stamp_position (hd_stamp a)) (run_of s)"
  unfolding frames_ok_def run_of_def by (simp add: sorted_wrt_take)

lemma run_frames:
  assumes "frames_ok qc s" and r: "run_ok s" and ne: "run_of s \<noteq> []"
  shows "\<forall>h \<in> set (run_of s). hd_verdict h = VerdictMatched \<and> hd_stamp h \<in> set (wq_published s)
    \<and> fs_epoch (hd_stamp h) = fs_epoch (hd_stamp (hd (run_of s)))
    \<and> fs_geometry (hd_stamp h) = fs_geometry (hd_stamp (hd (run_of s)))"
proof (intro ballI conjI)
  fix h assume h: "h \<in> set (run_of s)"
  have first: "hd (run_of s) \<in> set (run_of s)" using ne by simp
  have places: "\<exists>src. qd_source_frame (wq_query s) = Some src \<and> fs_epoch (hd_stamp x) = fs_epoch src
      \<and> fs_geometry (hd_stamp x) = fs_geometry src" if "x \<in> set (run_of s)" for x
    using r that unfolding run_ok_def by blast
  show "hd_verdict h = VerdictMatched" using r h unfolding run_ok_def by blast
  have "set (run_of s) \<subseteq> set (wq_handled s)" by (simp add: run_of_def set_take_subset)
  then show "hd_stamp h \<in> set (wq_published s)" using assms(1) h unfolding frames_ok_def by blast
  show "fs_epoch (hd_stamp h) = fs_epoch (hd_stamp (hd (run_of s)))"
    "fs_geometry (hd_stamp h) = fs_geometry (hd_stamp (hd (run_of s)))"
    using places [OF h] places [OF first] by auto
qed

text \<open>
  C8: a query that reports a match has seen it stable: the reported frame ends a run of consecutively handled frames,
  all accepted, in order, of one epoch and geometry and each with a match; the run is as long as the required
  observations, or spans the required duration, and the result is the non-empty one of exactly that frame.
\<close>
theorem watch_match_confirmed:
  assumes "watch_reachable qc s" and "qd_terminal (wq_query s) = Some (OutMatched w)"
  shows "\<exists>run rest. wq_handled s = run @ rest \<and> run \<noteq> [] \<and> hd_stamp (hd run) = fr_stamp (fh_frame (wr_frame w))
    \<and> rs_stamp (wr_result w) = fr_stamp (fh_frame (wr_frame w)) \<and> \<not> result_is_empty (wr_result w)
    \<and> (\<forall>h \<in> set run. hd_verdict h = VerdictMatched \<and> hd_stamp h \<in> set (wq_published s)
         \<and> fs_epoch (hd_stamp h) = fs_epoch (hd_stamp (hd run)) \<and> fs_geometry (hd_stamp h) = fs_geometry (hd_stamp (hd run)))
    \<and> sorted_wrt (\<lambda>a b. stamp_position (hd_stamp b) < stamp_position (hd_stamp a)) run
    \<and> (case sb_kind (qc_stability qc) of
         StableImmediate \<Rightarrow> True
       | StableConsecutive \<Rightarrow> unat (sb_observations (qc_stability qc)) \<le> length run
       | StableDuration \<Rightarrow> sb_duration (qc_stability qc) \<le> saturating_duration_since (hd_at (hd run)) (hd_at (last run)))"
proof (rule exI [of _ "run_of s"], rule exI [of _ "drop (wq_run s) (wq_handled s)"], intro conjI)
  note v = watch_okD [OF watch_invariant [OF assms(1)]]
  have r: "run_ok s" and c: "confirmed qc s w" using v(6) assms(2) by (simp_all add: stable_ok_def)
  have n: "wq_run s \<noteq> 0" "wq_run s \<le> length (wq_handled s)" using r c by (simp_all add: run_ok_def confirmed_def)
  then have ne: "run_of s \<noteq> []" by (auto simp: run_of_def)
  show "wq_handled s = run_of s @ drop (wq_run s) (wq_handled s)" by (simp add: run_of_def)
  show "run_of s \<noteq> []" by (rule ne)
  show "hd_stamp (hd (run_of s)) = fr_stamp (fh_frame (wr_frame w))"
    "rs_stamp (wr_result w) = fr_stamp (fh_frame (wr_frame w))" "\<not> result_is_empty (wr_result w)"
    using c by (simp_all add: confirmed_def)
  show "\<forall>h \<in> set (run_of s). hd_verdict h = VerdictMatched \<and> hd_stamp h \<in> set (wq_published s)
      \<and> fs_epoch (hd_stamp h) = fs_epoch (hd_stamp (hd (run_of s)))
      \<and> fs_geometry (hd_stamp h) = fs_geometry (hd_stamp (hd (run_of s)))"
    by (rule run_frames [OF v(4) r ne])
  show "sorted_wrt (\<lambda>a b. stamp_position (hd_stamp b) < stamp_position (hd_stamp a)) (run_of s)" by (rule sorted_run [OF v(4)])
  have st: "is_stable (qc_stability qc) (qd_stability (wq_query s))" using c by (simp add: confirmed_def)
  have len: "length (run_of s) = wq_run s" using n by (simp add: run_of_def)
  have obs: "unat (sy_observations (qd_stability (wq_query s))) \<le> wq_run s" using r by (simp add: run_ok_def)
  have dur: "sy_duration (qd_stability (wq_query s)) =
      saturating_duration_since (hd_at (hd (run_of s))) (hd_at (last (run_of s)))"
    using r n(1) by (simp add: run_ok_def)
  show "case sb_kind (qc_stability qc) of
         StableImmediate \<Rightarrow> True
       | StableConsecutive \<Rightarrow> unat (sb_observations (qc_stability qc)) \<le> length (run_of s)
       | StableDuration \<Rightarrow> sb_duration (qc_stability qc)
           \<le> saturating_duration_since (hd_at (hd (run_of s))) (hd_at (last (run_of s)))"
    using st len obs dur
    by (auto simp: is_stable_def required_observations_def required_duration_def word_le_nat_alt split: stability_kind.splits if_splits)
qed

text \<open>Frames that show the same region with the same pixels.\<close>

definition same_content :: "cpu_mapping \<Rightarrow> cpu_mapping \<Rightarrow> bool" where
  "same_content p q \<longleftrightarrow> mp_region p = mp_region q \<and> mp_descriptor p = mp_descriptor q
     \<and> same_pixels (mp_descriptor p) (mapping_bytes p) (mapping_bytes q)"

lemma unchanged_same_content:
  "valid_descriptor (mp_descriptor p) \<Longrightarrow> compare_mappings policy p q = Unchanged \<Longrightarrow> same_content p q"
  unfolding same_content_def using compare_mappings_Unchanged [of p policy q] unfolding mappings_are_compatible_def by blast

lemma same_content_trans: "same_content p q \<Longrightarrow> same_content q r \<Longrightarrow> same_content p r"
  by (auto simp: same_content_def same_pixels_def)

text \<open>Every skipped frame leads back, over skipped ones, to an analysed frame without a match.\<close>

lemma justified_append: "justified policy (xs @ ys) \<Longrightarrow> justified policy ys"
  by (induction xs) auto

lemma justified_empty:
  assumes "justified policy (h # older)" "hd_verdict h = VerdictSkipped"
    and "\<And>x p. x \<in> set older \<Longrightarrow> hd_pixels x = Some p \<Longrightarrow> valid_descriptor (mp_descriptor p)"
  shows "\<exists>skipped g rest p q. older = skipped @ g # rest \<and> (\<forall>x \<in> set skipped. hd_verdict x = VerdictSkipped)
    \<and> hd_verdict g = VerdictEmpty \<and> hd_pixels g = Some p \<and> hd_pixels h = Some q \<and> same_content p q"
  using assms
proof (induction older arbitrary: h)
  case (Cons g older)
  then obtain p q where u: "hd_verdict g \<noteq> VerdictMatched" "hd_pixels g = Some p" "hd_pixels h = Some q"
    "compare_mappings policy p q = Unchanged" by (auto simp: unchanged_since_def)
  then have same: "same_content p q" using Cons.prems(3) by (intro unchanged_same_content [of p policy q]) auto
  show ?case
  proof (cases "hd_verdict g")
    case VerdictEmpty
    then show ?thesis using u(2,3) same by (intro exI [of _ "[]"] exI [of _ g] exI [of _ older]) simp
  next
    case VerdictSkipped
    have "justified policy (g # older)" using Cons.prems(1) by simp
    then obtain skipped x rest p' q' where "older = skipped @ x # rest" "\<forall>y \<in> set skipped. hd_verdict y = VerdictSkipped"
      "hd_verdict x = VerdictEmpty" "hd_pixels x = Some p'" "hd_pixels g = Some q'" "same_content p' q'"
      using Cons.IH [OF _ VerdictSkipped] Cons.prems(3) by (meson list.set_intros(2))
    then show ?thesis using u(2,3) same same_content_trans VerdictSkipped
      by (intro exI [of _ "g # skipped"] exI [of _ x] exI [of _ rest]) auto
  qed (use u(1) in simp)
qed simp

text \<open>
  C11: a frame is only skipped as unchanged when its searched region shows exactly the pixels of the last frame that
  was analysed, and that analysis found no match; every frame handled in between was skipped for the same reason.
\<close>
theorem watch_skips_justified:
  assumes "watch_reachable qc s" and "wq_handled s = newer @ h # older" and "hd_verdict h = VerdictSkipped"
  shows "\<exists>skipped g rest p q. older = skipped @ g # rest \<and> (\<forall>x \<in> set skipped. hd_verdict x = VerdictSkipped)
    \<and> hd_verdict g = VerdictEmpty \<and> hd_pixels g = Some p \<and> hd_pixels h = Some q \<and> same_content p q"
proof (rule justified_empty [OF _ assms(3)])
  note k = watch_okD(7) [OF watch_invariant [OF assms(1)]]
  show "justified (qc_policy qc) (h # older)"
    using skip_okD(1) [OF k] unfolding assms(2) by (rule justified_append)
  show "valid_descriptor (mp_descriptor p)" if "x \<in> set older" "hd_pixels x = Some p" for x p
    using skip_okD(2) [OF k, of x p] that assms(2) by simp
qed

section \<open>A rate interval the clock cannot represent\<close>

text \<open>
  C16: a frame whose rate interval leaves the clock domain is counted twice: the decision counts it failed and leaves
  it pending, and the termination it asks for then counts the same frame superseded.
\<close>
theorem unrepresentable_interval_counts_twice:
  assumes "query_ok st" and "qd_terminal st = None" and "qd_processing st = Some (mm_stamp mapped)"
    and "pending_stamp st = Some (mm_stamp mapped)" and "finish_refusal v = None"
    and "\<not> (decision = Unchanged \<and> sy_observations (qd_stability st) = 0)"
    and "qd_last_admitted st = Some prev" and "saturating_duration_since now prev < rate"
    and "instant_checked_add prev rate = None"
  shows "\<exists>st'. finish_mapping rate v mapped mapping decision now st = (MapTerminate (OutFailed unrepresentable_interval), st')
    \<and> qd_work (snd (terminate_query v' (OutFailed unrepresentable_interval) st'))
        = increment Superseded (increment WorkFailed (qd_work st))
    \<and> outstanding st = 1"
proof -
  let ?st = "count_work WorkFailed (st\<lparr>qd_region := Some (mm_searched mapped), qd_processing := None\<rparr>)"
  have slots: "qd_in_flight st = [None, None]" using assms(1-3) by (auto elim!: query_okE)
  have p: "qd_pending st \<noteq> None" using assms(4) by (auto simp: pending_stamp_def)
  have "rate_limit rate now (st\<lparr>qd_region := Some (mm_searched mapped)\<rparr>)
      = Some (MapTerminate (OutFailed unrepresentable_interval), ?st)"
    using assms(7-9) by (simp add: rate_limit_def)
  then have "finish_mapping rate v mapped mapping decision now st = (MapTerminate (OutFailed unrepresentable_interval), ?st)"
    using assms(2-6) by (auto simp: finish_mapping_def Let_def)
  moreover have "qd_work (snd (terminate_query v' (OutFailed unrepresentable_interval) ?st))
      = increment Superseded (increment WorkFailed (qd_work st))"
    using assms(2) p slots
    by (simp add: terminate_query_def Let_def supersede_outstanding_def in_flight_count_def count_work_def count_times_eq)
  ultimately show ?thesis using slots p by (simp add: outstanding_slots)
qed

section \<open>A run\<close>

text \<open>
  One worker and a query that wants two matches in a row, at least two nanoseconds apart: frame 0 is analysed without a
  match, frame 1 is skipped as unchanged, frames 2 and 3 match.
\<close>

definition demo_config :: "unit query_config" where
  "demo_config = \<lparr>qc_target = \<lparr>tgt_engine = EngineId 1, tgt_provider = ProviderId ''p'', tgt_ordinal = 1\<rparr>, qc_stream = \<lparr>str_engine = EngineId 1, str_ordinal = 1\<rparr>,
     qc_template = small_template 1, qc_region = FullFrame, qc_options = small_options, qc_rate = 2,
     qc_stability = \<lparr>sb_kind = StableConsecutive, sb_observations = 2, sb_duration = 0\<rparr>, qc_policy = ExactRgba,
     qc_context = context_new\<rparr>"

definition demo_frame :: "u64 \<Rightarrow> unit frame_handle" where
  "demo_frame n = \<lparr>fh_instance = unat n, fh_frame = \<lparr>fr_stamp = mp_stamp (dot_mapping n), fr_captured_at = instant_origin,
     fr_descriptor = dot_descriptor, fr_transform = mp_transform (dot_mapping n), fr_storage = ()\<rparr>\<rparr>"

definition demo_mapped :: "u64 \<Rightarrow> unit mapped_match" where
  "demo_mapped n = \<lparr>mm_frame = demo_frame n, mm_transform = mp_transform (dot_mapping n), mm_searched = mp_region (dot_mapping n),
     mm_descriptor = ve_descriptor small_vision, mm_template = 7, mm_options = small_options, mm_pixels = Some (dot_mapping n)\<rparr>"

definition demo_result :: "u64 \<Rightarrow> match_found list \<Rightarrow> match_result" where
  "demo_result n ms = \<lparr>rs_stamp = mp_stamp (dot_mapping n), rs_transform = mp_transform (dot_mapping n),
     rs_searched = mp_region (dot_mapping n), rs_backend = ve_descriptor small_vision, rs_options = small_options, rs_matches = ms\<rparr>"

definition demo_view :: "unit authority_view" where
  "demo_view = \<lparr>av_session = True, av_terminal = None, av_session_closed = False, av_scheduler = True, av_scheduler_closed = False\<rparr>"

type_synonym demo = "(unit, unit) watch_system"

definition demo_publish :: "u64 \<Rightarrow> instant \<Rightarrow> demo \<Rightarrow> demo" where
  "demo_publish n now s = s\<lparr>wq_query := enqueue (qc_stream demo_config) (qc_rate demo_config) False (demo_frame n) now (wq_query s),
     wq_published := fr_stamp (fh_frame (demo_frame n)) # wq_published s,
     wq_run := (if incompatible_with (qd_source_frame (wq_query s)) (fr_stamp (fh_frame (demo_frame n))) then 0 else wq_run s)\<rparr>"

definition demo_decide :: "bool \<Rightarrow> u64 \<Rightarrow> demo \<Rightarrow> change_decision \<times> demo" where
  "demo_decide live n s =
     (let st = snd (claim (mm_stamp (demo_mapped n)) (wq_query s));
          decision = mapping_decision ExactRgba live (Some (dot_mapping n)) st
      in (decision, move s () (WMapped (demo_mapped n) (Some (dot_mapping n)) decision) st))"

definition demo_finish :: "u64 \<Rightarrow> instant \<Rightarrow> change_decision \<times> demo \<Rightarrow> unit mapping_end \<times> unit query_data" where
  "demo_finish n now d = finish_mapping (qc_rate demo_config) demo_view (demo_mapped n) (Some (dot_mapping n)) (fst d) now (wq_query (snd d))"

definition demo_skip :: "u64 \<Rightarrow> instant \<Rightarrow> demo \<Rightarrow> demo" where
  "demo_skip n now s =
     (move s () WIdle (snd (demo_finish n now (demo_decide True n s))))
       \<lparr>wq_handled := handled_frame (demo_mapped n) VerdictSkipped now # wq_handled s\<rparr>"

text \<open>The analysis itself, from its admission to its completion.\<close>

definition demo_admit :: "u64 \<Rightarrow> instant \<Rightarrow> u64 \<Rightarrow> demo \<Rightarrow> demo" where
  "demo_admit n now g s =
     (move s () (WAnalysing g (demo_mapped n) (Some (dot_mapping n))) (snd (demo_finish n now (demo_decide False n s))))
       \<lparr>wq_admissions := (g, now) # wq_admissions s\<rparr>"

definition demo_complete :: "u64 \<Rightarrow> instant \<Rightarrow> u64 \<Rightarrow> match_found list \<Rightarrow> demo \<Rightarrow> demo" where
  "demo_complete n now g ms s =
     (move s () WIdle (snd (complete_section demo_config g (demo_mapped n) (Some (dot_mapping n)) (Inr (demo_result n ms)) now None (wq_query s))))
       \<lparr>wq_handled := handled_frame (demo_mapped n) (if ms = [] then VerdictEmpty else VerdictMatched) now # wq_handled s,
         wq_run := (if ms = [] then 0 else Suc (wq_run s))\<rparr>"

lemma demo_published:
  assumes "watch_reachable demo_config s" "accepts (qc_stream demo_config) (fr_stamp (fh_frame (demo_frame n))) (wq_query s)"
  shows "watch_reachable demo_config (demo_publish n now s)"
  unfolding demo_publish_def by (rule watch_reachable_step [OF assms(1)], rule w_publish [OF refl assms(2)])

lemma demo_described [simp]: "described (demo_mapped n)"
  by (simp add: described_def demo_mapped_def dot_mapping_def dot_descriptor_def valid_descriptor_def
      extent_is_empty_def usize_limit_def)

lemma demo_remembers [simp]: "remembers (Some (dot_mapping n)) (demo_mapped n)"
  by (simp add: remembers_def same_view_def demo_mapped_def)

lemma demo_mm [simp]: "mm_frame (demo_mapped n) = demo_frame n" "mm_pixels (demo_mapped n) = Some (dot_mapping n)"
  by (simp_all add: demo_mapped_def)

lemma demo_decided:
  assumes "watch_reachable demo_config s" "wq_pc s () = WIdle"
    and "fst (claim (mm_stamp (demo_mapped n)) (wq_query s)) = Some (demo_frame n)"
  shows "watch_reachable demo_config (snd (demo_decide live n s))"
proof -
  let ?st = "snd (claim (mm_stamp (demo_mapped n)) (wq_query s))"
  have "claim (mm_stamp (demo_mapped n)) (wq_query s) = (Some (demo_frame n), ?st)" using assms(3) by (simp add: prod_eq_iff)
  from watch_reachable_step [OF assms(1) w_claim [of s "()", OF assms(2) this]]
  have r: "watch_reachable demo_config (move s () (WClaimed (demo_frame n)) ?st)" .
  have "watch_step demo_config (move s () (WClaimed (demo_frame n)) ?st)
      (move (move s () (WClaimed (demo_frame n)) ?st) ()
        (WMapped (demo_mapped n) (Some (dot_mapping n)) (mapping_decision ExactRgba live (Some (dot_mapping n)) ?st))
        (wq_query (move s () (WClaimed (demo_frame n)) ?st)))"
    by (rule w_decide [where live = live]) (simp_all add: demo_config_def)
  then have "watch_step demo_config (move s () (WClaimed (demo_frame n)) ?st)
      (move (move s () (WClaimed (demo_frame n)) ?st) ()
        (WMapped (demo_mapped n) (Some (dot_mapping n)) (mapping_decision ExactRgba live (Some (dot_mapping n)) ?st)) ?st)"
    by simp
  then have "watch_reachable demo_config (move (move s () (WClaimed (demo_frame n)) ?st) ()
        (WMapped (demo_mapped n) (Some (dot_mapping n)) (mapping_decision ExactRgba live (Some (dot_mapping n)) ?st)) ?st)"
    by (rule watch_reachable_step [OF r])
  then show ?thesis by (simp add: demo_decide_def Let_def move_def)
qed

lemma demo_decide_sel [simp]:
  "wq_pc (snd (demo_decide live n s)) () = WMapped (demo_mapped n) (Some (dot_mapping n)) (fst (demo_decide live n s))"
  by (simp add: demo_decide_def Let_def)

lemma demo_move_decide [simp]:
  "move (snd (demo_decide live n s)) () pc st = move s () pc st"
  by (simp add: demo_decide_def Let_def move_def)

lemma demo_decide_history [simp]:
  "wq_handled (snd (demo_decide live n s)) = wq_handled s" "wq_admissions (snd (demo_decide live n s)) = wq_admissions s"
  by (simp_all add: demo_decide_def Let_def)

text \<open>What has to be checked before the worker skips or analyses a frame.\<close>

definition demo_claimable :: "u64 \<Rightarrow> demo \<Rightarrow> bool" where
  "demo_claimable n s \<longleftrightarrow> wq_pc s () = WIdle \<and> fst (claim (mm_stamp (demo_mapped n)) (wq_query s)) = Some (demo_frame n)"

lemma demo_skipped:
  assumes "watch_reachable demo_config s" "demo_claimable n s" "fst (demo_finish n now (demo_decide True n s)) = MapSkipped"
  shows "watch_reachable demo_config (demo_skip n now s)"
proof -
  let ?s = "snd (demo_decide True n s)" and ?d = "demo_decide True n s"
  have r: "watch_reachable demo_config ?s" using assms(2) by (intro demo_decided [OF assms(1)]) (simp_all add: demo_claimable_def)
  have "finish_mapping (qc_rate demo_config) demo_view (demo_mapped n) (Some (dot_mapping n)) (fst ?d) now (wq_query ?s)
      = (MapSkipped, snd (demo_finish n now ?d))"
    using assms(3) by (simp add: demo_finish_def prod_eq_iff)
  from watch_reachable_step [OF r w_skipped [OF demo_decide_sel this]]
  show ?thesis by (simp add: demo_skip_def)
qed

lemma demo_admitted:
  assumes "watch_reachable demo_config s" "demo_claimable n s" "fst (demo_finish n now (demo_decide False n s)) = MapAdmitted g"
  shows "watch_reachable demo_config (demo_admit n now g s)"
proof -
  let ?s = "snd (demo_decide False n s)" and ?d = "demo_decide False n s"
  have r: "watch_reachable demo_config ?s" using assms(2) by (intro demo_decided [OF assms(1)]) (simp_all add: demo_claimable_def)
  have "finish_mapping (qc_rate demo_config) demo_view (demo_mapped n) (Some (dot_mapping n)) (fst ?d) now (wq_query ?s)
      = (MapAdmitted g, snd (demo_finish n now ?d))"
    using assms(3) by (simp add: demo_finish_def prod_eq_iff)
  from watch_reachable_step [OF r w_admitted [OF demo_decide_sel this]]
  show ?thesis by (simp add: demo_admit_def)
qed

lemma demo_completed:
  assumes r: "watch_reachable demo_config s" and pc: "wq_pc s () = WAnalysing g (demo_mapped n) (Some (dot_mapping n))"
    and wanted: "completion_wanted g (mm_stamp (demo_mapped n)) (wq_query s)"
    and e: "fst (complete_section demo_config g (demo_mapped n) (Some (dot_mapping n)) (Inr (demo_result n ms)) now None (wq_query s))
      \<in> {CompleteLive, CompleteTerminal}"
  shows "watch_reachable demo_config (demo_complete n now g ms s)"
proof -
  let ?r = "Inr (demo_result n ms) :: error + match_result"
  let ?s = "move s () (WCompleting g (demo_mapped n) (Some (dot_mapping n)) ?r) (wq_query s)"
  have "\<forall>r. ?r = Inr r \<longrightarrow> rs_stamp r = mm_stamp (demo_mapped n)" by (simp add: demo_result_def demo_frame_def)
  from watch_reachable_step [OF r w_analysed [OF pc wanted this]] have r': "watch_reachable demo_config ?s" .
  obtain e' st where c: "complete_section demo_config g (demo_mapped n) (Some (dot_mapping n)) ?r now None (wq_query ?s) = (e', st)"
    by fastforce
  have "wq_pc ?s () = WCompleting g (demo_mapped n) (Some (dot_mapping n)) ?r" by simp
  from watch_reachable_step [OF r' w_completed [OF this c]] e c show ?thesis
    by (auto simp: demo_complete_def move_def result_is_empty_def demo_result_def)
qed

text \<open>The stamps and mappings of the run.\<close>

abbreviation demo_stamp :: "u64 \<Rightarrow> frame_stamp" where
  "demo_stamp n \<equiv> mp_stamp (dot_mapping n)"

lemma demo_frame_stamp [simp]: "fr_stamp (fh_frame (demo_frame n)) = demo_stamp n"
  by (simp add: demo_frame_def)

lemma demo_stamp_facts [simp]:
  "fs_stream (demo_stamp n) = qc_stream demo_config" "fs_epoch (demo_stamp n) = epoch_first"
  "fs_geometry (demo_stamp n) = revision_first" "(demo_stamp m = demo_stamp n) = (m = n)"
  "stamp_order (demo_stamp m) (demo_stamp n) = Inr Before \<longleftrightarrow> m < n"
  by (auto simp: dot_mapping_def stamp_new_def demo_config_def stamp_order_Before_iff stamp_position_less_iff
      less_frame_sequence_def less_stream_epoch_def epoch_first_def)

lemma demo_unchanged: "m < n \<Longrightarrow> compare_mappings ExactRgba (dot_mapping m) (dot_mapping n) = Unchanged"
  by (simp add: compare_mappings_def mappings_are_compatible_def dot_mapping_def dot_descriptor_def stamp_new_def
      snapshot_eq_def frame_only_def mapping_bytes_def byte_len_def usize_saturating_mul_def usize_limit_def
      usize_mul_def usize_add_def get_range_def less_frame_sequence_def)

text \<open>The query between two frames, and with one pending.\<close>

definition demo_rest :: "u64 option \<Rightarrow> u64 option \<Rightarrow> u64 \<Rightarrow> instant option \<Rightarrow> stability_state \<Rightarrow> demo \<Rightarrow> bool" where
  "demo_rest src prev g adm sy s \<longleftrightarrow> watch_reachable demo_config s \<and> wq_pc s () = WIdle
     \<and> qd_terminal (wq_query s) = None \<and> qd_processing (wq_query s) = None \<and> qd_in_flight (wq_query s) = [None, None]
     \<and> \<not> qd_barrier_deferred (wq_query s) \<and> qd_pending (wq_query s) = None
     \<and> qd_source_frame (wq_query s) = map_option demo_stamp src \<and> qd_generation (wq_query s) = g
     \<and> qd_last_admitted (wq_query s) = adm \<and> qd_previous (wq_query s) = map_option dot_mapping prev
     \<and> qd_stability (wq_query s) = sy"

definition demo_waiting :: "u64 \<Rightarrow> u64 option \<Rightarrow> u64 \<Rightarrow> instant option \<Rightarrow> stability_state \<Rightarrow> demo \<Rightarrow> bool" where
  "demo_waiting n prev g adm sy s \<longleftrightarrow> watch_reachable demo_config s \<and> wq_pc s () = WIdle
     \<and> qd_terminal (wq_query s) = None \<and> qd_processing (wq_query s) = None \<and> qd_in_flight (wq_query s) = [None, None]
     \<and> \<not> qd_barrier_deferred (wq_query s) \<and> (\<exists>t. qd_pending (wq_query s) = Some \<lparr>pf_frame = demo_frame n, pf_since = t\<rparr>)
     \<and> qd_source_frame (wq_query s) = Some (demo_stamp n) \<and> qd_generation (wq_query s) = g
     \<and> qd_last_admitted (wq_query s) = adm \<and> qd_previous (wq_query s) = map_option dot_mapping prev
     \<and> qd_stability (wq_query s) = sy"

lemma demo_publishes:
  assumes r: "demo_rest src prev g adm sy s" and new: "\<And>m. src = Some m \<Longrightarrow> m < n"
  shows "demo_waiting n prev g adm sy (demo_publish n now s)"
    and "wq_handled (demo_publish n now s) = wq_handled s" and "wq_admissions (demo_publish n now s) = wq_admissions s"
    and "wq_published (demo_publish n now s) = demo_stamp n # wq_published s"
    and "wq_run (demo_publish n now s) = wq_run s"
proof -
  have acc: "accepts (qc_stream demo_config) (fr_stamp (fh_frame (demo_frame n))) (wq_query s)"
    using r new by (auto simp: accepts_def not_newer_def demo_rest_def split: option.splits)
  have same: "\<not> incompatible_with (qd_source_frame (wq_query s)) (demo_stamp n)"
    using r by (auto simp: incompatible_with_def demo_rest_def split: option.splits)
  have "watch_reachable demo_config (demo_publish n now s)"
    using demo_published acc r by (simp add: demo_rest_def)
  then show "demo_waiting n prev g adm sy (demo_publish n now s)"
    using r same unfolding demo_waiting_def demo_rest_def demo_publish_def enqueue_accepted [OF acc] Let_def
    by (simp add: replaced_pending_def Let_def)
  show "wq_run (demo_publish n now s) = wq_run s" using same by (simp add: demo_publish_def)
qed (simp_all add: demo_publish_def)

lemma demo_claims:
  assumes "demo_waiting n prev g adm sy s"
  shows "demo_claimable n s"
    and "snd (claim (mm_stamp (demo_mapped n)) (wq_query s)) = (wq_query s)\<lparr>qd_processing := Some (demo_stamp n)\<rparr>"
  using assms by (auto simp: demo_claimable_def demo_waiting_def claim_def capacity_reached_def)

lemma demo_decides:
  assumes "demo_waiting n prev g adm sy s"
  shows "demo_decide live n s = (mapping_decision ExactRgba live (Some (dot_mapping n)) (wq_query s),
    move s () (WMapped (demo_mapped n) (Some (dot_mapping n)) (mapping_decision ExactRgba live (Some (dot_mapping n)) (wq_query s)))
      ((wq_query s)\<lparr>qd_processing := Some (demo_stamp n)\<rparr>))"
  by (simp add: demo_decide_def Let_def demo_claims(2) [OF assms, simplified] mapping_decision_def)

lemma demo_no_refusal [simp]: "finish_refusal demo_view = None"
  by (simp add: finish_refusal_def demo_view_def or_else_def)

lemma demo_skips:
  assumes w: "demo_waiting n (Some m) g adm stability_none s" and "m < n"
  shows "demo_rest (Some n) (Some n) g adm stability_none (demo_skip n now s)"
    and "wq_handled (demo_skip n now s) = handled_frame (demo_mapped n) VerdictSkipped now # wq_handled s"
    and "wq_admissions (demo_skip n now s) = wq_admissions s" and "wq_published (demo_skip n now s) = wq_published s"
    and "wq_run (demo_skip n now s) = wq_run s"
proof -
  let ?q = "(wq_query s)\<lparr>qd_processing := Some (demo_stamp n), qd_region := Some (mm_searched (demo_mapped n))\<rparr>"
  have u: "mapping_decision ExactRgba True (Some (dot_mapping n)) (wq_query s) = Unchanged"
    using w demo_unchanged [OF assms(2)] by (simp add: mapping_decision_def demo_waiting_def stability_none_def)
  have f: "demo_finish n now (demo_decide True n s) = (MapSkipped, skip_analysis (demo_stamp n) (Some (dot_mapping n)) ?q)"
    using w by (auto simp: demo_finish_def demo_decides [OF w] u finish_mapping_def Let_def demo_waiting_def pending_stamp_def
        stability_none_def)
  have "watch_reachable demo_config (demo_skip n now s)"
    using demo_skipped [OF _ demo_claims(1) [OF w]] f w by (simp add: demo_waiting_def)
  then show "demo_rest (Some n) (Some n) g adm stability_none (demo_skip n now s)"
    using w unfolding demo_rest_def by (simp add: demo_skip_def f skip_analysis_def demo_waiting_def)
qed (simp_all add: demo_skip_def)

text \<open>An analysis in flight.\<close>

definition demo_flying :: "u64 \<Rightarrow> u64 option \<Rightarrow> u64 \<Rightarrow> instant \<Rightarrow> stability_state \<Rightarrow> demo \<Rightarrow> bool" where
  "demo_flying n prev g now sy s \<longleftrightarrow> watch_reachable demo_config s
     \<and> wq_pc s () = WAnalysing g (demo_mapped n) (Some (dot_mapping n))
     \<and> qd_terminal (wq_query s) = None \<and> qd_processing (wq_query s) = None
     \<and> qd_in_flight (wq_query s) = [Some (g, demo_stamp n), None]
     \<and> \<not> qd_barrier_deferred (wq_query s) \<and> qd_pending (wq_query s) = None
     \<and> qd_source_frame (wq_query s) = Some (demo_stamp n) \<and> qd_generation (wq_query s) = g
     \<and> qd_last_admitted (wq_query s) = Some now \<and> qd_previous (wq_query s) = map_option dot_mapping prev
     \<and> qd_stability (wq_query s) = sy"

lemma demo_admits:
  assumes w: "demo_waiting n prev g adm sy s" and g: "checked_add g 1 = Some g'"
    and rate: "\<And>t. adm = Some t \<Longrightarrow> 2 \<le> saturating_duration_since now t"
  shows "demo_flying n prev g' now sy (demo_admit n now g' s)"
    and "wq_handled (demo_admit n now g' s) = wq_handled s"
    and "wq_admissions (demo_admit n now g' s) = (g', now) # wq_admissions s"
    and "wq_published (demo_admit n now g' s) = wq_published s" and "wq_run (demo_admit n now g' s) = wq_run s"
proof -
  let ?q = "(wq_query s)\<lparr>qd_processing := Some (demo_stamp n), qd_region := Some (mm_searched (demo_mapped n))\<rparr>"
  have u: "mapping_decision ExactRgba False (Some (dot_mapping n)) (wq_query s) = AnalysisRequired"
    by (simp add: mapping_decision_def)
  have "qc_rate demo_config = 2" by (simp add: demo_config_def)
  then have "rate_limit (qc_rate demo_config) now ?q = None"
    using w rate by (cases adm) (auto simp: rate_limit_def demo_waiting_def not_less)
  then have f: "demo_finish n now (demo_decide False n s) = admit_analysis (demo_stamp n) now ?q"
    using w by (auto simp: demo_finish_def demo_decides [OF w] u finish_mapping_def Let_def demo_waiting_def pending_stamp_def)
  have a: "admit_analysis (demo_stamp n) now ?q = (MapAdmitted g', ?q\<lparr>qd_generation := g', qd_last_admitted := Some now,
      qd_rate_eligible_at := None, qd_barrier_deferred := False, qd_pending := None, qd_processing := None,
      qd_in_flight := [Some (g', demo_stamp n), None]\<rparr>)"
    using w g by (simp add: admit_analysis_def Let_def demo_waiting_def)
  have "watch_reachable demo_config (demo_admit n now g' s)"
    using demo_admitted [OF _ demo_claims(1) [OF w]] f a w by (simp add: demo_waiting_def)
  then show "demo_flying n prev g' now sy (demo_admit n now g' s)"
    using w unfolding demo_flying_def by (simp add: demo_admit_def f a demo_waiting_def)
qed (simp_all add: demo_admit_def)

lemma demo_completes:
  fixes ms :: "match_found list" and at' :: instant
  assumes w: "demo_flying n prev g now sy s"
  defines "s' \<equiv> demo_complete n at' g ms s"
  defines "sy' \<equiv> if ms = [] then stability_none else observe_match at' sy"
  shows "watch_reachable demo_config s'"
    and "ms = [] \<or> \<not> is_stable (qc_stability demo_config) sy' \<Longrightarrow> demo_rest (Some n) (Some n) g (Some now) sy' s'"
    and "ms \<noteq> [] \<Longrightarrow> is_stable (qc_stability demo_config) sy' \<Longrightarrow>
      qd_terminal (wq_query s') = Some (OutMatched (watch_result_of demo_config (demo_mapped n) (demo_result n ms) sy'))"
    and "wq_handled s' = handled_frame (demo_mapped n) (if ms = [] then VerdictEmpty else VerdictMatched) at' # wq_handled s"
    and "wq_admissions s' = wq_admissions s" and "wq_published s' = wq_published s"
    and "wq_run s' = (if ms = [] then 0 else Suc (wq_run s))"
proof -
  have ok: "query_ok (wq_query s)"
    using watch_okD(1) [OF watch_invariant, of demo_config s] w by (simp add: core_ok_def demo_flying_def)
  have st: "qd_terminal (wq_query s) = None" "qd_in_flight (wq_query s) = [Some (g, mm_stamp (demo_mapped n)), None]"
    using w by (simp_all add: demo_flying_def)
  note c = complete_section_found [OF ok st, of demo_config "Some (dot_mapping n)" "Inr (demo_result n ms)" at']
  have e: "result_is_empty (demo_result n ms) \<longleftrightarrow> ms = []" by (simp add: result_is_empty_def demo_result_def)
  show "watch_reachable demo_config s'"
    unfolding s'_def
    by (rule demo_completed) (use w st c e in \<open>auto simp: demo_flying_def completion_wanted_def Let_def\<close>)
  then show "demo_rest (Some n) (Some n) g (Some now) sy' s'" if "ms = [] \<or> \<not> is_stable (qc_stability demo_config) sy'"
    using w that unfolding demo_rest_def s'_def sy'_def demo_complete_def c
    by (auto simp: demo_flying_def e Let_def split: if_splits)
  show "qd_terminal (wq_query s') = Some (OutMatched (watch_result_of demo_config (demo_mapped n) (demo_result n ms) sy'))"
    if "ms \<noteq> []" "is_stable (qc_stability demo_config) sy'"
    using w that unfolding s'_def sy'_def demo_complete_def c by (simp add: demo_flying_def e Let_def)
qed (simp_all add: s'_def demo_complete_def)

definition demo0 :: demo where "demo0 = demo_publish 0 (Instant 10) watch_new"
definition demo1 :: demo where "demo1 = demo_admit 0 (Instant 10) 1 demo0"
definition demo2 :: demo where "demo2 = demo_complete 0 (Instant 11) 1 [] demo1"
definition demo3 :: demo where "demo3 = demo_skip 1 (Instant 11) (demo_publish 1 (Instant 11) demo2)"
definition demo4 :: demo where "demo4 = demo_admit 2 (Instant 12) 2 (demo_publish 2 (Instant 12) demo3)"
definition demo5 :: demo where "demo5 = demo_complete 2 (Instant 13) 2 [best_match] demo4"
definition demo6 :: demo where "demo6 = demo_admit 3 (Instant 14) 3 (demo_publish 3 (Instant 13) demo5)"
definition demo7 :: demo where "demo7 = demo_complete 3 (Instant 15) 3 [best_match] demo6"

definition once :: stability_state where
  "once = \<lparr>sy_observations = 1, sy_started = Some (Instant 13), sy_duration = 0\<rparr>"

lemma demo_generations [simp]:
  "checked_add (0 :: u64) 1 = Some 1" "checked_add (1 :: u64) 1 = Some 2" "checked_add (2 :: u64) 1 = Some 3"
  by (simp_all add: checked_add_def)

lemma demo_stability [simp]:
  "observe_match (Instant 13) stability_none = once" "\<not> is_stable (qc_stability demo_config) once"
  "is_stable (qc_stability demo_config) (observe_match (Instant 15) once)"
  by (simp_all add: observe_match_def once_def stability_none_def demo_config_def is_stable_def required_observations_def
      saturating_add_def word_less_nat_alt word_le_nat_alt)

lemma demo_start: "demo_rest None None 0 None stability_none watch_new"
  by (simp add: demo_rest_def watch_reachable_def watch_new_def query_new_def max_in_flight_def numeral_2_eq_2)

lemma demo0_state: "demo_waiting 0 None 0 None stability_none demo0"
  unfolding demo0_def by (rule demo_publishes(1) [OF demo_start]) simp

lemma demo1_state: "demo_flying 0 None 1 (Instant 10) stability_none demo1"
  unfolding demo1_def by (rule demo_admits(1) [OF demo0_state]) simp_all

lemma demo2_state: "demo_rest (Some 0) (Some 0) 1 (Some (Instant 10)) stability_none demo2"
  using demo_completes(2) [OF demo1_state, of "[]" "Instant 11"] by (simp add: demo2_def)

lemma demo2_waits: "demo_waiting 1 (Some 0) 1 (Some (Instant 10)) stability_none (demo_publish 1 (Instant 11) demo2)"
  by (rule demo_publishes(1) [OF demo2_state]) simp

lemma demo3_state: "demo_rest (Some 1) (Some 1) 1 (Some (Instant 10)) stability_none demo3"
  unfolding demo3_def by (rule demo_skips(1) [OF demo2_waits]) simp

lemma demo3_waits: "demo_waiting 2 (Some 1) 1 (Some (Instant 10)) stability_none (demo_publish 2 (Instant 12) demo3)"
  by (rule demo_publishes(1) [OF demo3_state]) simp

lemma demo4_state: "demo_flying 2 (Some 1) 2 (Instant 12) stability_none demo4"
  unfolding demo4_def by (rule demo_admits(1) [OF demo3_waits]) simp_all

lemma demo5_state: "demo_rest (Some 2) (Some 2) 2 (Some (Instant 12)) once demo5"
  using demo_completes(2) [OF demo4_state, of "[best_match]" "Instant 13"] by (simp add: demo5_def)

lemma demo5_waits: "demo_waiting 3 (Some 2) 2 (Some (Instant 12)) once (demo_publish 3 (Instant 13) demo5)"
  by (rule demo_publishes(1) [OF demo5_state]) simp

lemma demo6_state: "demo_flying 3 (Some 2) 3 (Instant 14) once demo6"
  unfolding demo6_def by (rule demo_admits(1) [OF demo5_waits]) simp_all

lemma demo7_reachable: "watch_reachable demo_config demo7"
  unfolding demo7_def by (rule demo_completes(1) [OF demo6_state])

lemma demo7_terminal:
  "qd_terminal (wq_query demo7) = Some (OutMatched (watch_result_of demo_config (demo_mapped 3) (demo_result 3 [best_match])
     (observe_match (Instant 15) once)))"
  using demo_completes(3) [OF demo6_state, of "[best_match]" "Instant 15"] by (simp add: demo7_def)

lemmas demo_histories =
  demo_completes(4-7) [OF demo6_state] demo_admits(2-5) [OF demo5_waits] demo_publishes(2-5) [OF demo5_state]
  demo_completes(4-7) [OF demo4_state] demo_admits(2-5) [OF demo3_waits] demo_publishes(2-5) [OF demo3_state]
  demo_skips(2-5) [OF demo2_waits] demo_publishes(2-5) [OF demo2_state] demo_completes(4-7) [OF demo1_state]
  demo_admits(2-5) [OF demo0_state] demo_publishes(2-5) [OF demo_start]

lemmas demo_definitions = demo7_def demo6_def demo5_def demo4_def demo3_def demo2_def demo1_def demo0_def

lemma demo7_history:
  "wq_handled demo7 = [handled_frame (demo_mapped 3) VerdictMatched (Instant 15), handled_frame (demo_mapped 2) VerdictMatched (Instant 13),
     handled_frame (demo_mapped 1) VerdictSkipped (Instant 11), handled_frame (demo_mapped 0) VerdictEmpty (Instant 11)]"
  "wq_admissions demo7 = [(3, Instant 14), (2, Instant 12), (1, Instant 10)]"
  "wq_published demo7 = [demo_stamp 3, demo_stamp 2, demo_stamp 1, demo_stamp 0]"
  using demo_histories unfolding demo_definitions by (simp_all add: watch_new_def)

theorem watch_outcome_final_witness:
  "qd_terminal (wq_query demo7) = Some (OutMatched (watch_result_of demo_config (demo_mapped 3) (demo_result 3 [best_match])
     (observe_match (Instant 15) once))) \<and> outstanding (wq_query demo7) = 0"
  using watch_outcome_final [OF demo7_reachable rtranclp.rtrancl_refl demo7_terminal] by blast

theorem watch_frames_accounted_witness:
  "length (wq_published demo7) = 4 \<and> sorted_wrt (\<lambda>a b. stamp_order b a = Inr Before) (wq_published demo7)"
  using watch_frames_accounted [OF demo7_reachable] by (simp add: demo7_history)

theorem watch_one_analysis_witness:
  "in_flight_count (wq_query demo6) \<le> 1
   \<and> fst (complete_section demo_config 3 (demo_mapped 3) None (Inr (demo_result 3 [])) (Instant 15) None (wq_query demo6)) \<noteq> CompleteStale"
proof -
  have "watch_reachable demo_config demo6" "qd_terminal (wq_query demo6) = None"
    using demo6_state by (simp_all add: demo_flying_def)
  from watch_one_analysis [OF this] show ?thesis by blast
qed

theorem watch_admissions_spaced_witness:
  "(2 :: nat) \<le> saturating_duration_since (Instant 14) (Instant 12)"
  using watch_admissions_spaced [OF demo7_reachable, of 0] by (simp add: demo7_history demo_config_def)

theorem watch_match_confirmed_witness:
  "\<exists>run rest. wq_handled demo7 = run @ rest \<and> 2 \<le> length run \<and> (\<forall>h \<in> set run. hd_verdict h = VerdictMatched)"
  using watch_match_confirmed [OF demo7_reachable demo7_terminal]
  by (auto simp: demo_config_def)

theorem watch_skips_justified_witness:
  "same_content (dot_mapping 0) (dot_mapping 1)"
proof -
  let ?h = "handled_frame (demo_mapped 1) VerdictSkipped (Instant 11)"
  let ?e = "handled_frame (demo_mapped 0) VerdictEmpty (Instant 11)"
  have split: "wq_handled demo7 = [handled_frame (demo_mapped 3) VerdictMatched (Instant 15),
      handled_frame (demo_mapped 2) VerdictMatched (Instant 13)] @ ?h # [?e]" by (simp add: demo7_history)
  have "hd_verdict ?h = VerdictSkipped" by (simp add: handled_frame_def)
  from watch_skips_justified [OF demo7_reachable split this] show ?thesis
    by (auto simp: handled_frame_def Cons_eq_append_conv)
qed

definition stuck_query :: "unit query_data" where
  "stuck_query = query_new\<lparr>qd_pending := Some \<lparr>pf_frame = demo_frame 1, pf_since = Instant 11\<rparr>,
     qd_processing := Some (demo_stamp 1), qd_source_frame := Some (demo_stamp 1), qd_last_admitted := Some (Instant 10)\<rparr>"

theorem unrepresentable_interval_counts_twice_witness:
  "qd_work (snd (terminate_query demo_view (OutFailed unrepresentable_interval)
      (snd (finish_mapping duration_max demo_view (demo_mapped 1) None AnalysisRequired (Instant 11) stuck_query)))) WorkFailed = 1"
proof -
  have ok: "query_ok stuck_query"
    by (simp add: query_ok_def stuck_query_def query_new_def max_in_flight_def numeral_2_eq_2 pending_stamp_def)
  have st: "qd_terminal stuck_query = None" "qd_processing stuck_query = Some (mm_stamp (demo_mapped 1))"
    "pending_stamp stuck_query = Some (mm_stamp (demo_mapped 1))"
    "\<not> (AnalysisRequired = Unchanged \<and> sy_observations (qd_stability stuck_query) = 0)"
    "qd_last_admitted stuck_query = Some (Instant 10)"
    by (simp_all add: stuck_query_def query_new_def pending_stamp_def)
  have t: "saturating_duration_since (Instant 11) (Instant 10) < duration_max" "instant_checked_add (Instant 10) duration_max = None"
    by (simp_all add: duration_max_def duration_checked_add_def)
  from unrepresentable_interval_counts_twice [OF ok st(1-3) demo_no_refusal st(4,5) t, of None demo_view] show ?thesis
    by (auto simp: increment_def stuck_query_def query_new_def work_new_def saturating_add_def)
qed

end
