(* ===== verification/WatchCapacity.thy ===== *)
theory WatchCapacity
  imports Status
begin

text \<open>
  The seats of the watch scheduler, \<open>crates/automation/runtime/src/watch.rs\<close>: every query, template or text, holds
  one of the engine's and one of its session's; a session with a query is active, and only so many may be. Each
  section under the session's \<open>activation\<close> lock, and each atomic access outside it, is one function; a step
  relation lets any number of queries, acquisition threads and physical text analyses make them in any order.
\<close>

section \<open>The state\<close>

record seat =
  se_active :: nat
  se_activated :: bool
  se_closed :: bool
  se_ended :: bool
  se_running :: bool
  se_physical :: nat

record 's pool =
  pl_queries :: nat
  pl_sessions :: nat
  pl_closed :: bool
  pl_registry :: "'s list"
  pl_seats :: "'s \<Rightarrow> seat"

definition max_engine_queries :: nat where "max_engine_queries = 256"
definition max_active_sessions :: nat where "max_active_sessions = 16"
definition max_session_queries :: nat where "max_session_queries = 64"

definition seat_new :: seat where
  "seat_new = \<lparr>se_active = 0, se_activated = False, se_closed = False, se_ended = False, se_running = False, se_physical = 0\<rparr>"

definition pool_new :: "'s pool" where
  "pool_new = \<lparr>pl_queries = 0, pl_sessions = 0, pl_closed = False, pl_registry = [], pl_seats = \<lambda>_. seat_new\<rparr>"

definition with_seat :: "'s \<Rightarrow> (seat \<Rightarrow> seat) \<Rightarrow> 's pool \<Rightarrow> 's pool" where
  "with_seat s f p = p\<lparr>pl_seats := (pl_seats p)(s := f (pl_seats p s))\<rparr>"

text \<open>\<open>fetch_sub(1)\<close> on an \<open>AtomicUsize\<close> wraps.\<close>

definition fetch_dec :: "nat \<Rightarrow> nat" where
  "fetch_dec n = (if n = 0 then 2 ^ 64 - 1 else n - 1)"

section \<open>Operations\<close>

definition reserve :: "nat \<Rightarrow> nat \<Rightarrow> string \<Rightarrow> error + nat" where
  "reserve counter limit name =
     (if counter < limit then Inr (counter + 1) else Inl (mk_error LimitExceeded (name @ '' was reached'')))"

definition reserve_engine :: "'s pool \<Rightarrow> error + 's pool" where
  "reserve_engine p =
     (case reserve (pl_queries p) max_engine_queries ''engine template query capacity'' of
        Inl e \<Rightarrow> Inl e | Inr n \<Rightarrow> Inr (p\<lparr>pl_queries := n\<rparr>))"

definition reserve_query_slot :: "'s \<Rightarrow> 's pool \<Rightarrow> error + 's pool" where
  "reserve_query_slot s p =
     (let seat = pl_seats p s
      in if se_closed seat \<or> se_ended seat \<or> pl_closed p
         then Inl (mk_error Closed ''template watcher closed before query reservation'')
         else if se_active seat \<ge> max_session_queries
         then Inl (mk_error LimitExceeded ''session template query capacity was reached'')
         else
           (case (if se_active seat = 0 \<and> \<not> se_activated seat
                  then (case reserve (pl_sessions p) max_active_sessions ''active template watcher session capacity'' of
                          Inl e \<Rightarrow> Inl e
                        | Inr n \<Rightarrow> Inr (with_seat s (\<lambda>x. x\<lparr>se_activated := True\<rparr>)
                            (p\<lparr>pl_sessions := n,
                               pl_registry := (if s \<in> set (pl_registry p) then pl_registry p else pl_registry p @ [s])\<rparr>)))
                  else Inr p) of
              Inl e \<Rightarrow> Inl e
            | Inr p \<Rightarrow> Inr (with_seat s (\<lambda>x. x\<lparr>se_active := se_active seat + 1\<rparr>) p)))"

definition release_query_reservation :: "'s pool \<Rightarrow> 's pool" where
  "release_query_reservation p = p\<lparr>pl_queries := fetch_dec (pl_queries p)\<rparr>"

definition deactivate_locked :: "'s \<Rightarrow> 's pool \<Rightarrow> 's pool" where
  "deactivate_locked s p =
     (let seat = pl_seats p s
      in if se_physical seat \<noteq> 0 \<or> \<not> se_activated seat then p
         else (with_seat s (\<lambda>x. x\<lparr>se_activated := False\<rparr>) p)
                \<lparr>pl_sessions := fetch_dec (pl_sessions p), pl_registry := removeAll s (pl_registry p)\<rparr>)"

definition release_query_slot :: "'s \<Rightarrow> 's pool \<Rightarrow> 's pool" where
  "release_query_slot s p =
     (let active = se_active (pl_seats p s)
      in if active = 0 then p
         else (let p = with_seat s (\<lambda>x. x\<lparr>se_active := active - 1\<rparr>) p
               in if active = 1 \<and> \<not> se_running (pl_seats p s) then deactivate_locked s p else p))"

definition deactivate_if_finished :: "'s \<Rightarrow> 's pool \<Rightarrow> 's pool" where
  "deactivate_if_finished s p =
     (if se_active (pl_seats p s) = 0 \<and> \<not> se_running (pl_seats p s) then deactivate_locked s p else p)"

text \<open>The end of \<open>acquisition_loop\<close>, in the generation that is current.\<close>

definition acquisition_end :: "'s \<Rightarrow> 's pool \<Rightarrow> 's pool" where
  "acquisition_end s p =
     with_seat s (\<lambda>x. x\<lparr>se_running := False\<rparr>)
       (if se_active (pl_seats p s) = 0 then deactivate_locked s p else p)"

text \<open>
  Which sessions \<open>session_snapshot\<close> and \<open>ordered_sessions\<close> keep in the registry, and which of them they return.
\<close>

definition session_kept :: "'s pool \<Rightarrow> 's \<Rightarrow> bool" where
  "session_kept p s \<longleftrightarrow> se_activated (pl_seats p s) \<or> se_active (pl_seats p s) \<noteq> 0"

definition session_snapshot :: "'s pool \<Rightarrow> 's list \<times> 's pool" where
  "session_snapshot p =
     (filter (\<lambda>s. session_kept p s \<and> se_active (pl_seats p s) \<noteq> 0 \<and> \<not> se_closed (pl_seats p s)) (pl_registry p),
      p\<lparr>pl_registry := filter (session_kept p) (pl_registry p)\<rparr>)"

section \<open>Steps\<close>

text \<open>
  A query from its start to the release of its reservation, which an atomic flag lets happen once: the engine's
  seat goes first, then the session's. A physical text analysis counts against its session until it is dropped.
\<close>

datatype 's seat_pc =
    SeatNone | SeatEngine 's | SeatTaken 's | SeatRefused | SeatSlot 's | SeatDone

datatype 's lease_pc = LeaseNone | LeasePhysical 's | LeaseDropping 's

record ('q, 'l, 's) capacity =
  cp_pool :: "'s pool"
  cp_query :: "'q \<Rightarrow> 's seat_pc"
  cp_lease :: "'l \<Rightarrow> 's lease_pc"

definition capacity_new :: "('q, 'l, 's) capacity" where
  "capacity_new = \<lparr>cp_pool = pool_new, cp_query = \<lambda>_. SeatNone, cp_lease = \<lambda>_. LeaseNone\<rparr>"

definition seat_step :: "('q, 'l, 's) capacity \<Rightarrow> 'q \<Rightarrow> 's seat_pc \<Rightarrow> 's pool \<Rightarrow> ('q, 'l, 's) capacity" where
  "seat_step c q pc p = c\<lparr>cp_query := (cp_query c)(q := pc), cp_pool := p\<rparr>"

definition lease_step :: "('q, 'l, 's) capacity \<Rightarrow> 'l \<Rightarrow> 's lease_pc \<Rightarrow> 's pool \<Rightarrow> ('q, 'l, 's) capacity" where
  "lease_step c l pc p = c\<lparr>cp_lease := (cp_lease c)(l := pc), cp_pool := p\<rparr>"

inductive capacity_step :: "('q, 'l, 's) capacity \<Rightarrow> ('q, 'l, 's) capacity \<Rightarrow> bool" where
  k_engine: "cp_query c q = SeatNone \<Longrightarrow> reserve_engine (cp_pool c) = Inr p \<Longrightarrow>
      capacity_step c (seat_step c q (SeatEngine s) p)"
| k_seat: "cp_query c q = SeatEngine s \<Longrightarrow> reserve_query_slot s (cp_pool c) = Inr p \<Longrightarrow>
      capacity_step c (seat_step c q (SeatTaken s) p)"
| k_refused: "cp_query c q = SeatEngine s \<Longrightarrow> reserve_query_slot s (cp_pool c) = Inl e \<Longrightarrow>
      capacity_step c (seat_step c q SeatRefused (cp_pool c))"
| k_back: "cp_query c q = SeatRefused \<Longrightarrow>
      capacity_step c (seat_step c q SeatDone (release_query_reservation (cp_pool c)))"
| k_release: "cp_query c q = SeatTaken s \<Longrightarrow>
      capacity_step c (seat_step c q (SeatSlot s) (release_query_reservation (cp_pool c)))"
| k_slot: "cp_query c q = SeatSlot s \<Longrightarrow>
      capacity_step c (seat_step c q SeatDone (release_query_slot s (cp_pool c)))"
| k_acquire: "\<not> se_running (pl_seats (cp_pool c) s) \<Longrightarrow>
      capacity_step c (c\<lparr>cp_pool := with_seat s (\<lambda>x. x\<lparr>se_running := True\<rparr>) (cp_pool c)\<rparr>)"
| k_acquired: "se_running (pl_seats (cp_pool c) s) \<Longrightarrow>
      capacity_step c (c\<lparr>cp_pool := acquisition_end s (cp_pool c)\<rparr>)"
| k_physical: "cp_lease c l = LeaseNone \<Longrightarrow>
      capacity_step c (lease_step c l (LeasePhysical s)
        (with_seat s (\<lambda>x. x\<lparr>se_physical := se_physical x + 1\<rparr>) (cp_pool c)))"
| k_drop: "cp_lease c l = LeasePhysical s \<Longrightarrow>
      capacity_step c (lease_step c l (LeaseDropping s)
        (with_seat s (\<lambda>x. x\<lparr>se_physical := fetch_dec (se_physical x)\<rparr>) (cp_pool c)))"
| k_dropped: "cp_lease c l = LeaseDropping s \<Longrightarrow>
      capacity_step c (lease_step c l LeaseNone (deactivate_if_finished s (cp_pool c)))"
| k_finish: "capacity_step c (c\<lparr>cp_pool := deactivate_if_finished s (cp_pool c)\<rparr>)"
| k_close_session: "capacity_step c (c\<lparr>cp_pool := with_seat s (\<lambda>x. x\<lparr>se_closed := True\<rparr>) (cp_pool c)\<rparr>)"
| k_source_ended: "capacity_step c (c\<lparr>cp_pool := with_seat s (\<lambda>x. x\<lparr>se_ended := True\<rparr>) (cp_pool c)\<rparr>)"
| k_snapshot: "capacity_step c (c\<lparr>cp_pool := snd (session_snapshot (cp_pool c))\<rparr>)"
| k_close: "capacity_step c (c\<lparr>cp_pool := (cp_pool c)\<lparr>pl_closed := True\<rparr>\<rparr>)"
| k_taken: "pl_closed (cp_pool c) \<Longrightarrow> capacity_step c (c\<lparr>cp_pool := (cp_pool c)\<lparr>pl_registry := []\<rparr>\<rparr>)"

definition capacity_reachable :: "('q, 'l, 's) capacity \<Rightarrow> bool" where
  "capacity_reachable c \<longleftrightarrow> capacity_step\<^sup>*\<^sup>* capacity_new c"

section \<open>The invariant\<close>

fun holds_engine :: "'s seat_pc \<Rightarrow> bool" where
  "holds_engine (SeatEngine s) = True"
| "holds_engine (SeatTaken s) = True"
| "holds_engine SeatRefused = True"
| "holds_engine _ = False"

fun holds_slot :: "'s \<Rightarrow> 's seat_pc \<Rightarrow> bool" where
  "holds_slot s (SeatTaken s') = (s' = s)"
| "holds_slot s (SeatSlot s') = (s' = s)"
| "holds_slot s _ = False"

definition counts_ok :: "('q, 'l, 's) capacity \<Rightarrow> bool" where
  "counts_ok c \<longleftrightarrow> finite {q. cp_query c q \<noteq> SeatNone} \<and> finite {l. cp_lease c l \<noteq> LeaseNone}
     \<and> pl_queries (cp_pool c) = card {q. holds_engine (cp_query c q)}
     \<and> (\<forall>s. se_active (pl_seats (cp_pool c) s) = card {q. holds_slot s (cp_query c q)})
     \<and> (\<forall>s. se_physical (pl_seats (cp_pool c) s) = card {l. cp_lease c l = LeasePhysical s})"

definition limits_ok :: "'s pool \<Rightarrow> bool" where
  "limits_ok p \<longleftrightarrow> pl_queries p \<le> max_engine_queries \<and> pl_sessions p \<le> max_active_sessions
     \<and> (\<forall>s. se_active (pl_seats p s) \<le> max_session_queries)
     \<and> finite {s. se_activated (pl_seats p s)} \<and> pl_sessions p = card {s. se_activated (pl_seats p s)}
     \<and> (\<forall>s. se_active (pl_seats p s) \<noteq> 0 \<longrightarrow> se_activated (pl_seats p s))
     \<and> distinct (pl_registry p) \<and> (\<forall>s \<in> set (pl_registry p). se_activated (pl_seats p s))
     \<and> (\<not> pl_closed p \<longrightarrow> (\<forall>s. se_activated (pl_seats p s) \<longrightarrow> s \<in> set (pl_registry p)))"

text \<open>An active session without a query is kept by its acquisition thread or by a physical analysis.\<close>

definition kept_active :: "('q, 'l, 's) capacity \<Rightarrow> bool" where
  "kept_active c \<longleftrightarrow> (\<forall>s. se_activated (pl_seats (cp_pool c) s) \<and> se_active (pl_seats (cp_pool c) s) = 0 \<longrightarrow>
     se_running (pl_seats (cp_pool c) s) \<or> se_physical (pl_seats (cp_pool c) s) \<noteq> 0
     \<or> (\<exists>l. cp_lease c l = LeaseDropping s))"

section \<open>The limits\<close>

lemma seats_with_seat [simp]:
  "pl_seats (with_seat s f p) t = (if t = s then f (pl_seats p s) else pl_seats p t)"
  "pl_queries (with_seat s f p) = pl_queries p" "pl_sessions (with_seat s f p) = pl_sessions p"
  "pl_closed (with_seat s f p) = pl_closed p" "pl_registry (with_seat s f p) = pl_registry p"
  by (simp_all add: with_seat_def)

lemma fetch_dec_pos: "n \<noteq> 0 \<Longrightarrow> fetch_dec n = n - 1"
  by (simp add: fetch_dec_def)

lemma limits_same:
  assumes "limits_ok p" "\<And>s. se_active (pl_seats p' s) = se_active (pl_seats p s)"
    "\<And>s. se_activated (pl_seats p' s) = se_activated (pl_seats p s)"
    "pl_queries p' \<le> max_engine_queries" "pl_sessions p' = pl_sessions p"
    "distinct (pl_registry p')" "set (pl_registry p') \<subseteq> set (pl_registry p)"
    "\<not> pl_closed p' \<Longrightarrow> \<not> pl_closed p \<and> (\<forall>s. se_activated (pl_seats p s) \<longrightarrow> s \<in> set (pl_registry p) \<longrightarrow> s \<in> set (pl_registry p'))"
  shows "limits_ok p'"
  using assms unfolding limits_ok_def by auto

lemma limitsI:
  assumes "\<And>t. se_activated (pl_seats p t) \<longleftrightarrow> t \<in> A" "finite A" "pl_sessions p = card A"
    "pl_queries p \<le> max_engine_queries" "pl_sessions p \<le> max_active_sessions"
    "\<And>t. se_active (pl_seats p t) \<le> max_session_queries" "\<And>t. se_active (pl_seats p t) \<noteq> 0 \<Longrightarrow> t \<in> A"
    "distinct (pl_registry p)" "set (pl_registry p) \<subseteq> A" "\<not> pl_closed p \<Longrightarrow> A \<subseteq> set (pl_registry p)"
  shows "limits_ok p"
proof -
  have "{t. se_activated (pl_seats p t)} = A" using assms(1) by auto
  then show ?thesis using assms unfolding limits_ok_def by auto
qed

lemma limitsD:
  assumes "limits_ok p"
  shows "finite {s. se_activated (pl_seats p s)}" "pl_sessions p = card {s. se_activated (pl_seats p s)}"
    "pl_queries p \<le> max_engine_queries" "pl_sessions p \<le> max_active_sessions"
    "se_active (pl_seats p s) \<le> max_session_queries"
    "se_active (pl_seats p s) \<noteq> 0 \<Longrightarrow> se_activated (pl_seats p s)"
    "distinct (pl_registry p)" "s \<in> set (pl_registry p) \<Longrightarrow> se_activated (pl_seats p s)"
    "\<not> pl_closed p \<Longrightarrow> se_activated (pl_seats p s) \<Longrightarrow> s \<in> set (pl_registry p)"
  using assms by (simp_all add: limits_ok_def)

lemma limits_with_seat:
  assumes "limits_ok p" "\<And>x. se_active (f x) = se_active x" "\<And>x. se_activated (f x) = se_activated x"
  shows "limits_ok (with_seat s f p)"
  by (rule limits_same [OF assms(1)]) (use assms in \<open>auto simp: limits_ok_def\<close>)

lemma limits_deactivate:
  assumes ok: "limits_ok p" and idle: "se_active (pl_seats p s) = 0"
  shows "limits_ok (deactivate_locked s p)"
proof (cases "se_physical (pl_seats p s) \<noteq> 0 \<or> \<not> se_activated (pl_seats p s)")
  case True
  then show ?thesis using ok by (simp add: deactivate_locked_def)
next
  case False
  let ?A = "{t. se_activated (pl_seats p t)}"
  note d = limitsD [OF ok]
  have p': "deactivate_locked s p = (with_seat s (\<lambda>x. x\<lparr>se_activated := False\<rparr>) p)
                \<lparr>pl_sessions := fetch_dec (pl_sessions p), pl_registry := removeAll s (pl_registry p)\<rparr>"
    using False by (simp add: deactivate_locked_def)
  have pos: "card ?A \<noteq> 0" using False d(1) by (auto simp: card_eq_0_iff)
  have n: "fetch_dec (pl_sessions p) = card (?A - {s})"
    using False d(1) pos by (simp add: fetch_dec_pos d(2))
  have le: "fetch_dec (pl_sessions p) \<le> max_active_sessions"
    using pos d(4) by (simp add: fetch_dec_pos d(2))
  show ?thesis
    unfolding p'
  proof (rule limitsI [where A = "?A - {s}"], goal_cases)
    case 10
    then show ?case using d(9) by auto
  qed (use d(1,3) d(5) d(6) d(7) d(8) n le idle in \<open>auto simp: distinct_removeAll split: if_splits\<close>)
qed

lemma deactivate_sel [simp]:
  "se_active (pl_seats (deactivate_locked s p) t) = se_active (pl_seats p t)"
  "se_physical (pl_seats (deactivate_locked s p) t) = se_physical (pl_seats p t)"
  "se_running (pl_seats (deactivate_locked s p) t) = se_running (pl_seats p t)"
  "pl_queries (deactivate_locked s p) = pl_queries p" "pl_closed (deactivate_locked s p) = pl_closed p"
  by (simp_all add: deactivate_locked_def Let_def)

lemma deactivate_activated:
  "se_activated (pl_seats (deactivate_locked s p) t) =
     (if t = s \<and> se_physical (pl_seats p s) = 0 then False else se_activated (pl_seats p t))"
  by (simp add: deactivate_locked_def Let_def)

lemma limits_finished: "limits_ok p \<Longrightarrow> limits_ok (deactivate_if_finished s p)"
  by (simp add: deactivate_if_finished_def limits_deactivate)

lemma limits_acquisition_end: "limits_ok p \<Longrightarrow> limits_ok (acquisition_end s p)"
  unfolding acquisition_end_def by (intro limits_with_seat) (auto intro: limits_deactivate)

lemma limits_set_active:
  assumes ok: "limits_ok p" and "n \<le> max_session_queries" "n \<noteq> 0 \<Longrightarrow> se_activated (pl_seats p s)"
  shows "limits_ok (with_seat s (\<lambda>x. x\<lparr>se_active := n\<rparr>) p)"
  by (rule limitsI [where A = "{t. se_activated (pl_seats p t)}"])
    (use limitsD [OF ok] assms in \<open>auto split: if_splits\<close>)

lemma limits_release_slot:
  assumes ok: "limits_ok p"
  shows "limits_ok (release_query_slot s p)"
proof -
  have "limits_ok (with_seat s (\<lambda>x. x\<lparr>se_active := se_active (pl_seats p s) - 1\<rparr>) p)"
    using limitsD [OF ok] by (intro limits_set_active ok) (auto intro: le_trans [OF diff_le_self])
  then show ?thesis
    by (auto simp: release_query_slot_def Let_def ok intro!: limits_deactivate)
qed

lemma reserve_Inr: "reserve n limit name = Inr m \<longleftrightarrow> n < limit \<and> m = n + 1"
  by (auto simp: reserve_def)

lemma limits_reserve_engine: "limits_ok p \<Longrightarrow> reserve_engine p = Inr p' \<Longrightarrow> limits_ok p'"
  by (auto simp: reserve_engine_def reserve_Inr limits_ok_def split: sum.splits)

lemma limits_activate:
  assumes ok: "limits_ok p" and few: "pl_sessions p < max_active_sessions"
    and off: "\<not> se_activated (pl_seats p s)"
  shows "limits_ok (with_seat s (\<lambda>x. x\<lparr>se_activated := True\<rparr>)
    (p\<lparr>pl_sessions := pl_sessions p + 1,
       pl_registry := (if s \<in> set (pl_registry p) then pl_registry p else pl_registry p @ [s])\<rparr>))"
proof (rule limitsI [where A = "insert s {t. se_activated (pl_seats p t)}"], goal_cases)
  case 3
  then show ?case using limitsD(1,2) [OF ok] off by simp
next
  case 10
  then show ?case using limitsD(9) [OF ok] by auto
qed (use limitsD [OF ok] few in \<open>auto split: if_splits\<close>)

lemma reserve_slot_cases:
  assumes "reserve_query_slot s p = Inr p'"
  obtains (more) "\<not> (se_active (pl_seats p s) = 0 \<and> \<not> se_activated (pl_seats p s))"
      "p' = with_seat s (\<lambda>x. x\<lparr>se_active := se_active (pl_seats p s) + 1\<rparr>) p"
      "se_active (pl_seats p s) < max_session_queries"
  | (first) "se_active (pl_seats p s) = 0" "\<not> se_activated (pl_seats p s)" "pl_sessions p < max_active_sessions"
      "p' = with_seat s (\<lambda>x. x\<lparr>se_active := se_active (pl_seats p s) + 1\<rparr>) (with_seat s (\<lambda>x. x\<lparr>se_activated := True\<rparr>)
        (p\<lparr>pl_sessions := pl_sessions p + 1,
           pl_registry := (if s \<in> set (pl_registry p) then pl_registry p else pl_registry p @ [s])\<rparr>))"
proof (cases "se_active (pl_seats p s) = 0 \<and> \<not> se_activated (pl_seats p s)")
  case True
  with assms show ?thesis
    by (intro first) (simp_all add: reserve_query_slot_def Let_def reserve_Inr split: if_splits sum.splits)
next
  case False
  then have "p' = with_seat s (\<lambda>x. x\<lparr>se_active := se_active (pl_seats p s) + 1\<rparr>) p"
    "se_active (pl_seats p s) < max_session_queries"
    using assms by (auto simp: reserve_query_slot_def Let_def split: if_splits)
  with False show ?thesis by (rule more)
qed

lemma limits_reserve_slot:
  assumes ok: "limits_ok p" and r: "reserve_query_slot s p = Inr p'"
  shows "limits_ok p'"
  using r
proof (cases rule: reserve_slot_cases)
  case more
  then show ?thesis using ok limitsD(6) [OF ok] by (auto intro!: limits_set_active)
next
  case first
  then show ?thesis
    using limits_activate [OF ok first(3,2)] by (auto intro!: limits_set_active simp: max_session_queries_def)
qed

lemma limits_snapshot:
  assumes ok: "limits_ok p"
  shows "limits_ok (snd (session_snapshot p))"
  by (rule limits_same [OF ok]) (use ok in \<open>auto simp: session_snapshot_def session_kept_def limits_ok_def\<close>)

section \<open>The counts\<close>

lemma counts_finite:
  assumes "counts_ok c"
  shows "finite {q. holds_engine (cp_query c q)}" "finite {q. holds_slot s (cp_query c q)}"
    "finite {l. cp_lease c l = LeasePhysical s}"
proof -
  have q: "finite {q. cp_query c q \<noteq> SeatNone}" and l: "finite {l. cp_lease c l \<noteq> LeaseNone}"
    using assms by (simp_all add: counts_ok_def)
  show "finite {q. holds_engine (cp_query c q)}" by (rule finite_subset [OF _ q]) auto
  show "finite {q. holds_slot s (cp_query c q)}" by (rule finite_subset [OF _ q]) auto
  show "finite {l. cp_lease c l = LeasePhysical s}" by (rule finite_subset [OF _ l]) auto
qed

lemma counts_pool:
  assumes "counts_ok c" "pl_queries p = pl_queries (cp_pool c)"
    "\<And>s. se_active (pl_seats p s) = se_active (pl_seats (cp_pool c) s)"
    "\<And>s. se_physical (pl_seats p s) = se_physical (pl_seats (cp_pool c) s)"
  shows "counts_ok (c\<lparr>cp_pool := p\<rparr>)"
  using assms unfolding counts_ok_def by simp

lemma counts_seat_step:
  assumes ok: "counts_ok c"
    and e: "pl_queries p + of_bool (holds_engine (cp_query c q)) = pl_queries (cp_pool c) + of_bool (holds_engine pc)"
    and a: "\<And>s. se_active (pl_seats p s) + of_bool (holds_slot s (cp_query c q))
        = se_active (pl_seats (cp_pool c) s) + of_bool (holds_slot s pc)"
    and ph: "\<And>s. se_physical (pl_seats p s) = se_physical (pl_seats (cp_pool c) s)"
  shows "counts_ok (seat_step c q pc p)"
proof -
  have "finite {t. ((cp_query c)(q := pc)) t \<noteq> SeatNone}"
    by (rule finite_subset [of _ "insert q {t. cp_query c t \<noteq> SeatNone}"]) (use ok in \<open>auto simp: counts_ok_def\<close>)
  moreover have "pl_queries p = card {t. holds_engine (((cp_query c)(q := pc)) t)}"
    using card_update [of holds_engine, OF counts_finite(1) [OF ok], of q pc] e ok
    by (simp add: counts_ok_def of_bool_def split: if_splits)
  moreover have "se_active (pl_seats p s) = card {t. holds_slot s (((cp_query c)(q := pc)) t)}" for s
    using card_update [of "holds_slot s", OF counts_finite(2) [OF ok], of q pc] a [of s] ok
    by (simp add: counts_ok_def of_bool_def split: if_splits)
  ultimately show ?thesis using ok ph by (simp add: counts_ok_def seat_step_def del: fun_upd_apply)
qed

lemma counts_lease_step:
  assumes ok: "counts_ok c" and e: "pl_queries p = pl_queries (cp_pool c)"
    and a: "\<And>s. se_active (pl_seats p s) = se_active (pl_seats (cp_pool c) s)"
    and ph: "\<And>s. se_physical (pl_seats p s) + of_bool (cp_lease c l = LeasePhysical s)
        = se_physical (pl_seats (cp_pool c) s) + of_bool (pc = LeasePhysical s)"
  shows "counts_ok (lease_step c l pc p)"
proof -
  have "finite {t. ((cp_lease c)(l := pc)) t \<noteq> LeaseNone}"
    by (rule finite_subset [of _ "insert l {t. cp_lease c t \<noteq> LeaseNone}"]) (use ok in \<open>auto simp: counts_ok_def\<close>)
  moreover have "se_physical (pl_seats p s) = card {t. ((cp_lease c)(l := pc)) t = LeasePhysical s}" for s
    using card_update [of "\<lambda>x. x = LeasePhysical s", OF counts_finite(3) [OF ok], of l pc] ph [of s] ok
    by (simp add: counts_ok_def of_bool_def split: if_splits)
  ultimately show ?thesis using ok e a by (simp add: counts_ok_def lease_step_def del: fun_upd_apply)
qed

lemma holds_positive:
  assumes "counts_ok c"
  shows "holds_engine (cp_query c q) \<Longrightarrow> pl_queries (cp_pool c) \<noteq> 0"
    "holds_slot s (cp_query c q) \<Longrightarrow> se_active (pl_seats (cp_pool c) s) \<noteq> 0"
    "cp_lease c l = LeasePhysical s \<Longrightarrow> se_physical (pl_seats (cp_pool c) s) \<noteq> 0"
  using assms counts_finite [OF assms] by (auto simp: counts_ok_def card_eq_0_iff)

lemma active_release_slot:
  "se_active (pl_seats (release_query_slot s p) t) = se_active (pl_seats p t) - of_bool (t = s)"
  "se_physical (pl_seats (release_query_slot s p) t) = se_physical (pl_seats p t)"
  "se_running (pl_seats (release_query_slot s p) t) = se_running (pl_seats p t)"
  "pl_queries (release_query_slot s p) = pl_queries p"
  by (auto simp: release_query_slot_def Let_def)

lemma active_reserve_slot:
  assumes "reserve_query_slot s p = Inr p'"
  shows "se_active (pl_seats p' t) = se_active (pl_seats p t) + of_bool (t = s)"
    "se_physical (pl_seats p' t) = se_physical (pl_seats p t)"
    "se_running (pl_seats p' t) = se_running (pl_seats p t)"
    "se_activated (pl_seats p' t) \<Longrightarrow> se_activated (pl_seats p t) \<or> t = s"
    "pl_queries p' = pl_queries p"
  using assms by (cases rule: reserve_slot_cases; auto split: if_splits)+

lemma sel_finished [simp]:
  "se_active (pl_seats (deactivate_if_finished s p) t) = se_active (pl_seats p t)"
  "se_physical (pl_seats (deactivate_if_finished s p) t) = se_physical (pl_seats p t)"
  "se_running (pl_seats (deactivate_if_finished s p) t) = se_running (pl_seats p t)"
  "pl_queries (deactivate_if_finished s p) = pl_queries p"
  by (simp_all add: deactivate_if_finished_def)

lemma sel_acquisition_end [simp]:
  "se_active (pl_seats (acquisition_end s p) t) = se_active (pl_seats p t)"
  "se_physical (pl_seats (acquisition_end s p) t) = se_physical (pl_seats p t)"
  "pl_queries (acquisition_end s p) = pl_queries p"
  by (simp_all add: acquisition_end_def)

lemma sel_snapshot [simp]:
  "pl_seats (snd (session_snapshot p)) = pl_seats p" "pl_queries (snd (session_snapshot p)) = pl_queries p"
  by (simp_all add: session_snapshot_def)

lemma reserve_engine_Inr:
  "reserve_engine p = Inr p' \<longleftrightarrow> pl_queries p < max_engine_queries \<and> p' = p\<lparr>pl_queries := pl_queries p + 1\<rparr>"
  by (auto simp: reserve_engine_def reserve_def)

lemma counts_step:
  assumes "capacity_step c c'" "counts_ok c"
  shows "counts_ok c'"
  using assms
proof (induction rule: capacity_step.induct)
  case (k_engine c q p s)
  then show ?case by (intro counts_seat_step) (auto simp: reserve_engine_Inr)
next
  case (k_seat c q s p)
  then show ?case
    using active_reserve_slot [OF k_seat(2)] by (intro counts_seat_step) auto
next
  case (k_refused c q s e)
  then show ?case by (intro counts_seat_step) auto
next
  case (k_back c q)
  then show ?case
    using holds_positive(1) [OF k_back(2), of q]
    by (intro counts_seat_step) (auto simp: release_query_reservation_def fetch_dec_pos)
next
  case (k_release c q s)
  then show ?case
    using holds_positive(1) [OF k_release(2), of q]
    by (intro counts_seat_step) (auto simp: release_query_reservation_def fetch_dec_pos)
next
  case (k_slot c q s)
  then show ?case
    using holds_positive(2) [OF k_slot(2), of s q]
    by (intro counts_seat_step) (auto simp: active_release_slot)
next
  case (k_physical c l s)
  then show ?case by (intro counts_lease_step) auto
next
  case (k_drop c l s)
  then show ?case
    using holds_positive(3) [OF k_drop(2), of l s] by (intro counts_lease_step) (auto simp: fetch_dec_pos)
next
  case (k_dropped c l s)
  then show ?case by (intro counts_lease_step) auto
qed (auto intro!: counts_pool)

section \<open>Who keeps a session active\<close>

lemma limits_release:
  assumes "limits_ok p" "pl_queries p \<noteq> 0"
  shows "limits_ok (release_query_reservation p)"
  by (rule limits_same [OF assms(1)])
    (use assms limitsD(3,7) [OF assms(1)] in \<open>auto simp: release_query_reservation_def fetch_dec_pos\<close>)

lemma limits_step:
  assumes "capacity_step c c'" "limits_ok (cp_pool c)" "counts_ok c"
  shows "limits_ok (cp_pool c')"
  using assms
proof (induction rule: capacity_step.induct)
  case (k_engine c q p s)
  then show ?case by (simp add: seat_step_def limits_reserve_engine)
next
  case (k_seat c q s p)
  then show ?case by (simp add: seat_step_def limits_reserve_slot)
next
  case (k_back c q)
  then show ?case using holds_positive(1) [OF k_back(3), of q] by (simp add: seat_step_def limits_release)
next
  case (k_release c q s)
  then show ?case using holds_positive(1) [OF k_release(3), of q] by (simp add: seat_step_def limits_release)
next
  case (k_taken c)
  then show ?case by (auto intro!: limits_same [OF k_taken(2)] dest: limitsD(3))
next
  case (k_close c)
  then show ?case by (auto intro!: limits_same [OF k_close(1)] dest: limitsD(3,7))
qed (auto simp: seat_step_def lease_step_def intro: limits_release_slot limits_finished limits_acquisition_end
  limits_snapshot intro!: limits_with_seat)

lemma activated_finished:
  "se_activated (pl_seats (deactivate_if_finished s p) t) \<Longrightarrow> se_activated (pl_seats p t) \<and>
     (t = s \<longrightarrow> se_active (pl_seats p s) = 0 \<longrightarrow> se_running (pl_seats p s) \<or> se_physical (pl_seats p s) \<noteq> 0)"
  by (auto simp: deactivate_if_finished_def deactivate_activated split: if_splits)

lemma activated_acquisition_end:
  "se_activated (pl_seats (acquisition_end s p) t) \<Longrightarrow> se_activated (pl_seats p t) \<and>
     (t = s \<longrightarrow> se_active (pl_seats p s) = 0 \<longrightarrow> se_physical (pl_seats p s) \<noteq> 0)"
  by (auto simp: acquisition_end_def deactivate_activated split: if_splits)

lemma running_acquisition_end:
  "se_running (pl_seats (acquisition_end s p) t) \<longleftrightarrow> t \<noteq> s \<and> se_running (pl_seats p t)"
  by (simp add: acquisition_end_def)

lemma activated_release_slot:
  "se_activated (pl_seats (release_query_slot s p) t) \<Longrightarrow> se_activated (pl_seats p t) \<and>
     (t = s \<longrightarrow> se_active (pl_seats p s) = 1 \<longrightarrow> se_running (pl_seats p s) \<or> se_physical (pl_seats p s) \<noteq> 0)"
  by (auto simp: release_query_slot_def Let_def deactivate_activated split: if_splits)

lemma kept_pool:
  assumes "kept_active c" "\<And>l t. cp_lease c l = LeaseDropping t \<Longrightarrow> cp_lease c' l = LeaseDropping t"
    "\<And>t. se_activated (pl_seats (cp_pool c') t) \<Longrightarrow> se_active (pl_seats (cp_pool c') t) = 0 \<Longrightarrow>
       se_running (pl_seats (cp_pool c') t) \<or> se_physical (pl_seats (cp_pool c') t) \<noteq> 0
       \<or> (\<exists>l. cp_lease c' l = LeaseDropping t) \<or> (se_activated (pl_seats (cp_pool c) t) \<and> se_active (pl_seats (cp_pool c) t) = 0
          \<and> (se_running (pl_seats (cp_pool c) t) \<longrightarrow> se_running (pl_seats (cp_pool c') t))
          \<and> se_physical (pl_seats (cp_pool c') t) = se_physical (pl_seats (cp_pool c) t))"
  shows "kept_active c'"
  using assms unfolding kept_active_def by metis

lemma kept_step:
  assumes "capacity_step c c'" "kept_active c"
  shows "kept_active c'"
  using assms
proof (induction rule: capacity_step.induct)
  case (k_engine c q p s)
  then show ?case by (intro kept_pool [OF k_engine(3)]) (auto simp: seat_step_def reserve_engine_Inr)
next
  case (k_seat c q s p)
  then show ?case
    by (intro kept_pool [OF k_seat(3)])
      (auto simp: seat_step_def active_reserve_slot(1-3) [OF k_seat(2)] dest: active_reserve_slot(4) [OF k_seat(2)])
next
  case (k_slot c q s)
  then show ?case
    by (intro kept_pool [OF k_slot(2)])
      (auto simp: seat_step_def active_release_slot of_bool_def split: if_splits dest!: activated_release_slot)
next
  case (k_acquired c s)
  then show ?case
    by (intro kept_pool [OF k_acquired(2)])
      (auto simp: running_acquisition_end dest!: activated_acquisition_end)
next
  case (k_physical c l s)
  then show ?case by (intro kept_pool [OF k_physical(2)]) (auto simp: lease_step_def split: if_splits)
next
  case (k_drop c l s)
  then show ?case by (intro kept_pool [OF k_drop(2)]) (auto simp: lease_step_def split: if_splits)
next
  case (k_dropped c l s)
  then show ?case
    unfolding kept_active_def lease_step_def
    by (auto dest!: activated_finished) (metis lease_pc.inject(2) less_irrefl)+
next
  case (k_finish c s)
  then show ?case by (intro kept_pool [OF k_finish]) (auto dest!: activated_finished)
qed (erule kept_pool; auto simp: seat_step_def release_query_reservation_def split: if_splits)+

definition capacity_ok :: "('q, 'l, 's) capacity \<Rightarrow> bool" where
  "capacity_ok c \<longleftrightarrow> counts_ok c \<and> limits_ok (cp_pool c) \<and> kept_active c"

lemma capacity_ok_new: "capacity_ok capacity_new"
  by (simp add: capacity_ok_def counts_ok_def limits_ok_def kept_active_def capacity_new_def pool_new_def
      seat_new_def)

lemma capacity_ok_step: "capacity_step c c' \<Longrightarrow> capacity_ok c \<Longrightarrow> capacity_ok c'"
  by (auto simp: capacity_ok_def intro: counts_step limits_step kept_step)

interpretation wc: invariant_machine capacity_step capacity_new capacity_ok
  by unfold_locales (auto intro: capacity_ok_new capacity_ok_step)

lemma capacity_invariant: "capacity_reachable c \<Longrightarrow> capacity_ok c"
  unfolding capacity_reachable_def by (rule wc.inv_reachable)

section \<open>Properties\<close>

text \<open>
  C14: the capacity limits of the watch scheduler are exact under any interleaving: the engine's counter is the number
  of queries that hold a seat and at most 256, each session's is the number of its queries and at most 64, and the
  sessions counted are the active ones, at most 16; no counter is ever decremented below zero, and while the
  scheduler is open every session with a query and not yet closed is in its registry, once.
\<close>
theorem watch_capacity_exact:
  assumes "capacity_reachable c"
  shows "pl_queries (cp_pool c) = card {q. holds_engine (cp_query c q)} \<and> pl_queries (cp_pool c) \<le> 256
    \<and> se_active (pl_seats (cp_pool c) s) = card {q. holds_slot s (cp_query c q)}
    \<and> se_active (pl_seats (cp_pool c) s) \<le> 64
    \<and> pl_sessions (cp_pool c) = card {t. se_activated (pl_seats (cp_pool c) t)} \<and> pl_sessions (cp_pool c) \<le> 16
    \<and> (holds_engine (cp_query c q) \<longrightarrow> pl_queries (release_query_reservation (cp_pool c)) + 1 = pl_queries (cp_pool c))
    \<and> distinct (pl_registry (cp_pool c))
    \<and> (se_active (pl_seats (cp_pool c) s) \<noteq> 0 \<longrightarrow> se_activated (pl_seats (cp_pool c) s)
         \<and> (\<not> pl_closed (cp_pool c) \<longrightarrow> s \<in> set (fst (session_snapshot (cp_pool c))) \<or> se_closed (pl_seats (cp_pool c) s)))"
proof -
  have ok: "counts_ok c" "limits_ok (cp_pool c)"
    using capacity_invariant [OF assms] by (simp_all add: capacity_ok_def)
  note d = limitsD [OF ok(2)]
  have "pl_queries (release_query_reservation (cp_pool c)) + 1 = pl_queries (cp_pool c)"
    if "holds_engine (cp_query c q)"
    using holds_positive(1) [OF ok(1) that] by (simp add: release_query_reservation_def fetch_dec_pos)
  moreover have "s \<in> set (fst (session_snapshot (cp_pool c)))"
    if "se_active (pl_seats (cp_pool c) s) \<noteq> 0" "\<not> pl_closed (cp_pool c)" "\<not> se_closed (pl_seats (cp_pool c) s)"
    using that d(6) d(9) by (simp add: session_snapshot_def session_kept_def)
  ultimately show ?thesis
    using ok(1) d(2-4,7) d(5) [of s] d(6) [of s]
    by (auto simp: counts_ok_def max_engine_queries_def max_active_sessions_def max_session_queries_def)
qed

definition capacity_sample :: "(nat, nat, nat) capacity" where
  "capacity_sample = seat_step capacity_new 1 (SeatEngine 2) (pool_new\<lparr>pl_queries := 1\<rparr>)"

lemma capacity_sample_reachable: "capacity_reachable capacity_sample"
  unfolding capacity_reachable_def capacity_sample_def
  by (intro r_into_rtranclp k_engine) (auto simp: reserve_engine_Inr capacity_new_def pool_new_def max_engine_queries_def)

theorem watch_capacity_exact_witness:
  "pl_queries (cp_pool capacity_sample) = card {q. holds_engine (cp_query capacity_sample q)}
   \<and> pl_queries (cp_pool capacity_sample) = 1
   \<and> pl_queries (release_query_reservation (cp_pool capacity_sample)) = 0"
  using watch_capacity_exact [OF capacity_sample_reachable, of 2 1]
  by (simp add: capacity_sample_def seat_step_def)

text \<open>
  C15: no seat leaks: once every query has ended or never started, no acquisition thread runs and no text analysis
  is still out, all seats are free: the engine's and every session's counter is zero, no session counts as active,
  and an open scheduler's registry is empty. A session that had used its last seat can be started on again.
\<close>
theorem watch_capacity_never_leaks:
  assumes "capacity_reachable c"
    and "\<forall>q. cp_query c q = SeatNone \<or> cp_query c q = SeatDone"
    and "\<forall>s. \<not> se_running (pl_seats (cp_pool c) s)" and "\<forall>l. cp_lease c l = LeaseNone"
  shows "pl_queries (cp_pool c) = 0 \<and> pl_sessions (cp_pool c) = 0 \<and> pl_registry (cp_pool c) = []
    \<and> se_active (pl_seats (cp_pool c) s) = 0 \<and> se_physical (pl_seats (cp_pool c) s) = 0
    \<and> \<not> se_activated (pl_seats (cp_pool c) s)
    \<and> (\<not> pl_closed (cp_pool c) \<and> \<not> se_closed (pl_seats (cp_pool c) s) \<and> \<not> se_ended (pl_seats (cp_pool c) s) \<longrightarrow>
         (\<exists>p p'. reserve_engine (cp_pool c) = Inr p \<and> reserve_query_slot s p = Inr p'))"
proof -
  have ok: "counts_ok c" "limits_ok (cp_pool c)" "kept_active c"
    using capacity_invariant [OF assms(1)] by (simp_all add: capacity_ok_def)
  note d = limitsD [OF ok(2)]
  have pcs: "\<not> holds_engine (cp_query c q)" "\<not> holds_slot s (cp_query c q)" for q s
    using assms(2) by (metis holds_engine.simps(4,6) holds_slot.simps(3,6))+
  have zero: "pl_queries (cp_pool c) = 0" "se_active (pl_seats (cp_pool c) s) = 0"
    "se_physical (pl_seats (cp_pool c) s) = 0" for s
    using ok(1) pcs assms(4) by (simp_all add: counts_ok_def)
  have idle: "\<not> se_activated (pl_seats (cp_pool c) s)" for s
    using ok(3) zero assms(3,4) unfolding kept_active_def by auto
  have reg: "pl_registry (cp_pool c) = []"
    using d(8) idle by (metis list.set_intros(1) neq_Nil_conv)
  have none: "pl_sessions (cp_pool c) = 0" using d(2) idle by simp
  have "\<exists>p p'. reserve_engine (cp_pool c) = Inr p \<and> reserve_query_slot s p = Inr p'"
    if "\<not> pl_closed (cp_pool c)" "\<not> se_closed (pl_seats (cp_pool c) s)" "\<not> se_ended (pl_seats (cp_pool c) s)"
    using that zero idle none
    by (simp add: reserve_engine_Inr reserve_query_slot_def reserve_def max_engine_queries_def
        max_session_queries_def max_active_sessions_def)
  with zero idle reg none show ?thesis by blast
qed

text \<open>A query of session 2 from its start to the release of its seats, and its pool on the way.\<close>

definition pool_taken :: "nat pool" where
  "pool_taken = \<lparr>pl_queries = 1, pl_sessions = 1, pl_closed = False, pl_registry = [2],
     pl_seats = (\<lambda>_. seat_new)(2 := seat_new\<lparr>se_active := 1, se_activated := True\<rparr>)\<rparr>"

definition capacity_cycle :: "(nat, nat, nat) capacity" where
  "capacity_cycle = seat_step capacity_new 1 SeatDone (release_query_slot 2 (release_query_reservation pool_taken))"

lemma seat_step_again: "seat_step (seat_step c q pc p) q pc' p' = seat_step c q pc' p'"
  by (simp add: seat_step_def)

lemma capacity_cycle_reachable: "capacity_reachable capacity_cycle"
proof -
  let ?c = "\<lambda>pc p. seat_step capacity_new (1 :: nat) pc p :: (nat, nat, nat) capacity"
  have "capacity_step\<^sup>*\<^sup>* capacity_new (?c (SeatEngine 2) (pool_new\<lparr>pl_queries := 1\<rparr>))"
    using capacity_sample_reachable by (simp add: capacity_reachable_def capacity_sample_def)
  also have "capacity_step \<dots> (?c (SeatTaken 2) pool_taken)"
    using k_seat [of "?c (SeatEngine 2) (pool_new\<lparr>pl_queries := 1\<rparr>)" 1 2 pool_taken]
    by (simp add: seat_step_again)
      (simp add: seat_step_def reserve_query_slot_def reserve_def pool_new_def seat_new_def pool_taken_def
        max_session_queries_def max_active_sessions_def with_seat_def)
  also have "capacity_step \<dots> (?c (SeatSlot 2) (release_query_reservation pool_taken))"
    using k_release [of "?c (SeatTaken 2) pool_taken" 1 2] by (simp add: seat_step_again) (simp add: seat_step_def)
  also have "capacity_step \<dots> capacity_cycle"
    using k_slot [of "?c (SeatSlot 2) (release_query_reservation pool_taken)" 1 2]
    by (simp add: seat_step_again capacity_cycle_def) (simp add: seat_step_def)
  finally show ?thesis by (simp add: capacity_reachable_def)
qed

theorem watch_capacity_never_leaks_witness:
  "pl_sessions pool_taken = 1 \<and> pl_sessions (cp_pool capacity_cycle) = 0 \<and> pl_registry (cp_pool capacity_cycle) = []
   \<and> pl_queries (cp_pool capacity_cycle) = 0"
proof -
  have "cp_query capacity_cycle = (\<lambda>_. SeatNone)(1 := SeatDone)" "cp_lease capacity_cycle = (\<lambda>_. LeaseNone)"
    "\<forall>s. \<not> se_running (pl_seats (cp_pool capacity_cycle) s)"
    by (simp_all add: capacity_cycle_def seat_step_def capacity_new_def active_release_slot
        release_query_reservation_def pool_taken_def seat_new_def)
  then show ?thesis
    using watch_capacity_never_leaks [OF capacity_cycle_reachable, of 0] by (simp add: pool_taken_def)
qed

end
