(* ===== verification/PeakSelection.thy ===== *)
theory PeakSelection
  imports VisionModel "HOL-Library.Product_Lexorder"
begin

text \<open>
  The selection of peaks from a correlation map, \<open>crates/backend/opencv/src/candidates.rs\<close>: the best offsets
  in descending score with row-major ties, chosen through a heap of one upper bound per row that is repaired
  only when it turns out stale, with looks at the caller's clock and token every 4,096 offsets.

  Beside it stand the plain greedy search over the whole map, a calculus for computations that look at the
  caller's clock, and what one scan of a slice answers.

  A raw value is the \<open>f64\<close> the code widens it to. A value of \<open>None\<close> is a panic or a loop that never ends.
\<close>

section \<open>Data\<close>

record peak =
  pk_left :: nat
  pk_top :: nat
  pk_score :: f64

record peak_search =
  ps_width :: nat
  ps_height :: nat
  ps_template_width :: nat
  ps_template_height :: nat
  ps_min_score :: f64
  ps_budget :: nat
  ps_suppression :: suppression

record row_winner =
  rw_index :: nat
  rw_score :: f64

text \<open>The selection's work: its operation, the offsets handled since its last look, and the world it looks at.\<close>

record 'w selection_work =
  sw_operation :: operation
  sw_since :: nat
  sw_world :: 'w

type_synonym ('w, 'a) selection = "((interruption + 'a) \<times> 'w selection_work) option"

definition checkpoint_offsets :: nat where "checkpoint_offsets = 4096"

definition usize_max :: nat where "usize_max = usize_limit - 1"

definition public_score :: "f64 \<Rightarrow> f64" where
  "public_score raw = (if flt raw (Fin 0) then Fin 0 else if flt (Fin 1) raw then Fin 1 else raw)"

definition winner_peak :: "nat \<Rightarrow> row_winner \<Rightarrow> peak" where
  "winner_peak width r = \<lparr>pk_left = rw_index r mod width, pk_top = rw_index r div width, pk_score = rw_score r\<rparr>"

text \<open>\<open>RowWinner::cmp\<close>, as \<open>a > b\<close>.\<close>

definition winner_greater :: "row_winner \<Rightarrow> row_winner \<Rightarrow> bool" where
  "winner_greater a b =
     (if flt (rw_score b) (rw_score a) then True
      else if flt (rw_score a) (rw_score b) then False
      else rw_index a < rw_index b)"

text \<open>
  A \<open>BinaryHeap\<close> is the list of its elements, in no order that matters; what it shows is its greatest element,
  or with \<open>Reverse\<close> its least.
\<close>

fun heap_greatest :: "row_winner list \<Rightarrow> row_winner option" where
  "heap_greatest [] = None"
| "heap_greatest (x # xs) =
     (case heap_greatest xs of None \<Rightarrow> Some x | Some y \<Rightarrow> Some (if winner_greater y x then y else x))"

fun heap_weakest :: "row_winner list \<Rightarrow> row_winner option" where
  "heap_weakest [] = None"
| "heap_weakest (x # xs) =
     (case heap_weakest xs of None \<Rightarrow> Some x | Some y \<Rightarrow> Some (if winner_greater x y then y else x))"

section \<open>Looks\<close>

definition work_bind :: "('w, 'a) selection \<Rightarrow> ('a \<Rightarrow> 'w selection_work \<Rightarrow> ('w, 'b) selection) \<Rightarrow> ('w, 'b) selection" where
  "work_bind m f =
     Option.bind m (\<lambda>r. case r of (Inl i, w) \<Rightarrow> Some (Inl i, w) | (Inr x, w) \<Rightarrow> f x w)"

definition work_return :: "'a \<Rightarrow> 'w selection_work \<Rightarrow> ('w, 'a) selection" where
  "work_return x w = Some (Inr x, w)"

definition look_work :: "('w \<Rightarrow> observation \<times> 'w) \<Rightarrow> 'w selection_work \<Rightarrow> ('w, unit) selection" where
  "look_work look w =
     (let (ob, world) = look (sw_world w); (r, att) = checkpoint (sw_operation w) ob
      in Some (r, w\<lparr>sw_operation := att, sw_world := world\<rparr>))"

definition advance :: "('w \<Rightarrow> observation \<times> 'w) \<Rightarrow> nat \<Rightarrow> 'w selection_work \<Rightarrow> ('w, unit) selection" where
  "advance look offsets w =
     (let w = w\<lparr>sw_since := sw_since w + offsets\<rparr>
      in if sw_since w = checkpoint_offsets then look_work look (w\<lparr>sw_since := 0\<rparr>) else work_return () w)"

definition commit_work :: "('w \<Rightarrow> observation \<times> 'w) \<Rightarrow> 'a \<Rightarrow> 'w selection_work \<Rightarrow> ('w, 'a) selection" where
  "commit_work look x w =
     (let (ob, world) = look (sw_world w) in Some (commit (sw_operation w) ob x, w\<lparr>sw_world := world\<rparr>))"

definition is_live :: "('w \<Rightarrow> observation \<times> 'w) \<Rightarrow> f64 \<Rightarrow> 'w selection_work \<Rightarrow> ('w, bool) selection" where
  "is_live look v w = work_bind (advance look 1 w) (\<lambda>_. work_return (is_finite v))"

lemma work_bind_mono [partial_function_mono]:
  assumes "mono_option B" "\<And>x w. mono_option (\<lambda>f. C x w f)"
  shows "mono_option (\<lambda>f. work_bind (B f) (\<lambda>x w. C x w f))"
proof -
  have "mono_option (\<lambda>f. case r of (Inl i, w) \<Rightarrow> Some (Inl i, w) | (Inr x, w) \<Rightarrow> C x w f)" for r
    using assms(2) by (cases r; cases "fst r") (auto intro: monotoneI simp: flat_ord_def monotone_def fun_ord_def)
  then show ?thesis unfolding work_bind_def by (intro bind_mono assms(1)) simp
qed

section \<open>The greatest value of a slice\<close>

text \<open>
  One chunk: the columns looked at when a score of one ends the search, the best so far and its score.
\<close>

fun scan_chunk :: "nat \<Rightarrow> f64 list \<Rightarrow> nat \<Rightarrow> row_winner option \<Rightarrow> f64 \<Rightarrow> nat option \<times> row_winner option \<times> f64" where
  "scan_chunk base [] column best best_score = (None, best, best_score)"
| "scan_chunk base (v # vs) column best best_score =
     (if \<not> is_finite v \<or> fle v best_score then scan_chunk base vs (column + 1) best best_score
      else (let score = public_score v
            in if flt best_score score
               then (let best = Some \<lparr>rw_index = base + column, rw_score = score\<rparr>
                     in if fle (Fin 1) score then (Some (column + 1), best, score)
                        else scan_chunk base vs (column + 1) best score)
               else scan_chunk base vs (column + 1) best best_score))"

definition filter_min :: "f64 \<Rightarrow> row_winner option \<Rightarrow> row_winner option" where
  "filter_min min_score best =
     (case best of None \<Rightarrow> None | Some r \<Rightarrow> if fle min_score (rw_score r) then Some r else None)"

partial_function (option) greatest_from ::
    "('w \<Rightarrow> observation \<times> 'w) \<Rightarrow> f64 list \<Rightarrow> nat \<Rightarrow> f64 \<Rightarrow> row_winner option \<Rightarrow> f64 \<Rightarrow> nat
     \<Rightarrow> 'w selection_work \<Rightarrow> ('w, row_winner option) selection" where
  "greatest_from look values first_index min_score best best_score scanned w =
     (if scanned < length values
      then (let count = min (checkpoint_offsets - sw_since w) (length values - scanned);
                (visited, best, best_score) =
                  scan_chunk (first_index + scanned) (take count (drop scanned values)) 0 best best_score
            in case visited of
                 Some n \<Rightarrow> work_bind (advance look n w) (\<lambda>_. work_return (filter_min min_score best))
               | None \<Rightarrow> work_bind (advance look count w) (\<lambda>_.
                   greatest_from look values first_index min_score best best_score (scanned + count)))
      else work_return (filter_min min_score best) w)"

definition greatest ::
    "('w \<Rightarrow> observation \<times> 'w) \<Rightarrow> f64 list \<Rightarrow> nat \<Rightarrow> f64 \<Rightarrow> 'w selection_work \<Rightarrow> ('w, row_winner option) selection" where
  "greatest look values first_index min_score w = greatest_from look values first_index min_score None NInf 0 w"

section \<open>Suppression\<close>

partial_function (option) suppress_cells ::
    "('w \<Rightarrow> observation \<times> 'w) \<Rightarrow> nat \<Rightarrow> nat \<Rightarrow> f64 list \<Rightarrow> 'w selection_work \<Rightarrow> ('w, f64 list) selection" where
  "suppress_cells look start stop rest w =
     (if start < stop
      then (let count = min (checkpoint_offsets - sw_since w) (stop - start)
            in if start + count \<le> length rest
               then work_bind (advance look count w) (\<lambda>_. suppress_cells look (start + count) stop
                      (take start rest @ replicate count NaN @ drop (start + count) rest))
               else None)
      else work_return rest w)"

fun suppress_rows ::
    "('w \<Rightarrow> observation \<times> 'w) \<Rightarrow> nat \<Rightarrow> nat \<Rightarrow> nat \<Rightarrow> nat list \<Rightarrow> f64 list \<Rightarrow> 'w selection_work
     \<Rightarrow> ('w, f64 list) selection" where
  "suppress_rows look width first_column last_column [] rest w = work_return rest w"
| "suppress_rows look width first_column last_column (row # rows) rest w =
     work_bind (suppress_cells look (row * width + first_column) (row * width + last_column + 1) rest w)
       (suppress_rows look width first_column last_column rows)"

definition suppress_peak ::
    "('w \<Rightarrow> observation \<times> 'w) \<Rightarrow> peak_search \<Rightarrow> peak \<Rightarrow> f64 list \<Rightarrow> 'w selection_work \<Rightarrow> ('w, f64 list) selection" where
  "suppress_peak look s p rest w =
     (if ps_suppression s \<noteq> DropOverlapping
      then (let i = pk_top p * ps_width s + pk_left p
            in if i < length rest
               then work_bind (advance look 1 w) (\<lambda>_. work_return (rest[i := NaN]))
               else None)
      else (let first_row = pk_top p - (ps_template_height s - 1);
                last_row = min (min usize_max (pk_top p + (ps_template_height s - 1))) (ps_height s - 1);
                first_column = pk_left p - (ps_template_width s - 1);
                last_column = min (min usize_max (pk_left p + (ps_template_width s - 1))) (ps_width s - 1)
            in suppress_rows look (ps_width s) first_column last_column [first_row ..< last_row + 1] rest w))"

section \<open>The selection\<close>

definition row_slice :: "nat \<Rightarrow> nat \<Rightarrow> f64 list \<Rightarrow> f64 list option" where
  "row_slice start width rest =
     (if start + width \<le> length rest then Some (take width (drop start rest)) else None)"

fun all_row_winners ::
    "('w \<Rightarrow> observation \<times> 'w) \<Rightarrow> peak_search \<Rightarrow> f64 list \<Rightarrow> nat list \<Rightarrow> row_winner list \<Rightarrow> 'w selection_work
     \<Rightarrow> ('w, row_winner list) selection" where
  "all_row_winners look s rest [] heap w = work_return heap w"
| "all_row_winners look s rest (row # rows) heap w =
     work_bind (greatest look (take (ps_width s) (drop (row * ps_width s) rest)) (row * ps_width s)
         (ps_min_score s) w)
       (\<lambda>winner. all_row_winners look s rest rows (case winner of None \<Rightarrow> heap | Some r \<Rightarrow> r # heap))"

definition keep_best :: "nat \<Rightarrow> row_winner option \<Rightarrow> row_winner list \<Rightarrow> row_winner list" where
  "keep_best budget winner heap =
     (case winner of
        None \<Rightarrow> heap
      | Some r \<Rightarrow>
          if length heap < budget then r # heap
          else (case heap_weakest heap of
                  None \<Rightarrow> heap
                | Some weakest \<Rightarrow> if winner_greater r weakest then r # remove1 weakest heap else heap))"

fun best_row_winners ::
    "('w \<Rightarrow> observation \<times> 'w) \<Rightarrow> peak_search \<Rightarrow> f64 list \<Rightarrow> nat list \<Rightarrow> row_winner list \<Rightarrow> 'w selection_work
     \<Rightarrow> ('w, row_winner list) selection" where
  "best_row_winners look s rest [] heap w = work_return heap w"
| "best_row_winners look s rest (row # rows) heap w =
     work_bind (greatest look (take (ps_width s) (drop (row * ps_width s) rest)) (row * ps_width s)
         (ps_min_score s) w)
       (\<lambda>winner. best_row_winners look s rest rows (keep_best (ps_budget s) winner heap))"

partial_function (option) select_loop ::
    "('w \<Rightarrow> observation \<times> 'w) \<Rightarrow> peak_search \<Rightarrow> row_winner list \<Rightarrow> f64 list \<Rightarrow> peak list \<Rightarrow> 'w selection_work
     \<Rightarrow> ('w, peak list) selection" where
  "select_loop look s heap rest found w =
     (if length found < ps_budget s
      then (case heap_greatest heap of
              None \<Rightarrow> work_return found w
            | Some winner \<Rightarrow>
                if rw_index winner < length rest
                then work_bind (is_live look (rest ! rw_index winner) w) (\<lambda>live w.
                  if \<not> live
                  then (let start = rw_index winner div ps_width s * ps_width s
                        in Option.bind (row_slice start (ps_width s) rest) (\<lambda>row.
                             work_bind (greatest look row start (ps_min_score s) w) (\<lambda>repaired.
                               select_loop look s
                                 (case repaired of None \<Rightarrow> remove1 winner heap | Some r \<Rightarrow> r # remove1 winner heap)
                                 rest found)))
                  else (let p = winner_peak (ps_width s) winner; found = found @ [p]
                        in if length found = ps_budget s then work_return found w
                           else work_bind (suppress_peak look s p rest w)
                                  (\<lambda>rest. select_loop look s heap rest found)))
                else None)
      else work_return found w)"

text \<open>Where the search has nothing to do.\<close>

definition nothing_to_select :: "f64 list \<Rightarrow> peak_search \<Rightarrow> bool" where
  "nothing_to_select scores s \<longleftrightarrow> usize_max < ps_width s * ps_height s \<or> ps_width s * ps_height s = 0
     \<or> length scores < ps_width s * ps_height s \<or> ps_budget s = 0
     \<or> ps_template_width s = 0 \<or> ps_template_height s = 0"

definition initial_rows ::
    "('w \<Rightarrow> observation \<times> 'w) \<Rightarrow> peak_search \<Rightarrow> f64 list \<Rightarrow> 'w selection_work \<Rightarrow> ('w, row_winner list) selection" where
  "initial_rows look s rest w =
     (if ps_suppression s = KeepAll \<and> ps_budget s < ps_height s
      then work_bind (best_row_winners look s rest [0 ..< length rest div ps_width s] [] w) (\<lambda>heap w.
           work_bind (look_work look w) (\<lambda>_ w.
           work_bind (look_work look w) (\<lambda>_. work_return heap)))
      else all_row_winners look s rest [0 ..< length rest div ps_width s] [] w)"

definition peaks ::
    "('w \<Rightarrow> observation \<times> 'w) \<Rightarrow> f64 list \<Rightarrow> peak_search \<Rightarrow> operation_context \<Rightarrow> 'w \<Rightarrow> ('w, peak list) selection" where
  "peaks look scores s c world =
     (let (ob, world) = look world
      in case admit c ob of
           Inl i \<Rightarrow> Some (Inl i, \<lparr>sw_operation = \<lparr>op_context = c, op_terminal = Some i\<rparr>, sw_since = 0, sw_world = world\<rparr>)
         | Inr att \<Rightarrow>
             (let w = \<lparr>sw_operation = att, sw_since = 0, sw_world = world\<rparr>
              in if nothing_to_select scores s then commit_work look [] w
                 else (let rest = take (ps_width s * ps_height s) scores
                       in work_bind
                            (if ps_budget s = 1
                             then work_bind (greatest look rest 0 (ps_min_score s) w) (\<lambda>winner.
                                    work_return (case winner of None \<Rightarrow> [] | Some r \<Rightarrow> [winner_peak (ps_width s) r]))
                             else work_bind (initial_rows look s rest w) (\<lambda>heap.
                                    select_loop look s heap rest []))
                            (commit_work look))))"

section \<open>The greedy search it stands for\<close>

text \<open>The repeated full-map search of the tests, \<open>candidates::tests::reference\<close>.\<close>

fun reference_best :: "nat \<Rightarrow> f64 list \<Rightarrow> (nat \<times> f64) option \<Rightarrow> (nat \<times> f64) option" where
  "reference_best index [] best = best"
| "reference_best index (v # vs) best =
     reference_best (index + 1) vs
       (if is_finite v \<and> (case best of None \<Rightarrow> True | Some (_, current) \<Rightarrow> flt current (public_score v))
        then Some (index, public_score v) else best)"

definition reference_removes :: "peak_search \<Rightarrow> nat \<Rightarrow> nat \<Rightarrow> bool" where
  "reference_removes s i other \<longleftrightarrow>
     (if ps_suppression s = DropOverlapping
      then \<bar>int (other mod ps_width s) - int (i mod ps_width s)\<bar> < int (ps_template_width s)
         \<and> \<bar>int (other div ps_width s) - int (i div ps_width s)\<bar> < int (ps_template_height s)
      else other = i)"

definition reference_remove :: "peak_search \<Rightarrow> nat \<Rightarrow> f64 list \<Rightarrow> f64 list" where
  "reference_remove s i rest = map (\<lambda>j. if reference_removes s i j then NaN else rest ! j) [0 ..< length rest]"

fun reference_select :: "peak_search \<Rightarrow> nat \<Rightarrow> f64 list \<Rightarrow> peak list" where
  "reference_select s 0 rest = []"
| "reference_select s (Suc n) rest =
     (case reference_best 0 rest None of
        None \<Rightarrow> []
      | Some (i, score) \<Rightarrow>
          if flt score (ps_min_score s) then []
          else \<lparr>pk_left = i mod ps_width s, pk_top = i div ps_width s, pk_score = score\<rparr>
                 # reference_select s n (reference_remove s i rest))"

definition reference_peaks :: "f64 list \<Rightarrow> peak_search \<Rightarrow> peak list" where
  "reference_peaks scores s =
     (if nothing_to_select scores s then []
      else reference_select s (ps_budget s) (take (ps_width s * ps_height s) scores))"

section \<open>What a computation yields\<close>

text \<open>
  A computation that starts on a ready work returns; it stops early only with an interruption that a look shows,
  and what it returns satisfies the postcondition and leaves the work ready.
\<close>

definition ready :: "operation_context \<Rightarrow> 'w selection_work \<Rightarrow> bool" where
  "ready c w \<longleftrightarrow> sw_since w < checkpoint_offsets \<and> op_context (sw_operation w) = c \<and> op_terminal (sw_operation w) = None"

definition shows_interruption :: "('w \<Rightarrow> observation \<times> 'w) \<Rightarrow> operation_context \<Rightarrow> interruption \<Rightarrow> bool" where
  "shows_interruption look c i \<longleftrightarrow> (\<exists>w. context_interruption c (fst (look w)) = Some i)"

definition yields ::
    "('w \<Rightarrow> observation \<times> 'w) \<Rightarrow> operation_context \<Rightarrow> ('w, 'a) selection \<Rightarrow> ('a \<Rightarrow> bool) \<Rightarrow> bool" where
  "yields look c m Q \<longleftrightarrow> (\<exists>r w. m = Some (r, w)
     \<and> (case r of Inl i \<Rightarrow> shows_interruption look c i | Inr x \<Rightarrow> ready c w \<and> Q x))"

lemma yields_return: "ready c w \<Longrightarrow> Q x \<Longrightarrow> yields look c (work_return x w) Q"
  by (simp add: yields_def work_return_def)

lemma yields_bind:
  assumes "yields look c m P" and "\<And>x w. ready c w \<Longrightarrow> P x \<Longrightarrow> yields look c (f x w) Q"
  shows "yields look c (work_bind m f) Q"
proof -
  obtain r w where m: "m = Some (r, w)"
    and r: "case r of Inl i \<Rightarrow> shows_interruption look c i | Inr x \<Rightarrow> ready c w \<and> P x"
    using assms(1) by (auto simp: yields_def)
  show ?thesis
  proof (cases r)
    case (Inl i)
    then show ?thesis using m r by (simp add: yields_def work_bind_def)
  next
    case (Inr x)
    then show ?thesis using m r assms(2) [of w x] by (simp add: work_bind_def)
  qed
qed

lemma yields_mono: "yields look c m P \<Longrightarrow> (\<And>x. P x \<Longrightarrow> Q x) \<Longrightarrow> yields look c m Q"
  unfolding yields_def by (elim exE) (case_tac r; auto)

lemma yields_look:
  assumes "op_context (sw_operation w) = c" "op_terminal (sw_operation w) = None" "sw_since w < checkpoint_offsets"
  shows "yields look c (look_work look w) (\<lambda>_. True)"
proof -
  obtain ob world where l: "look (sw_world w) = (ob, world)" by fastforce
  show ?thesis
    using assms l
    by (auto simp: yields_def look_work_def checkpoint_def ready_def shows_interruption_def split: option.split)
      (metis fst_conv)
qed

lemma yields_advance:
  assumes "ready c w" "sw_since w + n \<le> checkpoint_offsets"
  shows "yields look c (advance look n w) (\<lambda>_. True)"
  using assms yields_look [of "w\<lparr>sw_since := 0\<rparr>" c look]
  by (auto simp: advance_def Let_def ready_def checkpoint_offsets_def intro!: yields_return)

lemma yields_is_live: "ready c w \<Longrightarrow> yields look c (is_live look v w) (\<lambda>live. live = is_finite v)"
  unfolding is_live_def
  by (rule yields_bind [OF yields_advance]) (auto simp: ready_def intro: yields_return)

lemma yields_commit:
  assumes "ready c w"
  shows "\<exists>r w'. commit_work look x w = Some (r, w') \<and> (case r of Inl i \<Rightarrow> shows_interruption look c i | Inr y \<Rightarrow> y = x)"
proof -
  obtain ob world where l: "look (sw_world w) = (ob, world)" by fastforce
  show ?thesis
    using assms l
    by (auto simp: commit_work_def commit_def ready_def shows_interruption_def split: option.split) (metis fst_conv)
qed

section \<open>The greatest value of a slice\<close>

definition score_of :: "f64 \<Rightarrow> rat" where
  "score_of v = (case public_score v of Fin r \<Rightarrow> r | _ \<Rightarrow> 0)"

lemma public_score_finite:
  "is_finite v \<Longrightarrow> public_score v = Fin (score_of v)" "0 \<le> score_of v" "score_of v \<le> 1"
  by (cases v; simp add: public_score_def score_of_def)+

lemma finite_below: "is_finite v \<Longrightarrow> 0 \<le> r \<Longrightarrow> fle v (Fin r) \<Longrightarrow> score_of v \<le> r"
  by (cases v) (auto simp: public_score_def score_of_def)

text \<open>The earliest of the best scores among the first \<open>n\<close> values.\<close>

definition best_of :: "f64 list \<Rightarrow> nat \<Rightarrow> nat \<Rightarrow> bool" where
  "best_of values n k \<longleftrightarrow> k < n \<and> is_finite (values ! k) \<and>
     (\<forall>j<n. is_finite (values ! j) \<longrightarrow>
        score_of (values ! j) < score_of (values ! k) \<or> score_of (values ! j) = score_of (values ! k) \<and> k \<le> j)"

definition best_so_far :: "f64 list \<Rightarrow> nat \<Rightarrow> nat \<Rightarrow> row_winner option \<Rightarrow> f64 \<Rightarrow> bool" where
  "best_so_far values first_index n best best_score \<longleftrightarrow>
     (case best of
        None \<Rightarrow> best_score = NInf \<and> (\<forall>k<n. \<not> is_finite (values ! k))
      | Some r \<Rightarrow> (\<exists>k. best_of values n k \<and> best_score = Fin (score_of (values ! k))
          \<and> r = \<lparr>rw_index = first_index + k, rw_score = Fin (score_of (values ! k))\<rparr>))"

lemma best_so_far_skip:
  assumes "best_so_far values f n best bs" "\<not> is_finite (values ! n) \<or> fle (values ! n) bs \<or> \<not> flt bs (public_score (values ! n))"
  shows "best_so_far values f (Suc n) best bs"
proof (cases best)
  case None
  then have "\<not> is_finite (values ! n)"
    using assms public_score_finite(1) [of "values ! n"] by (cases "values ! n") (auto simp: best_so_far_def)
  then show ?thesis using None assms(1) by (auto simp: best_so_far_def less_Suc_eq)
next
  case (Some r)
  then obtain k where k: "best_of values n k" "bs = Fin (score_of (values ! k))"
    "r = \<lparr>rw_index = f + k, rw_score = Fin (score_of (values ! k))\<rparr>"
    using assms(1) by (auto simp: best_so_far_def)
  have "score_of (values ! n) \<le> score_of (values ! k)" if "is_finite (values ! n)"
    using assms(2) that finite_below [OF that public_score_finite(2)] public_score_finite(1) [OF that] k(2) by auto
  then have "best_of values (Suc n) k"
    using k(1) by (auto simp: best_of_def less_Suc_eq)
  then show ?thesis using Some k by (auto simp: best_so_far_def)
qed

lemma best_so_far_take:
  assumes "best_so_far values f n best bs" "is_finite (values ! n)" "flt bs (public_score (values ! n))"
  shows "best_so_far values f (Suc n) (Some \<lparr>rw_index = f + n, rw_score = public_score (values ! n)\<rparr>) (public_score (values ! n))"
proof -
  have p: "public_score (values ! n) = Fin (score_of (values ! n))" by (rule public_score_finite(1) [OF assms(2)])
  have "best_of values (Suc n) n"
  proof (cases best)
    case None
    then show ?thesis using assms by (auto simp: best_so_far_def best_of_def less_Suc_eq)
  next
    case (Some r)
    then obtain k where k: "best_of values n k" "bs = Fin (score_of (values ! k))"
      using assms(1) by (auto simp: best_so_far_def)
    then have "score_of (values ! k) < score_of (values ! n)" using assms(3) p by simp
    then show ?thesis using k(1) assms(2) by (fastforce simp: best_of_def less_Suc_eq)
  qed
  then show ?thesis using p by (auto simp: best_so_far_def)
qed

lemma best_so_far_top:
  assumes "best_so_far values f n (Some r) bs" "fle (Fin 1) bs" "n \<le> m"
  shows "best_so_far values f m (Some r) bs"
proof -
  obtain k where k: "best_of values n k" "bs = Fin (score_of (values ! k))"
    "r = \<lparr>rw_index = f + k, rw_score = Fin (score_of (values ! k))\<rparr>"
    using assms(1) by (auto simp: best_so_far_def)
  have one: "score_of (values ! k) = 1" using assms(2) k(2) public_score_finite(3) [of "values ! k"] by simp
  have "best_of values m k"
    using k(1) assms(3) unfolding best_of_def one
    by (metis le_trans less_le_trans linorder_le_cases linorder_less_linear not_le public_score_finite(3))
  then show ?thesis using k by (auto simp: best_so_far_def)
qed

lemma scan_chunk_best:
  assumes "best_so_far values f (n + col) best bs" "n + col + length vs \<le> length values"
    "\<And>i. i < length vs \<Longrightarrow> vs ! i = values ! (n + col + i)"
    "scan_chunk (f + n) vs col best bs = (visited, best', bs')"
  shows "case visited of
      None \<Rightarrow> best_so_far values f (n + col + length vs) best' bs'
    | Some v \<Rightarrow> v \<le> col + length vs \<and> best_so_far values f (length values) best' bs'"
  using assms
proof (induction vs arbitrary: col best bs)
  case Nil
  then show ?case by simp
next
  case (Cons v vs)
  have v: "v = values ! (n + col)" using Cons.prems(3) [of 0] by simp
  have rest: "vs ! i = values ! (n + Suc col + i)" if "i < length vs" for i
    using Cons.prems(3) [of "Suc i"] that by simp
  let ?s = "public_score v" let ?b = "Some \<lparr>rw_index = f + n + col, rw_score = ?s\<rparr>"
  consider (skip) "\<not> is_finite v \<or> fle v bs \<or> \<not> flt bs ?s"
    | (take) "is_finite v" "\<not> fle v bs" "flt bs ?s" by blast
  then show ?case
  proof cases
    case skip
    then have "best_so_far values f (n + Suc col) best bs"
      using best_so_far_skip [OF Cons.prems(1)] v by simp
    moreover have "scan_chunk (f + n) vs (Suc col) best bs = (visited, best', bs')"
      using skip Cons.prems(4) by (auto simp: Let_def split: if_splits)
    ultimately show ?thesis using Cons.IH [of "Suc col" best bs] Cons.prems(2) rest by (auto split: option.splits)
  next
    case take
    have b: "best_so_far values f (n + Suc col) ?b ?s"
      using best_so_far_take [OF Cons.prems(1)] take v by (simp add: add.assoc)
    show ?thesis
    proof (cases "fle (Fin 1) ?s")
      case True
      then have "visited = Some (Suc col)" "best' = ?b" "bs' = ?s"
        using Cons.prems(4) take by (auto simp: Let_def)
      then show ?thesis using best_so_far_top [OF b True] Cons.prems(2) by simp
    next
      case False
      then have "scan_chunk (f + n) vs (Suc col) ?b ?s = (visited, best', bs')"
        using Cons.prems(4) take by (auto simp: Let_def)
      then show ?thesis using Cons.IH [OF b] Cons.prems(2) rest by (auto split: option.splits)
    qed
  qed
qed

text \<open>What \<open>greatest\<close> answers: the best value of the slice when it is good enough.\<close>

definition greatest_answer :: "f64 list \<Rightarrow> nat \<Rightarrow> rat \<Rightarrow> row_winner option \<Rightarrow> bool" where
  "greatest_answer values first_index m answer \<longleftrightarrow>
     (case answer of
        None \<Rightarrow> \<forall>k<length values. is_finite (values ! k) \<longrightarrow> score_of (values ! k) < m
      | Some r \<Rightarrow> (\<exists>k. best_of values (length values) k \<and> m \<le> score_of (values ! k)
          \<and> r = \<lparr>rw_index = first_index + k, rw_score = Fin (score_of (values ! k))\<rparr>))"

lemma filter_min_answer:
  assumes "best_so_far values f (length values) best bs"
  shows "greatest_answer values f m (filter_min (Fin m) best)"
proof (cases best)
  case None
  then show ?thesis using assms by (simp add: best_so_far_def greatest_answer_def filter_min_def)
next
  case (Some r)
  then obtain k where k: "best_of values (length values) k"
    "r = \<lparr>rw_index = f + k, rw_score = Fin (score_of (values ! k))\<rparr>"
    using assms by (auto simp: best_so_far_def)
  then show ?thesis using Some by (fastforce simp: greatest_answer_def filter_min_def best_of_def)
qed

lemma greatest_from_answer:
  assumes "ready c w" "best_so_far values f n best bs" "n \<le> length values"
  shows "yields look c (greatest_from look values f (Fin m) best bs n w) (greatest_answer values f m)"
  using assms
proof (induction "length values - n" arbitrary: n best bs w rule: less_induct)
  case less
  show ?case
  proof (cases "n < length values")
    case False
    then show ?thesis using less.prems
      by (subst greatest_from.simps) (auto intro!: yields_return filter_min_answer)
  next
    case True
    define count where "count = min (checkpoint_offsets - sw_since w) (length values - n)"
    obtain visited best' bs' where sc: "scan_chunk (f + n) (take count (drop n values)) 0 best bs = (visited, best', bs')"
      by (metis prod_cases3)
    have pos: "0 < count" "n + count \<le> length values" "sw_since w + count \<le> checkpoint_offsets"
      using less.prems(1) True by (auto simp: count_def ready_def)
    note sound = scan_chunk_best [of _ f n 0 best bs "take count (drop n values)", OF _ _ _ sc]
    show ?thesis
    proof (cases visited)
      case None
      then have "best_so_far values f (n + count) best' bs'" using sound less.prems pos by simp
      then show ?thesis
        using None True sc pos less.hyps [of "n + count"] less.prems(1)
        by (subst greatest_from.simps)
          (auto simp: Let_def count_def [symmetric] intro!: yields_bind [OF yields_advance])
    next
      case (Some v)
      then have "v \<le> count" "best_so_far values f (length values) best' bs'" using sound less.prems pos by auto
      then show ?thesis
        using Some True sc pos less.prems(1)
        by (subst greatest_from.simps)
          (auto simp: Let_def count_def [symmetric] intro!: yields_bind [OF yields_advance] yields_return filter_min_answer)
    qed
  qed
qed

lemma greatest_yields:
  "ready c w \<Longrightarrow> yields look c (greatest look values f (Fin m) w) (greatest_answer values f m)"
  unfolding greatest_def by (rule greatest_from_answer) (auto simp: best_so_far_def)

end
