(* ===== verification/PeakGreedy.thy ===== *)
theory PeakGreedy
  imports PeakSelection
begin

text \<open>
  The selection of peaks returns what the plain greedy search returns: suppression removes exactly the offsets
  whose placement overlaps; the heap always holds a bound for every candidate that can still be selected, also
  when only the best rows were kept; a stale bound is repaired at most once before it is used.
\<close>

section \<open>Suppression removes what the reference removes\<close>

definition blanked :: "(nat \<Rightarrow> bool) \<Rightarrow> f64 list \<Rightarrow> f64 list" where
  "blanked P rest = map (\<lambda>j. if P j then NaN else rest ! j) [0 ..< length rest]"

lemma blanked_sel [simp]:
  "length (blanked P rest) = length rest"
  "j < length rest \<Longrightarrow> blanked P rest ! j = (if P j then NaN else rest ! j)"
  by (simp_all add: blanked_def)

lemma blanked_cong: "(\<And>j. j < length rest \<Longrightarrow> P j = Q j) \<Longrightarrow> blanked P rest = blanked Q rest"
  by (rule nth_equalityI) simp_all

lemma blanked_twice: "blanked P (blanked Q rest) = blanked (\<lambda>j. P j \<or> Q j) rest"
  by (rule nth_equalityI) simp_all

lemma blanked_none: "(\<And>j. j < length rest \<Longrightarrow> \<not> P j) \<Longrightarrow> blanked P rest = rest"
  by (rule nth_equalityI) simp_all

lemma blanked_one: "i < length rest \<Longrightarrow> rest[i := NaN] = blanked (\<lambda>j. j = i) rest"
  by (rule nth_equalityI) (simp_all add: nth_list_update)

lemma blanked_range:
  "start + n \<le> length rest \<Longrightarrow>
     take start rest @ replicate n NaN @ drop (start + n) rest
       = blanked (\<lambda>j. start \<le> j \<and> j < start + n) rest"
  by (rule nth_equalityI) (auto simp: nth_append)

lemma reference_remove_blanked: "reference_remove s i rest = blanked (reference_removes s i) rest"
  by (simp add: reference_remove_def blanked_def)

lemma suppress_cells_yields:
  assumes "ready c w" "stop \<le> length rest"
  shows "yields look c (suppress_cells look start stop rest w) (\<lambda>r. r = blanked (\<lambda>j. start \<le> j \<and> j < stop) rest)"
  using assms
proof (induction "stop - start" arbitrary: start rest w rule: less_induct)
  case less
  show ?case
  proof (cases "start < stop")
    case False
    then have "blanked (\<lambda>j. start \<le> j \<and> j < stop) rest = rest" by (intro blanked_none) auto
    with False less.prems show ?thesis by (subst suppress_cells.simps) (auto intro!: yields_return)
  next
    case True
    define count where "count = min (checkpoint_offsets - sw_since w) (stop - start)"
    let ?rest = "blanked (\<lambda>j. start \<le> j \<and> j < start + count) rest"
    have pos: "0 < count" "start + count \<le> stop" "sw_since w + count \<le> checkpoint_offsets"
      using less.prems(1) True by (auto simp: count_def ready_def)
    have eq: "blanked (\<lambda>j. start + count \<le> j \<and> j < stop) ?rest = blanked (\<lambda>j. start \<le> j \<and> j < stop) rest"
      unfolding blanked_twice using pos by (intro blanked_cong) auto
    have "yields look c (suppress_cells look (start + count) stop ?rest w') (\<lambda>r. r = blanked (\<lambda>j. start \<le> j \<and> j < stop) rest)"
      if "ready c w'" for w'
      using less.hyps [of "start + count" w' ?rest] that pos less.prems(2) eq by simp
    then show ?thesis
      using True pos less.prems blanked_range [of start count rest]
      by (subst suppress_cells.simps) (auto simp: Let_def count_def [symmetric] intro!: yields_bind [OF yields_advance])
  qed
qed

lemma suppress_rows_yields:
  assumes "ready c w" "\<And>row. row \<in> set rows \<Longrightarrow> row * width + last_column + 1 \<le> length rest"
  shows "yields look c (suppress_rows look width first_column last_column rows rest w)
    (\<lambda>r. r = blanked (\<lambda>j. \<exists>row \<in> set rows. row * width + first_column \<le> j \<and> j \<le> row * width + last_column) rest)"
  using assms
proof (induction rows arbitrary: rest w)
  case Nil
  then show ?case by (auto simp: blanked_none intro!: yields_return)
next
  case (Cons row rows)
  let ?rest = "blanked (\<lambda>j. row * width + first_column \<le> j \<and> j < row * width + last_column + 1) rest"
  have eq: "blanked (\<lambda>j. \<exists>r \<in> set rows. r * width + first_column \<le> j \<and> j \<le> r * width + last_column) ?rest
      = blanked (\<lambda>j. \<exists>r \<in> set (row # rows). r * width + first_column \<le> j \<and> j \<le> r * width + last_column) rest"
    unfolding blanked_twice by (intro blanked_cong) auto
  have "yields look c (suppress_cells look (row * width + first_column) (row * width + last_column + 1) rest w)
      (\<lambda>r. r = ?rest)"
    using Cons.prems by (intro suppress_cells_yields) auto
  then show ?case
    unfolding suppress_rows.simps
  proof (rule yields_bind)
    fix x and w' :: "'a selection_work"
    assume "ready c w'" "x = ?rest"
    then show "yields look c (suppress_rows look width first_column last_column rows x w')
        (\<lambda>r. r = blanked (\<lambda>j. \<exists>row \<in> set (row # rows). row * width + first_column \<le> j \<and> j \<le> row * width + last_column) rest)"
      using Cons.IH [of w' ?rest] Cons.prems(2) eq by simp
  qed
qed

lemma in_row:
  assumes "r < (width :: nat)" "c < width"
  shows "row * width + c \<le> q * width + r \<and> q * width + r < row * width + width \<longleftrightarrow> q = row \<and> c \<le> r"
proof -
  have "q * width + width \<le> row * width" if "q < row"
    using mult_le_mono1 [of "Suc q" row width] that by simp
  moreover have "row * width + width \<le> q * width" if "row < q"
    using mult_le_mono1 [of "Suc row" q width] that by simp
  ultimately show ?thesis using assms by (cases q row rule: linorder_cases) auto
qed

lemma in_rectangle:
  assumes "fc < width" "lc < (width :: nat)"
  shows "(\<exists>row\<in>set [fr ..< lr + 1]. row * width + fc \<le> j \<and> j \<le> row * width + lc) \<longleftrightarrow>
    fr \<le> j div width \<and> j div width \<le> lr \<and> fc \<le> j mod width \<and> j mod width \<le> lc"
proof -
  define q r where "q = j div width" and "r = j mod width"
  have j: "j = q * width + r" "r < width" using assms by (simp_all add: q_def r_def)
  have "row * width + fc \<le> j \<and> j \<le> row * width + lc \<longleftrightarrow> q = row \<and> fc \<le> r \<and> r \<le> lc" for row
    using in_row [OF j(2) assms(1), of row q] assms(2) unfolding j(1) by auto
  then show ?thesis unfolding q_def [symmetric] r_def [symmetric] by (auto simp del: upt_Suc)
qed

text \<open>A search that has something to do over a map of its size.\<close>

definition search_ok :: "peak_search \<Rightarrow> nat \<Rightarrow> bool" where
  "search_ok s n \<longleftrightarrow> n = ps_width s * ps_height s \<and> 0 < n \<and> n \<le> usize_max
     \<and> 0 < ps_template_width s \<and> 0 < ps_template_height s"

lemma search_ok_bounds:
  assumes "search_ok s n" "i < n"
  shows "0 < ps_width s" "i mod ps_width s < ps_width s" "i div ps_width s < ps_height s"
    "ps_width s \<le> usize_max" "ps_height s \<le> usize_max" "i div ps_width s * ps_width s + ps_width s \<le> n"
proof -
  show w: "0 < ps_width s" using assms by (cases "ps_width s") (auto simp: search_ok_def)
  then show "i mod ps_width s < ps_width s" by simp
  show h: "i div ps_width s < ps_height s"
    using assms w by (simp add: search_ok_def div_less_iff_less_mult mult.commute)
  have "0 < ps_height s" using h by simp
  then have "ps_width s \<le> n" "ps_height s \<le> n" using assms(1) w by (auto simp: search_ok_def)
  moreover have "n \<le> usize_max" using assms(1) by (simp add: search_ok_def)
  ultimately show "ps_width s \<le> usize_max" "ps_height s \<le> usize_max" by (auto intro: le_trans)
  have "Suc (i div ps_width s) * ps_width s \<le> ps_height s * ps_width s" using h by (intro mult_le_mono1) simp
  then show "i div ps_width s * ps_width s + ps_width s \<le> n" using assms(1) by (simp add: search_ok_def mult.commute)
qed

lemma close_iff:
  fixes a b t :: nat
  assumes "0 < t" "b < h" "h \<le> usize_max"
  shows "a - (t - 1) \<le> b \<and> b \<le> min (min usize_max (a + (t - 1))) (h - 1) \<longleftrightarrow> \<bar>int b - int a\<bar> < int t"
  using assms by auto

lemma suppress_peak_yields:
  assumes ok: "search_ok s (length rest)" and r: "ready c w" and i: "rw_index e < length rest"
  shows "yields look c (suppress_peak look s (winner_peak (ps_width s) e) rest w)
    (\<lambda>r. r = reference_remove s (rw_index e) rest)"
proof (cases "ps_suppression s = DropOverlapping")
  case False
  have at: "rw_index e div ps_width s * ps_width s + rw_index e mod ps_width s = rw_index e" by simp
  have "reference_remove s (rw_index e) rest = rest[rw_index e := NaN]"
    using False i by (simp add: reference_remove_blanked blanked_one) (rule blanked_cong, simp add: reference_removes_def)
  then show ?thesis
    using False r i at
    by (auto simp: suppress_peak_def winner_peak_def Let_def ready_def intro!: yields_bind [OF yields_advance] yields_return)
next
  case True
  note b = search_ok_bounds [OF ok i]
  let ?a = "rw_index e div ps_width s" and ?c = "rw_index e mod ps_width s"
  let ?fr = "?a - (ps_template_height s - 1)" and ?fc = "?c - (ps_template_width s - 1)"
  let ?lr = "min (min usize_max (?a + (ps_template_height s - 1))) (ps_height s - 1)"
  let ?lc = "min (min usize_max (?c + (ps_template_width s - 1))) (ps_width s - 1)"
  have cols: "?fc < ps_width s" "?lc < ps_width s" using b by auto
  have rows: "row * ps_width s + ?lc + 1 \<le> length rest" if "row \<in> set [?fr ..< ?lr + 1]" for row
  proof -
    have "row < ps_height s" using that b(3) by (auto simp del: upt_Suc)
    then have "row * ps_width s + ps_width s \<le> ps_height s * ps_width s"
      by (metis add.commute mult_Suc mult_le_mono1 Suc_leI)
    then show ?thesis using cols(2) ok by (simp add: search_ok_def mult.commute)
  qed
  have "reference_remove s (rw_index e) rest
      = blanked (\<lambda>j. \<exists>row\<in>set [?fr ..< ?lr + 1]. row * ps_width s + ?fc \<le> j \<and> j \<le> row * ps_width s + ?lc) rest"
    unfolding reference_remove_blanked
  proof (rule blanked_cong)
    fix j
    assume j: "j < length rest"
    note bj = search_ok_bounds [OF ok j]
    have "?fr \<le> j div ps_width s \<and> j div ps_width s \<le> ?lr \<longleftrightarrow> \<bar>int (j div ps_width s) - int ?a\<bar> < int (ps_template_height s)"
      "?fc \<le> j mod ps_width s \<and> j mod ps_width s \<le> ?lc \<longleftrightarrow> \<bar>int (j mod ps_width s) - int ?c\<bar> < int (ps_template_width s)"
      using ok bj by (intro close_iff; simp add: search_ok_def)+
    then show "reference_removes s (rw_index e) j
        = (\<exists>row\<in>set [?fr ..< ?lr + 1]. row * ps_width s + ?fc \<le> j \<and> j \<le> row * ps_width s + ?lc)"
      unfolding in_rectangle [OF cols] reference_removes_def using True by auto
  qed
  then show ?thesis
    using True suppress_rows_yields [OF r rows, where look = look and first_column = ?fc]
    by (simp only: suppress_peak_def winner_peak_def Let_def peak.select_convs simp_thms if_False)
qed

section \<open>Candidates, entries and bounds\<close>

text \<open>Offsets and heap entries are compared by their score, then by their place: the greater key is the better.\<close>

definition offset_key :: "f64 list \<Rightarrow> nat \<Rightarrow> rat \<times> int" where
  "offset_key rest i = (score_of (rest ! i), - int i)"

definition entry_key :: "row_winner \<Rightarrow> rat \<times> int" where
  "entry_key e = (case rw_score e of Fin x \<Rightarrow> x | _ \<Rightarrow> 0, - int (rw_index e))"

definition entry_finite :: "row_winner \<Rightarrow> bool" where
  "entry_finite e \<longleftrightarrow> rw_score e = Fin (fst (entry_key e))"

lemma winner_greater_key:
  "entry_finite a \<Longrightarrow> entry_finite b \<Longrightarrow> winner_greater a b \<longleftrightarrow> entry_key b < entry_key a"
  by (cases "rw_score a"; cases "rw_score b")
    (auto simp: winner_greater_def entry_finite_def entry_key_def less_prod_def')

lemma heap_greatest_max:
  assumes "\<forall>e \<in> set heap. entry_finite e"
  shows "case heap_greatest heap of None \<Rightarrow> heap = []
    | Some r \<Rightarrow> r \<in> set heap \<and> (\<forall>e \<in> set heap. entry_key e \<le> entry_key r)"
  using assms
  by (induction heap) (auto split: option.splits simp: winner_greater_key not_less dest: less_imp_le)

lemma heap_weakest_min:
  assumes "\<forall>e \<in> set heap. entry_finite e"
  shows "case heap_weakest heap of None \<Rightarrow> heap = []
    | Some r \<Rightarrow> r \<in> set heap \<and> (\<forall>e \<in> set heap. entry_key r \<le> entry_key e)"
  using assms
  by (induction heap) (auto split: option.splits simp: winner_greater_key not_less dest: less_imp_le)

lemma best_of_key:
  "best_of rest n k \<longleftrightarrow> k < n \<and> is_finite (rest ! k) \<and> (\<forall>j<n. is_finite (rest ! j) \<longrightarrow> offset_key rest j \<le> offset_key rest k)"
  by (auto simp: best_of_def offset_key_def less_eq_prod_def)

lemma offset_key_eq: "offset_key rest i = offset_key rest j \<longleftrightarrow> i = j"
  by (auto simp: offset_key_def)

lemma best_of_unique: "best_of rest n i \<Longrightarrow> best_of rest n j \<Longrightarrow> i = j"
  unfolding best_of_key by (metis antisym offset_key_eq)

text \<open>An offset worth reporting.\<close>

definition candidate_at :: "rat \<Rightarrow> f64 list \<Rightarrow> nat \<Rightarrow> bool" where
  "candidate_at m rest i \<longleftrightarrow> i < length rest \<and> is_finite (rest ! i) \<and> m \<le> score_of (rest ! i)"

text \<open>A heap entry is exact where it is live, and never below the best score that was asked for.\<close>

definition entry_ok :: "rat \<Rightarrow> f64 list \<Rightarrow> row_winner \<Rightarrow> bool" where
  "entry_ok m rest e \<longleftrightarrow> rw_index e < length rest \<and> entry_finite e \<and> m \<le> fst (entry_key e)
     \<and> (is_finite (rest ! rw_index e) \<longrightarrow> offset_key rest (rw_index e) = entry_key e)"

definition covers :: "nat \<Rightarrow> f64 list \<Rightarrow> row_winner \<Rightarrow> nat \<Rightarrow> bool" where
  "covers width rest e i \<longleftrightarrow> rw_index e div width = i div width \<and> offset_key rest i \<le> entry_key e"

definition covered :: "nat \<Rightarrow> f64 list \<Rightarrow> row_winner list \<Rightarrow> nat \<Rightarrow> bool" where
  "covered width rest heap i \<longleftrightarrow> (\<exists>e \<in> set heap. covers width rest e i)"

definition ahead_of :: "rat \<Rightarrow> nat \<Rightarrow> f64 list \<Rightarrow> row_winner list \<Rightarrow> nat \<Rightarrow> nat set" where
  "ahead_of m width rest heap i =
     {j. candidate_at m rest j \<and> covered width rest heap j \<and> offset_key rest i < offset_key rest j}"

text \<open>
  The heap is good for \<open>n\<close> more selections: each candidate is bounded by an entry of its row, or so many
  bounded candidates are ahead of it that it cannot be selected any more.
\<close>

definition heap_ok :: "peak_search \<Rightarrow> rat \<Rightarrow> nat \<Rightarrow> f64 list \<Rightarrow> row_winner list \<Rightarrow> bool" where
  "heap_ok s m n rest heap \<longleftrightarrow> (\<forall>e \<in> set heap. entry_ok m rest e)
     \<and> (\<forall>i. candidate_at m rest i \<longrightarrow> covered (ps_width s) rest heap i
          \<or> ps_suppression s = KeepAll \<and> n \<le> card (ahead_of m (ps_width s) rest heap i))"

lemma finite_ahead [simp]: "finite (ahead_of m width rest heap i)"
  by (rule finite_subset [of _ "{..<length rest}"]) (auto simp: ahead_of_def candidate_at_def)

lemma heap_ok_reaches:
  assumes "heap_ok s m n rest heap" "candidate_at m rest i" "0 < n"
  shows "\<exists>e \<in> set heap. offset_key rest i \<le> entry_key e"
proof (cases "covered (ps_width s) rest heap i")
  case True
  then show ?thesis by (auto simp: covered_def covers_def)
next
  case False
  then have "0 < card (ahead_of m (ps_width s) rest heap i)" using assms by (auto simp: heap_ok_def)
  then obtain j where "j \<in> ahead_of m (ps_width s) rest heap i" by fastforce
  then obtain e where "e \<in> set heap" "offset_key rest j \<le> entry_key e" "offset_key rest i < offset_key rest j"
    by (auto simp: ahead_of_def covered_def covers_def)
  then show ?thesis by (meson less_imp_le order_trans)
qed

lemma reference_best_of:
  assumes "best_so_far rest 0 n (map_option (\<lambda>(i, sc). \<lparr>rw_index = i, rw_score = sc\<rparr>) best)
      (case best of None \<Rightarrow> NInf | Some (_, sc) \<Rightarrow> sc)"
    "n + length vs = length rest" "\<And>i. i < length vs \<Longrightarrow> vs ! i = rest ! (n + i)"
  shows "case reference_best n vs best of
      None \<Rightarrow> \<forall>k<length rest. \<not> is_finite (rest ! k)
    | Some (i, sc) \<Rightarrow> best_of rest (length rest) i \<and> sc = Fin (score_of (rest ! i))"
  using assms
proof (induction vs arbitrary: n best)
  case Nil
  then show ?case by (cases best) (auto simp: best_so_far_def)
next
  case (Cons v vs)
  have v: "v = rest ! n" and tail: "\<And>i. i < length vs \<Longrightarrow> vs ! i = rest ! (n + 1 + i)"
    using Cons.prems(3) [of 0] Cons.prems(3) [of "Suc _"] by auto
  show ?case
  proof (cases "is_finite v \<and> (case best of None \<Rightarrow> True | Some (_, current) \<Rightarrow> flt current (public_score v))")
    case True
    then have "flt (case best of None \<Rightarrow> NInf | Some (_, sc) \<Rightarrow> sc) (public_score v)"
      using public_score_finite(1) [of v] by (auto split: option.splits)
    from best_so_far_take [OF Cons.prems(1) _ this [unfolded v]] True
    have "best_so_far rest 0 (n + 1) (map_option (\<lambda>(i, sc). \<lparr>rw_index = i, rw_score = sc\<rparr>) (Some (n, public_score v)))
      (case Some (n, public_score v) of None \<Rightarrow> NInf | Some (_, sc) \<Rightarrow> sc)"
      using v by simp
    from Cons.IH [OF this _ tail] True Cons.prems(2) show ?thesis by simp
  next
    case False
    then have "\<not> is_finite (rest ! n) \<or> fle (rest ! n) (case best of None \<Rightarrow> NInf | Some (_, sc) \<Rightarrow> sc)
        \<or> \<not> flt (case best of None \<Rightarrow> NInf | Some (_, sc) \<Rightarrow> sc) (public_score (rest ! n))"
      using v by (auto split: option.splits)
    from best_so_far_skip [OF Cons.prems(1) this]
    have "best_so_far rest 0 (n + 1) (map_option (\<lambda>(i, sc). \<lparr>rw_index = i, rw_score = sc\<rparr>) best)
      (case best of None \<Rightarrow> NInf | Some (_, sc) \<Rightarrow> sc)" by simp
    from Cons.IH [OF this _ tail] Cons.prems(2)
    show ?thesis unfolding reference_best.simps if_not_P [OF False] by simp
  qed
qed

lemma reference_best_cases:
  "case reference_best 0 rest None of
      None \<Rightarrow> \<forall>k<length rest. \<not> is_finite (rest ! k)
    | Some (i, sc) \<Rightarrow> best_of rest (length rest) i \<and> sc = Fin (score_of (rest ! i))"
  by (rule reference_best_of) (auto simp: best_so_far_def)

lemma reference_best_is:
  assumes "best_of rest (length rest) i"
  shows "reference_best 0 rest None = Some (i, Fin (score_of (rest ! i)))"
proof (cases "reference_best 0 rest None")
  case None
  then show ?thesis using reference_best_cases [of rest] assms by (auto simp: best_of_def)
next
  case (Some r)
  obtain j sc where r: "r = (j, sc)" by fastforce
  then have "best_of rest (length rest) j" "sc = Fin (score_of (rest ! j))"
    using reference_best_cases [of rest] Some by simp_all
  then show ?thesis using Some r best_of_unique [OF assms] by simp
qed

lemma reference_select_end:
  assumes "ps_min_score s = Fin m" "\<And>i. \<not> candidate_at m rest i"
  shows "reference_select s n rest = []"
proof (cases n)
  case (Suc k)
  show ?thesis
  proof (cases "reference_best 0 rest None")
    case (Some r)
    obtain i sc where r: "r = (i, sc)" by fastforce
    then have "i < length rest" "is_finite (rest ! i)" "sc = Fin (score_of (rest ! i))"
      using reference_best_cases [of rest] Some by (auto simp: best_of_def)
    then show ?thesis using Suc Some r assms(1) assms(2) [of i] by (simp add: candidate_at_def not_le)
  qed (simp add: Suc)
qed simp

lemma reference_select_pick:
  assumes "ps_min_score s = Fin m" "best_of rest (length rest) i" "m \<le> score_of (rest ! i)"
  shows "reference_select s (Suc n) rest
    = \<lparr>pk_left = i mod ps_width s, pk_top = i div ps_width s, pk_score = Fin (score_of (rest ! i))\<rparr>
        # reference_select s n (reference_remove s i rest)"
  using assms by (simp add: reference_best_is)

section \<open>One selection\<close>

lemma winner_best:
  assumes ok: "heap_ok s m n rest heap" and n: "0 < n" and g: "heap_greatest heap = Some e"
    and live: "is_finite (rest ! rw_index e)"
  shows "best_of rest (length rest) (rw_index e)" "m \<le> score_of (rest ! rw_index e)"
    "winner_peak (ps_width s) e = \<lparr>pk_left = rw_index e mod ps_width s, pk_top = rw_index e div ps_width s,
       pk_score = Fin (score_of (rest ! rw_index e))\<rparr>"
proof -
  have fin: "\<forall>e \<in> set heap. entry_finite e" using ok by (auto simp: heap_ok_def entry_ok_def)
  have e: "e \<in> set heap" "\<forall>e' \<in> set heap. entry_key e' \<le> entry_key e"
    using heap_greatest_max [OF fin] g by simp_all
  have eo: "entry_ok m rest e" using ok e(1) by (auto simp: heap_ok_def)
  then have k: "offset_key rest (rw_index e) = entry_key e" "rw_index e < length rest" "m \<le> fst (entry_key e)"
    "rw_score e = Fin (fst (entry_key e))"
    using live by (simp_all add: entry_ok_def entry_finite_def)
  have fst: "fst (entry_key e) = score_of (rest ! rw_index e)" using k(1) by (metis fst_conv offset_key_def)
  show m: "m \<le> score_of (rest ! rw_index e)" using k(3) fst by simp
  show "winner_peak (ps_width s) e = \<lparr>pk_left = rw_index e mod ps_width s, pk_top = rw_index e div ps_width s,
       pk_score = Fin (score_of (rest ! rw_index e))\<rparr>"
    using k(4) fst by (simp add: winner_peak_def)
  have "offset_key rest j \<le> offset_key rest (rw_index e)" if "j < length rest" "is_finite (rest ! j)" for j
  proof (cases "candidate_at m rest j")
    case True
    then show ?thesis using heap_ok_reaches [OF ok True n] e(2) k(1) by force
  next
    case False
    then have "score_of (rest ! j) < score_of (rest ! rw_index e)" using that m by (auto simp: candidate_at_def)
    then show ?thesis by (simp add: offset_key_def)
  qed
  then show "best_of rest (length rest) (rw_index e)" using k(2) live by (simp add: best_of_key)
qed

lemma blanked_candidate:
  assumes "candidate_at m (blanked P rest) i"
  shows "candidate_at m rest i" "\<not> P i" "offset_key (blanked P rest) i = offset_key rest i"
  using assms by (auto simp: candidate_at_def offset_key_def split: if_splits)

lemma heap_ok_removed:
  assumes ok: "heap_ok s m (Suc n) rest heap" and i: "i < length rest" and self: "reference_removes s i i"
  shows "heap_ok s m n (reference_remove s i rest) heap"
proof -
  let ?r = "reference_remove s i rest" and ?w = "ps_width s"
  have r: "?r = blanked (reference_removes s i) rest" by (rule reference_remove_blanked)
  have entry: "entry_ok m ?r e" if "e \<in> set heap" for e
  proof -
    have "entry_ok m rest e" using ok that by (simp add: heap_ok_def)
    then show ?thesis unfolding r entry_ok_def offset_key_def by auto
  qed
  have bound: "covered ?w ?r heap j \<or> ps_suppression s = KeepAll \<and> n \<le> card (ahead_of m ?w ?r heap j)"
    if j: "candidate_at m ?r j" for j
  proof -
    note c = blanked_candidate [OF j [unfolded r], folded r]
    have same: "covered ?w ?r heap k = covered ?w rest heap k" if "candidate_at m ?r k" for k
      using blanked_candidate(3) [OF that [unfolded r], folded r] by (simp add: covered_def covers_def)
    show ?thesis
    proof (cases "covered ?w rest heap j")
      case True
      then show ?thesis using same [OF j] by simp
    next
      case False
      then have keep: "ps_suppression s = KeepAll" and many: "Suc n \<le> card (ahead_of m ?w rest heap j)"
        using ok c(1) by (auto simp: heap_ok_def)
      have "ahead_of m ?w rest heap j - {i} \<subseteq> ahead_of m ?w ?r heap j"
      proof
        fix k
        assume k: "k \<in> ahead_of m ?w rest heap j - {i}"
        then have "candidate_at m ?r k"
          using keep unfolding r by (auto simp: ahead_of_def candidate_at_def reference_removes_def)
        moreover from this have "offset_key ?r k = offset_key rest k" unfolding r by (rule blanked_candidate(3))
        ultimately show "k \<in> ahead_of m ?w ?r heap j" using k same c(3) by (auto simp: ahead_of_def)
      qed
      then have "card (ahead_of m ?w rest heap j - {i}) \<le> card (ahead_of m ?w ?r heap j)" by (intro card_mono) simp_all
      moreover have "n \<le> card (ahead_of m ?w rest heap j - {i})"
        using many by (auto simp: card_Diff_singleton_if)
      ultimately show ?thesis using keep by simp
    qed
  qed
  show ?thesis using entry bound by (simp add: heap_ok_def)
qed

section \<open>Winners of rows\<close>

definition row_values :: "nat \<Rightarrow> f64 list \<Rightarrow> nat \<Rightarrow> f64 list" where
  "row_values width rest row = take width (drop (row * width) rest)"

definition row_answer :: "rat \<Rightarrow> nat \<Rightarrow> f64 list \<Rightarrow> nat \<Rightarrow> row_winner option \<Rightarrow> bool" where
  "row_answer m width rest row answer \<longleftrightarrow>
     (case answer of
        None \<Rightarrow> \<forall>i. i div width = row \<longrightarrow> \<not> candidate_at m rest i
      | Some r \<Rightarrow> candidate_at m rest (rw_index r) \<and> entry_ok m rest r \<and> rw_index r div width = row
          \<and> (\<forall>i. i div width = row \<longrightarrow> candidate_at m rest i \<longrightarrow> covers width rest r i))"

lemma row_position:
  assumes "0 < (width :: nat)"
  shows "i div width = row \<longleftrightarrow> (\<exists>k<width. i = row * width + k)"
proof
  assume "i div width = row"
  then have "i = row * width + i mod width" by (metis div_mult_mod_eq)
  then show "\<exists>k<width. i = row * width + k" using assms mod_less_divisor by blast
qed auto

lemma row_answer_of_greatest:
  assumes w: "0 < width" and row: "row * width + width \<le> length rest"
    and g: "greatest_answer (row_values width rest row) (row * width) m answer"
  shows "row_answer m width rest row answer"
proof -
  let ?v = "row_values width rest row"
  have len: "length ?v = width" and nth: "k < width \<Longrightarrow> ?v ! k = rest ! (row * width + k)" for k
    using row by (simp_all add: row_values_def)
  have place: "(row * width + k) div width = row" if "k < width" for k using that by simp
  show ?thesis
  proof (cases answer)
    case None
    then have "score_of (rest ! (row * width + k)) < m" if "k < width" "is_finite (rest ! (row * width + k))" for k
      using g that nth len by (auto simp: greatest_answer_def)
    then have "\<not> candidate_at m rest (row * width + k)" if "k < width" for k
      using that by (auto simp: candidate_at_def not_le)
    then show ?thesis using None row_position [OF w] by (auto simp: row_answer_def)
  next
    case (Some r)
    then obtain k where k: "best_of ?v width k" "m \<le> score_of (?v ! k)"
      "r = \<lparr>rw_index = row * width + k, rw_score = Fin (score_of (?v ! k))\<rparr>"
      using g len by (auto simp: greatest_answer_def)
    then have kw: "k < width" "is_finite (rest ! (row * width + k))" "?v ! k = rest ! (row * width + k)"
      using nth by (auto simp: best_of_def)
    have cand: "candidate_at m rest (rw_index r)" using k(2,3) kw row by (simp add: candidate_at_def)
    have entry: "entry_ok m rest r" using k(2,3) kw row
      by (simp add: entry_ok_def entry_finite_def entry_key_def offset_key_def)
    have cov: "covers width rest r (row * width + j)" if j: "j < width" "candidate_at m rest (row * width + j)" for j
    proof -
      have "score_of (?v ! j) < score_of (?v ! k) \<or> score_of (?v ! j) = score_of (?v ! k) \<and> k \<le> j"
        using k(1) j nth by (auto simp: best_of_def candidate_at_def)
      then show ?thesis using j kw k(3) nth place
        by (auto simp: covers_def offset_key_def entry_key_def less_eq_prod_def)
    qed
    have "covers width rest r i" if "i div width = row" "candidate_at m rest i" for i
      using that cov row_position [OF w, of i row] by metis
    then show ?thesis using Some cand entry k(3) kw(1) place by (simp add: row_answer_def)
  qed
qed

lemma greatest_row_yields:
  assumes "ready c w" "ps_min_score s = Fin m" "0 < width" "row * width + width \<le> length rest"
  shows "yields look c (greatest look (row_values width rest row) (row * width) (ps_min_score s) w)
    (row_answer m width rest row)"
  by (rule yields_mono [OF greatest_yields [OF assms(1), where m = m, folded assms(2)]])
    (rule row_answer_of_greatest [OF assms(3,4)])

section \<open>Repairing a stale winner\<close>

lemma heap_ok_repaired:
  assumes ok: "heap_ok s m n rest heap" and e: "e \<in> set heap"
    and a: "row_answer m (ps_width s) rest (rw_index e div ps_width s) answer"
  shows "heap_ok s m n rest (case answer of None \<Rightarrow> remove1 e heap | Some r \<Rightarrow> r # remove1 e heap)"
    (is "heap_ok s m n rest ?heap")
proof -
  let ?w = "ps_width s"
  have sub: "x \<in> set ?heap \<Longrightarrow> x \<in> set heap \<or> answer = Some x" for x
    using set_remove1_subset [of e heap] by (auto split: option.splits)
  have entry: "entry_ok m rest x" if "x \<in> set ?heap" for x
    using sub [OF that] ok a by (auto simp: heap_ok_def row_answer_def)
  have other: "x \<in> set ?heap" if "x \<in> set heap" "x \<noteq> e" for x
    using that in_set_remove1 [of x e heap] by (auto split: option.splits)
  have cov: "covered ?w rest ?heap i" if c: "candidate_at m rest i" and old: "covered ?w rest heap i" for i
  proof -
    obtain x where x: "x \<in> set heap" "covers ?w rest x i" using old by (auto simp: covered_def)
    show ?thesis
    proof (cases "x = e")
      case False
      then show ?thesis using x other by (auto simp: covered_def)
    next
      case True
      then have "i div ?w = rw_index e div ?w" using x by (simp add: covers_def)
      then obtain r where "answer = Some r" "covers ?w rest r i"
        using a c by (cases answer) (auto simp: row_answer_def)
      then show ?thesis by (auto simp: covered_def)
    qed
  qed
  have "card (ahead_of m ?w rest heap i) \<le> card (ahead_of m ?w rest ?heap i)" for i
    by (rule card_mono) (simp, use cov in \<open>auto simp: ahead_of_def\<close>)
  then show ?thesis using ok entry cov unfolding heap_ok_def by (meson le_trans)
qed

definition stale_entries :: "f64 list \<Rightarrow> row_winner list \<Rightarrow> nat" where
  "stale_entries rest heap = length (filter (\<lambda>e. \<not> is_finite (rest ! rw_index e)) heap)"

lemma stale_repaired:
  assumes "e \<in> set heap" "\<not> is_finite (rest ! rw_index e)" "row_answer m width rest row answer"
  shows "stale_entries rest (case answer of None \<Rightarrow> remove1 e heap | Some r \<Rightarrow> r # remove1 e heap) < stale_entries rest heap"
proof -
  let ?l = "filter (\<lambda>e. \<not> is_finite (rest ! rw_index e)) heap"
  have "e \<in> set ?l" using assms by simp
  then have "length (remove1 e ?l) < length ?l" using length_pos_if_in_set [of e ?l] by (simp add: length_remove1)
  then have "stale_entries rest (remove1 e heap) < stale_entries rest heap" by (simp add: stale_entries_def filter_remove1)
  then show ?thesis using assms(3) by (cases answer) (auto simp: row_answer_def candidate_at_def stale_entries_def)
qed

section \<open>The loop\<close>

lemma removes_itself: "search_ok s n \<Longrightarrow> reference_removes s i i"
  by (simp add: reference_removes_def search_ok_def)

definition select_next ::
    "('w \<Rightarrow> observation \<times> 'w) \<Rightarrow> operation_context \<Rightarrow> peak_search \<Rightarrow> rat \<Rightarrow> peak list \<Rightarrow> f64 list \<Rightarrow> row_winner list \<Rightarrow> bool" where
  "select_next look c s m found rest heap \<longleftrightarrow>
     (\<forall>w. ready c w \<longrightarrow> heap_ok s m (ps_budget s - length found) rest heap \<longrightarrow>
        yields look c (select_loop look s heap rest found w)
          (\<lambda>r. r = found @ reference_select s (ps_budget s - length found) rest))"

lemma select_nextD:
  "select_next look c s m found rest heap \<Longrightarrow> ready c w \<Longrightarrow> heap_ok s m (ps_budget s - length found) rest heap \<Longrightarrow>
     yields look c (select_loop look s heap rest found w) (\<lambda>r. r = found @ reference_select s (ps_budget s - length found) rest)"
  by (simp add: select_next_def)

lemma select_repair_yields:
  assumes w: "ready c w" and ok: "search_ok s (length rest)" and m: "ps_min_score s = Fin m"
    and heap: "heap_ok s m (ps_budget s - length found) rest heap"
    and e: "e \<in> set heap" "rw_index e < length rest" and dead: "\<not> is_finite (rest ! rw_index e)"
    and more: "\<And>heap'. stale_entries rest heap' < stale_entries rest heap \<Longrightarrow> select_next look c s m found rest heap'"
  shows "yields look c
      (Option.bind (row_slice (rw_index e div ps_width s * ps_width s) (ps_width s) rest) (\<lambda>row.
         work_bind (greatest look row (rw_index e div ps_width s * ps_width s) (ps_min_score s) w) (\<lambda>repaired.
           select_loop look s (case repaired of None \<Rightarrow> remove1 e heap | Some r \<Rightarrow> r # remove1 e heap) rest found)))
      (\<lambda>r. r = found @ reference_select s (ps_budget s - length found) rest)"
proof -
  note b = search_ok_bounds [OF ok e(2)]
  let ?row = "rw_index e div ps_width s"
  have "yields look c (work_bind
      (greatest look (row_values (ps_width s) rest ?row) (?row * ps_width s) (ps_min_score s) w) (\<lambda>repaired.
        select_loop look s (case repaired of None \<Rightarrow> remove1 e heap | Some r \<Rightarrow> r # remove1 e heap) rest found))
    (\<lambda>r. r = found @ reference_select s (ps_budget s - length found) rest)"
  proof (rule yields_bind)
    show "yields look c (greatest look (row_values (ps_width s) rest ?row) (?row * ps_width s) (ps_min_score s) w)
        (row_answer m (ps_width s) rest ?row)"
      using b w m by (intro greatest_row_yields)
    fix a and w' :: "'a selection_work"
    assume "ready c w'" and a: "row_answer m (ps_width s) rest ?row a"
    then show "yields look c (select_loop look s (case a of None \<Rightarrow> remove1 e heap | Some r \<Rightarrow> r # remove1 e heap) rest found w')
        (\<lambda>r. r = found @ reference_select s (ps_budget s - length found) rest)"
      by (intro select_nextD [OF more] stale_repaired [OF e(1) dead a] heap_ok_repaired [OF heap e(1) a])
  qed
  then show ?thesis using b by (simp add: row_slice_def row_values_def)
qed

lemma select_pick_yields:
  assumes w: "ready c w" and ok: "search_ok s (length rest)" and m: "ps_min_score s = Fin m"
    and heap: "heap_ok s m (ps_budget s - length found) rest heap" and n: "ps_budget s - length found = Suc n"
    and g: "heap_greatest heap = Some e" and i: "rw_index e < length rest" and alive: "is_finite (rest ! rw_index e)"
    and more: "\<And>found' rest'. length found' = Suc (length found) \<Longrightarrow> length rest' = length rest \<Longrightarrow>
       select_next look c s m found' rest' heap"
  shows "yields look c
      (if length (found @ [winner_peak (ps_width s) e]) = ps_budget s
       then work_return (found @ [winner_peak (ps_width s) e]) w
       else work_bind (suppress_peak look s (winner_peak (ps_width s) e) rest w)
         (\<lambda>rest. select_loop look s heap rest (found @ [winner_peak (ps_width s) e])))
      (\<lambda>r. r = found @ reference_select s (ps_budget s - length found) rest)"
proof -
  let ?p = "winner_peak (ps_width s) e" and ?rest = "reference_remove s (rw_index e) rest"
  note best = winner_best [OF heap _ g alive]
  have sel: "reference_select s (Suc n) rest = ?p # reference_select s n ?rest"
    using reference_select_pick [OF m best(1,2)] best(3) n by simp
  have later: "ps_budget s - length (found @ [?p]) = n" using n by simp
  show ?thesis
  proof (cases "length (found @ [?p]) = ps_budget s")
    case True
    then have "n = 0" using n by simp
    then show ?thesis using True sel w n by (auto intro!: yields_return)
  next
    case False
    have "heap_ok s m n ?rest heap"
      using heap_ok_removed [OF _ i removes_itself [OF ok]] heap n by simp
    then have "yields look c (select_loop look s heap ?rest (found @ [?p]) w')
        (\<lambda>r. r = found @ reference_select s (ps_budget s - length found) rest)" if "ready c w'" for w'
      using select_nextD [OF more that, of "found @ [?p]" ?rest] later n sel by (simp add: reference_remove_blanked)
    then show ?thesis
      using False by (auto intro!: yields_bind [OF suppress_peak_yields [OF ok w i]])
  qed
qed

lemma select_loop_yields:
  assumes "ready c w" "search_ok s (length rest)" "ps_min_score s = Fin m"
    "heap_ok s m (ps_budget s - length found) rest heap"
  shows "yields look c (select_loop look s heap rest found w)
    (\<lambda>r. r = found @ reference_select s (ps_budget s - length found) rest)"
  using assms
proof (induction "(ps_budget s - length found, stale_entries rest heap)" arbitrary: heap rest found w
    rule: wf_induct_rule [OF wf_lex_prod [OF wf_less wf_less]])
  case (1 heap rest found w)
  note IH = 1(1) and r = 1(2) and ok = 1(3) and m = 1(4) and heap = 1(5)
  have next_heap: "select_next look c s m found' rest' heap'"
    if "ps_budget s - length found' < ps_budget s - length found
        \<or> found' = found \<and> rest' = rest \<and> stale_entries rest heap' < stale_entries rest heap"
      "length rest' = length rest" for found' rest' heap'
    unfolding select_next_def using IH that ok m by auto
  have fin: "\<forall>e \<in> set heap. entry_finite e" using heap by (auto simp: heap_ok_def entry_ok_def)
  show ?case
  proof (cases "length found < ps_budget s")
    case False
    then show ?thesis using r by (subst select_loop.simps) (auto intro!: yields_return)
  next
    case more: True
    then obtain n where n: "ps_budget s - length found = Suc n" by (metis Suc_diff_Suc)
    show ?thesis
    proof (cases "heap_greatest heap")
      case None
      then have "heap = []" using heap_greatest_max [OF fin] by simp
      then have "\<not> candidate_at m rest i" for i using heap_ok_reaches [OF heap, of i] n by auto
      then have "reference_select s k rest = []" for k by (rule reference_select_end [OF m])
      then show ?thesis using None more r by (subst select_loop.simps) (auto intro!: yields_return)
    next
      case (Some e)
      then have e: "e \<in> set heap" using heap_greatest_max [OF fin] by simp
      then have i: "rw_index e < length rest" using heap by (auto simp: heap_ok_def entry_ok_def)
      show ?thesis
      proof (subst select_loop.simps, unfold Let_def Some option.case if_P [OF more] if_P [OF i],
          rule yields_bind [OF yields_is_live [OF r]], goal_cases)
        case (1 live w')
        show ?case
        proof (cases live)
          case False
          then show ?thesis
            using 1(2) select_repair_yields [OF 1(1) ok m heap e i] next_heap by simp
        next
          case True
          then show ?thesis
            using 1(2) select_pick_yields [OF 1(1) ok m heap n Some i] next_heap more by simp
        qed
      qed
    qed
  qed
qed

section \<open>The first heap\<close>

definition rows_ok :: "rat \<Rightarrow> nat \<Rightarrow> f64 list \<Rightarrow> nat set \<Rightarrow> row_winner list \<Rightarrow> bool" where
  "rows_ok m width rest rows heap \<longleftrightarrow> (\<forall>e \<in> set heap. entry_ok m rest e)
     \<and> (\<forall>i. candidate_at m rest i \<longrightarrow> i div width \<in> rows \<longrightarrow> covered width rest heap i)"

lemma all_row_winners_yields:
  assumes "ready c w" "ps_min_score s = Fin m" "0 < ps_width s"
    "\<And>row. row \<in> set rows \<Longrightarrow> row * ps_width s + ps_width s \<le> length rest" "rows_ok m (ps_width s) rest D heap"
  shows "yields look c (all_row_winners look s rest rows heap w) (rows_ok m (ps_width s) rest (D \<union> set rows))"
  using assms
proof (induction rows arbitrary: D heap w)
  case Nil
  then show ?case by (simp add: yields_return)
next
  case (Cons row rows)
  have "yields look c (greatest look (row_values (ps_width s) rest row) (row * ps_width s) (ps_min_score s) w)
      (row_answer m (ps_width s) rest row)"
    using Cons.prems by (intro greatest_row_yields) auto
  then show ?case
    unfolding all_row_winners.simps row_values_def [symmetric]
  proof (rule yields_bind, goal_cases)
    case (1 a w')
    then have "rows_ok m (ps_width s) rest (insert row D) (case a of None \<Rightarrow> heap | Some r \<Rightarrow> r # heap)"
      using Cons.prems(5) by (cases a) (auto simp: rows_ok_def row_answer_def covered_def)
    then show ?case using Cons.IH [of w' "insert row D"] 1 Cons.prems by simp
  qed
qed

text \<open>The heap of the best rows: whatever it leaves out is behind all of a full heap.\<close>

definition best_ok :: "nat \<Rightarrow> rat \<Rightarrow> nat \<Rightarrow> f64 list \<Rightarrow> nat set \<Rightarrow> row_winner list \<Rightarrow> bool" where
  "best_ok budget m width rest rows heap \<longleftrightarrow>
     (\<forall>e \<in> set heap. entry_ok m rest e \<and> candidate_at m rest (rw_index e) \<and> rw_index e div width \<in> rows)
     \<and> distinct (map rw_index heap) \<and> length heap \<le> budget
     \<and> (\<forall>i. candidate_at m rest i \<longrightarrow> i div width \<in> rows \<longrightarrow> covered width rest heap i
          \<or> length heap = budget \<and> (\<forall>e \<in> set heap. offset_key rest i < entry_key e))"

lemma entry_key_index: "entry_key a = entry_key b \<Longrightarrow> rw_index a = rw_index b"
  by (simp add: entry_key_def)

lemma best_ok_skip:
  assumes ok: "best_ok budget m width rest rows heap" and a: "row_answer m width rest row (Some r)"
    and full: "length heap = budget" and row: "row \<notin> rows"
    and least: "weakest \<in> set heap" "\<forall>e \<in> set heap. entry_key weakest \<le> entry_key e"
    and behind: "entry_key r \<le> entry_key weakest"
  shows "best_ok budget m width rest (insert row rows) heap"
proof -
  have r: "rw_index r div width = row" "\<And>i. i div width = row \<Longrightarrow> candidate_at m rest i \<Longrightarrow> covers width rest r i"
    using a by (auto simp: row_answer_def)
  have "rw_index weakest div width \<in> rows" using ok least(1) by (simp add: best_ok_def)
  then have "entry_key r < entry_key weakest"
    using behind r(1) row entry_key_index [of r weakest] by (metis order_le_less)
  then have "offset_key rest i < entry_key e" if "candidate_at m rest i" "i div width = row" "e \<in> set heap" for i e
    using r(2) [OF that(2,1)] least(2) that(3) by (auto simp: covers_def intro: le_less_trans less_le_trans)
  then show ?thesis using ok full unfolding best_ok_def by auto
qed

lemma best_ok_add:
  assumes ok: "best_ok budget m width rest rows heap" and a: "row_answer m width rest row (Some r)"
    and row: "row \<notin> rows" and room: "length heap < budget"
  shows "best_ok budget m width rest (insert row rows) (r # heap)"
proof -
  have "rw_index r \<notin> rw_index ` set heap" using ok a row by (auto simp: best_ok_def row_answer_def)
  then show ?thesis
    using ok a room unfolding best_ok_def row_answer_def by (auto simp: covered_def)
qed

lemma best_ok_replace:
  assumes ok: "best_ok budget m width rest rows heap" and a: "row_answer m width rest row (Some r)"
    and full: "length heap = budget" and row: "row \<notin> rows"
    and least: "weakest \<in> set heap" "\<forall>e \<in> set heap. entry_key weakest \<le> entry_key e"
    and better: "entry_key weakest < entry_key r"
  shows "best_ok budget m width rest (insert row rows) (r # remove1 weakest heap)"
proof -
  have dist: "distinct (map rw_index heap)" using ok by (simp add: best_ok_def)
  then have dh: "distinct heap" by (simp add: distinct_map)
  have set: "set (remove1 weakest heap) = set heap - {weakest}" using dh by (rule set_remove1_eq)
  have len: "length (r # remove1 weakest heap) = budget"
    using full least(1) length_pos_if_in_set [OF least(1)] by (simp add: length_remove1)
  have "rw_index r \<notin> rw_index ` set heap" using ok a row by (auto simp: best_ok_def row_answer_def)
  then have d: "distinct (map rw_index (r # remove1 weakest heap))"
    using dist dh by (auto simp: set distinct_map intro: inj_on_subset)
  have strict: "entry_key weakest < entry_key e" if "e \<in> set heap" "e \<noteq> weakest" for e
  proof -
    have "rw_index e \<noteq> rw_index weakest" using dist that least(1) by (auto simp: distinct_map dest: inj_onD)
    then show ?thesis using least(2) that(1) entry_key_index [of weakest e] by (metis order_le_less)
  qed
  have "covered width rest (r # remove1 weakest heap) i \<or> (\<forall>e \<in> set (r # remove1 weakest heap). offset_key rest i < entry_key e)"
    if c: "candidate_at m rest i" "i div width \<in> insert row rows" for i
  proof (cases "i div width = row")
    case True
    then show ?thesis using a c(1) by (auto simp: row_answer_def covered_def)
  next
    case False
    then consider (old) e where "e \<in> set heap" "covers width rest e i" | (behind) "\<forall>e \<in> set heap. offset_key rest i < entry_key e"
      using ok c by (auto simp: best_ok_def covered_def)
    then show ?thesis
    proof cases
      case old
      then show ?thesis using strict better
        by (cases "e = weakest") (auto simp: set covered_def covers_def intro: le_less_trans)
    next
      case behind
      then show ?thesis using least(1) better by (auto simp: set intro: less_trans)
    qed
  qed
  then show ?thesis using ok a len d unfolding best_ok_def row_answer_def by (auto simp: set)
qed

lemma best_ok_keep:
  assumes ok: "best_ok budget m width rest rows heap" and a: "row_answer m width rest row answer"
    and row: "row \<notin> rows" and pos: "0 < budget"
  shows "best_ok budget m width rest (insert row rows) (keep_best budget answer heap)"
proof (cases answer)
  case None
  then show ?thesis using ok a by (auto simp: best_ok_def row_answer_def keep_best_def)
next
  case (Some r)
  show ?thesis
  proof (cases "length heap < budget")
    case True
    then show ?thesis using best_ok_add [OF ok _ row] a Some by (simp add: keep_best_def)
  next
    case False
    then have full: "length heap = budget" using ok by (simp add: best_ok_def)
    have fin: "\<forall>e \<in> set heap. entry_finite e" and finr: "entry_finite r"
      using ok a Some by (auto simp: best_ok_def entry_ok_def row_answer_def)
    then obtain k where k: "heap_weakest heap = Some k" "k \<in> set heap" "\<forall>e \<in> set heap. entry_key k \<le> entry_key e"
      using heap_weakest_min [OF fin] pos full by (cases "heap_weakest heap") auto
    have "winner_greater r k \<longleftrightarrow> entry_key k < entry_key r" using fin finr k(2) by (simp add: winner_greater_key)
    then show ?thesis
      using best_ok_replace [OF ok _ full row k(2,3)] best_ok_skip [OF ok _ full row k(2,3)] a Some False k(1)
      by (auto simp: keep_best_def)
  qed
qed

lemma best_row_winners_yields:
  assumes "ready c w" "ps_min_score s = Fin m" "0 < ps_width s" "0 < ps_budget s" "distinct rows" "D \<inter> set rows = {}"
    "\<And>row. row \<in> set rows \<Longrightarrow> row * ps_width s + ps_width s \<le> length rest"
    "best_ok (ps_budget s) m (ps_width s) rest D heap"
  shows "yields look c (best_row_winners look s rest rows heap w)
    (best_ok (ps_budget s) m (ps_width s) rest (D \<union> set rows))"
  using assms
proof (induction rows arbitrary: D heap w)
  case Nil
  then show ?case by (simp add: yields_return)
next
  case (Cons row rows)
  have "yields look c (greatest look (row_values (ps_width s) rest row) (row * ps_width s) (ps_min_score s) w)
      (row_answer m (ps_width s) rest row)"
    using Cons.prems by (intro greatest_row_yields) auto
  then show ?case
    unfolding best_row_winners.simps row_values_def [symmetric]
  proof (rule yields_bind, goal_cases)
    case (1 a w')
    then have "best_ok (ps_budget s) m (ps_width s) rest (insert row D) (keep_best (ps_budget s) a heap)"
      using Cons.prems by (intro best_ok_keep) auto
    then show ?case using Cons.IH [of w' "insert row D"] 1 Cons.prems by simp
  qed
qed

lemma best_ok_heap:
  assumes ok: "best_ok (ps_budget s) m (ps_width s) rest rows heap" and all: "\<And>i. i < length rest \<Longrightarrow> i div ps_width s \<in> rows"
    and keep: "ps_suppression s = KeepAll"
  shows "heap_ok s m (ps_budget s) rest heap"
proof -
  have own: "offset_key rest (rw_index e) = entry_key e" "covered (ps_width s) rest heap (rw_index e)"
    "candidate_at m rest (rw_index e)" if "e \<in> set heap" for e
  proof -
    show "candidate_at m rest (rw_index e)" using ok that by (simp add: best_ok_def)
    then show "offset_key rest (rw_index e) = entry_key e"
      using ok that by (auto simp: best_ok_def entry_ok_def candidate_at_def)
    then show "covered (ps_width s) rest heap (rw_index e)" using that by (auto simp: covered_def covers_def)
  qed
  have "ps_budget s \<le> card (ahead_of m (ps_width s) rest heap i)"
    if c: "candidate_at m rest i" and n: "\<not> covered (ps_width s) rest heap i" for i
  proof -
    have full: "length heap = ps_budget s" and behind: "\<forall>e \<in> set heap. offset_key rest i < entry_key e"
      using ok all [of i] c n by (auto simp: best_ok_def candidate_at_def)
    have "rw_index ` set heap \<subseteq> ahead_of m (ps_width s) rest heap i"
      using own behind by (auto simp: ahead_of_def)
    then have "card (set (map rw_index heap)) \<le> card (ahead_of m (ps_width s) rest heap i)"
      by (intro card_mono) simp_all
    moreover have "card (set (map rw_index heap)) = ps_budget s"
      using ok full by (simp only: best_ok_def distinct_card length_map)
    ultimately show ?thesis by simp
  qed
  then show ?thesis using ok keep unfolding heap_ok_def best_ok_def by blast
qed

lemma initial_rows_yields:
  assumes w: "ready c w" and ok: "search_ok s (length rest)" and m: "ps_min_score s = Fin m" and b: "0 < ps_budget s"
  shows "yields look c (initial_rows look s rest w) (heap_ok s m (ps_budget s) rest)"
proof -
  have pos: "0 < ps_width s" using search_ok_bounds(1) [OF ok, of 0] ok by (simp add: search_ok_def)
  have n: "length rest div ps_width s = ps_height s" using ok pos by (simp add: search_ok_def)
  have fits: "row * ps_width s + ps_width s \<le> length rest" if "row \<in> set [0 ..< ps_height s]" for row
  proof -
    have "Suc row * ps_width s \<le> ps_height s * ps_width s" using that by (intro mult_le_mono1) simp
    then show ?thesis using ok by (simp add: search_ok_def mult.commute)
  qed
  have rows: "i div ps_width s \<in> set [0 ..< ps_height s]" if "i < length rest" for i
    using search_ok_bounds(3) [OF ok that] by simp
  show ?thesis
  proof (cases "ps_suppression s = KeepAll \<and> ps_budget s < ps_height s")
    case True
    have "yields look c (best_row_winners look s rest [0 ..< ps_height s] [] w)
        (best_ok (ps_budget s) m (ps_width s) rest ({} \<union> set [0 ..< ps_height s]))"
      by (rule best_row_winners_yields) (use w m pos b fits in \<open>auto simp: best_ok_def\<close>)
    then have "yields look c (best_row_winners look s rest [0 ..< ps_height s] [] w) (heap_ok s m (ps_budget s) rest)"
      by (rule yields_mono) (use best_ok_heap rows True in auto)
    then show ?thesis
      unfolding initial_rows_def if_P [OF True] n
      by (auto simp: ready_def intro!: yields_bind yields_look yields_return
          elim!: yields_bind) 
  next
    case False
    have "yields look c (all_row_winners look s rest [0 ..< ps_height s] [] w)
        (rows_ok m (ps_width s) rest ({} \<union> set [0 ..< ps_height s]))"
      by (rule all_row_winners_yields) (use w m pos fits in \<open>auto simp: rows_ok_def\<close>)
    then show ?thesis
      unfolding initial_rows_def if_not_P [OF False] n
      by (rule yields_mono) (use rows in \<open>auto simp: rows_ok_def heap_ok_def candidate_at_def\<close>)
  qed
qed

section \<open>The selection is the greedy search\<close>

lemma single_winner:
  assumes "greatest_answer rest 0 m answer" "ps_min_score s = Fin m"
  shows "(case answer of None \<Rightarrow> [] | Some r \<Rightarrow> [winner_peak (ps_width s) r]) = reference_select s 1 rest"
proof (cases answer)
  case None
  then have "\<not> candidate_at m rest i" for i using assms(1) by (auto simp: greatest_answer_def candidate_at_def not_le)
  then have "reference_select s 1 rest = []" by (intro reference_select_end [OF assms(2)])
  then show ?thesis using None by (simp del: reference_select.simps)
next
  case (Some r)
  then obtain k where "best_of rest (length rest) k" "m \<le> score_of (rest ! k)"
    "r = \<lparr>rw_index = 0 + k, rw_score = Fin (score_of (rest ! k))\<rparr>"
    using assms(1) by (auto simp: greatest_answer_def)
  then show ?thesis using Some reference_select_pick [OF assms(2), of rest k 0] by (simp add: winner_peak_def)
qed

lemma search_ok_of:
  "\<not> nothing_to_select scores s \<Longrightarrow> search_ok s (length (take (ps_width s * ps_height s) scores)) \<and> 0 < ps_budget s"
  by (auto simp: nothing_to_select_def search_ok_def)

lemma peaks_body_yields:
  assumes w: "ready c w" and m: "ps_min_score s = Fin m" and n: "\<not> nothing_to_select scores s"
  shows "yields look c
     (if ps_budget s = 1
      then work_bind (greatest look (take (ps_width s * ps_height s) scores) 0 (ps_min_score s) w) (\<lambda>winner.
             work_return (case winner of None \<Rightarrow> [] | Some r \<Rightarrow> [winner_peak (ps_width s) r]))
      else work_bind (initial_rows look s (take (ps_width s * ps_height s) scores) w) (\<lambda>heap.
             select_loop look s heap (take (ps_width s * ps_height s) scores) []))
     (\<lambda>r. r = reference_peaks scores s)"
proof -
  let ?rest = "take (ps_width s * ps_height s) scores"
  have ok: "search_ok s (length ?rest)" and b: "0 < ps_budget s" using search_ok_of [OF n] by simp_all
  have ref: "reference_peaks scores s = reference_select s (ps_budget s) ?rest" using n by (simp add: reference_peaks_def)
  have one: "yields look c (work_bind (greatest look ?rest 0 (ps_min_score s) w) (\<lambda>winner.
      work_return (case winner of None \<Rightarrow> [] | Some r \<Rightarrow> [winner_peak (ps_width s) r])))
    (\<lambda>r. r = reference_peaks scores s)" if "ps_budget s = 1"
    unfolding ref that m
    by (rule yields_bind [OF greatest_yields [OF w]], rule yields_return) (simp_all only: single_winner [OF _ m])
  have several: "yields look c (work_bind (initial_rows look s ?rest w) (\<lambda>heap. select_loop look s heap ?rest []))
    (\<lambda>r. r = reference_peaks scores s)"
    unfolding ref
  proof (rule yields_bind [OF initial_rows_yields [OF w ok m b]], goal_cases)
    case (1 heap w')
    then show ?case using select_loop_yields [OF 1(1) ok m, of "[]"] by simp
  qed
  show ?thesis using one several by simp
qed

lemma peaks_yields:
  assumes m: "ps_min_score s = Fin m"
  shows "\<exists>r w. peaks look scores s c world = Some (r, w)
    \<and> (case r of Inl i \<Rightarrow> shows_interruption look c i | Inr found \<Rightarrow> found = reference_peaks scores s)"
proof -
  obtain ob world' where l: "look world = (ob, world')" by fastforce
  show ?thesis
  proof (cases "context_interruption c ob")
    case (Some i)
    then have "shows_interruption look c i" using l unfolding shows_interruption_def by (metis fst_conv)
    then show ?thesis using l Some by (simp add: peaks_def admit_def)
  next
    case None
    let ?w = "\<lparr>sw_operation = \<lparr>op_context = c, op_terminal = None\<rparr>, sw_since = 0, sw_world = world'\<rparr>"
    have w: "ready c ?w" by (simp add: ready_def checkpoint_offsets_def)
    show ?thesis
    proof (cases "nothing_to_select scores s")
      case True
      then have "peaks look scores s c world = commit_work look [] ?w" "reference_peaks scores s = []"
        using l None by (simp_all add: peaks_def admit_def reference_peaks_def)
      then show ?thesis using yields_commit [OF w, of look "[]"] by (simp only:)
    next
      case False
      obtain r w' where body: "(if ps_budget s = 1
          then work_bind (greatest look (take (ps_width s * ps_height s) scores) 0 (ps_min_score s) ?w) (\<lambda>winner.
             work_return (case winner of None \<Rightarrow> [] | Some r \<Rightarrow> [winner_peak (ps_width s) r]))
          else work_bind (initial_rows look s (take (ps_width s * ps_height s) scores) ?w) (\<lambda>heap.
             select_loop look s heap (take (ps_width s * ps_height s) scores) [])) = Some (r, w')"
        and r: "case r of Inl i \<Rightarrow> shows_interruption look c i | Inr x \<Rightarrow> ready c w' \<and> x = reference_peaks scores s"
        using peaks_body_yields [OF w m False, of look] by (auto simp: yields_def simp del: if_split)
      have p: "peaks look scores s c world = work_bind (Some (r, w')) (commit_work look)"
        using l None False body by (simp add: peaks_def admit_def Let_def)
      show ?thesis
      proof (cases r)
        case (Inl i)
        then show ?thesis using p r by (simp add: work_bind_def)
      next
        case (Inr x)
        then show ?thesis using p r yields_commit [of c w' look x] by (auto simp: work_bind_def)
      qed
    qed
  qed
qed

text \<open>
  C6: the selection of peaks returns for every correlation map, search and clock; it fails only with an interruption
  that a look at the caller's context shows; and what it returns is what the plain greedy search over the whole
  map returns: best score first, ties in row-major order, after each selection without the offsets whose
  placements overlap it. The lazy heap, the rows it leaves out and the early stop at a score of one change nothing.
\<close>
theorem peaks_are_greedy:
  assumes "ps_min_score s = Fin m"
  shows "\<exists>r w. peaks look scores s c world = Some (r, w)
    \<and> (case r of Inl i \<Rightarrow> \<exists>v. context_interruption c (fst (look v)) = Some i
       | Inr found \<Rightarrow> found = reference_peaks scores s)"
  using peaks_yields [OF assms, of look scores c world] by (simp only: shows_interruption_def)

lemma peaks_uninterrupted:
  assumes "ps_min_score s = Fin m" "\<And>v. context_interruption c (fst (look v)) = None"
  shows "\<exists>w. peaks look scores s c world = Some (Inr (reference_peaks scores s), w)"
proof -
  obtain r w where p: "peaks look scores s c world = Some (r, w)"
    "case r of Inl i \<Rightarrow> shows_interruption look c i | Inr found \<Rightarrow> found = reference_peaks scores s"
    using peaks_yields [OF assms(1), of look scores c world] by blast
  then show ?thesis using assms(2) by (cases r) (auto simp: shows_interruption_def)
qed

text \<open>A map of two rows, searched for a template of two by one pixels without overlaps.\<close>

definition two_rows :: "f64 list" where
  "two_rows = [Fin (9 / 10), Fin (19 / 20), Fin (1 / 5), NaN, Fin 1, Fin (3 / 5)]"

definition two_rows_search :: peak_search where
  "two_rows_search = \<lparr>ps_width = 3, ps_height = 2, ps_template_width = 2, ps_template_height = 1,
     ps_min_score = Fin (1 / 2), ps_budget = 3, ps_suppression = DropOverlapping\<rparr>"

definition still_look :: "unit \<Rightarrow> observation \<times> unit" where
  "still_look w = (\<lparr>obs_cancelled = False, obs_now = Instant 0\<rparr>, w)"

lemma two_rows_select:
  assumes "ps_width s = 3" "ps_template_width s = 2" "ps_min_score s = Fin (1 / 2)"
  shows "ps_suppression s = DropOverlapping \<Longrightarrow> ps_template_height s = 1 \<Longrightarrow> reference_select s (Suc (Suc (Suc 0))) two_rows =
     [\<lparr>pk_left = 1, pk_top = 1, pk_score = Fin 1\<rparr>, \<lparr>pk_left = 1, pk_top = 0, pk_score = Fin (19 / 20)\<rparr>]"
    "ps_suppression s = KeepAll \<Longrightarrow> reference_select s (Suc (Suc 0)) two_rows =
     [\<lparr>pk_left = 1, pk_top = 1, pk_score = Fin 1\<rparr>, \<lparr>pk_left = 1, pk_top = 0, pk_score = Fin (19 / 20)\<rparr>]"
  using assms
  by (simp_all add: two_rows_def public_score_def reference_remove_def reference_removes_def upt_rec)

lemma two_rows_reference:
  "reference_peaks two_rows two_rows_search =
     [\<lparr>pk_left = 1, pk_top = 1, pk_score = Fin 1\<rparr>, \<lparr>pk_left = 1, pk_top = 0, pk_score = Fin (19 / 20)\<rparr>]"
proof -
  have "\<not> nothing_to_select two_rows two_rows_search" "take 6 two_rows = two_rows"
    by (simp_all add: nothing_to_select_def two_rows_def two_rows_search_def usize_max_def usize_limit_def)
  moreover have "reference_select two_rows_search (Suc (Suc (Suc 0))) two_rows =
     [\<lparr>pk_left = 1, pk_top = 1, pk_score = Fin 1\<rparr>, \<lparr>pk_left = 1, pk_top = 0, pk_score = Fin (19 / 20)\<rparr>]"
    by (rule two_rows_select) (simp_all add: two_rows_search_def)
  moreover have "ps_budget two_rows_search = Suc (Suc (Suc 0))" "ps_width two_rows_search * ps_height two_rows_search = 6"
    by (simp_all add: two_rows_search_def)
  ultimately show ?thesis by (simp only: reference_peaks_def if_False)
qed

theorem peaks_are_greedy_witness:
  "\<exists>w. peaks still_look two_rows two_rows_search context_new () = Some
     (Inr [\<lparr>pk_left = 1, pk_top = 1, pk_score = Fin 1\<rparr>, \<lparr>pk_left = 1, pk_top = 0, pk_score = Fin (19 / 20)\<rparr>], w)"
proof -
  have m: "ps_min_score two_rows_search = Fin (1 / 2)" by (simp add: two_rows_search_def)
  have calm: "context_interruption context_new ob = None" for ob
    by (simp add: context_interruption_def context_new_def)
  obtain r w where p: "peaks still_look two_rows two_rows_search context_new () = Some (r, w)"
    and r: "case r of Inl i \<Rightarrow> \<exists>v. context_interruption context_new (fst (still_look v)) = Some i
       | Inr found \<Rightarrow> found = reference_peaks two_rows two_rows_search"
    using peaks_are_greedy [OF m, of still_look two_rows context_new "()"] by blast
  from r have "r = Inr (reference_peaks two_rows two_rows_search)" using calm by (cases r) simp_all
  then show ?thesis using p two_rows_reference by auto
qed

end
