(* ===== verification/PeakMatching.thy ===== *)
theory PeakMatching
  imports PeakGreedy Matching
begin

text \<open>
  The end of \<open>OpenCvBackend::find\<close>, \<open>crates/backend/opencv/src/backend.rs\<close>, from the correlation map to the
  candidates, and what the matcher makes of them: the backend may stop at the number of results the caller
  asked for, and may drop overlapping placements itself, without changing a single reported match.
\<close>

section \<open>From the map to the candidates\<close>

fun candidates_of_peaks :: "peak list \<Rightarrow> error + candidate list" where
  "candidates_of_peaks [] = Inr []"
| "candidates_of_peaks (p # ps) =
     (if i32_max < int (pk_left p) \<or> i32_max < int (pk_top p) then Inl (vision_error BackendFailed)
      else and_then (candidates_of_peaks ps) (\<lambda>cs.
        Inr (\<lparr>cd_left = int (pk_left p), cd_top = int (pk_top p), cd_score = pk_score p\<rparr> # cs)))"

definition search_of :: "nat \<Rightarrow> nat \<Rightarrow> pixel_extent \<Rightarrow> match_options \<Rightarrow> peak_search" where
  "search_of width height e o1 =
     \<lparr>ps_width = width, ps_height = height, ps_template_width = unat (px_width e),
      ps_template_height = unat (px_height e), ps_min_score = mo_min_score o1,
      ps_budget = unat (mo_max_results o1), ps_suppression = mo_suppression o1\<rparr>"

text \<open>\<open>None\<close> is a panic or a loop that never ends, as for \<open>peaks\<close>.\<close>

definition select_candidates ::
    "('w \<Rightarrow> observation \<times> 'w) \<Rightarrow> f64 list \<Rightarrow> nat \<Rightarrow> nat \<Rightarrow> pixel_extent \<Rightarrow> match_options \<Rightarrow> operation_context \<Rightarrow> 'w
     \<Rightarrow> (error + candidate list) option" where
  "select_candidates look scores width height e o1 c world =
     map_option (\<lambda>(r, _). and_then (map_err interruption_error r) candidates_of_peaks)
       (peaks look scores (search_of width height e o1) c world)"

section \<open>Offsets as matches\<close>

text \<open>Every offset of the map with a finite value, as the candidate a backend without a budget would report.\<close>

definition offset_candidate :: "f64 list \<Rightarrow> nat \<Rightarrow> nat \<Rightarrow> candidate" where
  "offset_candidate scores width i =
     \<lparr>cd_left = int (i mod width), cd_top = int (i div width), cd_score = public_score (scores ! i)\<rparr>"

definition all_candidates :: "f64 list \<Rightarrow> nat \<Rightarrow> candidate list" where
  "all_candidates scores width =
     map (offset_candidate scores width) (filter (\<lambda>i. is_finite (scores ! i)) [0 ..< length scores])"

text \<open>
  The region lies in the frame, and the map has one value for each placement of the template inside the region,
  which is how \<open>matchTemplate\<close> documents the size of its result.
\<close>

definition map_fits :: "pixel_rect \<Rightarrow> pixel_extent \<Rightarrow> nat \<Rightarrow> nat \<Rightarrow> bool" where
  "map_fits region e width height \<longleftrightarrow> valid_pixel_rect region \<and> 0 \<le> pr_left region \<and> 0 \<le> pr_top region
     \<and> 0 < width \<and> 0 < height
     \<and> 0 < uint (px_width e) \<and> 0 < uint (px_height e)
     \<and> int width + uint (px_width e) - 1 = pr_right region - pr_left region
     \<and> int height + uint (px_height e) - 1 = pr_bottom region - pr_top region"

lemma map_fits_bounds:
  assumes "map_fits region e width height"
  shows "width * height \<le> usize_max" "int width \<le> i32_max" "int height \<le> i32_max"
proof -
  have w: "int width \<le> i32_max" "int height \<le> i32_max"
    using assms by (auto simp: map_fits_def valid_pixel_rect_def in_i32_def)
  then have "width \<le> 2 ^ 31" "height \<le> 2 ^ 31" by (simp_all add: i32_max_def)
  then have "width * height \<le> 2 ^ 31 * 2 ^ 31" by (rule mult_le_mono)
  then show "width * height \<le> usize_max" by (simp add: usize_max_def usize_limit_def)
  show "int width \<le> i32_max" "int height \<le> i32_max" by (rule w)+
qed

lemma offset_place:
  assumes "i < width * height" "0 < (width :: nat)"
  shows "i mod width < width" "i div width < height"
  using assms by (simp_all add: div_less_iff_less_mult mult.commute)

definition offset_bounds :: "pixel_rect \<Rightarrow> pixel_extent \<Rightarrow> nat \<Rightarrow> nat \<Rightarrow> pixel_rect" where
  "offset_bounds region e width i =
     \<lparr>pr_left = pr_left region + int (i mod width), pr_top = pr_top region + int (i div width),
      pr_right = pr_left region + int (i mod width) + uint (px_width e),
      pr_bottom = pr_top region + int (i div width) + uint (px_height e)\<rparr>"

lemma offset_candidate_bounds:
  assumes fits: "map_fits region e width height" and i: "i < width * height"
  shows "candidate_bounds region (offset_candidate scores width i) e = Some (offset_bounds region e width i)"
    "valid_pixel_rect (offset_bounds region e width i)"
proof -
  have w: "0 < width" using fits by (simp add: map_fits_def)
  note p = offset_place [OF i w]
  have x: "pr_left region + int (i mod width) + uint (px_width e) \<le> pr_right region"
    and y: "pr_top region + int (i div width) + uint (px_height e) \<le> pr_bottom region"
    using fits p by (simp_all add: map_fits_def)
  have pos: "0 \<le> uint (px_width e)" "0 \<le> uint (px_height e)" by simp_all
  show "valid_pixel_rect (offset_bounds region e width i)"
    using fits x y pos by (auto simp: map_fits_def valid_pixel_rect_def offset_bounds_def in_i32_def)
  show "candidate_bounds region (offset_candidate scores width i) e = Some (offset_bounds region e width i)"
    using fits x y pos
    by (auto simp: map_fits_def candidate_bounds_def offset_candidate_def offset_bounds_def i32_checked_add_def
        i32_of_u32_def in_i32_def valid_pixel_rect_def pixel_rect_new_def contains_rect_def)
qed

text \<open>The match of an offset, and how two of them compare and overlap.\<close>

definition offset_match :: "'q prepared_template \<Rightarrow> pixel_rect \<Rightarrow> f64 list \<Rightarrow> nat \<Rightarrow> nat \<Rightarrow> match_found" where
  "offset_match t region scores width i = match_of t region (offset_candidate scores width i)"

lemma offset_match_sel:
  assumes "map_fits region (pt_extent t) width height" "i < width * height" "is_finite (scores ! i)"
  shows "mf_template (offset_match t region scores width i) = pt_id t"
    "mf_bounds (offset_match t region scores width i) = offset_bounds region (pt_extent t) width i"
    "mf_score (offset_match t region scores width i) = Fin (score_of (scores ! i))"
    "reportable t region (offset_candidate scores width i)"
  using offset_candidate_bounds(1) [OF assms(1,2), of scores] public_score_finite(1) [OF assms(3)] public_score_finite(2,3) [of "scores ! i"]
  by (simp_all add: offset_match_def match_of_def reportable_def offset_candidate_def score_in_range_def)

lemma place_order:
  fixes i j width :: nat
  shows "i \<le> j \<longleftrightarrow> i div width < j div width \<or> i div width = j div width \<and> i mod width \<le> j mod width"
proof (cases "i div width" "j div width" rule: linorder_cases)
  case less
  then show ?thesis by (metis div_le_mono not_le nat_le_linear)
next
  case equal
  then have "i \<le> j \<longleftrightarrow> i mod width \<le> j mod width" by (metis add_le_cancel_left div_mult_mod_eq)
  then show ?thesis using equal by simp
next
  case greater
  then show ?thesis by (metis div_le_mono not_le less_asym)
qed

lemma offset_match_order:
  assumes fits: "map_fits region (pt_extent t) width height"
    and i: "i < width * height" "is_finite (scores ! i)" and j: "j < width * height" "is_finite (scores ! j)"
  shows "canonical_order (offset_match t region scores width i) (offset_match t region scores width j) \<noteq> OrdGreater
    \<longleftrightarrow> offset_key scores j \<le> offset_key scores i"
proof -
  have swap: "compare_string s s = OrdEqual" for s by (rule comparison.cmp_refl [OF comparison_string])
  show ?thesis
    unfolding canonical_order_def offset_match_sel [OF fits i] offset_match_sel [OF fits j] offset_key_def
    using place_order [of i j width]
    by (auto simp: total_cmp_def compare_def swap offset_bounds_def less_eq_prod_def)
qed

lemma intervals_meet:
  fixes a b t :: int
  assumes "0 < t"
  shows "{a ..< a + t} \<inter> {b ..< b + t} \<noteq> {} \<longleftrightarrow> \<bar>b - a\<bar> < t"
proof -
  have "max a b \<in> {a ..< a + t} \<inter> {b ..< b + t}" if "\<bar>b - a\<bar> < t" using that assms by auto
  then show ?thesis by auto
qed

lemma offset_match_overlaps:
  assumes fits: "map_fits region (pt_extent t) width height" and i: "i < width * height" "is_finite (scores ! i)"
    and j: "j < width * height" "is_finite (scores ! j)"
    and s: "s = search_of width height (pt_extent t) o1" "mo_suppression o1 = DropOverlapping"
  shows "overlaps (offset_match t region scores width i) (offset_match t region scores width j) \<longleftrightarrow> reference_removes s i j"
proof -
  have pos: "0 < uint (px_width (pt_extent t))" "0 < uint (px_height (pt_extent t))"
    using fits by (simp_all add: map_fits_def)
  have "overlaps (offset_match t region scores width i) (offset_match t region scores width j)
      \<longleftrightarrow> pixels (offset_bounds region (pt_extent t) width i) \<inter> pixels (offset_bounds region (pt_extent t) width j) \<noteq> {}"
    using offset_candidate_bounds(2) [OF fits i(1)] offset_candidate_bounds(2) [OF fits j(1)]
    by (subst overlaps_pixels) (simp_all add: offset_match_sel [OF fits i] offset_match_sel [OF fits j])
  also have "\<dots> \<longleftrightarrow> \<bar>int (j mod width) - int (i mod width)\<bar> < uint (px_width (pt_extent t))
      \<and> \<bar>int (j div width) - int (i div width)\<bar> < uint (px_height (pt_extent t))"
    using intervals_meet [OF pos(1), of "pr_left region + int (i mod width)" "pr_left region + int (j mod width)"]
      intervals_meet [OF pos(2), of "pr_top region + int (i div width)" "pr_top region + int (j div width)"]
    by (auto simp: pixels_def offset_bounds_def Times_Int_Times Times_empty)
  also have "\<dots> \<longleftrightarrow> reference_removes s i j"
    using s by (simp add: reference_removes_def search_of_def)
  finally show ?thesis .
qed

section \<open>Greedy selection and the matcher's suppression\<close>

text \<open>Take the first, drop what conflicts with it, go on.\<close>

function thin :: "('a \<Rightarrow> 'a \<Rightarrow> bool) \<Rightarrow> 'a list \<Rightarrow> 'a list" where
  "thin P [] = []"
| "thin P (m # ms) = m # thin P (filter (\<lambda>x. \<not> P m x) ms)"
  by pat_completeness auto
termination by (relation "measure (length \<circ> snd)") (auto simp: le_imp_less_Suc)

lemma suppress_thin: "suppress S ms = S @ thin overlaps (filter (\<lambda>x. \<not> (\<exists>s \<in> set S. overlaps s x)) ms)"
proof (induction S ms rule: suppress.induct)
  case (2 S m ms)
  show ?case
  proof (cases "\<exists>s \<in> set S. overlaps s m")
    case True
    then show ?thesis using 2(1) [OF True] by auto
  next
    case False
    then show ?thesis using 2(2) by (simp add: conj_commute)
  qed
qed simp

lemma suppress_is_thin: "suppress [] ms = thin overlaps ms"
  by (simp add: suppress_thin)

lemma thin_subset: "set (thin P ms) \<subseteq> set ms"
  by (induction P ms rule: thin.induct) auto

lemma thin_sorted: "sorted_wrt R ms \<Longrightarrow> sorted_wrt R (thin P ms)"
  by (induction P ms rule: thin.induct) (use thin_subset in \<open>fastforce simp: sorted_wrt_filter\<close>)+

lemma thin_free: "sorted_wrt (\<lambda>a b. \<not> P a b) (thin P ms)"
  by (induction P ms rule: thin.induct) (use thin_subset in \<open>fastforce+\<close>)

lemma thin_id: "sorted_wrt (\<lambda>a b. \<not> P a b) ms \<Longrightarrow> thin P ms = ms"
  by (induction P ms rule: thin.induct) (simp_all add: filter_id_conv)

definition conflicts :: "peak_search \<Rightarrow> match_found \<Rightarrow> match_found \<Rightarrow> bool" where
  "conflicts s a b \<longleftrightarrow> ps_suppression s = DropOverlapping \<and> overlaps a b"

definition candidate_offsets :: "rat \<Rightarrow> f64 list \<Rightarrow> nat list" where
  "candidate_offsets m rest = filter (candidate_at m rest) [0 ..< length rest]"

text \<open>A map that lost some of its values.\<close>

definition part_of_map :: "f64 list \<Rightarrow> f64 list \<Rightarrow> bool" where
  "part_of_map scores rest \<longleftrightarrow> length rest = length scores \<and> (\<forall>i < length rest. is_finite (rest ! i) \<longrightarrow> rest ! i = scores ! i)"

lemma part_of_removed: "part_of_map scores rest \<Longrightarrow> part_of_map scores (reference_remove s i rest)"
  by (auto simp: part_of_map_def reference_remove_blanked)

lemma candidate_offsets_removed:
  "candidate_offsets m (reference_remove s i rest) = filter (\<lambda>j. \<not> reference_removes s i j) (candidate_offsets m rest)"
  unfolding candidate_offsets_def reference_remove_blanked
  by (auto simp: candidate_at_def intro!: filter_cong split: if_splits)

lemma part_candidate:
  assumes "part_of_map scores rest" "j \<in> set (candidate_offsets m rest)"
  shows "j < length scores" "is_finite (scores ! j)" "rest ! j = scores ! j" "m \<le> score_of (scores ! j)"
    "j < length rest" "is_finite (rest ! j)" "offset_key rest j = offset_key scores j"
  using assms by (auto simp: part_of_map_def candidate_offsets_def candidate_at_def offset_key_def)

lemma sort_filter:
  "sort_by canonical_order (filter P ms) = filter P (sort_by canonical_order ms)"
proof (rule canonical.sorted_unique)
  show "sorted_wrt (\<lambda>x y. canonical_order x y \<noteq> OrdGreater) (sort_by canonical_order (filter P ms))"
    by (rule canonical.sort_by_sorted)
  show "sorted_wrt (\<lambda>x y. canonical_order x y \<noteq> OrdGreater) (filter P (sort_by canonical_order ms))"
    by (intro sorted_wrt_filter canonical.sort_by_sorted)
  show "mset (sort_by canonical_order (filter P ms)) = mset (filter P (sort_by canonical_order ms))"
    by (simp add: mset_filter)
qed

text \<open>A correlation map of a template over a region, and the search the backend makes of it.\<close>

definition searching ::
    "'q prepared_template \<Rightarrow> pixel_rect \<Rightarrow> match_options \<Rightarrow> f64 list \<Rightarrow> nat \<Rightarrow> nat \<Rightarrow> rat \<Rightarrow> peak_search \<Rightarrow> bool" where
  "searching t region o1 scores width height m s \<longleftrightarrow> map_fits region (pt_extent t) width height
     \<and> length scores = width * height \<and> mo_min_score o1 = Fin m \<and> s = search_of width height (pt_extent t) o1"

lemma searchingD:
  assumes "searching t region o1 scores width height m s"
  shows "map_fits region (pt_extent t) width height" "length scores = width * height" "ps_min_score s = Fin m"
    "ps_suppression s = mo_suppression o1" "ps_width s = width" "s = search_of width height (pt_extent t) o1"
  using assms by (simp_all add: searching_def search_of_def)

lemma match_order:
  assumes g: "searching t region o1 scores width height m s" and p: "part_of_map scores rest"
    and i: "i \<in> set (candidate_offsets m rest)" and j: "j \<in> set (candidate_offsets m rest)"
  shows "canonical_order (offset_match t region scores width i) (offset_match t region scores width j) \<noteq> OrdGreater
    \<longleftrightarrow> offset_key rest j \<le> offset_key rest i"
  using offset_match_order [OF searchingD(1) [OF g], of i scores j] part_candidate [OF p i] part_candidate [OF p j]
    searchingD(2) [OF g] by simp

lemma match_inj:
  assumes g: "searching t region o1 scores width height m s" and p: "part_of_map scores rest"
  shows "inj_on (offset_match t region scores width) (set (candidate_offsets m rest))"
proof (rule inj_onI)
  fix i j
  assume ij: "i \<in> set (candidate_offsets m rest)" "j \<in> set (candidate_offsets m rest)"
    and eq: "offset_match t region scores width i = offset_match t region scores width j"
  have "canonical_order (offset_match t region scores width i) (offset_match t region scores width i) \<noteq> OrdGreater"
    by (simp add: canonical.cmp_refl)
  then have "offset_key rest j \<le> offset_key rest i" "offset_key rest i \<le> offset_key rest j"
    using match_order [OF g p ij] match_order [OF g p ij(2,1)] eq by simp_all
  then show "i = j" by (metis antisym offset_key_eq)
qed

lemma match_removes:
  assumes g: "searching t region o1 scores width height m s" and p: "part_of_map scores rest"
    and i: "i \<in> set (candidate_offsets m rest)" and j: "j \<in> set (candidate_offsets m rest)"
  shows "reference_removes s i j \<longleftrightarrow> offset_match t region scores width j = offset_match t region scores width i
    \<or> conflicts s (offset_match t region scores width i) (offset_match t region scores width j)"
proof -
  note d = searchingD [OF g]
  have same: "offset_match t region scores width j = offset_match t region scores width i \<longleftrightarrow> j = i"
    using match_inj [OF g p] i j by (auto dest: inj_onD)
  show ?thesis
  proof (cases "mo_suppression o1 = DropOverlapping")
    case True
    have "overlaps (offset_match t region scores width i) (offset_match t region scores width k) \<longleftrightarrow> reference_removes s i k"
      if "k \<in> set (candidate_offsets m rest)" for k
      using offset_match_overlaps [OF d(1), of i scores k s o1] part_candidate [OF p i] part_candidate [OF p that] d(2,6) True
      by simp
    from this [OF i] this [OF j] show ?thesis
      using True same d(4) d(1) part_candidate(1,2) [OF p i] d(2)
      by (auto simp: conflicts_def reference_removes_def d(6) search_of_def map_fits_def word_less_nat_alt)
  next
    case False
    then show ?thesis using same d(4) by (auto simp: reference_removes_def conflicts_def)
  qed
qed

section \<open>The greedy search finds what the matcher keeps\<close>

definition sorted_matches :: "'q prepared_template \<Rightarrow> pixel_rect \<Rightarrow> f64 list \<Rightarrow> nat \<Rightarrow> rat \<Rightarrow> f64 list \<Rightarrow> match_found list" where
  "sorted_matches t region scores width m rest =
     sort_by canonical_order (map (offset_match t region scores width) (candidate_offsets m rest))"

definition peak_match :: "'q prepared_template \<Rightarrow> pixel_rect \<Rightarrow> peak \<Rightarrow> match_found" where
  "peak_match t region p =
     match_of t region \<lparr>cd_left = int (pk_left p), cd_top = int (pk_top p), cd_score = pk_score p\<rparr>"

lemma candidate_of_match:
  assumes "y \<in> set (sorted_matches t region scores width m rest)"
  obtains i where "i \<in> set (candidate_offsets m rest)" "y = offset_match t region scores width i"
  using assms by (auto simp: sorted_matches_def)

lemma first_match_best:
  assumes g: "searching t region o1 scores width height m s" and p: "part_of_map scores rest"
    and ys: "sorted_matches t region scores width m rest = offset_match t region scores width i # zs"
    and i: "i \<in> set (candidate_offsets m rest)"
  shows "best_of rest (length rest) i" "m \<le> score_of (rest ! i)"
proof -
  note c = part_candidate [OF p i]
  show m: "m \<le> score_of (rest ! i)" using c by simp
  have "sorted_wrt (\<lambda>x y. canonical_order x y \<noteq> OrdGreater) (sorted_matches t region scores width m rest)"
    unfolding sorted_matches_def by (rule canonical.sort_by_sorted)
  then have first: "canonical_order (offset_match t region scores width i) y \<noteq> OrdGreater"
    if "y \<in> set (sorted_matches t region scores width m rest)" for y
    using that ys by (auto simp: canonical.cmp_refl)
  have "offset_key rest j \<le> offset_key rest i" if "j < length rest" "is_finite (rest ! j)" for j
  proof (cases "candidate_at m rest j")
    case True
    then have j: "j \<in> set (candidate_offsets m rest)" using that by (simp add: candidate_offsets_def)
    then have "offset_match t region scores width j \<in> set (sorted_matches t region scores width m rest)"
      by (simp add: sorted_matches_def)
    from first [OF this] show ?thesis by (simp add: match_order [OF g p i j])
  next
    case False
    then have "score_of (rest ! j) < score_of (rest ! i)" using that m by (auto simp: candidate_at_def)
    then show ?thesis by (simp add: offset_key_def)
  qed
  then show "best_of rest (length rest) i" using c by (simp add: best_of_key)
qed

lemma matches_after_removal:
  assumes g: "searching t region o1 scores width height m s" and p: "part_of_map scores rest"
    and ys: "sorted_matches t region scores width m rest = offset_match t region scores width i # zs"
    and i: "i \<in> set (candidate_offsets m rest)"
  shows "sorted_matches t region scores width m (reference_remove s i rest)
    = filter (\<lambda>x. \<not> conflicts s (offset_match t region scores width i) x) zs"
proof -
  let ?om = "offset_match t region scores width" and ?y = "offset_match t region scores width i"
  have "map ?om (candidate_offsets m (reference_remove s i rest))
      = filter (\<lambda>x. x \<noteq> ?y \<and> \<not> conflicts s ?y x) (map ?om (candidate_offsets m rest))"
    unfolding candidate_offsets_removed filter_map comp_def
    by (intro arg_cong [where f = "map ?om"] filter_cong refl) (simp add: match_removes [OF g p i])
  then have "sorted_matches t region scores width m (reference_remove s i rest)
      = filter (\<lambda>x. x \<noteq> ?y \<and> \<not> conflicts s ?y x) (?y # zs)"
    unfolding sorted_matches_def ys [symmetric] by (simp add: sort_filter sorted_matches_def)
  moreover have "distinct (?y # zs)"
  proof -
    have "distinct (map ?om (candidate_offsets m rest))"
      using match_inj [OF g p] by (simp add: distinct_map candidate_offsets_def)
    then show ?thesis unfolding ys [symmetric] sorted_matches_def by (metis mset_sort_by mset_eq_imp_distinct_iff)
  qed
  ultimately show ?thesis by (auto intro: filter_cong)
qed

lemma greedy_is_thin:
  assumes g: "searching t region o1 scores width height m s" and p: "part_of_map scores rest"
  shows "map (peak_match t region) (reference_select s n rest)
    = take n (thin (conflicts s) (sorted_matches t region scores width m rest))"
  using p
proof (induction n arbitrary: rest)
  case (Suc n)
  note d = searchingD [OF g]
  show ?case
  proof (cases "sorted_matches t region scores width m rest")
    case Nil
    then have "candidate_offsets m rest = []"
      unfolding sorted_matches_def by (metis length_0_conv length_map length_sort_by)
    then have "\<not> candidate_at m rest i" for i
      by (auto simp: candidate_offsets_def filter_empty_conv candidate_at_def)
    then have "reference_select s (Suc n) rest = []" by (intro reference_select_end [OF d(3)])
    then show ?thesis using Nil by (simp del: reference_select.simps)
  next
    case (Cons y zs)
    then obtain i where i: "i \<in> set (candidate_offsets m rest)" "y = offset_match t region scores width i"
      using candidate_of_match [of y t region scores width m rest] by (metis list.set_intros(1))
    note ys = Cons [unfolded i(2)] and c = part_candidate [OF Suc.prems i(1)]
    note best = first_match_best [OF g Suc.prems ys i(1)]
    have "peak_match t region \<lparr>pk_left = i mod width, pk_top = i div width, pk_score = Fin (score_of (rest ! i))\<rparr> = y"
      using c public_score_finite(1) [OF c(2)] by (simp add: peak_match_def i(2) offset_match_def offset_candidate_def)
    then show ?thesis
      using Suc.IH [OF part_of_removed [OF Suc.prems]] matches_after_removal [OF g Suc.prems ys i(1)]
      by (simp add: reference_select_pick [OF d(3) best] Cons d(5) i(2) del: reference_select.simps)
  qed
qed simp

section \<open>The budget loses nothing\<close>

lemma peaks_in_map:
  assumes "ps_min_score s = Fin m" "part_of_map scores rest" "pk \<in> set (reference_select s n rest)"
  obtains i where "i < length scores" "is_finite (scores ! i)" "m \<le> score_of (scores ! i)"
    "pk = \<lparr>pk_left = i mod ps_width s, pk_top = i div ps_width s, pk_score = Fin (score_of (scores ! i))\<rparr>"
  using assms(2,3)
proof (induction n arbitrary: rest thesis)
  case (Suc n)
  show ?case
  proof (cases "reference_best 0 rest None")
    case None
    then show ?thesis using Suc.prems by simp
  next
    case (Some r)
    obtain i sc where r: "r = (i, sc)" by fastforce
    have b: "best_of rest (length rest) i" "sc = Fin (score_of (rest ! i))"
      using reference_best_cases [of rest] Some r by simp_all
    then have i: "i < length scores" "is_finite (scores ! i)" "rest ! i = scores ! i"
      using Suc.prems(2) by (auto simp: best_of_def part_of_map_def)
    show ?thesis
    proof (cases "flt sc (ps_min_score s)")
      case True
      then show ?thesis using Suc.prems(3) Some r by simp
    next
      case False
      then have "m \<le> score_of (scores ! i)" using b i assms(1) by simp
      then show ?thesis
        using Suc.prems Some r b i False Suc.IH [OF _ part_of_removed [OF Suc.prems(2)]] by auto
    qed
  qed
qed simp

lemma candidates_of_small:
  assumes "\<And>p. p \<in> set ps \<Longrightarrow> int (pk_left p) \<le> i32_max \<and> int (pk_top p) \<le> i32_max"
  shows "candidates_of_peaks ps
    = Inr (map (\<lambda>p. \<lparr>cd_left = int (pk_left p), cd_top = int (pk_top p), cd_score = pk_score p\<rparr>) ps)"
  using assms by (induction ps) (force simp: and_then_def)+

lemma normalize_reportable:
  assumes "\<forall>c \<in> set cs. reportable t region c" and "mo_min_score o1 = Fin m"
  shows "normalize t region o1 cs = Inr (take (unat (mo_max_results o1))
    (let kept = sort_by canonical_order (map (match_of t region) (filter (\<lambda>c. \<not> flt (cd_score c) (Fin m)) cs))
     in if mo_suppression o1 = DropOverlapping then thin overlaps kept else kept))"
proof -
  have "accepted_matches t region o1 cs = Inr (map (match_of t region) (filter (\<lambda>c. \<not> flt (cd_score c) (Fin m)) cs))"
    using assms by (simp add: accepted_matches_Inr)
  then show ?thesis by (simp add: normalize_def and_then_def Let_def suppress_is_thin)
qed

lemma thin_nothing: "(\<And>a b. \<not> P a b) \<Longrightarrow> thin P ms = ms"
  by (rule thin_id) (simp add: sorted_wrt_iff_nth_less)

lemma thin_conflicts:
  "thin (conflicts s) ms = (if ps_suppression s = DropOverlapping then thin overlaps ms else ms)"
  by (auto simp: conflicts_def [abs_def] intro: thin_nothing)

lemma all_candidates_kept:
  "map (match_of t region) (filter (\<lambda>c. \<not> flt (cd_score c) (Fin m)) (all_candidates scores width))
    = map (offset_match t region scores width) (candidate_offsets m scores)"
proof -
  have "filter (\<lambda>c. \<not> flt (cd_score c) (Fin m)) (all_candidates scores width)
      = map (offset_candidate scores width) (candidate_offsets m scores)"
    unfolding all_candidates_def candidate_offsets_def filter_map comp_def filter_filter
    by (intro arg_cong [where f = "map (offset_candidate scores width)"] filter_cong refl)
      (auto simp: candidate_at_def offset_candidate_def public_score_finite(1))
  then show ?thesis by (simp add: offset_match_def comp_def)
qed

lemma normalize_all:
  assumes g: "searching t region o1 scores width height m s"
  shows "normalize t region o1 (all_candidates scores width)
    = Inr (take (unat (mo_max_results o1)) (thin (conflicts s) (sorted_matches t region scores width m scores)))"
proof -
  note d = searchingD [OF g]
  have "\<forall>c \<in> set (all_candidates scores width). reportable t region c"
    using offset_match_sel(4) [OF d(1)] d(2) by (auto simp: all_candidates_def)
  moreover have "mo_min_score o1 = Fin m" using g by (simp add: searching_def)
  ultimately show ?thesis
    by (simp add: normalize_reportable all_candidates_kept thin_conflicts d(4) sorted_matches_def Let_def)
qed

lemma normalize_selected:
  assumes g: "searching t region o1 scores width height m s"
    and cs: "candidates_of_peaks (reference_select s (unat (mo_max_results o1)) scores) = Inr cs"
  shows "normalize t region o1 cs
    = Inr (take (unat (mo_max_results o1)) (thin (conflicts s) (sorted_matches t region scores width m scores)))"
proof -
  note d = searchingD [OF g]
  let ?k = "unat (mo_max_results o1)"
  let ?ps = "reference_select s ?k scores" and ?all = "thin (conflicts s) (sorted_matches t region scores width m scores)"
  let ?cand = "\<lambda>p. \<lparr>cd_left = int (pk_left p), cd_top = int (pk_top p), cd_score = pk_score p\<rparr>"
  have part: "part_of_map scores scores" by (simp add: part_of_map_def)
  have peak: "reportable t region (?cand p) \<and> \<not> flt (pk_score p) (Fin m) \<and> int (pk_left p) \<le> i32_max \<and> int (pk_top p) \<le> i32_max"
    if pin: "p \<in> set ?ps" for p
  proof -
    obtain i where i: "i < length scores" "is_finite (scores ! i)" "m \<le> score_of (scores ! i)"
      "p = \<lparr>pk_left = i mod ps_width s, pk_top = i div ps_width s, pk_score = Fin (score_of (scores ! i))\<rparr>"
      using peaks_in_map [OF d(3) part pin] by blast
    have "?cand p = offset_candidate scores width i"
      using i d(5) by (simp add: offset_candidate_def public_score_finite(1))
    moreover have "i mod width < width" "i div width < height"
      using offset_place [of i width height] i(1) d(1,2) by (simp_all add: map_fits_def)
    ultimately show ?thesis
      using offset_match_sel(4) [OF d(1)] i d(2,5) map_fits_bounds(2,3) [OF d(1)] by simp
  qed
  have c: "cs = map ?cand ?ps" using candidates_of_small [of ?ps] peak cs by simp
  have kept: "map (match_of t region) (filter (\<lambda>c. \<not> flt (cd_score c) (Fin m)) cs) = take ?k ?all"
  proof -
    have "filter (\<lambda>c. \<not> flt (cd_score c) (Fin m)) cs = cs" using peak by (auto simp: c filter_id_conv)
    then show ?thesis using greedy_is_thin [OF g part, of ?k] by (simp add: c peak_match_def [abs_def] comp_def)
  qed
  have "sorted_wrt (\<lambda>x y. canonical_order x y \<noteq> OrdGreater) ?all"
    unfolding sorted_matches_def by (intro thin_sorted canonical.sort_by_sorted)
  then have sorted: "sort_by canonical_order (take ?k ?all) = take ?k ?all"
    by (intro canonical.sorted_unique canonical.sort_by_sorted sorted_wrt_take) simp_all
  have thinned: "thin overlaps (take ?k ?all) = take ?k ?all" if "mo_suppression o1 = DropOverlapping"
    using thin_free [of overlaps] that d(4) by (intro thin_id sorted_wrt_take) (simp add: thin_conflicts)
  have rep: "\<forall>c \<in> set cs. reportable t region c" using peak c by auto
  have score: "mo_min_score o1 = Fin m" using g by (simp add: searching_def)
  note base = normalize_reportable [OF rep score]
  show ?thesis unfolding base kept Let_def sorted using thinned by simp
qed

text \<open>
  C5: the budget of the OpenCV backend loses nothing when the caller asks for a positive score: the matches the
  matcher makes of the candidates the backend selects, at most as many as the caller asked for and already
  without overlaps, are those it would make of every placement in the correlation map, each a well-formed
  candidate inside the searched region. Every reported score is then positive, so the sign of a zero, which
  the model does not have, decides nothing. With a least score of zero the code may differ: its selection takes
  \<open>-0.0\<close> and \<open>0.0\<close> for equal, and the matcher ranks them.
\<close>
theorem backend_budget_loses_nothing:
  assumes "map_fits region (pt_extent t) width height" and "length scores = width * height" and "valid_options o1"
    and "flt (Fin 0) (mo_min_score o1)"
    and "select_candidates look scores width height (pt_extent t) o1 c world = Some (Inr cs)"
  shows "\<exists>ms. normalize t region o1 cs = Inr ms \<and> normalize t region o1 (all_candidates scores width) = Inr ms
    \<and> (\<forall>x \<in> set ms. flt (Fin 0) (mf_score x))
    \<and> (\<forall>x \<in> set (all_candidates scores width). reportable t region x)"
proof -
  let ?s = "search_of width height (pt_extent t) o1"
  obtain m where m: "mo_min_score o1 = Fin m" "mo_max_results o1 \<noteq> 0"
    using assms(3) by (cases "mo_min_score o1") (auto simp: valid_options_def score_in_range_def)
  have g: "searching t region o1 scores width height m ?s" using assms(1,2) m by (simp add: searching_def)
  obtain found w where f: "peaks look scores ?s c world = Some (Inr found, w)" "candidates_of_peaks found = Inr cs"
    using assms(5) by (auto simp: select_candidates_def result_simps split: sum.splits)
  have "ps_min_score ?s = Fin m" using m by (simp add: search_of_def)
  from peaks_yields [OF this, of look scores c world] f have "found = reference_peaks scores ?s" by simp
  moreover have "\<not> nothing_to_select scores ?s"
  proof -
    have "unat (px_width (pt_extent t)) \<noteq> 0" "unat (px_height (pt_extent t)) \<noteq> 0" "0 < width" "0 < height"
      using assms(1) by (auto simp: map_fits_def unat_eq_0)
    moreover have "unat (mo_max_results o1) \<noteq> 0" using m(2) by (simp add: unat_eq_0)
    ultimately show ?thesis
      using map_fits_bounds(1) [OF assms(1)] assms(2) by (simp add: nothing_to_select_def search_of_def not_less)
  qed
  ultimately have "found = reference_select ?s (unat (mo_max_results o1)) scores"
    using assms(2) by (simp add: reference_peaks_def search_of_def)
  then have "normalize t region o1 cs = normalize t region o1 (all_candidates scores width)"
    using normalize_selected [OF g] normalize_all [OF g] f by simp
  moreover have "\<forall>x \<in> set (all_candidates scores width). reportable t region x"
    using offset_match_sel(4) [OF assms(1)] assms(2) by (auto simp: all_candidates_def)
  moreover have "flt (Fin 0) (mf_score x)"
    if "x \<in> set (take (unat (mo_max_results o1)) (thin (conflicts ?s) (sorted_matches t region scores width m scores)))" for x
  proof -
    have "x \<in> set (sorted_matches t region scores width m scores)"
      using that thin_subset set_take_subset by fastforce
    then obtain i where i: "i \<in> set (candidate_offsets m scores)" "x = offset_match t region scores width i"
      by (auto simp: sorted_matches_def)
    have part: "part_of_map scores scores" by (simp add: part_of_map_def)
    note c = part_candidate [OF part i(1)]
    have "mf_score x = Fin (score_of (scores ! i))"
      using offset_match_sel(3) [OF assms(1)] c(1,2) assms(2) i(2) by simp
    then show ?thesis using c(4) assms(4) m(1) by simp
  qed
  ultimately show ?thesis using normalize_all [OF g] by simp
qed

text \<open>A template of two by two pixels in a region of four by three: six placements, of which the best two are asked for.\<close>

definition wide_region :: pixel_rect where
  "wide_region = \<lparr>pr_left = 0, pr_top = 0, pr_right = 4, pr_bottom = 3\<rparr>"

definition wide_options :: match_options where
  "wide_options = \<lparr>mo_min_score = Fin (1 / 2), mo_max_results = 2, mo_suppression = KeepAll\<rparr>"

lemma wide_selected:
  "select_candidates still_look two_rows 3 2 (pt_extent (small_template 2)) wide_options context_new () =
     Some (Inr [\<lparr>cd_left = 1, cd_top = 1, cd_score = Fin 1\<rparr>, \<lparr>cd_left = 1, cd_top = 0, cd_score = Fin (19 / 20)\<rparr>])"
proof -
  let ?s = "search_of 3 2 (pt_extent (small_template 2)) wide_options"
  have "\<not> nothing_to_select two_rows ?s" "take 6 two_rows = two_rows"
    by (simp_all add: nothing_to_select_def two_rows_def search_of_def wide_options_def small_template_def
        usize_max_def usize_limit_def)
  moreover have "ps_width ?s * ps_height ?s = 6" "ps_budget ?s = Suc (Suc 0)"
    by (simp_all add: search_of_def wide_options_def)
  moreover have "reference_select ?s (Suc (Suc 0)) two_rows =
      [\<lparr>pk_left = 1, pk_top = 1, pk_score = Fin 1\<rparr>, \<lparr>pk_left = 1, pk_top = 0, pk_score = Fin (19 / 20)\<rparr>]"
    by (rule two_rows_select) (simp_all add: search_of_def wide_options_def small_template_def)
  ultimately have "reference_peaks two_rows ?s =
      [\<lparr>pk_left = 1, pk_top = 1, pk_score = Fin 1\<rparr>, \<lparr>pk_left = 1, pk_top = 0, pk_score = Fin (19 / 20)\<rparr>]"
    by (simp only: reference_peaks_def if_False)
  moreover obtain w where "peaks still_look two_rows ?s context_new () = Some (Inr (reference_peaks two_rows ?s), w)"
    using peaks_uninterrupted [of ?s "1 / 2" context_new still_look two_rows "()"]
    by (auto simp: search_of_def wide_options_def context_interruption_def context_new_def)
  ultimately show ?thesis by (simp add: select_candidates_def map_err_def and_then_def i32_max_def)
qed

theorem backend_budget_loses_nothing_witness:
  "\<exists>ms. normalize (small_template 2) wide_region wide_options
       [\<lparr>cd_left = 1, cd_top = 1, cd_score = Fin 1\<rparr>, \<lparr>cd_left = 1, cd_top = 0, cd_score = Fin (19 / 20)\<rparr>] = Inr ms
     \<and> normalize (small_template 2) wide_region wide_options (all_candidates two_rows 3) = Inr ms"
proof -
  have "map_fits wide_region (pt_extent (small_template 2)) 3 2" "length two_rows = 3 * 2" "valid_options wide_options"
    "flt (Fin 0) (mo_min_score wide_options)"
    by (simp_all add: map_fits_def wide_region_def valid_pixel_rect_def in_i32_def i32_min_def i32_max_def
        small_template_def two_rows_def valid_options_def wide_options_def score_in_range_def)
  from backend_budget_loses_nothing [OF this wide_selected] show ?thesis by blast
qed

end
