(* ===== verification/ImageReuse.thy ===== *)
theory ImageReuse
  imports PixelMapping
begin

text \<open>
  Two caches that keep pixels for another search of the same frame: the OpenCV backend's two converted images,
  \<open>crates/backend/opencv/src/prepared_images.rs\<close>, and the watch scheduler's mappings, \<open>MappingCache\<close> of
  \<open>crates/automation/runtime/src/watch.rs\<close>. Both stay within their limits, never mix up frames and answer with
  what was stored last. A \<open>None\<close> of a cache operation is a panic or a loop that never ends.
\<close>

section \<open>Converted images\<close>

text \<open>A frame instance is its address; whether its frame still lives is one
  observation of the environment per operation.\<close>

record image_key =
  ik_source :: nat
  ik_stamp :: frame_stamp
  ik_region :: pixel_rect
  ik_descriptor :: frame_descriptor

record 'm cached_image =
  ci_matrix :: 'm
  ci_bytes :: nat

record 'm image_entry =
  ie_key :: image_key
  ie_image :: "'m cached_image"

record 'm images =
  im_entries :: "'m image_entry option list"
  im_bytes :: nat

datatype 'm prepared_region = PreparedShared "'m cached_image" | PreparedOwned 'm

datatype 'm image_lookup = LookupHit "'m cached_image" | LookupVacant | LookupBypass

definition image_byte_limit :: nat where "image_byte_limit = 33554432"

definition image_capacity :: nat where "image_capacity = 2"

definition key_new :: "nat \<Rightarrow> cpu_mapping \<Rightarrow> image_key" where
  "key_new source m =
     \<lparr>ik_source = source, ik_stamp = mp_stamp m, ik_region = mp_region m, ik_descriptor = mp_descriptor m\<rparr>"

definition images_new :: "'m images" where
  "images_new = \<lparr>im_entries = replicate image_capacity None, im_bytes = 0\<rparr>"

definition prepared_region_new :: "'m \<Rightarrow> nat \<Rightarrow> bool \<Rightarrow> 'm prepared_region" where
  "prepared_region_new matrix area cacheable =
     (if \<not> cacheable then PreparedOwned matrix
      else (let bytes = usize_saturating_mul area 3
            in if bytes \<le> image_byte_limit then PreparedShared \<lparr>ci_matrix = matrix, ci_bytes = bytes\<rparr>
               else PreparedOwned matrix))"

definition region_matrix :: "'m prepared_region \<Rightarrow> 'm" where
  "region_matrix r = (case r of PreparedShared img \<Rightarrow> ci_matrix img | PreparedOwned matrix \<Rightarrow> matrix)"

text \<open>\<open>bytes -= ...\<close> panics when it would go below zero.\<close>

definition retire_image :: "nat \<Rightarrow> 'm images \<Rightarrow> 'm images option" where
  "retire_image i st =
     (if length (im_entries st) \<le> i then None
      else (case im_entries st ! i of
              None \<Rightarrow> Some st
            | Some e \<Rightarrow>
                if im_bytes st < ci_bytes (ie_image e) then None
                else Some (st\<lparr>im_entries := (im_entries st)[i := None], im_bytes := im_bytes st - ci_bytes (ie_image e)\<rparr>)))"

fun prune_images :: "(nat \<Rightarrow> bool) \<Rightarrow> nat list \<Rightarrow> 'm images \<Rightarrow> 'm images option" where
  "prune_images alive [] st = Some st"
| "prune_images alive (i # is) st =
     Option.bind
       (if i < length (im_entries st)
        then (case im_entries st ! i of
                None \<Rightarrow> Some st
              | Some e \<Rightarrow> if alive (ik_source (ie_key e)) then Some st else retire_image i st)
        else None)
       (prune_images alive is)"

fun holds_key :: "image_key \<Rightarrow> 'm image_entry option \<Rightarrow> bool" where
  "holds_key k None = False"
| "holds_key k (Some e) = (ie_key e = k)"

definition swap_first :: "nat \<Rightarrow> 'a list \<Rightarrow> 'a list" where
  "swap_first i xs = xs[0 := xs ! i, i := xs ! 0]"

definition images_get :: "image_key \<Rightarrow> 'm images \<Rightarrow> 'm cached_image option \<times> 'm images" where
  "images_get k st =
     (case find_index (holds_key k) (im_entries st) of
        None \<Rightarrow> (None, st)
      | Some i \<Rightarrow> (map_option ie_image (im_entries st ! i), st\<lparr>im_entries := swap_first i (im_entries st)\<rparr>))"

definition images_lookup ::
    "bool \<Rightarrow> (nat \<Rightarrow> bool) \<Rightarrow> image_key \<Rightarrow> 'm images \<Rightarrow> ('m image_lookup \<times> 'm images) option" where
  "images_lookup locked alive k st =
     (if locked then Some (LookupBypass, st)
      else Option.bind (prune_images alive [0 ..< image_capacity] st) (\<lambda>st.
        case images_get k st of
          (Some img, st) \<Rightarrow> Some (LookupHit img, st)
        | (None, st) \<Rightarrow> Some (if alive (ik_source k) then LookupVacant else LookupBypass, st)))"

partial_function (option) make_room :: "nat \<Rightarrow> 'm images \<Rightarrow> 'm images option" where
  "make_room bytes st =
     (if image_byte_limit < im_bytes st + bytes \<or> list_all (\<lambda>e. e \<noteq> None) (im_entries st)
      then Option.bind (retire_image (if im_entries st ! 1 \<noteq> None then 1 else 0) st) (make_room bytes)
      else Some st)"

definition store_image :: "image_key \<Rightarrow> 'm cached_image \<Rightarrow> 'm images \<Rightarrow> 'm images" where
  "store_image k img st =
     (let empty = (if im_entries st ! 0 \<noteq> None then 1 else 0); entries = swap_first empty (im_entries st)
      in st\<lparr>im_entries := entries[0 := Some \<lparr>ie_key = k, ie_image = img\<rparr>],
            im_bytes := im_bytes st + ci_bytes img\<rparr>)"

definition images_publish ::
    "bool \<Rightarrow> (nat \<Rightarrow> bool) \<Rightarrow> image_key \<Rightarrow> 'm prepared_region \<Rightarrow> 'm images
     \<Rightarrow> ('m prepared_region \<times> 'm images) option" where
  "images_publish locked alive k candidate st =
     (case candidate of
        PreparedOwned _ \<Rightarrow> Some (candidate, st)
      | PreparedShared img \<Rightarrow>
          if \<not> alive (ik_source k) \<or> locked then Some (candidate, st)
          else Option.bind (prune_images alive [0 ..< image_capacity] st) (\<lambda>st.
            case images_get k st of
              (Some existing, st) \<Rightarrow> Some (PreparedShared existing, st)
            | (None, st) \<Rightarrow>
                map_option (\<lambda>st. (candidate, store_image k img st)) (make_room (ci_bytes img) st)))"

section \<open>Mappings the scheduler retains\<close>

record retained_mapping =
  rm_source :: nat
  rm_mapping :: cpu_mapping
  rm_bytes :: nat

record retained_cache =
  rc_entries :: "retained_mapping list"
  rc_bytes :: nat
  rc_high_water :: nat

definition mapped_cache_bytes :: nat where "mapped_cache_bytes = 64 * 1024 * 1024"
definition max_mapped_entries :: nat where "max_mapped_entries = 256"

definition retained_new :: retained_cache where
  "retained_new = \<lparr>rc_entries = [], rc_bytes = 0, rc_high_water = 0\<rparr>"

definition same_mapping :: "nat \<Rightarrow> cpu_mapping \<Rightarrow> retained_mapping \<Rightarrow> bool" where
  "same_mapping source m e \<longleftrightarrow> mp_stamp (rm_mapping e) = mp_stamp m \<and> rm_source e = source
     \<and> mp_region (rm_mapping e) = mp_region m \<and> mp_descriptor (rm_mapping e) = mp_descriptor m"

fun evict_oldest :: "nat \<Rightarrow> retained_mapping list \<Rightarrow> nat \<Rightarrow> retained_mapping list \<times> nat" where
  "evict_oldest bytes [] held = ([], held)"
| "evict_oldest bytes (e # es) held =
     (if length (e # es) \<ge> max_mapped_entries \<or> held + bytes > mapped_cache_bytes
      then evict_oldest bytes es (held - rm_bytes e) else (e # es, held))"

text \<open>The mapping a weak handle is given to, when one is.\<close>

definition remember_pixels :: "nat \<Rightarrow> cpu_mapping \<Rightarrow> retained_cache \<Rightarrow> cpu_mapping option \<times> retained_cache" where
  "remember_pixels source m c =
     (let bytes = length (mapping_bytes m)
      in if bytes > mapped_cache_bytes then (None, c)
         else (case find_index (same_mapping source m) (rc_entries c) of
                 Some i \<Rightarrow>
                   (let e = rc_entries c ! i
                    in (Some (rm_mapping e), c\<lparr>rc_entries := take i (rc_entries c) @ drop (Suc i) (rc_entries c) @ [e]\<rparr>))
               | None \<Rightarrow>
                   (let (entries, total) = evict_oldest bytes (rc_entries c) (rc_bytes c);
                        total = total + bytes
                    in (Some m, c\<lparr>rc_entries := entries @ [\<lparr>rm_source = source, rm_mapping = m, rm_bytes = bytes\<rparr>],
                                  rc_bytes := total, rc_high_water := max (rc_high_water c) total\<rparr>))))"

text \<open>The last query to end empties it.\<close>

definition retained_clear :: "retained_cache \<Rightarrow> retained_cache" where
  "retained_clear c = c\<lparr>rc_entries := [], rc_bytes := 0\<rparr>"

section \<open>The images stay within their limits\<close>

fun entry_bytes :: "'m image_entry option \<Rightarrow> nat" where
  "entry_bytes None = 0"
| "entry_bytes (Some e) = ci_bytes (ie_image e)"

text \<open>Two slots, the bytes of both counted and within the limit, and never the same key twice.\<close>

definition images_ok :: "'m images \<Rightarrow> bool" where
  "images_ok st \<longleftrightarrow> (\<exists>a b. im_entries st = [a, b] \<and> im_bytes st = entry_bytes a + entry_bytes b
     \<and> im_bytes st \<le> image_byte_limit \<and> \<not> (\<exists>k. holds_key k a \<and> holds_key k b))"

lemma images_okE:
  assumes "images_ok st"
  obtains a b where "st = \<lparr>im_entries = [a, b], im_bytes = entry_bytes a + entry_bytes b\<rparr>"
    "entry_bytes a + entry_bytes b \<le> image_byte_limit" "\<And>k. holds_key k a \<Longrightarrow> holds_key k b \<Longrightarrow> False"
  using assms by (cases st) (auto simp: images_ok_def)

lemma images_okI:
  "entry_bytes a + entry_bytes b \<le> image_byte_limit \<Longrightarrow> (\<And>k. holds_key k a \<Longrightarrow> holds_key k b \<Longrightarrow> False) \<Longrightarrow>
     images_ok \<lparr>im_entries = [a, b], im_bytes = entry_bytes a + entry_bytes b\<rparr>"
  by (auto simp: images_ok_def)

definition kept_alive :: "(nat \<Rightarrow> bool) \<Rightarrow> 'm image_entry option \<Rightarrow> 'm image_entry option" where
  "kept_alive alive e = (case e of None \<Rightarrow> None | Some x \<Rightarrow> if alive (ik_source (ie_key x)) then e else None)"

lemma kept_alive_cases: "kept_alive alive e = e \<or> kept_alive alive e = None"
  by (auto simp: kept_alive_def split: option.split)

lemma capacity_slots: "[0 ..< image_capacity] = [0, 1]"
  by (simp add: image_capacity_def upt_rec)

lemma prune_slots:
  "prune_images alive [0 ..< image_capacity] \<lparr>im_entries = [a, b], im_bytes = entry_bytes a + entry_bytes b\<rparr>
     = Some \<lparr>im_entries = [kept_alive alive a, kept_alive alive b],
             im_bytes = entry_bytes (kept_alive alive a) + entry_bytes (kept_alive alive b)\<rparr>"
  by (cases a; cases b) (simp_all add: capacity_slots retire_image_def kept_alive_def)

lemma prune_ok:
  assumes "images_ok st"
  obtains st' where "prune_images alive [0 ..< image_capacity] st = Some st'" "images_ok st'"
    "im_entries st' = map (kept_alive alive) (im_entries st)"
proof (rule images_okE [OF assms])
  fix a b
  assume st: "st = \<lparr>im_entries = [a, b], im_bytes = entry_bytes a + entry_bytes b\<rparr>"
    and limit: "entry_bytes a + entry_bytes b \<le> image_byte_limit" and keys: "\<And>k. holds_key k a \<Longrightarrow> holds_key k b \<Longrightarrow> False"
  show ?thesis
  proof (rule that)
    show "prune_images alive [0 ..< image_capacity] st = Some \<lparr>im_entries = [kept_alive alive a, kept_alive alive b],
        im_bytes = entry_bytes (kept_alive alive a) + entry_bytes (kept_alive alive b)\<rparr>"
      unfolding st by (rule prune_slots)
    show "images_ok \<lparr>im_entries = [kept_alive alive a, kept_alive alive b],
        im_bytes = entry_bytes (kept_alive alive a) + entry_bytes (kept_alive alive b)\<rparr>"
      using limit keys kept_alive_cases [of alive a] kept_alive_cases [of alive b] by (intro images_okI) auto
  qed (simp add: st)
qed

lemma images_get_slots:
  "images_get k \<lparr>im_entries = [a, b], im_bytes = n\<rparr> =
     (if holds_key k a then (map_option ie_image a, \<lparr>im_entries = [a, b], im_bytes = n\<rparr>)
      else if holds_key k b then (map_option ie_image b, \<lparr>im_entries = [b, a], im_bytes = n\<rparr>)
      else (None, \<lparr>im_entries = [a, b], im_bytes = n\<rparr>))"
  by (simp add: images_get_def swap_first_def)

lemma holds_key_Some: "holds_key k e \<longleftrightarrow> (\<exists>x. e = Some x \<and> ie_key x = k)"
  by (cases e) auto

lemma images_get_ok:
  assumes "images_ok st"
  shows "images_ok (snd (images_get k st)) \<and> set (im_entries (snd (images_get k st))) = set (im_entries st)
    \<and> (case fst (images_get k st) of
       None \<Rightarrow> (\<forall>e \<in> set (im_entries st). \<not> holds_key k e) \<and> snd (images_get k st) = st
     | Some img \<Rightarrow> Some \<lparr>ie_key = k, ie_image = img\<rparr> \<in> set (im_entries st))"
proof (rule images_okE [OF assms])
  fix a b
  assume st: "st = \<lparr>im_entries = [a, b], im_bytes = entry_bytes a + entry_bytes b\<rparr>"
    and limit: "entry_bytes a + entry_bytes b \<le> image_byte_limit" and keys: "\<And>k. holds_key k a \<Longrightarrow> holds_key k b \<Longrightarrow> False"
  have entry: "map_option ie_image e = Some img \<Longrightarrow> holds_key k e \<Longrightarrow> e = Some \<lparr>ie_key = k, ie_image = img\<rparr>" for e :: "'a image_entry option" and img
    by (cases e) auto
  have swapped: "images_ok \<lparr>im_entries = [b, a], im_bytes = entry_bytes a + entry_bytes b\<rparr>"
    using images_okI [of b a] limit keys by (simp add: add.commute) blast
  consider (first) x where "holds_key k a" "a = Some x" "ie_key x = k"
    | (second) x where "\<not> holds_key k a" "holds_key k b" "b = Some x" "ie_key x = k"
    | (neither) "\<not> holds_key k a" "\<not> holds_key k b"
    by (auto simp: holds_key_Some)
  then show ?thesis
  proof cases
    case first
    then have "images_get k st = (Some (ie_image x), st)" by (simp add: st images_get_slots)
    moreover have "Some \<lparr>ie_key = k, ie_image = ie_image x\<rparr> = a" using first by simp
    ultimately show ?thesis using assms by (simp add: st)
  next
    case second
    then have "images_get k st = (Some (ie_image x), \<lparr>im_entries = [b, a], im_bytes = entry_bytes a + entry_bytes b\<rparr>)"
      by (simp add: st images_get_slots)
    moreover have "Some \<lparr>ie_key = k, ie_image = ie_image x\<rparr> = b" using second by simp
    ultimately show ?thesis using swapped by (simp add: st insert_commute)
  next
    case neither
    then show ?thesis using assms by (simp add: st images_get_slots)
  qed
qed

text \<open>The last slot is given up first, then the first.\<close>

lemma make_room_slots:
  assumes "bytes \<le> image_byte_limit"
  shows "make_room bytes \<lparr>im_entries = [a, b], im_bytes = entry_bytes a + entry_bytes b\<rparr> =
    (let fits = (\<lambda>a b. entry_bytes a + entry_bytes b + bytes \<le> image_byte_limit \<and> \<not> (a \<noteq> None \<and> b \<noteq> None))
     in if fits a b then Some \<lparr>im_entries = [a, b], im_bytes = entry_bytes a + entry_bytes b\<rparr>
        else if b \<noteq> None \<and> fits a None then Some \<lparr>im_entries = [a, None], im_bytes = entry_bytes a\<rparr>
        else Some \<lparr>im_entries = [None, None], im_bytes = 0\<rparr>)"
proof -
  have none: "make_room bytes \<lparr>im_entries = [None, None], im_bytes = 0\<rparr>
      = Some (\<lparr>im_entries = [None, None], im_bytes = 0\<rparr> :: 'a images)"
    using assms by (subst make_room.simps) simp
  have left: "make_room bytes \<lparr>im_entries = [Some x, None], im_bytes = entry_bytes (Some x)\<rparr>
      = (if entry_bytes (Some x) + bytes \<le> image_byte_limit
         then Some \<lparr>im_entries = [Some x, None], im_bytes = entry_bytes (Some x)\<rparr>
         else Some \<lparr>im_entries = [None, None], im_bytes = 0\<rparr>)" for x :: "'a image_entry"
    by (subst make_room.simps) (simp add: retire_image_def none)
  have right: "make_room bytes \<lparr>im_entries = [None, Some x], im_bytes = entry_bytes (Some x)\<rparr>
      = (if entry_bytes (Some x) + bytes \<le> image_byte_limit
         then Some \<lparr>im_entries = [None, Some x], im_bytes = entry_bytes (Some x)\<rparr>
         else Some \<lparr>im_entries = [None, None], im_bytes = 0\<rparr>)" for x :: "'a image_entry"
    by (subst make_room.simps) (simp add: retire_image_def none)
  have both: "make_room bytes \<lparr>im_entries = [Some x, Some y], im_bytes = entry_bytes (Some x) + entry_bytes (Some y)\<rparr>
      = make_room bytes \<lparr>im_entries = [Some x, None], im_bytes = entry_bytes (Some x)\<rparr>" for x y :: "'a image_entry"
    by (subst make_room.simps) (simp add: retire_image_def)
  show ?thesis
    using none left right both assms by (cases a; cases b) (simp_all add: Let_def)
qed

lemma make_room_ok:
  assumes "images_ok st" "bytes \<le> image_byte_limit"
  obtains st' where "make_room bytes st = Some st'" "images_ok st'" "im_bytes st' + bytes \<le> image_byte_limit"
    "None \<in> set (im_entries st')" "\<And>e. Some e \<in> set (im_entries st') \<Longrightarrow> Some e \<in> set (im_entries st)"
proof (rule images_okE [OF assms(1)])
  fix a b
  assume st: "st = \<lparr>im_entries = [a, b], im_bytes = entry_bytes a + entry_bytes b\<rparr>"
    and limit: "entry_bytes a + entry_bytes b \<le> image_byte_limit" and keys: "\<And>k. holds_key k a \<Longrightarrow> holds_key k b \<Longrightarrow> False"
  have ok: "images_ok st" by (rule assms(1))
  have left: "images_ok \<lparr>im_entries = [a, None], im_bytes = entry_bytes a\<rparr>"
    using images_okI [of a None] limit by simp
  have none: "images_ok \<lparr>im_entries = [None, None], im_bytes = 0\<rparr>" by (simp add: images_ok_def)
  consider (all) "entry_bytes a + entry_bytes b + bytes \<le> image_byte_limit" "a = None \<or> b = None"
    | (one) "b \<noteq> None" "entry_bytes a + bytes \<le> image_byte_limit"
      "make_room bytes st = Some \<lparr>im_entries = [a, None], im_bytes = entry_bytes a\<rparr>"
    | (empty) "make_room bytes st = Some \<lparr>im_entries = [None, None], im_bytes = 0\<rparr>"
    using make_room_slots [OF assms(2), of a b] unfolding st by (auto simp: Let_def split: if_splits)
  then show ?thesis
  proof cases
    case all
    then have "make_room bytes st = Some st" using make_room_slots [OF assms(2), of a b] unfolding st by (auto simp: Let_def)
    then show ?thesis using all ok by (intro that) (auto simp: st)
  next
    case one
    then show ?thesis using left by (intro that [OF one(3)]) (auto simp: st)
  next
    case empty
    then show ?thesis using none assms(2) by (intro that [OF empty]) auto
  qed
qed

lemma store_image_ok:
  assumes "images_ok st" "im_bytes st + ci_bytes img \<le> image_byte_limit" "None \<in> set (im_entries st)"
    "\<forall>e \<in> set (im_entries st). \<not> holds_key k e"
  shows "images_ok (store_image k img st)"
    "\<exists>other. im_entries (store_image k img st) = [Some \<lparr>ie_key = k, ie_image = img\<rparr>, other] \<and> other \<in> set (im_entries st)"
  using assms
  by (auto elim!: images_okE simp: store_image_def swap_first_def Let_def intro!: images_okI)
    (auto simp: images_ok_def)

section \<open>Runs of the image cache\<close>

datatype 'm image_op =
    ImagesLookup bool "nat \<Rightarrow> bool" image_key
  | ImagesPublish bool "nat \<Rightarrow> bool" image_key "'m prepared_region"

fun images_step :: "'m image_op \<Rightarrow> 'm images \<Rightarrow> 'm images option" where
  "images_step (ImagesLookup locked alive k) st = map_option snd (images_lookup locked alive k st)"
| "images_step (ImagesPublish locked alive k candidate) st = map_option snd (images_publish locked alive k candidate st)"

fun images_run :: "'m image_op list \<Rightarrow> 'm images \<Rightarrow> 'm images option" where
  "images_run [] st = Some st"
| "images_run (x # xs) st = Option.bind (images_step x st) (images_run xs)"

text \<open>A candidate as \<open>PreparedRegion::new\<close> makes it.\<close>

fun region_sized :: "'m prepared_region \<Rightarrow> bool" where
  "region_sized (PreparedShared img) = (ci_bytes img \<le> image_byte_limit)"
| "region_sized (PreparedOwned _) = True"

fun op_sized :: "'m image_op \<Rightarrow> bool" where
  "op_sized (ImagesPublish _ _ _ candidate) = region_sized candidate"
| "op_sized _ = True"

lemma prepared_region_sized: "region_sized (prepared_region_new matrix area cacheable)"
  by (simp add: prepared_region_new_def Let_def)

text \<open>Every stored image was published for the key it is stored under.\<close>

definition published :: "'m image_op list \<Rightarrow> image_key \<Rightarrow> 'm cached_image \<Rightarrow> bool" where
  "published ops k img \<longleftrightarrow> (\<exists>locked alive. ImagesPublish locked alive k (PreparedShared img) \<in> set ops)"

definition entries_from :: "(image_key \<Rightarrow> 'm cached_image \<Rightarrow> bool) \<Rightarrow> 'm images \<Rightarrow> bool" where
  "entries_from P st \<longleftrightarrow> (\<forall>e. Some e \<in> set (im_entries st) \<longrightarrow> P (ie_key e) (ie_image e))"

lemma kept_alive_Some: "kept_alive alive e = Some x \<longleftrightarrow> e = Some x \<and> alive (ik_source (ie_key x))"
  by (auto simp: kept_alive_def split: option.split)

lemma prune_entries:
  assumes "images_ok st" "entries_from P st" "prune_images alive [0 ..< image_capacity] st = Some st'"
  shows "images_ok st'" "entries_from P st'" "\<And>e. Some e \<in> set (im_entries st') \<Longrightarrow> alive (ik_source (ie_key e))"
proof -
  obtain u where u: "prune_images alive [0 ..< image_capacity] st = Some u" "images_ok u"
    "im_entries u = map (kept_alive alive) (im_entries st)"
    by (rule prune_ok [OF assms(1)])
  then have same: "st' = u" using assms(3) by simp
  show "images_ok st'" using u same by simp
  show "entries_from P st'" "\<And>e. Some e \<in> set (im_entries st') \<Longrightarrow> alive (ik_source (ie_key e))"
    using u(3) same assms(2) unfolding entries_from_def by (force dest!: sym [of "Some _"] simp: kept_alive_Some)+
qed

lemma images_lookup_ok:
  assumes ok: "images_ok st" and src: "entries_from P st"
  obtains r st' where "images_lookup locked alive k st = Some (r, st')" "images_ok st'" "entries_from P st'"
    "\<And>img. r = LookupHit img \<Longrightarrow> \<not> locked \<and> alive (ik_source k) \<and> P k img"
    "r = LookupVacant \<Longrightarrow> alive (ik_source k) \<and> (\<forall>e \<in> set (im_entries st'). \<not> holds_key k e)"
proof (cases locked)
  case True
  then show ?thesis using ok src by (intro that [of LookupBypass st]) (simp_all add: images_lookup_def)
next
  case False
  obtain u where u: "prune_images alive [0 ..< image_capacity] st = Some u" by (rule prune_ok [OF ok])
  note p = prune_entries [OF ok src u]
  note g = images_get_ok [OF p(1), of k]
  have set: "entries_from P (snd (images_get k u))" using p(2) g by (simp add: entries_from_def)
  show ?thesis
  proof (cases "fst (images_get k u)")
    case None
    then have get: "images_get k u = (None, u)" using g by (simp add: prod_eq_iff)
    let ?r = "if alive (ik_source k) then LookupVacant else LookupBypass"
    show ?thesis
    proof (rule that)
      show "images_lookup locked alive k st = Some (?r, u)" using False u get by (simp add: images_lookup_def)
      show "alive (ik_source k) \<and> (\<forall>e \<in> set (im_entries u). \<not> holds_key k e)" if "?r = LookupVacant"
        using that g None by (simp split: if_splits)
    qed (use p(1,2) in \<open>simp_all split: if_splits\<close>)
  next
    case (Some img)
    then have e: "Some \<lparr>ie_key = k, ie_image = img\<rparr> \<in> set (im_entries u)" using g by simp
    then have "P k img" using p(2) by (force simp: entries_from_def)
    moreover have "alive (ik_source k)" using p(3) [OF e] by simp
    moreover have "images_lookup locked alive k st = Some (LookupHit img, snd (images_get k u))"
      using False u Some by (simp add: images_lookup_def case_prod_unfold)
    ultimately show ?thesis using False g set by (intro that [of "LookupHit img" "snd (images_get k u)"]) simp_all
  qed
qed

lemma images_publish_ok:
  assumes ok: "images_ok st" and src: "entries_from P st" and sized: "region_sized candidate"
    and pub: "\<And>img. candidate = PreparedShared img \<Longrightarrow> P k img"
  obtains r st' where "images_publish locked alive k candidate st = Some (r, st')" "images_ok st'" "entries_from P st'"
    "\<And>img. r = PreparedShared img \<Longrightarrow> P k img" "\<And>m. candidate = PreparedOwned m \<Longrightarrow> r = PreparedOwned m"
    "\<And>img. candidate = PreparedShared img \<Longrightarrow> alive (ik_source k) \<Longrightarrow> \<not> locked \<Longrightarrow>
       \<exists>kept. r = PreparedShared kept \<and> Some \<lparr>ie_key = k, ie_image = kept\<rparr> \<in> set (im_entries st')"
proof (cases "\<exists>img. candidate = PreparedShared img \<and> alive (ik_source k) \<and> \<not> locked")
  case False
  then show ?thesis using ok src pub
    by (intro that [of candidate st]) (auto simp: images_publish_def split: prepared_region.split)
next
  case True
  then obtain img where c: "candidate = PreparedShared img" "alive (ik_source k)" "\<not> locked" by blast
  obtain u where u: "prune_images alive [0 ..< image_capacity] st = Some u" by (rule prune_ok [OF ok])
  note p = prune_entries [OF ok src u]
  note g = images_get_ok [OF p(1), of k]
  show ?thesis
  proof (cases "fst (images_get k u)")
    case (Some kept)
    then have e: "Some \<lparr>ie_key = k, ie_image = kept\<rparr> \<in> set (im_entries (snd (images_get k u)))" using g by simp
    have "entries_from P (snd (images_get k u))" using p(2) g by (simp add: entries_from_def)
    moreover have "images_publish locked alive k candidate st = Some (PreparedShared kept, snd (images_get k u))"
      using c u Some by (simp add: images_publish_def case_prod_unfold)
    moreover have "P k kept" using p(2) g Some by (force simp: entries_from_def)
    ultimately show ?thesis using c g e
      by (intro that [of "PreparedShared kept" "snd (images_get k u)"]) simp_all
  next
    case None
    then have none: "images_get k u = (None, u)" "\<forall>e \<in> set (im_entries u). \<not> holds_key k e"
      using g by (simp_all add: prod_eq_iff)
    obtain v where v: "make_room (ci_bytes img) u = Some v" "images_ok v" "im_bytes v + ci_bytes img \<le> image_byte_limit"
      "None \<in> set (im_entries v)" "\<And>e. Some e \<in> set (im_entries v) \<Longrightarrow> Some e \<in> set (im_entries u)"
      using make_room_ok [OF p(1)] sized c(1) by (metis region_sized.simps(1))
    have absent: "\<forall>e \<in> set (im_entries v). \<not> holds_key k e" using v(5) none(2) by (auto simp: holds_key_Some)
    note s = store_image_ok [OF v(2-4) absent]
    have "entries_from P (store_image k img v)"
      using s(2) v(5) p(2) pub [OF c(1)] by (fastforce simp: entries_from_def)
    moreover have "images_publish locked alive k candidate st = Some (candidate, store_image k img v)"
      using c u none v(1) by (simp add: images_publish_def)
    moreover have "Some \<lparr>ie_key = k, ie_image = img\<rparr> \<in> set (im_entries (store_image k img v))" using s(2) by auto
    ultimately show ?thesis using c s(1) pub
      by (intro that [of candidate "store_image k img v"]) simp_all
  qed
qed

lemma images_run_ok:
  assumes "images_ok st" "entries_from P st" "\<forall>x \<in> set ops. op_sized x" "\<And>k img. published ops k img \<Longrightarrow> P k img"
  obtains st' where "images_run ops st = Some st'" "images_ok st'" "entries_from P st'"
  using assms
proof (induction ops arbitrary: st thesis)
  case (Cons x xs)
  have pub: "published xs k img \<Longrightarrow> P k img" for k img using Cons.prems(5) by (force simp: published_def)
  have "\<exists>u. images_step x st = Some u \<and> images_ok u \<and> entries_from P u"
  proof (cases x)
    case (ImagesLookup locked alive k)
    obtain r u where "images_lookup locked alive k st = Some (r, u)" "images_ok u" "entries_from P u"
      by (rule images_lookup_ok [OF Cons.prems(2,3)])
    then show ?thesis using ImagesLookup by simp
  next
    case (ImagesPublish locked alive k candidate)
    have "region_sized candidate" "\<And>img. candidate = PreparedShared img \<Longrightarrow> P k img"
      using Cons.prems(4,5) ImagesPublish by (auto simp: published_def)
    then obtain r u where "images_publish locked alive k candidate st = Some (r, u)" "images_ok u" "entries_from P u"
      by (rule images_publish_ok [OF Cons.prems(2,3)])
    then show ?thesis using ImagesPublish by simp
  qed
  then obtain u where u: "images_step x st = Some u" "images_ok u" "entries_from P u" by blast
  obtain st' where "images_run xs u = Some st'" "images_ok st'" "entries_from P st'"
    using Cons.IH [OF _ u(2,3) _ pub] Cons.prems(4) by auto
  then show ?case using u(1) Cons.prems(1) by simp
qed simp

lemma found_again:
  assumes ok: "images_ok st" and e: "Some \<lparr>ie_key = k, ie_image = img\<rparr> \<in> set (im_entries st)" and alive: "alive (ik_source k)"
  shows "\<exists>st'. images_lookup False alive k st = Some (LookupHit img, st')"
proof -
  obtain u where u: "prune_images alive [0 ..< image_capacity] st = Some u" "images_ok u"
    "im_entries u = map (kept_alive alive) (im_entries st)"
    by (rule prune_ok [OF ok])
  have in_u: "Some \<lparr>ie_key = k, ie_image = img\<rparr> \<in> set (im_entries u)"
    using e alive unfolding u(3) by (force simp: kept_alive_def)
  note g = images_get_ok [OF u(2), of k]
  have "\<exists>x. fst (images_get k u) = Some x" using g in_u by (cases "fst (images_get k u)") auto
  then obtain x where x: "fst (images_get k u) = Some x" by blast
  then have "Some \<lparr>ie_key = k, ie_image = x\<rparr> \<in> set (im_entries u)" using g by simp
  then have "x = img" using in_u u(2) by (auto elim!: images_okE)
  then show ?thesis using u(1) x by (auto simp: images_lookup_def split: prod.split)
qed

lemma images_new_ok: "images_ok images_new" "entries_from P images_new"
  by (auto simp: images_ok_def images_new_def entries_from_def image_capacity_def numeral_2_eq_2)

text \<open>
  C30: the backend's two converted images are reused safely, whatever searches look up and publish in whatever order:
  no operation panics or loops, the images kept fit in two slots and 32 MiB, and their bytes are counted
  exactly; a hit is an image that was published for exactly the frame, stamp, region and descriptor looked up,
  of a frame that is still alive; and an image published while its frame lives is found by the next lookup.
\<close>
theorem image_reuse_sound:
  assumes "\<forall>x \<in> set ops. op_sized x"
  shows "\<exists>st. images_run ops images_new = Some st
    \<and> im_bytes st = sum_list (map entry_bytes (im_entries st)) \<and> im_bytes st \<le> 33554432 \<and> length (im_entries st) = 2
    \<and> (\<exists>r st'. images_lookup locked alive k st = Some (r, st')
         \<and> (\<forall>img. r = LookupHit img \<longrightarrow> alive (ik_source k) \<and> published ops k img))
    \<and> (alive (ik_source k) \<and> ci_bytes new \<le> 33554432 \<longrightarrow>
         (\<exists>kept st' st''. images_publish False alive k (PreparedShared new) st = Some (PreparedShared kept, st')
            \<and> images_lookup False alive k st' = Some (LookupHit kept, st'')))"
proof -
  obtain st where run: "images_run ops images_new = Some st" and ok: "images_ok st" and src: "entries_from (published ops) st"
    by (rule images_run_ok [OF images_new_ok assms])
  obtain r u where look: "images_lookup locked alive k st = Some (r, u)"
      "\<And>img. r = LookupHit img \<Longrightarrow> \<not> locked \<and> alive (ik_source k) \<and> published ops k img"
    by (rule images_lookup_ok [OF ok src, of locked alive k]) blast
  have again: "\<exists>kept st' st''. images_publish False alive k (PreparedShared new) st = Some (PreparedShared kept, st')
      \<and> images_lookup False alive k st' = Some (LookupHit kept, st'')"
    if alive: "alive (ik_source k)" and size: "ci_bytes new \<le> 33554432"
  proof -
    obtain r v where v: "images_publish False alive k (PreparedShared new) st = Some (r, v)" "images_ok v"
      and kept: "\<exists>kept. r = PreparedShared kept \<and> Some \<lparr>ie_key = k, ie_image = kept\<rparr> \<in> set (im_entries v)"
      using images_publish_ok [OF ok, of "\<lambda>_ _. True" "PreparedShared new" k False alive] size alive
      by (auto simp: entries_from_def image_byte_limit_def)
    then obtain kept where k: "r = PreparedShared kept" "Some \<lparr>ie_key = k, ie_image = kept\<rparr> \<in> set (im_entries v)" by blast
    show ?thesis using found_again [of v k kept alive, OF v(2) k(2) alive] v(1) k(1) by blast
  qed
  have "im_bytes st = sum_list (map entry_bytes (im_entries st)) \<and> im_bytes st \<le> 33554432 \<and> length (im_entries st) = 2"
    using ok by (auto elim!: images_okE simp: image_byte_limit_def)
  then show ?thesis using run look again by blast
qed

definition demo_key :: image_key where
  "demo_key = \<lparr>ik_source = 4, ik_stamp = fr_stamp padded_frame,
     ik_region = \<lparr>pr_left = 0, pr_top = 0, pr_right = 2, pr_bottom = 2\<rparr>, ik_descriptor = padded_source\<rparr>"

theorem image_reuse_sound_witness:
  "\<exists>st kept st' st''. images_run [ImagesPublish False (\<lambda>_. True) demo_key (PreparedShared \<lparr>ci_matrix = (), ci_bytes = 12\<rparr>)] images_new = Some st
     \<and> images_publish False (\<lambda>_. True) demo_key (PreparedShared \<lparr>ci_matrix = (), ci_bytes = 12\<rparr>) st = Some (PreparedShared kept, st')
     \<and> images_lookup False (\<lambda>_. True) demo_key st' = Some (LookupHit kept, st'')"
  using image_reuse_sound [of "[ImagesPublish False (\<lambda>_. True) demo_key (PreparedShared \<lparr>ci_matrix = (), ci_bytes = 12\<rparr>)]"
      False "\<lambda>_. True" demo_key "\<lparr>ci_matrix = (), ci_bytes = 12\<rparr>"]
  by (auto simp: image_byte_limit_def)

section \<open>The mappings stay within their limits\<close>

definition same_source :: "retained_mapping \<Rightarrow> retained_mapping \<Rightarrow> bool" where
  "same_source a b \<longleftrightarrow> same_mapping (rm_source a) (rm_mapping a) b"

definition retained_ok :: "retained_cache \<Rightarrow> bool" where
  "retained_ok c \<longleftrightarrow> length (rc_entries c) \<le> max_mapped_entries
     \<and> rc_bytes c = sum_list (map rm_bytes (rc_entries c)) \<and> rc_bytes c \<le> rc_high_water c
     \<and> rc_high_water c \<le> mapped_cache_bytes
     \<and> (\<forall>e \<in> set (rc_entries c). rm_bytes e = length (mapping_bytes (rm_mapping e)))
     \<and> sorted_wrt (\<lambda>a b. \<not> same_source a b) (rc_entries c)"

text \<open>Eviction drops the shortest prefix after which the new mapping fits.\<close>

lemma evict_oldest_suffix:
  assumes "evict_oldest bytes es (sum_list (map rm_bytes es)) = (kept, held)" "bytes \<le> mapped_cache_bytes"
  shows "held = sum_list (map rm_bytes kept) \<and> held + bytes \<le> mapped_cache_bytes \<and> length kept < max_mapped_entries
    \<and> (\<exists>gone. es = gone @ kept
         \<and> (\<forall>n < length gone. max_mapped_entries \<le> length (drop n es)
              \<or> mapped_cache_bytes < sum_list (map rm_bytes (drop n es)) + bytes))"
  using assms
proof (induction es arbitrary: kept held)
  case Nil
  then show ?case by (simp add: max_mapped_entries_def)
next
  case (Cons e es)
  show ?case
  proof (cases "length (e # es) \<ge> max_mapped_entries \<or> sum_list (map rm_bytes (e # es)) + bytes > mapped_cache_bytes")
    case False
    then have "kept = e # es" "held = sum_list (map rm_bytes (e # es))" using Cons.prems(1) by auto
    then show ?thesis using False by (intro conjI exI [of _ "[]"]) auto
  next
    case True
    then have "evict_oldest bytes es (sum_list (map rm_bytes es)) = (kept, held)" using Cons.prems(1) by simp
    from Cons.IH [OF this Cons.prems(2)] obtain gone where g: "held = sum_list (map rm_bytes kept)"
      "held + bytes \<le> mapped_cache_bytes" "length kept < max_mapped_entries" "es = gone @ kept"
      "\<forall>n < length gone. max_mapped_entries \<le> length (drop n es) \<or> mapped_cache_bytes < sum_list (map rm_bytes (drop n es)) + bytes"
      by blast
    have "\<forall>n < length (e # gone). max_mapped_entries \<le> length (drop n (e # es))
        \<or> mapped_cache_bytes < sum_list (map rm_bytes (drop n (e # es))) + bytes"
      using True g(5) by (auto simp: less_Suc_eq_0_disj)
    then show ?thesis using g by (intro conjI exI [of _ "e # gone"]) auto
  qed
qed

lemma same_source_sym: "same_source a b = same_source b a"
  by (auto simp: same_source_def same_mapping_def)

lemma remember_pixels_ok:
  assumes ok: "retained_ok c" and r: "remember_pixels source m c = (answer, c')"
  shows "retained_ok c'" "length (mapping_bytes m) \<le> mapped_cache_bytes \<Longrightarrow>
    \<exists>e. answer = Some (rm_mapping e) \<and> same_mapping source m e \<and> rc_entries c' \<noteq> [] \<and> last (rc_entries c') = e"
proof -
  let ?n = "length (mapping_bytes m)"
  have "retained_ok c' \<and> (?n \<le> mapped_cache_bytes \<longrightarrow>
    (\<exists>e. answer = Some (rm_mapping e) \<and> same_mapping source m e \<and> rc_entries c' \<noteq> [] \<and> last (rc_entries c') = e))"
  proof (cases "?n > mapped_cache_bytes")
    case True
    then show ?thesis using ok r by (simp add: remember_pixels_def)
  next
    case small: False
    show ?thesis
    proof (cases "find_index (same_mapping source m) (rc_entries c)")
      case (Some i)
      define e pre post where "e = rc_entries c ! i" and "pre = take i (rc_entries c)" and "post = drop (Suc i) (rc_entries c)"
      have i: "i < length (rc_entries c)" "same_mapping source m e"
        using find_index_Some [OF Some] by (simp_all add: e_def)
      have c': "c' = c\<lparr>rc_entries := pre @ post @ [e]\<rparr>" "answer = Some (rm_mapping e)"
        using r small Some by (auto simp: remember_pixels_def Let_def e_def pre_def post_def)
      have split: "rc_entries c = pre @ e # post"
        unfolding e_def pre_def post_def using i(1) by (rule id_take_nth_drop)
      have "sorted_wrt (\<lambda>a b. \<not> same_source a b) (pre @ post @ [e])"
        using ok same_source_sym [of e] unfolding retained_ok_def split by (auto simp: sorted_wrt_append)
      then have "retained_ok c'" using ok unfolding retained_ok_def c'(1) split by auto
      then show ?thesis using i(2) c' by auto
    next
      case None
      obtain kept held where ev: "evict_oldest ?n (rc_entries c) (rc_bytes c) = (kept, held)" by fastforce
      let ?e = "\<lparr>rm_source = source, rm_mapping = m, rm_bytes = ?n\<rparr>"
      have c': "c' = c\<lparr>rc_entries := kept @ [?e], rc_bytes := held + ?n, rc_high_water := max (rc_high_water c) (held + ?n)\<rparr>"
        "answer = Some m" using r small None ev by (auto simp: remember_pixels_def Let_def)
      have "rc_bytes c = sum_list (map rm_bytes (rc_entries c))" using ok by (simp add: retained_ok_def)
      then obtain gone where g: "held = sum_list (map rm_bytes kept)" "held + ?n \<le> mapped_cache_bytes"
        "length kept < max_mapped_entries" "rc_entries c = gone @ kept"
        using evict_oldest_suffix [of ?n "rc_entries c" kept held] ev small by (metis not_le_imp_less not_less)
      have "\<not> same_source e ?e" if "e \<in> set kept" for e
        using None [unfolded find_index_None] that g(4) same_source_sym [of e ?e] by (auto simp: same_source_def)
      then have "retained_ok c'" using ok g c'(1) by (auto simp: retained_ok_def sorted_wrt_append)
      then show ?thesis using c' by (auto simp: same_mapping_def)
    qed
  qed
  then show "retained_ok c'" "?n \<le> mapped_cache_bytes \<Longrightarrow>
    \<exists>e. answer = Some (rm_mapping e) \<and> same_mapping source m e \<and> rc_entries c' \<noteq> [] \<and> last (rc_entries c') = e" by blast+
qed

text \<open>What the scheduler does with the mappings: workers remember what they mapped, the last query to end clears them.\<close>

inductive retained_step :: "retained_cache \<Rightarrow> retained_cache \<Rightarrow> bool" where
  r_remember: "retained_step c (snd (remember_pixels source m c))"
| r_clear: "retained_step c (retained_clear c)"

interpretation retained: invariant_machine retained_step retained_new retained_ok
proof
  show "retained_ok retained_new" by (simp add: retained_ok_def retained_new_def)
next
  fix c c'
  assume "retained_step c c'" "retained_ok c"
  then show "retained_ok c'"
  proof induction
    case (r_remember c source m)
    then show ?case using remember_pixels_ok(1) [of c source m] by (simp add: prod_eq_iff)
  next
    case (r_clear c)
    then show ?case by (simp add: retained_ok_def retained_clear_def)
  qed
qed

text \<open>
  The mappings the watch scheduler retains stay within 256 entries and 64 MiB however many workers remember
  theirs, the bytes are counted exactly, and no frame region is kept twice; a mapping that fits is remembered:
  the answer is of the same frame, region and format, and it is now the last that will be evicted.
\<close>
theorem retained_mappings_bounded:
  assumes "retained_step\<^sup>*\<^sup>* retained_new c"
  shows "length (rc_entries c) \<le> 256 \<and> rc_bytes c = sum_list (map rm_bytes (rc_entries c))
    \<and> rc_bytes c \<le> rc_high_water c \<and> rc_high_water c \<le> 67108864
    \<and> sorted_wrt (\<lambda>a b. \<not> same_source a b) (rc_entries c)
    \<and> (length (mapping_bytes m) \<le> 67108864 \<longrightarrow>
         (\<exists>e c'. remember_pixels source m c = (Some (rm_mapping e), c') \<and> same_mapping source m e
            \<and> rc_entries c' \<noteq> [] \<and> last (rc_entries c') = e))"
proof -
  have ok: "retained_ok c" by (rule retained.inv_reachable [OF assms])
  obtain answer c' where r: "remember_pixels source m c = (answer, c')" by fastforce
  have "\<exists>e. answer = Some (rm_mapping e) \<and> same_mapping source m e \<and> rc_entries c' \<noteq> [] \<and> last (rc_entries c') = e"
    if "length (mapping_bytes m) \<le> 67108864"
    using remember_pixels_ok(2) [OF ok r] that by (simp add: mapped_cache_bytes_def)
  then show ?thesis using ok r by (auto simp: retained_ok_def mapped_cache_bytes_def max_mapped_entries_def)
qed

definition demo_mapping :: cpu_mapping where
  "demo_mapping = \<lparr>mp_stamp = fr_stamp padded_frame, mp_transform = fr_transform padded_frame,
     mp_region = \<lparr>pr_left = 0, pr_top = 0, pr_right = 1, pr_bottom = 1\<rparr>, mp_descriptor = padded_source,
     mp_storage = Owned \<lparr>px_id = 9, px_bytes = [1, 2, 3, 4]\<rparr>\<rparr>"

theorem retained_mappings_bounded_witness:
  "\<exists>e c'. remember_pixels 5 demo_mapping (snd (remember_pixels 5 demo_mapping retained_new)) = (Some (rm_mapping e), c')
     \<and> same_mapping 5 demo_mapping e \<and> last (rc_entries c') = e"
proof -
  have "retained_step\<^sup>*\<^sup>* retained_new (snd (remember_pixels 5 demo_mapping retained_new))"
    by (intro r_into_rtranclp r_remember)
  from retained_mappings_bounded [OF this, of demo_mapping 5] show ?thesis
    by (auto simp: demo_mapping_def mapping_bytes_def)
qed

end
