(* ===== verification/OnnxVocabulary.thy ===== *)
theory OnnxVocabulary
  imports PixelMapping
begin

text \<open>
  The text backend's faults and the vocabulary of its recogniser: \<open>crates/backend/onnx/src/fault.rs\<close> and
  \<open>vocabulary.rs\<close>. A string is its bytes. The SHA-256 of the \<open>sha2\<close> crate is a parameter. A \<open>None\<close> of an operation
  is a panic: slicing a string outside it or inside a character.
\<close>

section \<open>fault.rs\<close>

datatype onnx_fault =
    InvalidRuntimePath
  | InvalidModelRoot
  | ModelRootUnavailable
  | DetectorUnavailable
  | DetectorMismatch
  | RecognizerUnavailable
  | RecognizerMismatch
  | ProfileDetectorUnavailable
  | ProfileDetectorMismatch
  | ProfileRecognizerUnavailable
  | ProfileRecognizerMismatch
  | AuxiliaryUnavailable
  | AuxiliaryMismatch
  | VocabularyMismatch
  | RuntimeUnavailable
  | RuntimeIncompatible
  | RuntimeConflict
  | ProviderUnavailable
  | ProviderQualificationRejected
  | ProviderDependencyUnavailable
  | ProviderInitializationFailed
  | ProfileMismatch
  | GraphMismatch
  | ResourceLimit
  | OnnxBusy
  | OnnxClosed
  | InvalidPixels
  | NativeFailure
  | MalformedOutput
  | OnnxCancelled
  | OnnxDeadlineExceeded

fun onnx_status :: "onnx_fault \<Rightarrow> status" where
  "onnx_status f =
     (if f \<in> {InvalidRuntimePath, InvalidModelRoot, ProfileMismatch, GraphMismatch} then InvalidArgument
      else if f \<in> {ModelRootUnavailable, DetectorUnavailable, RecognizerUnavailable, ProfileDetectorUnavailable,
        ProfileRecognizerUnavailable, AuxiliaryUnavailable, RuntimeUnavailable, RuntimeIncompatible, RuntimeConflict,
        ProviderUnavailable, ProviderDependencyUnavailable, ProviderQualificationRejected} then Unsupported
      else if f \<in> {DetectorMismatch, RecognizerMismatch, ProfileDetectorMismatch, ProfileRecognizerMismatch,
        AuxiliaryMismatch, VocabularyMismatch} then AssetInvalid
      else if f = ResourceLimit \<or> f = OnnxBusy then LimitExceeded
      else if f = OnnxClosed then Closed
      else if f = OnnxCancelled then Cancelled
      else if f = OnnxDeadlineExceeded then DeadlineExceeded
      else VisionFailed)"

section \<open>Strings\<close>

text \<open>A byte that starts no character has its two top bits \<open>10\<close>.\<close>

definition utf8_continuation :: "u8 \<Rightarrow> bool" where
  "utf8_continuation b \<longleftrightarrow> 128 \<le> b \<and> b < 192"

definition is_char_boundary :: "u8 list \<Rightarrow> nat \<Rightarrow> bool" where
  "is_char_boundary s i \<longleftrightarrow> i = 0 \<or> i = length s \<or> i < length s \<and> \<not> utf8_continuation (s ! i)"

definition str_slice :: "u8 list \<Rightarrow> nat \<times> nat \<Rightarrow> u8 list option" where
  "str_slice s r = (let (start, end) = r in
     if start \<le> end \<and> end \<le> length s \<and> is_char_boundary s start \<and> is_char_boundary s end
     then Some (take (end - start) (drop start s)) else None)"

section \<open>vocabulary.rs\<close>

record vocabulary =
  voc_raw :: "u8 list"
  voc_entries :: "(nat \<times> nat) list"

definition vocabulary_entries :: nat where "vocabulary_entries = 18708"
definition vocabulary_classes :: nat where "vocabulary_classes = vocabulary_entries + 2"

definition checked_sub_one :: "nat \<Rightarrow> bool \<Rightarrow> nat option" where
  "checked_sub_one n b = (if b then if n = 0 then None else Some (n - 1) else Some n)"

fun scan_entries :: "u8 list \<Rightarrow> nat \<Rightarrow> u8 list \<Rightarrow> nat \<Rightarrow> (nat \<times> nat) list
    \<Rightarrow> onnx_fault + (nat \<times> (nat \<times> nat) list)" where
  "scan_entries bytes i [] start entries = Inr (start, entries)"
| "scan_entries bytes i (b # bs) start entries =
     (if b = 10
      then and_then (ok_or GraphMismatch (checked_sub_one i (start < i \<and> bytes ! (i - 1) = 13))) (\<lambda>end.
             scan_entries bytes (Suc i) bs (i + 1) (entries @ [(start, end)]))
      else scan_entries bytes (Suc i) bs start entries)"

definition last_entry :: "u8 list \<Rightarrow> nat \<times> (nat \<times> nat) list \<Rightarrow> onnx_fault + (nat \<times> nat) list" where
  "last_entry bytes r = (let (start, entries) = r in
     if start < length bytes
     then (and_then (ok_or GraphMismatch (checked_sub_one (length bytes) (bytes \<noteq> [] \<and> last bytes = 13)))
            (\<lambda>end. Inr (entries @ [(start, end)])))
     else Inr entries)"

definition vocabulary_parse ::
    "(u8 list \<Rightarrow> u8 list) \<Rightarrow> u8 list \<Rightarrow> u32 \<Rightarrow> u8 list \<Rightarrow> onnx_fault + vocabulary" where
  "vocabulary_parse sha256 raw expected_entries expected_sha256 =
     (if unat expected_entries \<noteq> vocabulary_entries \<or> sha256 raw \<noteq> expected_sha256 then Inl GraphMismatch
      else and_then (scan_entries raw 0 raw 0 []) (\<lambda>scanned. and_then (last_entry raw scanned) (\<lambda>entries.
        if length entries \<noteq> vocabulary_entries \<or> (\<exists>r\<in>set entries. fst r \<ge> snd r)
           \<or> (\<exists>r\<in>set entries. \<not> is_char_boundary raw (fst r) \<or> \<not> is_char_boundary raw (snd r))
        then Inl GraphMismatch
        else Inr \<lparr>voc_raw = raw, voc_entries = entries\<rparr>)))"

definition vocabulary_token :: "vocabulary \<Rightarrow> nat \<Rightarrow> u8 list option option" where
  "vocabulary_token v class =
     (if class = 0 then Some None
      else if class \<le> vocabulary_entries
      then (if class - 1 < length (voc_entries v)
            then map_option Some (str_slice (voc_raw v) (voc_entries v ! (class - 1))) else Some None)
      else if class = vocabulary_classes - 1 then Some (Some [32])
      else Some None)"

section \<open>The entries are the lines\<close>

text \<open>The lines of a text, without their line feeds and one carriage return before each.\<close>

definition strip_cr :: "u8 list \<Rightarrow> u8 list" where
  "strip_cr l = (if l \<noteq> [] \<and> last l = 13 then butlast l else l)"

function lines_of :: "u8 list \<Rightarrow> u8 list list" where
  "lines_of bs = (if bs = [] then []
     else strip_cr (takeWhile (\<lambda>b. b \<noteq> 10) bs) # lines_of (drop (Suc (length (takeWhile (\<lambda>b. b \<noteq> 10) bs))) bs))"
  by pat_completeness auto
termination by (relation "measure length") auto

declare lines_of.simps [simp del]

lemma lines_of_Nil [simp]: "lines_of [] = []"
  by (simp add: lines_of.simps)

lemma takeWhile_line: "10 \<notin> set l \<Longrightarrow> takeWhile (\<lambda>b :: u8. b \<noteq> 10) l = l"
  by (simp add: takeWhile_eq_all_conv) blast

lemma lines_of_last: "10 \<notin> set l \<Longrightarrow> l \<noteq> [] \<Longrightarrow> lines_of l = [strip_cr l]"
  by (subst lines_of.simps) (simp add: takeWhile_line)

lemma lines_of_feed:
  assumes "10 \<notin> set l"
  shows "lines_of (l @ 10 # bs) = strip_cr l # lines_of bs"
proof -
  have "takeWhile (\<lambda>b. b \<noteq> 10) (l @ 10 # bs) = l"
    using assms by (subst takeWhile_append2) auto
  then show ?thesis by (subst lines_of.simps) simp
qed

definition range_text :: "u8 list \<Rightarrow> nat \<times> nat \<Rightarrow> u8 list" where
  "range_text s r = take (snd r - fst r) (drop (fst r) s)"

text \<open>A range is a line of the text: it starts at the start or after a line feed, and a carriage return, a line
  feed or nothing follows it.\<close>

definition line_range :: "u8 list \<Rightarrow> nat \<times> nat \<Rightarrow> bool" where
  "line_range s r \<longleftrightarrow> fst r \<le> snd r \<and> snd r \<le> length s \<and> (fst r = 0 \<or> s ! (fst r - 1) = 10)
     \<and> (snd r = length s \<or> s ! snd r = 10 \<or> s ! snd r = 13)"

lemma stripped_range:
  assumes s: "s = pre @ l @ post" and pre: "pre = [] \<or> last pre = 10"
    and post: "post = [] \<or> hd post = 10"
    and e: "e = (if l \<noteq> [] \<and> last l = 13 then length pre + length l - 1 else length pre + length l)"
  shows "range_text s (length pre, e) = strip_cr l \<and> line_range s (length pre, e)"
proof -
  have "length pre = 0 \<or> s ! (length pre - 1) = 10"
    using pre by (cases pre rule: rev_cases) (simp_all add: s nth_append)
  moreover have "e = length s \<or> s ! e = 10 \<or> s ! e = 13"
  proof (cases "l \<noteq> [] \<and> last l = 13")
    case True
    then obtain m where "l = m @ [13]" by (metis append_butlast_last_id)
    then show ?thesis using e by (simp add: s nth_append)
  next
    case False
    then show ?thesis using e post by (cases post) (auto simp: s nth_append)
  qed
  moreover have "range_text s (length pre, e) = strip_cr l" "length pre \<le> e" "e \<le> length s"
    using e by (cases l rule: rev_cases; simp add: range_text_def strip_cr_def s)+
  ultimately show ?thesis by (simp add: line_range_def)
qed

lemma last_before:
  assumes "s = pre @ l @ post"
  shows "(length pre < length pre + length l \<and> s ! (length pre + length l - 1) = 13) = (l \<noteq> [] \<and> last l = 13)"
  by (cases l rule: rev_cases) (simp_all add: assms nth_append)

lemma scan_entries_lines:
  assumes "s = pre @ l @ bs" "10 \<notin> set l" "pre = [] \<or> last pre = 10"
  shows "\<exists>pre' found rest. scan_entries s (length pre + length l) bs (length pre) es = Inr (length pre', es @ found)
    \<and> (\<forall>r\<in>set found. line_range s r) \<and> lines_of (l @ bs) = map (range_text s) found @ lines_of rest
    \<and> s = pre' @ rest \<and> (pre' = [] \<or> last pre' = 10) \<and> 10 \<notin> set rest"
  using assms
proof (induction bs arbitrary: pre l es)
  case Nil
  then show ?case by (intro exI [of _ pre] exI [of _ "[]"] exI [of _ l]) simp
next
  case (Cons b bs)
  show ?case
  proof (cases "b = 10")
    case False
    have "s = pre @ (l @ [b]) @ bs" "10 \<notin> set (l @ [b])" using Cons.prems(1,2) False by simp_all
    from Cons.IH [OF this Cons.prems(3), of es] obtain pre' found rest where IH:
      "scan_entries s (length pre + length (l @ [b])) bs (length pre) es = Inr (length pre', es @ found)"
      "\<forall>r\<in>set found. line_range s r" "lines_of ((l @ [b]) @ bs) = map (range_text s) found @ lines_of rest"
      "s = pre' @ rest" "pre' = [] \<or> last pre' = 10" "10 \<notin> set rest" by blast
    have "scan_entries s (length pre + length l) (b # bs) (length pre) es = Inr (length pre', es @ found)"
      using IH(1) False by simp
    moreover have "lines_of (l @ b # bs) = map (range_text s) found @ lines_of rest" using IH(3) by simp
    ultimately show ?thesis using IH(2,4-6) by blast
  next
    case True
    define e where "e = (if l \<noteq> [] \<and> last l = 13 then length pre + length l - 1 else length pre + length l)"
    have r: "range_text s (length pre, e) = strip_cr l" "line_range s (length pre, e)"
      using stripped_range [OF Cons.prems(1,3) _ e_def] True by auto
    obtain pre' found rest where IH: "scan_entries s (length (pre @ l @ [b])) bs (length (pre @ l @ [b]))
        (es @ [(length pre, e)]) = Inr (length pre', (es @ [(length pre, e)]) @ found)"
      "\<forall>r\<in>set found. line_range s r" "lines_of bs = map (range_text s) found @ lines_of rest"
      "s = pre' @ rest" "pre' = [] \<or> last pre' = 10" "10 \<notin> set rest"
      using Cons.IH [of "pre @ l @ [b]" "[]" "es @ [(length pre, e)]"] Cons.prems True by auto
    have "scan_entries s (length pre + length l) (b # bs) (length pre) es = Inr (length pre', es @ (length pre, e) # found)"
      using IH(1) True last_before [OF Cons.prems(1)]
      by (cases "l \<noteq> [] \<and> last l = 13") (auto simp: e_def checked_sub_one_def add.assoc)
    moreover have "lines_of (l @ b # bs) = map (range_text s) ((length pre, e) # found) @ lines_of rest"
      using lines_of_feed [OF Cons.prems(2)] True r IH(3) by simp
    ultimately show ?thesis using IH r
      by (intro exI [of _ pre'] exI [of _ "(length pre, e) # found"] exI [of _ rest]) auto
  qed
qed

lemma entries_lines:
  "\<exists>scanned entries. scan_entries s 0 s 0 [] = Inr scanned \<and> last_entry s scanned = Inr entries
    \<and> map (range_text s) entries = lines_of s \<and> (\<forall>r\<in>set entries. line_range s r)"
proof -
  obtain pre found rest where sc: "scan_entries s 0 s 0 [] = Inr (length pre, found)" "\<forall>r\<in>set found. line_range s r"
    "lines_of s = map (range_text s) found @ lines_of rest" "s = pre @ rest" "pre = [] \<or> last pre = 10" "10 \<notin> set rest"
    using scan_entries_lines [of s "[]" "[]" s "[]"] by auto
  show ?thesis
  proof (cases "rest = []")
    case True
    then show ?thesis using sc by (auto simp: last_entry_def)
  next
    case False
    define e where "e = (if rest \<noteq> [] \<and> last rest = 13 then length pre + length rest - 1 else length pre + length rest)"
    have "last_entry s (length pre, found) = Inr (found @ [(length pre, e)])"
      using False by (auto simp: sc(4) last_entry_def e_def checked_sub_one_def)
    moreover have "range_text s (length pre, e) = strip_cr rest \<and> line_range s (length pre, e)"
      using stripped_range [of s pre rest "[]" e, OF _ sc(5) _ e_def] sc(4) by simp
    ultimately show ?thesis using sc lines_of_last [OF sc(6) False] by auto
  qed
qed

text \<open>A \<open>String\<close> is UTF-8: a byte that starts no character follows a byte that is not ASCII.\<close>

definition utf8_text :: "u8 list \<Rightarrow> bool" where
  "utf8_text s \<longleftrightarrow> (\<forall>i < length s. utf8_continuation (s ! i) \<longrightarrow> 0 < i \<and> 128 \<le> s ! (i - 1))"

lemma line_range_boundary:
  assumes "utf8_text s" "line_range s r"
  shows "is_char_boundary s (fst r)" "is_char_boundary s (snd r)"
proof -
  have "\<not> utf8_continuation (s ! fst r)" if "fst r < length s" "fst r \<noteq> 0"
  proof
    assume "utf8_continuation (s ! fst r)"
    then have "128 \<le> s ! (fst r - 1)" using assms(1) that(1) by (simp add: utf8_text_def)
    moreover have "s ! (fst r - 1) = 10" using assms(2) that(2) by (simp add: line_range_def)
    ultimately show False by simp
  qed
  then show "is_char_boundary s (fst r)" using assms(2) by (auto simp: is_char_boundary_def line_range_def)
  show "is_char_boundary s (snd r)"
    using assms(2) by (auto simp: is_char_boundary_def line_range_def utf8_continuation_def)
qed

lemma range_slice:
  assumes "utf8_text s" "line_range s r"
  shows "str_slice s r = Some (range_text s r)"
  using line_range_boundary [OF assms] assms(2)
  by (auto simp: str_slice_def range_text_def line_range_def split: prod.split)

lemma range_empty: "line_range s r \<Longrightarrow> (range_text s r = []) = (snd r \<le> fst r)"
  by (auto simp: line_range_def range_text_def)

definition token_of_lines :: "u8 list list \<Rightarrow> nat \<Rightarrow> u8 list option" where
  "token_of_lines ls class = (if class = 0 then None else if class \<le> 18708 then Some (ls ! (class - 1))
     else if class = 18709 then Some [32] else None)"

lemma vocabulary_parse_cases:
  assumes "utf8_text raw"
  shows "(vocabulary_parse sha256 raw n expected = Inl GraphMismatch
        \<and> \<not> (unat n = 18708 \<and> sha256 raw = expected \<and> length (lines_of raw) = 18708 \<and> [] \<notin> set (lines_of raw)))
    \<or> (\<exists>v. vocabulary_parse sha256 raw n expected = Inr v
        \<and> unat n = 18708 \<and> sha256 raw = expected \<and> length (lines_of raw) = 18708 \<and> [] \<notin> set (lines_of raw)
        \<and> (\<forall>class. vocabulary_token v class = Some (token_of_lines (lines_of raw) class)))"
proof -
  obtain scanned entries where e: "scan_entries raw 0 raw 0 [] = Inr scanned" "last_entry raw scanned = Inr entries"
    "map (range_text raw) entries = lines_of raw" "\<forall>r\<in>set entries. line_range raw r"
    using entries_lines by blast
  have len: "length entries = length (lines_of raw)" using arg_cong [OF e(3), of length] by simp
  have empty: "(\<exists>r\<in>set entries. snd r \<le> fst r) = ([] \<in> set (lines_of raw))"
    using e(4) range_empty [of raw] by (force simp: e(3) [symmetric])
  have bound: "\<not> (\<exists>r\<in>set entries. \<not> is_char_boundary raw (fst r) \<or> \<not> is_char_boundary raw (snd r))"
    using e(4) line_range_boundary [OF assms] by blast
  have token: "vocabulary_token \<lparr>voc_raw = raw, voc_entries = entries\<rparr> c = Some (token_of_lines (lines_of raw) c)"
    if "length (lines_of raw) = 18708" for c
  proof (cases "0 < c \<and> c \<le> 18708")
    case True
    then have i: "c - 1 < length entries" using that len by linarith
    have "range_text raw (entries ! (c - 1)) = lines_of raw ! (c - 1)"
      using i by (simp add: e(3) [symmetric])
    then show ?thesis using True i range_slice [OF assms, of "entries ! (c - 1)"] e(4)
      by (simp add: vocabulary_token_def token_of_lines_def vocabulary_entries_def)
  next
    case False
    then show ?thesis
      by (auto simp: vocabulary_token_def token_of_lines_def vocabulary_entries_def vocabulary_classes_def)
  qed
  show ?thesis using e(1,2) len empty bound token
    by (auto simp: vocabulary_parse_def vocabulary_entries_def)
qed

end
