(* ===== verification/CtcDecode.thy ===== *)
theory CtcDecode
  imports OnnxVocabulary
begin

text \<open>
  The recogniser's greedy CTC decoder, \<open>crates/backend/onnx/src/decode.rs\<close>. A score is the \<open>f64\<close> value of its
  \<open>f32\<close>, the conversion being exact. A \<open>None\<close> is a panic: a slice outside the probabilities or the text.
\<close>

section \<open>decode.rs\<close>

record decoded_text =
  dt_text :: "u8 list"
  dt_confidence :: f64

definition recognizer_output_elements :: "nat \<Rightarrow> nat \<Rightarrow> onnx_fault + nat" where
  "recognizer_output_elements batch time_steps =
     ok_or ResourceLimit (Option.bind (usize_mul batch time_steps) (\<lambda>v. usize_mul v vocabulary_classes))"

definition recognizer_output_bytes :: "nat \<Rightarrow> nat \<Rightarrow> onnx_fault + nat" where
  "recognizer_output_bytes batch time_steps =
     and_then (recognizer_output_elements batch time_steps) (\<lambda>n. ok_or ResourceLimit (usize_mul n 4))"

definition estimated_recognizer_output_bytes :: "nat \<Rightarrow> nat \<Rightarrow> onnx_fault + nat" where
  "estimated_recognizer_output_bytes batch width = recognizer_output_bytes batch ((width + 7) div 8)"

text \<open>\<open>f64::round_ties_even\<close> and \<open>usize as f64\<close>.\<close>

fun fround_even :: "f64 \<Rightarrow> f64" where
  "fround_even (Fin a) = Fin (of_int (round_even a))"
| "fround_even i = i"

definition f64_of_usize :: "nat \<Rightarrow> f64" where
  "f64_of_usize n = fl (of_nat n)"

definition round_five :: "f64 \<Rightarrow> f64" where
  "round_five v = fdiv (fround_even (fmul v (Fin 100000))) (Fin 100000)"

definition score_valid :: "f64 \<Rightarrow> bool" where
  "score_valid s \<longleftrightarrow> is_finite s \<and> fle (Fin 0) s \<and> fle s (Fin 1)"

fun select_class :: "f64 list \<Rightarrow> nat \<Rightarrow> nat \<Rightarrow> f64 \<Rightarrow> onnx_fault + (nat \<times> f64)" where
  "select_class [] class index best = Inr (index, best)"
| "select_class (s # ss) class index best =
     (if \<not> score_valid s then Inl MalformedOutput
      else if flt best s then select_class ss (Suc class) class s
      else select_class ss (Suc class) index best)"

text \<open>What one line has: its text, the class before, the sum and the number of the scores.\<close>

record decode_line =
  dl_text :: "u8 list"
  dl_previous :: nat
  dl_sum :: f64
  dl_count :: nat

definition decode_line_new :: decode_line where
  "decode_line_new = \<lparr>dl_text = [], dl_previous = usize_limit - 1, dl_sum = Fin 0, dl_count = 0\<rparr>"

definition decode_class ::
    "vocabulary \<Rightarrow> nat \<Rightarrow> nat \<times> f64 \<Rightarrow> decode_line \<Rightarrow> (onnx_fault + decode_line) option" where
  "decode_class v max_text_bytes sel l = (let (index, score) = sel; l' = l\<lparr>dl_previous := index\<rparr> in
     if index = dl_previous l \<or> index = 0 then Some (Inr l')
     else map_option (\<lambda>token. case token of
            None \<Rightarrow> Inl MalformedOutput
          | Some token \<Rightarrow>
              (case usize_add (length (dl_text l)) (length token) of
                 None \<Rightarrow> Inl ResourceLimit
               | Some n \<Rightarrow>
                   if n > max_text_bytes then Inl ResourceLimit
                   else Inr (l'\<lparr>dl_text := dl_text l @ token, dl_sum := fadd (dl_sum l) (round_five score),
                               dl_count := dl_count l + 1\<rparr>)))
        (vocabulary_token v index))"

fun decode_steps :: "vocabulary \<Rightarrow> nat \<Rightarrow> f64 list \<Rightarrow> nat \<Rightarrow> nat list \<Rightarrow> decode_line \<Rightarrow> (onnx_fault + decode_line) option" where
  "decode_steps v max_text_bytes probabilities classes [] l = Some (Inr l)"
| "decode_steps v max_text_bytes probabilities classes (row # rows) l =
     (let offset = row * classes in
      if length probabilities < offset + classes then None
      else case select_class (take classes (drop offset probabilities)) 0 0 NInf of
             Inl e \<Rightarrow> Some (Inl e)
           | Inr sel \<Rightarrow>
               (case decode_class v max_text_bytes sel l of
                  None \<Rightarrow> None
                | Some (Inl e) \<Rightarrow> Some (Inl e)
                | Some (Inr l) \<Rightarrow> decode_steps v max_text_bytes probabilities classes rows l))"

definition line_decoded :: "decode_line \<Rightarrow> decoded_text" where
  "line_decoded l = \<lparr>dt_text = dl_text l,
     dt_confidence = (if dl_count l = 0 then Fin 0 else round_five (fdiv (dl_sum l) (f64_of_usize (dl_count l))))\<rparr>"

definition step_rows :: "nat \<Rightarrow> nat \<Rightarrow> nat list" where
  "step_rows time_steps b = map (\<lambda>t. b * time_steps + t) [0 ..< time_steps]"

fun decode_batch :: "vocabulary \<Rightarrow> nat \<Rightarrow> f64 list \<Rightarrow> nat \<Rightarrow> nat \<Rightarrow> nat list \<Rightarrow> decoded_text list
    \<Rightarrow> (onnx_fault + decoded_text list) option" where
  "decode_batch v max_text_bytes probabilities classes time_steps [] decoded = Some (Inr decoded)"
| "decode_batch v max_text_bytes probabilities classes time_steps (b # bs) decoded =
     (case decode_steps v max_text_bytes probabilities classes (step_rows time_steps b) decode_line_new of
        None \<Rightarrow> None
      | Some (Inl e) \<Rightarrow> Some (Inl e)
      | Some (Inr l) \<Rightarrow> decode_batch v max_text_bytes probabilities classes time_steps bs (decoded @ [line_decoded l]))"

text \<open>\<open>usize::try_from\<close> of a positive \<open>i64\<close> succeeds where \<open>usize\<close> has 64 bits.\<close>

definition decode :: "int list \<Rightarrow> f64 list \<Rightarrow> vocabulary \<Rightarrow> nat \<Rightarrow> nat \<Rightarrow> nat \<Rightarrow> (onnx_fault + decoded_text list) option" where
  "decode shape probabilities v expected_batch max_text_bytes max_output_bytes =
     (if length shape \<noteq> 3 \<or> shape ! 0 \<le> 0 \<or> shape ! 1 \<le> 0 \<or> shape ! 2 \<le> 0 then Some (Inl MalformedOutput)
      else (let batch = nat (shape ! 0); time_steps = nat (shape ! 1); classes = nat (shape ! 2) in
        if batch \<noteq> expected_batch \<or> classes \<noteq> vocabulary_classes then Some (Inl MalformedOutput)
        else case and_then (recognizer_output_elements batch time_steps) (\<lambda>elements.
                    and_then (recognizer_output_bytes batch time_steps) (\<lambda>bytes. Inr (elements, bytes))) of
               Inl e \<Rightarrow> Some (Inl e)
             | Inr (elements, bytes) \<Rightarrow>
                 if elements \<noteq> length probabilities \<or> bytes > max_output_bytes then Some (Inl ResourceLimit)
                 else decode_batch v max_text_bytes probabilities classes time_steps [0 ..< batch] []))"

section \<open>Confidences\<close>

definition unit_value :: "f64 \<Rightarrow> bool" where
  "unit_value c \<longleftrightarrow> (\<exists>q. c = Fin q \<and> 0 \<le> q \<and> q \<le> 1)"

lemma score_valid_unit: "score_valid s = unit_value s"
  by (cases s) (auto simp: score_valid_def unit_value_def)

lemma fl_within:
  assumes "of_nat i \<le> x" "x \<le> of_nat j" "j < 2 ^ 53"
  shows "\<exists>r. fl x = Fin r \<and> of_nat i \<le> r \<and> r \<le> of_nat j"
proof -
  have "(of_nat i :: rat) \<le> of_nat j" using assms by linarith
  then have ij: "int i \<le> int j" by simp
  have "int j < int (2 ^ 53)" using assms(3) by (simp only: of_nat_less_iff)
  then have "\<bar>int j\<bar> < 2 ^ 53" by simp
  then have b: "\<bar>int i\<bar> < 2 ^ 53" "\<bar>int j\<bar> < 2 ^ 53" using ij by linarith+
  have x: "of_int (int i) \<le> x" "x \<le> of_int (int j)" using assms by simp_all
  show ?thesis using fl_between_ints [OF x b] rne_between_ints [OF x b] by simp
qed

lemma round_five_unit:
  assumes "unit_value c"
  shows "unit_value (round_five c)"
proof -
  obtain q where q: "c = Fin q" "0 \<le> q" "q \<le> 1" using assms by (auto simp: unit_value_def)
  obtain r where r: "fl (q * 100000) = Fin r" "0 \<le> r" "r \<le> 100000"
    using fl_within [of 0 "q * 100000" 100000] q by auto
  have k: "0 \<le> round_even r" "round_even r \<le> 100000"
    using round_even_ge_int [of 0 r] round_even_le_int [of r 100000] r by auto
  then have "(0 :: rat) \<le> of_int (round_even r)" "(of_int (round_even r) :: rat) \<le> 100000"
    using of_int_le_iff [of "round_even r" 100000, where 'a = rat] by simp_all
  then show ?thesis
    using fl_within [of 0 "of_int (round_even r) / 100000" 1] q r by (auto simp: round_five_def unit_value_def)
qed

lemma sum_unit:
  assumes "\<forall>s\<in>set ss. unit_value s" "length ss < 2 ^ 53"
  shows "\<exists>q. foldl fadd (Fin 0) ss = Fin q \<and> 0 \<le> q \<and> q \<le> of_nat (length ss)"
  using assms
proof (induction ss rule: rev_induct)
  case (snoc s ss)
  then obtain q where q: "foldl fadd (Fin 0) ss = Fin q" "0 \<le> q" "q \<le> of_nat (length ss)" by auto
  obtain p where p: "s = Fin p" "0 \<le> p" "p \<le> 1" using snoc.prems by (auto simp: unit_value_def)
  show ?case using fl_within [of 0 "q + p" "length ss + 1"] q p snoc.prems(2) by auto
qed simp

lemma mean_unit:
  assumes "\<forall>s\<in>set ss. unit_value s" "length ss < 2 ^ 53" "ss \<noteq> []"
  shows "unit_value (fdiv (foldl fadd (Fin 0) ss) (f64_of_usize (length ss)))"
proof -
  obtain q where q: "foldl fadd (Fin 0) ss = Fin q" "0 \<le> q" "q \<le> of_nat (length ss)"
    using sum_unit [OF assms(1,2)] by blast
  have n: "f64_of_usize (length ss) = Fin (of_nat (length ss))"
    using fl_within [of "length ss" "of_nat (length ss)" "length ss"] assms(2) by (auto simp: f64_of_usize_def)
  have "0 < length ss" using assms(3) by simp
  then have "q / of_nat (length ss) \<le> 1" "0 \<le> q / of_nat (length ss)" using q by simp_all
  then show ?thesis using fl_within [of 0 "q / of_nat (length ss)" 1] q(1) n assms(3) by (auto simp: unit_value_def)
qed

section \<open>The best class of a step\<close>

lemma find_index_first:
  "find_index P xs = Some i \<longleftrightarrow> i < length xs \<and> P (xs ! i) \<and> (\<forall>j < i. \<not> P (xs ! j))"
proof (induction xs arbitrary: i)
  case (Cons x xs)
  then show ?case by (cases i) (auto simp: less_Suc_eq_0_disj)
qed simp

text \<open>The first of the classes with the greatest score, and that score.\<close>

definition first_best :: "f64 list \<Rightarrow> nat" where
  "first_best row = the (find_index (\<lambda>s. \<forall>x\<in>set row. fle x s) row)"

definition best_score :: "f64 list \<Rightarrow> f64" where
  "best_score row = row ! first_best row"

lemma first_bestI:
  assumes "i < length row" "\<forall>x\<in>set row. fle x (row ! i)" "\<forall>j < i. flt (row ! j) (row ! i)"
  shows "first_best row = i"
proof -
  have "find_index (\<lambda>s. \<forall>x\<in>set row. fle x s) row = Some i"
    using assms fle_not_flt by (fastforce simp: find_index_first)
  then show ?thesis by (simp add: first_best_def)
qed

lemma select_class_ok:
  assumes "row = pre @ ss" "\<forall>s\<in>set row. score_valid s" "row \<noteq> []"
    "pre \<noteq> [] \<Longrightarrow> i < length pre \<and> b = pre ! i \<and> (\<forall>x\<in>set pre. fle x b) \<and> (\<forall>j < i. flt (pre ! j) b)"
    "pre = [] \<Longrightarrow> b = NInf"
  shows "select_class ss (length pre) i b = Inr (first_best row, best_score row)"
  using assms
proof (induction ss arbitrary: pre i b)
  case Nil
  then have pre: "row = pre" "i < length pre" "b = pre ! i" "\<forall>x\<in>set pre. fle x b" "\<forall>j < i. flt (pre ! j) b" by auto
  then have "first_best row = i" by (intro first_bestI) auto
  then show ?case using Nil by (simp add: best_score_def)
next
  case (Cons s ss)
  have s: "score_valid s" using Cons.prems(1,2) by simp
  then obtain q where q: "s = Fin q" by (auto simp: score_valid_unit unit_value_def)
  have step: "select_class ss (length (pre @ [s])) (if flt b s then length pre else i) (if flt b s then s else b)
      = Inr (first_best row, best_score row)"
  proof (rule Cons.IH)
    show "row = (pre @ [s]) @ ss" using Cons.prems(1) by simp
    show "(if flt b s then length pre else i) < length (pre @ [s])
      \<and> (if flt b s then s else b) = (pre @ [s]) ! (if flt b s then length pre else i)
      \<and> (\<forall>x\<in>set (pre @ [s]). fle x (if flt b s then s else b))
      \<and> (\<forall>j < (if flt b s then length pre else i). flt ((pre @ [s]) ! j) (if flt b s then s else b))"
    proof (cases "pre = []")
      case True
      then show ?thesis using Cons.prems(5) q by simp
    next
      case False
      note pre = Cons.prems(4) [OF False]
      have b: "b \<noteq> NaN" using pre by (metis fle_NaN list.set_intros(1) neq_Nil_conv False)
      have trans: "flt x s" if "fle x b" "flt b s" for x
        using that q by (cases x; cases b) auto
      show ?thesis
      proof (cases "flt b s")
        case True
        have "flt (pre ! j) s" if "j < length pre" for j
          using trans [of "pre ! j"] nth_mem [OF that] pre True by blast
        moreover have "fle x s" if "x \<in> set pre" for x
          using trans [of x] pre that True by (cases x; cases b) (auto simp: q)
        ultimately show ?thesis using True q by (simp add: nth_append)
      next
        case notless: False
        then have "fle s b" using b q by (simp add: flt_fle)
        then show ?thesis using notless pre by (auto simp: nth_append)
      qed
    qed
  qed (use Cons.prems in simp_all)
  show ?case using s step by (cases "flt b s") simp_all
qed

lemma select_class_invalid:
  "\<exists>s\<in>set ss. \<not> score_valid s \<Longrightarrow> select_class ss c i b = Inl MalformedOutput"
  by (induction ss arbitrary: c i b) auto

lemma first_best_less:
  assumes "\<forall>s\<in>set row. score_valid s" "row \<noteq> []"
  shows "first_best row < length row" "score_valid (best_score row)"
proof -
  have "\<exists>i < length row. (\<forall>x\<in>set row. fle x (row ! i)) \<and> (\<forall>j < i. flt (row ! j) (row ! i))"
    using assms
  proof (induction row rule: rev_induct)
    case (snoc s row)
    obtain q where q: "s = Fin q" using snoc.prems by (auto simp: score_valid_unit unit_value_def)
    show ?case
    proof (cases "row = []")
      case True
      then show ?thesis by (simp add: q)
    next
      case False
      then obtain i where i: "i < length row" "\<forall>x\<in>set row. fle x (row ! i)" "\<forall>j < i. flt (row ! j) (row ! i)"
        using snoc by auto
      obtain p where p: "row ! i = Fin p" using snoc.prems nth_mem [OF i(1)] by (auto simp: score_valid_unit unit_value_def)
      show ?thesis
      proof (cases "p < q")
        case True
        have "flt x s \<and> fle x s" if "x \<in> set row" for x
        proof -
          have "fle x (Fin p)" using i(2) that p by simp
          then show ?thesis using True q by (cases x) simp_all
        qed
        then show ?thesis using q by (intro exI [of _ "length row"]) (auto simp: nth_append)
      next
        case False
        then show ?thesis using i p q by (intro exI [of _ i]) (auto simp: nth_append)
      qed
    qed
  qed simp
  then obtain i where i: "i < length row" "first_best row = i" using first_bestI by blast
  then show "first_best row < length row" "score_valid (best_score row)" using assms(1) by (simp_all add: best_score_def)
qed

section \<open>The reference: best path, repetitions and blanks removed\<close>

function run_heads :: "(nat \<times> f64) list \<Rightarrow> (nat \<times> f64) list" where
  "run_heads [] = []"
| "run_heads (x # xs) = x # run_heads (dropWhile (\<lambda>y. fst y = fst x) xs)"
  by pat_completeness auto
termination by (relation "measure length") (auto simp: less_Suc_eq_le length_dropWhile_le)

definition best_path :: "f64 list list \<Rightarrow> (nat \<times> f64) list" where
  "best_path rows = map (\<lambda>row. (first_best row, best_score row)) rows"

definition ctc_kept :: "f64 list list \<Rightarrow> (nat \<times> f64) list" where
  "ctc_kept rows = filter (\<lambda>x. fst x \<noteq> 0) (run_heads (best_path rows))"

definition spell :: "u8 list list \<Rightarrow> nat \<Rightarrow> u8 list" where
  "spell ls c = (if c \<le> 18708 then ls ! (c - 1) else [32])"

definition mean_score :: "f64 list \<Rightarrow> f64" where
  "mean_score ss = (if ss = [] then Fin 0
     else round_five (fdiv (foldl fadd (Fin 0) (map round_five ss)) (f64_of_usize (length ss))))"

definition ctc_line :: "u8 list list \<Rightarrow> f64 list list \<Rightarrow> decoded_text" where
  "ctc_line ls rows =
     \<lparr>dt_text = concat (map (spell ls) (filter (\<lambda>c. c \<noteq> 0) (remdups_adj (map first_best rows)))),
      dt_confidence = mean_score (map snd (ctc_kept rows))\<rparr>"

lemma run_heads_fst: "map fst (run_heads xs) = remdups_adj (map fst xs)"
proof (induction xs rule: run_heads.induct)
  case (2 x xs)
  then show ?case by (simp add: remdups_adj_Cons' dropWhile_map comp_def)
qed simp

lemma ctc_kept_fst: "map fst (ctc_kept rows) = filter (\<lambda>c. c \<noteq> 0) (remdups_adj (map first_best rows))"
proof -
  have "map fst (ctc_kept rows) = filter (\<lambda>c. c \<noteq> 0) (map fst (run_heads (best_path rows)))"
    by (simp add: ctc_kept_def filter_map comp_def)
  then show ?thesis by (simp add: run_heads_fst best_path_def comp_def)
qed

fun kept_after :: "nat \<Rightarrow> f64 list list \<Rightarrow> (nat \<times> f64) list" where
  "kept_after prev [] = []"
| "kept_after prev (row # rows) =
     (if first_best row = prev \<or> first_best row = 0 then kept_after (first_best row) rows
      else (first_best row, best_score row) # kept_after (first_best row) rows)"

lemma kept_after_heads:
  "kept_after prev rows = filter (\<lambda>x. fst x \<noteq> 0) (run_heads (dropWhile (\<lambda>y. fst y = prev) (best_path rows)))"
  by (induction rows arbitrary: prev) (auto simp: best_path_def)

lemma kept_after_start:
  assumes "\<forall>row\<in>set rows. first_best row \<noteq> prev"
  shows "kept_after prev rows = ctc_kept rows"
  using assms by (cases rows) (simp_all add: kept_after_heads ctc_kept_def best_path_def)

lemma kept_after_subset: "set (kept_after prev rows) \<subseteq> set (best_path rows)" "length (kept_after prev rows) \<le> length rows"
  by (induction rows arbitrary: prev) (auto simp: best_path_def le_SucI)

section \<open>The loops\<close>

definition row_valid :: "f64 list \<Rightarrow> bool" where
  "row_valid row \<longleftrightarrow> (\<forall>s\<in>set row. score_valid s)"

definition row_at :: "f64 list \<Rightarrow> nat \<Rightarrow> f64 list" where
  "row_at probabilities i = take 18710 (drop (i * 18710) probabilities)"

definition speaks :: "vocabulary \<Rightarrow> u8 list list \<Rightarrow> bool" where
  "speaks v ls \<longleftrightarrow> (\<forall>c. vocabulary_token v c = Some (token_of_lines ls c))"

lemma decode_class_ok:
  assumes "speaks v ls" "c < 18710" "m < usize_limit"
  shows "decode_class v m (c, s) l =
    (if c = dl_previous l \<or> c = 0 then Some (Inr (l\<lparr>dl_previous := c\<rparr>))
     else if length (dl_text l @ spell ls c) \<le> m
     then Some (Inr \<lparr>dl_text = dl_text l @ spell ls c, dl_previous = c, dl_sum = fadd (dl_sum l) (round_five s),
                     dl_count = dl_count l + 1\<rparr>)
     else Some (Inl ResourceLimit))"
  using assms by (cases l) (auto simp: decode_class_def speaks_def token_of_lines_def spell_def usize_add_def)

lemma row_selected:
  assumes "(i + 1) * 18710 \<le> length probs"
  shows "length (row_at probs i) = 18710" "row_valid (row_at probs i) \<Longrightarrow>
      select_class (row_at probs i) 0 0 NInf = Inr (first_best (row_at probs i), best_score (row_at probs i))
      \<and> first_best (row_at probs i) < 18710 \<and> unit_value (best_score (row_at probs i))"
proof -
  show l: "length (row_at probs i) = 18710" using assms by (simp add: row_at_def)
  assume v: "row_valid (row_at probs i)"
  have ne: "row_at probs i \<noteq> []" using l by auto
  note v = v [unfolded row_valid_def]
  show "select_class (row_at probs i) 0 0 NInf = Inr (first_best (row_at probs i), best_score (row_at probs i))
      \<and> first_best (row_at probs i) < 18710 \<and> unit_value (best_score (row_at probs i))"
    using select_class_ok [of _ "[]" _ 0 NInf, OF _ v ne] first_best_less [OF v ne] l by (simp add: score_valid_unit)
qed

text \<open>A line whose scores are all valid.\<close>

lemma decode_steps_ok:
  assumes "speaks v ls" "m < usize_limit"
    "\<forall>i\<in>set is. (i + 1) * 18710 \<le> length probs \<and> row_valid (row_at probs i)" "length (dl_text l) \<le> m"
  shows "let kept = kept_after (dl_previous l) (map (row_at probs) is); t = dl_text l @ concat (map (\<lambda>x. spell ls (fst x)) kept)
    in if length t \<le> m
       then \<exists>p. decode_steps v m probs 18710 is l = Some (Inr \<lparr>dl_text = t, dl_previous = p,
              dl_sum = foldl fadd (dl_sum l) (map (\<lambda>x. round_five (snd x)) kept), dl_count = dl_count l + length kept\<rparr>)
       else decode_steps v m probs 18710 is l = Some (Inl ResourceLimit)"
  using assms(3,4)
proof (induction "is" arbitrary: l)
  case Nil
  then show ?case by (cases l) auto
next
  case (Cons i "is")
  have i: "(i + 1) * 18710 \<le> length probs" "row_valid (row_at probs i)" using Cons.prems by auto
  let ?c = "first_best (row_at probs i)" and ?s = "best_score (row_at probs i)"
  have sel: "select_class (take 18710 (drop (i * 18710) probs)) 0 0 NInf = Inr (?c, ?s)" "?c < 18710"
    using row_selected [OF i(1)] i(2) by (simp_all add: row_at_def)
  have step: "decode_steps v m probs 18710 (i # is) l = (case decode_class v m (?c, ?s) l of
      None \<Rightarrow> None | Some (Inl e) \<Rightarrow> Some (Inl e) | Some (Inr l) \<Rightarrow> decode_steps v m probs 18710 is l)"
    using i(1) sel(1) by (simp add: algebra_simps)
  obtain written prev total n where l: "l = \<lparr>dl_text = written, dl_previous = prev, dl_sum = total, dl_count = n\<rparr>" by (cases l)
  note IH = Cons.IH [unfolded Let_def]
  have valid: "\<forall>i\<in>set is. (i + 1) * 18710 \<le> length probs \<and> row_valid (row_at probs i)" using Cons.prems by auto
  show ?case
  proof (cases "?c = dl_previous l \<or> ?c = 0")
    case True
    then show ?thesis
      using IH [of "\<lparr>dl_text = written, dl_previous = ?c, dl_sum = total, dl_count = n\<rparr>"] valid Cons.prems(2) decode_class_ok [OF assms(1) sel(2) assms(2), of ?s l]
      by (auto simp: step [unfolded l] l Let_def simp del: decode_steps.simps split: if_splits)
  next
    case False
    show ?thesis
    proof (cases "length (dl_text l @ spell ls ?c) \<le> m")
      case True
      then show ?thesis
        using IH [of "\<lparr>dl_text = dl_text l @ spell ls ?c, dl_previous = ?c, dl_sum = fadd (dl_sum l) (round_five ?s),
            dl_count = dl_count l + 1\<rparr>"] valid decode_class_ok [OF assms(1) sel(2) assms(2), of ?s l] False
        by (auto simp: step [unfolded l] l Let_def simp del: decode_steps.simps split: if_splits)
    next
      case long: False
      then show ?thesis
        using decode_class_ok [OF assms(1) sel(2) assms(2), of ?s l] False by (auto simp: step [unfolded l] l Let_def simp del: decode_steps.simps split: if_splits)
    qed
  qed
qed

definition decode_refusal :: "(onnx_fault + 'a) option \<Rightarrow> bool" where
  "decode_refusal r \<longleftrightarrow> r = Some (Inl MalformedOutput) \<or> r = Some (Inl ResourceLimit)"

lemma decode_steps_invalid:
  assumes "speaks v ls" "m < usize_limit" "\<forall>i\<in>set is. (i + 1) * 18710 \<le> length probs"
    "\<exists>i\<in>set is. \<not> row_valid (row_at probs i)"
  shows "decode_refusal (decode_steps v m probs 18710 is l)"
  using assms(3,4)
proof (induction "is" arbitrary: l)
  case (Cons i "is")
  have i: "(i + 1) * 18710 \<le> length probs" using Cons.prems by auto
  show ?case
  proof (cases "row_valid (row_at probs i)")
    case False
    then have "select_class (take 18710 (drop (i * 18710) probs)) 0 0 NInf = Inl MalformedOutput"
      using select_class_invalid [of "row_at probs i" 0 0 NInf] by (simp add: row_at_def row_valid_def)
    then show ?thesis using i by (simp add: decode_refusal_def algebra_simps)
  next
    case True
    note sel = row_selected [OF i] True
    then have sel: "select_class (take 18710 (drop (i * 18710) probs)) 0 0 NInf
        = Inr (first_best (row_at probs i), best_score (row_at probs i))" "first_best (row_at probs i) < 18710"
      by (simp_all add: row_at_def)
    have "decode_refusal (decode_steps v m probs 18710 is l')" for l' using Cons True by auto
    then show ?thesis
      using i sel decode_class_ok [OF assms(1) sel(2) assms(2), of "best_score (row_at probs i)" l]
      by (auto simp: decode_refusal_def algebra_simps)
  qed
qed simp

definition line_rows :: "f64 list \<Rightarrow> nat \<Rightarrow> nat \<Rightarrow> f64 list list" where
  "line_rows probs time_steps b = map (row_at probs) (step_rows time_steps b)"

lemma kept_new:
  assumes "\<forall>i\<in>set is. (i + 1) * 18710 \<le> length probs \<and> row_valid (row_at probs i)"
  shows "kept_after (usize_limit - 1) (map (row_at probs) is) = ctc_kept (map (row_at probs) is)"
proof (rule kept_after_start, rule ballI)
  fix row
  assume "row \<in> set (map (row_at probs) is)"
  then have "first_best row < 18710" using assms row_selected by fastforce
  then show "first_best row \<noteq> usize_limit - 1" by (simp add: usize_limit_def)
qed

lemma decode_line_ok:
  assumes "speaks v ls" "m < usize_limit" "\<forall>i\<in>set is. (i + 1) * 18710 \<le> length probs \<and> row_valid (row_at probs i)"
  shows "if length (dt_text (ctc_line ls (map (row_at probs) is))) \<le> m
    then \<exists>l. decode_steps v m probs 18710 is decode_line_new = Some (Inr l)
      \<and> line_decoded l = ctc_line ls (map (row_at probs) is)
    else decode_steps v m probs 18710 is decode_line_new = Some (Inl ResourceLimit)"
proof -
  let ?kept = "ctc_kept (map (row_at probs) is)"
  have words: "dt_text (ctc_line ls (map (row_at probs) is)) = concat (map (\<lambda>x. spell ls (fst x)) ?kept)"
    unfolding ctc_line_def decoded_text.simps ctc_kept_fst [symmetric] by (simp add: comp_def)
  have conf: "dt_confidence (ctc_line ls (map (row_at probs) is)) = (if length ?kept = 0 then Fin 0
      else round_five (fdiv (foldl fadd (Fin 0) (map (\<lambda>x. round_five (snd x)) ?kept)) (f64_of_usize (length ?kept))))"
    by (simp add: ctc_line_def mean_score_def comp_def)
  have run: "if length (concat (map (\<lambda>x. spell ls (fst x)) ?kept)) \<le> m
      then \<exists>p. decode_steps v m probs 18710 is decode_line_new = Some (Inr \<lparr>dl_text = concat (map (\<lambda>x. spell ls (fst x)) ?kept),
        dl_previous = p, dl_sum = foldl fadd (Fin 0) (map (\<lambda>x. round_five (snd x)) ?kept), dl_count = length ?kept\<rparr>)
      else decode_steps v m probs 18710 is decode_line_new = Some (Inl ResourceLimit)"
    using decode_steps_ok [OF assms, of decode_line_new] unfolding Let_def
    by (simp only: decode_line_new_def decode_line.simps kept_new [OF assms(3)] list.size append_Nil add_0 simp_thms) simp
  show ?thesis
  proof (cases "length (concat (map (\<lambda>x. spell ls (fst x)) ?kept)) \<le> m")
    case True
    then obtain p where "decode_steps v m probs 18710 is decode_line_new = Some (Inr \<lparr>dl_text = concat (map (\<lambda>x. spell ls (fst x)) ?kept),
        dl_previous = p, dl_sum = foldl fadd (Fin 0) (map (\<lambda>x. round_five (snd x)) ?kept), dl_count = length ?kept\<rparr>)"
      using run by auto
    then show ?thesis using True words conf
      by (intro if_P [THEN iffD2]) (auto simp: line_decoded_def)
  next
    case False
    then show ?thesis using run words by simp
  qed
qed

lemma set_step_rows: "i \<in> set (step_rows T b) \<longleftrightarrow> (\<exists>t<T. i = b * T + t)"
  unfolding step_rows_def set_map atLeastLessThan_upt [symmetric] image_iff Bex_def by (simp only: atLeastLessThan_iff) blast

lemma line_range_rows:
  assumes "b < batch" "batch * time_steps * 18710 \<le> length probs" "i \<in> set (step_rows time_steps b)"
  shows "(i + 1) * 18710 \<le> length (probs :: f64 list)"
proof -
  obtain t where t: "i = b * time_steps + t" "t < time_steps" using assms(3) by (auto simp: set_step_rows)
  have "b * time_steps + time_steps \<le> batch * time_steps"
    using mult_le_mono1 [of "Suc b" batch time_steps] assms(1) by simp
  then have "i + 1 \<le> batch * time_steps" using t by linarith
  then show ?thesis using assms(2) mult_le_mono1 [of "i + 1" "batch * time_steps" 18710] by linarith
qed

lemma decode_batch_ok:
  assumes "speaks v ls" "m < usize_limit" "batch * T * 18710 \<le> length probs" "\<forall>b\<in>set bs. b < batch"
    "\<forall>b\<in>set bs. \<forall>row\<in>set (line_rows probs T b). row_valid row"
  shows "decode_batch v m probs 18710 T bs ds =
    (if \<forall>b\<in>set bs. length (dt_text (ctc_line ls (line_rows probs T b))) \<le> m
     then Some (Inr (ds @ map (\<lambda>b. ctc_line ls (line_rows probs T b)) bs)) else Some (Inl ResourceLimit))"
  using assms(4,5)
proof (induction bs arbitrary: ds)
  case (Cons b bs)
  have "\<forall>i\<in>set (step_rows T b). (i + 1) * 18710 \<le> length probs \<and> row_valid (row_at probs i)"
    using line_range_rows [OF _ assms(3), of b] Cons.prems by (auto simp: line_rows_def)
  note line = decode_line_ok [OF assms(1,2) this, folded line_rows_def]
  show ?case
  proof (cases "length (dt_text (ctc_line ls (line_rows probs T b))) \<le> m")
    case True
    then obtain l where "decode_steps v m probs 18710 (step_rows T b) decode_line_new = Some (Inr l)"
      "line_decoded l = ctc_line ls (line_rows probs T b)" using line by auto
    then show ?thesis using Cons.IH [of "ds @ [ctc_line ls (line_rows probs T b)]"] Cons.prems True by simp
  next
    case False
    then show ?thesis using line by simp
  qed
qed simp

lemma decode_batch_invalid:
  assumes "speaks v ls" "m < usize_limit" "batch * T * 18710 \<le> length probs" "\<forall>b\<in>set bs. b < batch"
    "\<exists>b\<in>set bs. \<exists>row\<in>set (line_rows probs T b). \<not> row_valid row"
  shows "decode_refusal (decode_batch v m probs 18710 T bs ds)"
  using assms(4,5)
proof (induction bs arbitrary: ds)
  case (Cons b bs)
  have range: "\<forall>i\<in>set (step_rows T b). (i + 1) * 18710 \<le> length probs"
    using line_range_rows [OF _ assms(3), of b] Cons.prems(1) by auto
  show ?case
  proof (cases "\<forall>row\<in>set (line_rows probs T b). row_valid row")
    case False
    then have "\<exists>i\<in>set (step_rows T b). \<not> row_valid (row_at probs i)" by (auto simp: line_rows_def)
    from decode_steps_invalid [OF assms(1,2) range this, of decode_line_new] show ?thesis
      by (auto simp: decode_refusal_def)
  next
    case True
    then have "\<forall>i\<in>set (step_rows T b). (i + 1) * 18710 \<le> length probs \<and> row_valid (row_at probs i)"
      using range by (auto simp: line_rows_def)
    note line = decode_line_ok [OF assms(1,2) this, folded line_rows_def]
    have rest: "decode_refusal (decode_batch v m probs 18710 T bs ds')" for ds' using Cons True by auto
    show ?thesis
    proof (cases "length (dt_text (ctc_line ls (line_rows probs T b))) \<le> m")
      case True
      then obtain l where "decode_steps v m probs 18710 (step_rows T b) decode_line_new = Some (Inr l)" using line by auto
      then show ?thesis using rest by simp
    next
      case False
      then show ?thesis using line by (simp add: decode_refusal_def)
    qed
  qed
qed simp

lemma ctc_line_unit:
  assumes "\<forall>row\<in>set rows. row_valid row \<and> row \<noteq> []" "length rows < 2 ^ 53"
  shows "unit_value (dt_confidence (ctc_line ls rows))"
proof -
  have sub: "set (run_heads xs) \<subseteq> set xs \<and> length (run_heads xs) \<le> length xs" for xs
  proof (induction xs rule: run_heads.induct)
    case (2 x xs)
    then show ?case using set_dropWhileD length_dropWhile_le [of "\<lambda>y. fst y = fst x" xs] by fastforce
  qed simp
  have "unit_value s" if "s \<in> set (map snd (ctc_kept rows))" for s
    using that assms(1) first_best_less(2) sub [of "best_path rows"]
    by (auto simp: ctc_kept_def best_path_def score_valid_unit row_valid_def)
  moreover have "length (map snd (ctc_kept rows)) < 2 ^ 53"
    using sub [of "best_path rows"] assms(2) length_filter_le [of "\<lambda>x. fst x \<noteq> 0" "run_heads (best_path rows)"]
    unfolding ctc_kept_def best_path_def by (simp only: length_map) linarith
  ultimately have "unit_value (mean_score (map snd (ctc_kept rows)))"
    using mean_unit [of "map round_five (map snd (ctc_kept rows))"] round_five_unit
    by (auto simp: mean_score_def unit_value_def [of "Fin 0"])
  then show ?thesis by (simp add: ctc_line_def)
qed

section \<open>The decoder\<close>

lemma spoken_vocabulary:
  assumes "utf8_text raw" "vocabulary_parse sha256 raw n expected = Inr v"
  shows "speaks v (lines_of raw)"
  using vocabulary_parse_cases [OF assms(1), of sha256 n expected] assms(2) by (auto simp: speaks_def)

lemma positive_nat: "0 < (i :: int) \<longleftrightarrow> (\<exists>n. i = int n \<and> 0 < n)"
  using zero_less_imp_eq_int by auto

lemma every_score_in_a_row:
  assumes "s \<in> set probs" "length probs = batch * T * 18710"
  shows "\<exists>b < batch. \<exists>row\<in>set (line_rows probs T b). s \<in> set row"
proof -
  obtain k where k: "k < length probs" "probs ! k = s" using assms(1) by (auto simp: in_set_conv_nth)
  define i where "i = k div 18710"
  have i: "i < batch * T" unfolding i_def using k(1) assms(2) by (intro less_mult_imp_div_less) simp
  then have T: "0 < T" by (cases T) simp_all
  have b: "i div T < batch" using i by (rule less_mult_imp_div_less)
  have "i div T * T + i mod T = i" by (rule div_mult_mod_eq)
  then have row: "row_at probs i \<in> set (line_rows probs T (i div T))"
    using T unfolding line_rows_def set_map by (intro imageI) (metis set_step_rows mod_less_divisor)
  have at: "i * 18710 + k mod 18710 = k" unfolding i_def by (rule div_mult_mod_eq)
  have "row_at probs i ! (k mod 18710) = s" "k mod 18710 < length (row_at probs i)"
    using k at by (simp_all add: row_at_def)
  then show ?thesis using b row by (metis nth_mem)
qed

text \<open>The shape, the length and the budget are what the caller asked for.\<close>

definition decode_fits :: "int list \<Rightarrow> nat \<Rightarrow> nat \<Rightarrow> nat \<Rightarrow> nat \<Rightarrow> bool" where
  "decode_fits shape len batch max_output T \<longleftrightarrow>
     0 < batch \<and> 0 < T \<and> shape = [int batch, int T, 18710] \<and> len = batch * T * 18710 \<and> 4 * len \<le> max_output"

lemma decode_cases:
  assumes "max_output < usize_limit"
  shows "decode_refusal (decode shape probs v batch m max_output) \<and> (\<forall>T. \<not> decode_fits shape (length probs) batch max_output T)
    \<or> (\<exists>T. decode_fits shape (length probs) batch max_output T
         \<and> decode shape probs v batch m max_output = decode_batch v m probs 18710 T [0 ..< batch] [])"
proof (cases "\<exists>T. 0 < batch \<and> 0 < T \<and> shape = [int batch, int T, 18710]")
  case False
  have "decode shape probs v batch m max_output = Some (Inl MalformedOutput)"
  proof (rule ccontr)
    assume no: "\<not> ?thesis"
    then have s: "length shape = 3" "0 < shape ! 0" "0 < shape ! 1" "0 < shape ! 2"
      "nat (shape ! 0) = batch" "nat (shape ! 2) = 18710"
      by (auto simp: decode_def Let_def vocabulary_classes_def vocabulary_entries_def split: if_splits)
    then obtain a b c where "shape = [a, b, c]" by (auto simp: length_Suc_conv numeral_3_eq_3)
    then show False using s False by (auto intro!: exI [of _ "nat b"])
  qed
  moreover have "\<forall>T. \<not> decode_fits shape (length probs) batch max_output T"
    unfolding decode_fits_def using False by blast
  ultimately show ?thesis by (simp add: decode_refusal_def)
next
  case True
  then obtain T where T: "0 < batch" "0 < T" "shape = [int batch, int T, 18710]" by blast
  have classes: "vocabulary_classes = 18710" by (simp add: vocabulary_classes_def vocabulary_entries_def)
  let ?n = "batch * T * 18710"
  have same: "T' = T" if "decode_fits shape (length probs) batch max_output T'" for T'
    using that T(3) by (simp add: decode_fits_def)
  show ?thesis
  proof (cases "?n * 4 < usize_limit")
    case fits: True
    have "batch * T < usize_limit" "?n < usize_limit" using fits by linarith+
    then have "decode shape probs v batch m max_output =
        (if ?n \<noteq> length probs \<or> ?n * 4 > max_output then Some (Inl ResourceLimit)
         else decode_batch v m probs 18710 T [0 ..< batch] [])"
      using T fits by (simp add: decode_def classes recognizer_output_elements_def recognizer_output_bytes_def usize_mul_def)
    then show ?thesis using T same by (auto simp: decode_refusal_def decode_fits_def mult.commute)
  next
    case False
    then have "decode shape probs v batch m max_output = Some (Inl ResourceLimit)"
      using T by (auto simp: decode_def classes recognizer_output_elements_def recognizer_output_bytes_def usize_mul_def
          and_then_def ok_or_def)
    then show ?thesis using False assms same by (auto simp: decode_refusal_def decode_fits_def)
  qed
qed

text \<open>
  C26: with a vocabulary that was parsed from its file, the decoder is the greedy CTC decoder. It never panics. It
  accepts exactly a tensor of the shape asked for, within the output budget, whose scores all lie between zero and
  one and whose lines are not too long, and then each line is spelled from its best path, the first class with the
  greatest score of each step: repetitions collapsed, blanks removed, each class read as its line of the
  vocabulary file or as a space; its confidence is the mean of the kept scores at five decimals, itself
  between zero and one. Everything else is refused as malformed or over a limit, in binary64 arithmetic.
\<close>
theorem ctc_decode_exact:
  assumes "utf8_text raw" and "vocabulary_parse sha256 raw n expected = Inr v"
    and "max_text < usize_limit" and "max_output < usize_limit"
  shows "case decode shape probs v batch max_text max_output of
      None \<Rightarrow> False
    | Some (Inl e) \<Rightarrow> (e = MalformedOutput \<or> e = ResourceLimit)
        \<and> (\<forall>T. decode_fits shape (length probs) batch max_output T \<longrightarrow>
             (\<exists>s\<in>set probs. \<not> score_valid s)
             \<or> (\<exists>b < batch. max_text < length (dt_text (ctc_line (lines_of raw) (line_rows probs T b)))))
    | Some (Inr ds) \<Rightarrow> (\<exists>T. decode_fits shape (length probs) batch max_output T
        \<and> (\<forall>s\<in>set probs. score_valid s)
        \<and> ds = map (\<lambda>b. ctc_line (lines_of raw) (line_rows probs T b)) [0 ..< batch]
        \<and> (\<forall>d\<in>set ds. length (dt_text d) \<le> max_text \<and> unit_value (dt_confidence d)))"
proof -
  note spoken = spoken_vocabulary [OF assms(1,2)]
  from decode_cases [OF assms(4), of shape probs v batch max_text] show ?thesis
  proof (elim disjE conjE exE)
    assume "decode_refusal (decode shape probs v batch max_text max_output)"
      and "\<forall>T. \<not> decode_fits shape (length probs) batch max_output T"
    then show ?thesis by (auto simp: decode_refusal_def)
  next
    fix T
    assume fits: "decode_fits shape (length probs) batch max_output T"
      and run: "decode shape probs v batch max_text max_output = decode_batch v max_text probs 18710 T [0 ..< batch] []"
    have len: "length probs = batch * T * 18710" and small: "4 * length probs < usize_limit"
      using fits assms(4) by (auto simp: decode_fits_def)
    have unique: "T' = T" if "decode_fits shape (length probs) batch max_output T'" for T'
      using that fits by (simp add: decode_fits_def)
    have range: "(i + 1) * 18710 \<le> length probs" if "b < batch" "i \<in> set (step_rows T b)" for b i
      by (rule line_range_rows [OF that(1) _ that(2)]) (simp add: len)
    have in_probs: "set row \<subseteq> set probs" if "row \<in> set (line_rows probs T b)" for row b
      using that set_take_subset set_drop_subset by (fastforce simp: line_rows_def row_at_def)
    have covered: "\<exists>b < batch. \<exists>row\<in>set (line_rows probs T b). s \<in> set row" if "s \<in> set probs" for s
      by (rule every_score_in_a_row [OF that len])
    show ?thesis
    proof (cases "\<forall>s\<in>set probs. score_valid s")
      case False
      then have "\<exists>b\<in>set [0 ..< batch]. \<exists>row\<in>set (line_rows probs T b). \<not> row_valid row"
        using covered by (fastforce simp: row_valid_def)
      from decode_batch_invalid [OF spoken assms(3) _ _ this, of batch "[]"] len run False show ?thesis
        by (auto simp: decode_refusal_def)
    next
      case True
      then have valid: "\<forall>b\<in>set [0 ..< batch]. \<forall>row\<in>set (line_rows probs T b). row_valid row"
        using in_probs by (fastforce simp: row_valid_def)
      note ok = decode_batch_ok [OF spoken assms(3) _ _ valid, of batch "[]"]
      have unit: "unit_value (dt_confidence (ctc_line (lines_of raw) (line_rows probs T b)))" if "b < batch" for b
      proof (rule ctc_line_unit)
        show "\<forall>row\<in>set (line_rows probs T b). row_valid row \<and> row \<noteq> []"
          using valid that range row_selected(1) by (fastforce simp: line_rows_def)
        have "1 * T \<le> batch * T" by (rule mult_le_mono1) (use that in simp)
        then have "T * 74840 < usize_limit" using len small by linarith
        then show "length (line_rows probs T b) < 2 ^ 53"
          by (simp add: line_rows_def step_rows_def usize_limit_def)
      qed
      show ?thesis
      proof (cases "\<forall>b < batch. length (dt_text (ctc_line (lines_of raw) (line_rows probs T b))) \<le> max_text")
        case fit: True
        then show ?thesis using ok len run fits True unit by auto
      next
        case False
        then have long: "\<exists>b < batch. max_text < length (dt_text (ctc_line (lines_of raw) (line_rows probs T b)))"
          by (auto simp: not_le)
        have "decode_batch v max_text probs 18710 T [0 ..< batch] [] = Some (Inl ResourceLimit)"
          using ok len False by auto
        then show ?thesis using run long unique by auto
      qed
    qed
  qed
qed

text \<open>A vocabulary of the right number of equal lines, and one line of two steps that both say its first class.\<close>

definition demo_raw :: "nat \<Rightarrow> u8 list" where
  "demo_raw n = concat (replicate n [120, 10])"

definition demo_row :: "nat \<Rightarrow> f64 list" where
  "demo_row n = Fin 0 # Fin 1 # replicate n (Fin 0)"

lemma demo_lines: "lines_of (demo_raw n) = replicate n [120]"
proof (induction n)
  case (Suc n)
  have "demo_raw (Suc n) = [120] @ 10 # demo_raw n" by (simp add: demo_raw_def)
  then show ?case using lines_of_feed [of "[120]" "demo_raw n"] Suc by (simp add: strip_cr_def)
qed (simp add: demo_raw_def)

lemma demo_text: "utf8_text (demo_raw n)"
proof -
  have "set (demo_raw n) \<subseteq> {120, 10}" by (auto simp: demo_raw_def)
  then have "\<not> utf8_continuation (demo_raw n ! i)" if "i < length (demo_raw n)" for i
    using nth_mem [OF that] by (auto simp: utf8_continuation_def)
  then show ?thesis by (simp add: utf8_text_def)
qed

lemma demo_best: "first_best (demo_row n) = 1"
  by (rule first_bestI) (auto simp: demo_row_def)

lemma demo_rows: "line_rows (demo_row 18708 @ demo_row 18708) 2 0 = [demo_row 18708, demo_row 18708]"
proof -
  have len: "length (demo_row 18708) = 18710" by (simp add: demo_row_def)
  have "step_rows 2 0 = [0, 1]" by (simp add: step_rows_def upt_rec numeral_2_eq_2)
  then show ?thesis by (simp add: line_rows_def row_at_def len)
qed

theorem ctc_decode_exact_witness:
  "\<exists>v ds. vocabulary_parse (\<lambda>_. []) (demo_raw 18708) 18708 [] = Inr v
     \<and> decode [1, 2, 18710] (demo_row 18708 @ demo_row 18708) v 1 64 149680 = Some (Inr ds)
     \<and> map dt_text ds = [[120]]"
proof -
  let ?probs = "demo_row 18708 @ demo_row 18708"
  obtain v where v: "vocabulary_parse (\<lambda>_. []) (demo_raw 18708) 18708 [] = Inr v"
    using vocabulary_parse_cases [OF demo_text, of "\<lambda>_. []" 18708 18708 "[]"] by (auto simp: demo_lines)
  have row: "length (demo_row 18708) = 18710" by (simp add: demo_row_def)
  then have len: "length ?probs = 37420" by simp
  have fits: "decode_fits [1, 2, 18710] (length ?probs) 1 149680 2" by (simp only: decode_fits_def len) simp
  have valid: "\<forall>s\<in>set ?probs. score_valid s" by (auto simp: demo_row_def score_valid_def)
  have said: "dt_text (ctc_line (lines_of (demo_raw 18708)) (line_rows ?probs 2 0)) = [120]"
    by (simp add: ctc_line_def demo_rows demo_best spell_def demo_lines)
  note main = ctc_decode_exact [OF demo_text v, of 64 149680 "[1, 2, 18710]" ?probs 1]
  show ?thesis
  proof (cases "decode [1, 2, 18710] ?probs v 1 64 149680")
    case None
    then show ?thesis using main by (simp add: usize_limit_def)
  next
    case (Some r)
    show ?thesis
    proof (cases r)
      case (Inl e)
      then have "(\<exists>s\<in>set ?probs. \<not> score_valid s)
          \<or> (\<exists>b < 1. 64 < length (dt_text (ctc_line (lines_of (demo_raw 18708)) (line_rows ?probs 2 b))))"
        using main Some fits by (simp add: usize_limit_def)
      then show ?thesis using valid said by auto
    next
      case (Inr ds)
      then obtain T where T: "decode_fits [1, 2, 18710] (length ?probs) 1 149680 T"
        "ds = map (\<lambda>b. ctc_line (lines_of (demo_raw 18708)) (line_rows ?probs T b)) [0 ..< 1]"
        using main Some by (auto simp: usize_limit_def)
      have "T = 2" using T(1) by (simp only: decode_fits_def) simp
      then have "map dt_text ds = [[120]]" using T(2) said by simp
      then show ?thesis using v Some [unfolded Inr] by (intro exI conjI)
    qed
  qed
qed

end
