(* ===== verification/Spec2Isabelle.thy ===== *)
theory Spec2Isabelle
  imports WinInput Admission StreamSystem WatchProperties WatchCapacity PeakMatching ImageReuse CtcDecode
begin

text \<open>
  A verification development of mado-pilot, a Rust library that captures desktop targets, finds things in
  their frames and sends input to them. This theory is the root; it imports every other one.

  \<^bold>\<open>The program.\<close> \<open>crates/automation/core\<close> holds what every part shares: statuses and errors, the clock,
  deadlines and cancellation, operations with their checkpoints and commit, identities of targets, streams
  and frames, geometry in binary64 and the transform snapshot of a frame, capability tables.
  \<open>crates/automation/input\<close> is the input contract: events and sequences, route plans, requests, cleanup
  budgets, receipts, the descriptor that decides which routes a request fits, and the admission gate that
  serialises the controllers' callers. \<open>crates/platform/windows/src/input.rs\<close> implements the contract: it
  selects a route, submits the events, waits the delays, and on a failure releases what is still pressed.
  \<open>crates/automation/capture\<close> is the capture contract: pixel storage and frames, mappings of a frame's
  pixels into host memory and their reuse, and the stream that gives each published frame its identity,
  accounts for dropped candidates, answers waits and ends once. \<open>crates/automation/vision\<close> searches a
  frame for a template through a backend and decides whether a newer frame changed at all.
  \<open>crates/automation/runtime\<close> watches a session for a template: each frame that stands still long enough is
  searched, and a query ends with the first stable match.

  \<^bold>\<open>Theories.\<close>
  \<^item> \<open>Prelude\<close>: results as sums, checked machine arithmetic, the interfaces \<open>issuing_machine\<close>,
    \<open>latching_machine\<close>, \<open>staged_machine\<close>, \<open>invariant_machine\<close> that several components provide, and what follows from them.
  \<^item> \<open>Status\<close>: \<open>core/src/status.rs\<close>, \<open>lifecycle.rs\<close>.
  \<^item> \<open>Operation\<close>: \<open>core/src/time.rs\<close>, \<open>operation.rs\<close>. Clock and token are one observation per look.
    It interprets \<open>latching_machine\<close>: the first interruption a checkpoint reports is final.
  \<^item> \<open>Identity\<close>: \<open>core/src/identity.rs\<close>. The target and stream counters and the cursor interpret
    \<open>issuing_machine\<close>: what is handed out strictly increases, so nothing is handed out twice.
  \<^item> \<open>Float64\<close>: binary64 values and the operations the code uses, with round to nearest even, as
    executable functions over exact rationals; rounding is proved monotone.
  \<^item> \<open>Geometry\<close>, \<open>Transform\<close>: \<open>core/src/geometry.rs\<close>, \<open>transform.rs\<close>.
  \<^item> \<open>Capability\<close>: \<open>core/src/permission.rs\<close>, \<open>capability.rs\<close>.
  \<^item> \<open>InputModel\<close>: \<open>input/src/fault.rs\<close>, \<open>event.rs\<close>, \<open>policy.rs\<close>, \<open>request.rs\<close>, \<open>cleanup.rs\<close>.
  \<^item> \<open>Receipt\<close>: \<open>input/src/receipt.rs\<close>, \<open>descriptor.rs\<close>.
  \<^item> \<open>Admission\<close>: \<open>input/src/controller.rs\<close> as a step relation over any number of threads; each critical
    section is one function. It interprets \<open>staged_machine\<close>: the lifecycle never goes back.
  \<^item> \<open>WinInput\<close>: \<open>platform/windows/src/input.rs\<close> over an environment of the native driver, the clock, sleep
    and the gate. The same code run in the environment with a log gives the theorems about native calls.

  \<^item> \<open>Frame\<close>: \<open>capture/src/descriptor.rs\<close>, \<open>fault.rs\<close>, \<open>storage.rs\<close>, \<open>frame.rs\<close>.
  \<^item> \<open>PixelMapping\<close>: \<open>capture/src/mapping.rs\<close>, \<open>mapping_cache.rs\<close> over an environment of the storage,
    the caller's clock and the other mappers of the same frame.
  \<^item> \<open>CaptureStream\<close>: \<open>capture/src/stream.rs\<close>, one function per operation or critical section, and how
    two successive frames of a stream are related.
  \<^item> \<open>StreamSystem\<close>: the same operations as a step relation over any number of threads, one step per
    critical section, atomic access or look at the caller's clock; the invariant of the reachable systems;
    an abstract stream (frames in order, stage, cause) and the proof that every step refines it. It
    interprets \<open>staged_machine\<close> too. Atomic accesses are sequentially consistent here; the installation of a
    frame and the \<open>fetch_sub\<close> of its drops are one step, since both happen under the mutex and nothing reads
    the current frame without it.

  \<^item> \<open>Ordering\<close>: \<open>std::cmp::Ordering\<close> and the stable \<open>sort_by\<close>, with the interfaces \<open>comparison\<close> and
    \<open>total_comparison\<close>.
  \<^item> \<open>VisionModel\<close>: \<open>vision/src/fault.rs\<close>, \<open>template.rs\<close>, \<open>prepared.rs\<close>, \<open>request.rs\<close>, \<open>backend.rs\<close>,
    \<open>result.rs\<close>; the canonical order of matches interprets \<open>total_comparison\<close>.
  \<^item> \<open>Matching\<close>: \<open>vision/src/matcher.rs\<close> over an environment of the backend and the frame's storage.
  \<^item> \<open>ChangeDetection\<close>: \<open>vision/src/change.rs\<close>.
  \<^item> \<open>PeakSelection\<close>: \<open>crates/backend/opencv/src/candidates.rs\<close>, the selection of the best offsets of a correlation
    map, with its looks at the caller's context; \<open>PeakGreedy\<close>: it returns what the plain greedy search returns;
    \<open>PeakMatching\<close>: the end of \<open>OpenCvBackend::find\<close>, and that its budget loses no match.
  \<^item> \<open>ImageReuse\<close>: two stores of pixels kept for another search of the same frame: \<open>crates/backend/opencv/src/prepared_images.rs\<close>
    and \<open>MappingCache\<close> of \<open>runtime/src/watch.rs\<close>; the second interprets \<open>invariant_machine\<close>.
  \<^item> \<open>OnnxVocabulary\<close>: \<open>crates/backend/onnx/src/fault.rs\<close>, \<open>vocabulary.rs\<close>: the recogniser's vocabulary is the lines of
    its file; \<open>CtcDecode\<close>: \<open>crates/backend/onnx/src/decode.rs\<close>, proved to be the greedy CTC decoder over those lines. SHA-256
    is a parameter; the tensor the decoder reads is an argument, as ONNX Runtime returns it.

  \<^item> \<open>WatchQuery\<close>: one template watch query of \<open>runtime/src/watch.rs\<close>: its policies, outcomes and counters,
    every operation of \<open>QueryShared\<close> as a function of the state a lock section sees, and the effect of each
    on the query's invariant and books.
  \<^item> \<open>WatchSystem\<close>: those sections as steps of any number of threads, in the order \<open>WatchScheduler::process\<close>
    and \<open>run_analysis\<close> make them; what other locks protect is an arbitrary view in each step.
  \<^item> \<open>WatchSafety\<close>, \<open>WatchProperties\<close>: the invariant of the reachable systems, by a division of the steps into
    quiet and loud ones, and the properties; a finished query interprets \<open>latching_machine\<close>.

  \<^item> \<open>WatchCapacity\<close>: the seats of all queries and sessions of a scheduler as steps of any number of threads. It
    interprets \<open>invariant_machine\<close>, as the gate, the stream and the watch query do.

  \<^bold>\<open>Bounds and fuel.\<close> Machine integers are \<open>nat\<close> or \<open>int\<close> with their checks written out. The only fuelled
  loop is the delay wait: it polls at least every two milliseconds for at most five seconds, and
  \<open>delay_fuel\<close> is proved to be enough on every clock that sleeping advances. Panics of the code are \<open>None\<close>
  and proved unreachable.

  \<^bold>\<open>Not modelled.\<close> Display and Debug implementations and accessors. The sign of a floating-point zero: it
  decides nothing but the order of two matches that both score zero, and the theorem about the
  backend's budget asks for a positive score. Win32, Direct3D, ScreenCaptureKit, OpenCV and ONNX Runtime calls: they are
  parameters where modelled code relies on them. Of \<open>crates/automation\<close>: target discovery, pacing and the
  session traits of \<open>capture\<close>; the asset crate, which reads packages from the file system; the text crate \<open>ocr\<close>, whose
  normalisation rests on Unicode tables of another package; of \<open>runtime\<close> the engine, the session facade, single searches,
  text watches, diagnostics, and the worker threads, wake-ups and work choice of \<open>watch.rs\<close>. Of \<open>crates/backend/onnx\<close>:
  model loading, sessions, image preparation and detection. The C bindings, the replay adapter, the facade crate and the
  test kit.
\<close>

end
